(* ===== verification/Prelude.thy ===== *)
theory Prelude
  imports Main "HOL-Library.Word"
begin

text \<open>
  Shared vocabulary of the development: the machine types of the program, the error
  values that stand for its aborts and undefined accesses, the result type threaded
  through every fallible operation, and the generic facts the components share.
\<close>

unbundle bit_operations_syntax

section \<open>Machine types\<close>

type_synonym u8 = "8 word"
type_synonym u32 = "32 word"
type_synonym u64 = "64 word"
type_synonym u128 = "128 word"

text \<open>A pointer is its 64 bit address; the null pointer is address 0.\<close>

type_synonym addr = "64 word"

text \<open>Bytes are characters, byte strings are character lists.\<close>

type_synonym bytes = "char list"

named_theorems res_simps \<open>unfolding of the result type\<close>
named_theorems ptr_simps \<open>pointers and tagged pointers\<close>
named_theorems heap_simps \<open>chains of chunks and entries in memory\<close>
named_theorems table_simps \<open>the open hash table\<close>

section \<open>Errors and results\<close>

text \<open>
  Everything that ends an operation other than by returning: a null or dangling access
  (undefined behaviour, a crash in practice), a failed \<open>assert\<close> (the build does not
  define \<open>NDEBUG\<close>), an exception, a loop that never returns, a division by zero, a vector
  that is too long, and a write outside the array of a buffer, which has an error of its own so that
  its absence can be stated.
\<close>

datatype error =
    NullDeref
  | BadPtr
  | AssertFailed
  | NotANumber
  | BufferError
  | Diverges
  | DivByZero
  | LengthError
  | Overrun

type_synonym 'a res = "error + 'a"

definition rbind :: "'a res \<Rightarrow> ('a \<Rightarrow> 'b res) \<Rightarrow> 'b res" where
  "rbind m f = (case m of Inl e \<Rightarrow> Inl e | Inr x \<Rightarrow> f x)"

definition require :: "bool \<Rightarrow> error \<Rightarrow> unit res" where
  "require b e = (if b then Inr () else Inl e)"

text \<open>A loop is a partial function; one that does not return is the error \<open>Diverges\<close>.\<close>

definition outcome :: "'a res option \<Rightarrow> 'a res" where
  "outcome r = (case r of None \<Rightarrow> Inl Diverges | Some x \<Rightarrow> x)"

lemma rbind_simps [simp, res_simps]:
  "rbind (Inl e) f = Inl e"
  "rbind (Inr x) f = f x"
  by (simp_all add: rbind_def)

lemma rbind_Inr_iff [res_simps]:
  "rbind m f = Inr y \<longleftrightarrow> (\<exists>x. m = Inr x \<and> f x = Inr y)"
  by (cases m) (simp_all)

lemma require_simps [simp, res_simps]:
  "require True e = Inr ()"
  "require False e = Inl e"
  by (simp_all add: require_def)

lemma outcome_simps [simp, res_simps]:
  "outcome None = Inl Diverges"
  "outcome (Some x) = x"
  by (simp_all add: outcome_def)

section \<open>Lists, options and words\<close>

lemma option_eqI: "(\<And>i. x = Some i \<longleftrightarrow> y = Some i) \<Longrightarrow> x = y"
  by (cases x; cases y) auto

lemma count_list_update:
  "i < length xs \<Longrightarrow>
   length (filter P (xs[i := x])) + of_bool (P (xs ! i)) = length (filter P xs) + of_bool (P x)"
proof (induction xs arbitrary: i)
  case (Cons y ys)
  then show ?case by (cases i) auto
qed simp

lemma distinct_somes:
  "(\<And>i j k. i < length xs \<Longrightarrow> j < length xs \<Longrightarrow> xs ! i = Some k \<Longrightarrow> xs ! j = Some k \<Longrightarrow> i = j)
   \<Longrightarrow> distinct (map the (filter (\<lambda>k. k \<noteq> None) xs))"
proof (induction xs)
  case (Cons x xs)
  have "distinct (map the (filter (\<lambda>k. k \<noteq> None) xs))"
    by (rule Cons.IH) (use Cons.prems [of "Suc _" "Suc _"] in force)
  moreover have "x = Some y \<Longrightarrow> Some y \<notin> set xs" for y
    using Cons.prems [of 0 "Suc _"] by (fastforce simp: in_set_conv_nth)
  ultimately show ?case by (auto simp: image_iff)
qed simp

lemma unat_exp2_u64: "n < 64 \<Longrightarrow> unat (2 ^ n :: u64) = 2 ^ n"
proof -
  assume "n < 64"
  then have "unat (of_nat (2 ^ n) :: u64) = 2 ^ n"
    unfolding unsigned_of_nat by (simp add: take_bit_nat_eq_self)
  then show ?thesis by simp
qed

section \<open>Sequences of operations against a specification\<close>

text \<open>
  A component is a step function from a state and an operation to a reply and a new state.
  Its specification relates abstract states, with the reply: it may leave a choice open,
  such as whether a full table refuses a key. The locale lifts a proof for single operations
  to every sequence of them.
\<close>

fun run_ops :: "('s \<Rightarrow> 'op \<Rightarrow> 'r \<times> 's) \<Rightarrow> 's \<Rightarrow> 'op list \<Rightarrow> 'r list \<times> 's" where
  "run_ops step s [] = ([], s)"
| "run_ops step s (op # ops) =
     (case step s op of (r, s') \<Rightarrow> (case run_ops step s' ops of (rs, s'') \<Rightarrow> (r # rs, s'')))"

fun spec_run :: "('a \<Rightarrow> 'op \<Rightarrow> 'r \<Rightarrow> 'a \<Rightarrow> bool) \<Rightarrow> 'a \<Rightarrow> 'op list \<Rightarrow> 'r list \<Rightarrow> 'a \<Rightarrow> bool" where
  "spec_run spec a [] rs a' \<longleftrightarrow> rs = [] \<and> a' = a"
| "spec_run spec a (op # ops) rs a' \<longleftrightarrow>
     (\<exists>r rs' a1. rs = r # rs' \<and> spec a op r a1 \<and> spec_run spec a1 ops rs' a')"

lemma spec_run_map:
  assumes "\<And>a op r a'. S a op r a' \<Longrightarrow> T (f a) op r (f a')"
  shows "spec_run S a ops rs a' \<Longrightarrow> spec_run T (f a) ops rs (f a')"
  by (induction ops arbitrary: a rs) (use assms in \<open>fastforce+\<close>)

text \<open>A specification that determines replies and states is run like the operations themselves.\<close>

lemma spec_run_fun: "spec_run (\<lambda>a op r a'. f a op = (r, a')) a ops rs a' \<longleftrightarrow> run_ops f a ops = (rs, a')"
  by (induction ops arbitrary: a rs) (auto split: prod.splits)

locale simulation =
  fixes step :: "'s \<Rightarrow> 'op \<Rightarrow> 'r \<times> 's"
    and inv :: "'s \<Rightarrow> bool"
    and abs :: "'s \<Rightarrow> 'a"
    and legal :: "'op \<Rightarrow> bool"
    and spec :: "'a \<Rightarrow> 'op \<Rightarrow> 'r \<Rightarrow> 'a \<Rightarrow> bool"
  assumes step_inv: "inv s \<Longrightarrow> legal op \<Longrightarrow> step s op = (r, s') \<Longrightarrow> inv s'"
    and step_spec: "inv s \<Longrightarrow> legal op \<Longrightarrow> step s op = (r, s') \<Longrightarrow> spec (abs s) op r (abs s')"
begin

lemma run_simulates:
  assumes "inv s" "list_all legal ops" "run_ops step s ops = (rs, s')"
  shows "inv s' \<and> spec_run spec (abs s) ops rs (abs s')"
  using assms
proof (induction ops arbitrary: s rs s')
  case Nil
  then show ?case by simp
next
  case (Cons op ops)
  obtain r s1 where st: "step s op = (r, s1)" by (cases "step s op")
  obtain rs' s2 where rest: "run_ops step s1 ops = (rs', s2)" by (cases "run_ops step s1 ops")
  have "inv s1" "spec (abs s) op r (abs s1)"
    using step_inv [OF _ _ st] step_spec [OF _ _ st] Cons.prems by auto
  moreover have "inv s2 \<and> spec_run spec (abs s1) ops rs' (abs s2)"
    using Cons.IH [OF \<open>inv s1\<close> _ rest] Cons.prems by simp
  ultimately show ?case using Cons.prems st rest by auto
qed

end

text \<open>
  The same for operations that may fail, whose legality depends on the state they start from (an
  address is fresh, a buffer is not shared), with a relation in place of the abstraction function:
  no sequence of legal operations fails, and it stays within the specification.
\<close>

fun run_res :: "('s \<Rightarrow> 'op \<Rightarrow> ('r \<times> 's) res) \<Rightarrow> 's \<Rightarrow> 'op list \<Rightarrow> ('r list \<times> 's) res" where
  "run_res exec s [] = Inr ([], s)"
| "run_res exec s (op # ops) =
     rbind (exec s op) (\<lambda>(r, s). rbind (run_res exec s ops) (\<lambda>(rs, s). Inr (r # rs, s)))"

fun legal_run :: "('s \<Rightarrow> 'op \<Rightarrow> ('r \<times> 's) res) \<Rightarrow> ('s \<Rightarrow> 'op \<Rightarrow> bool) \<Rightarrow> 's \<Rightarrow> 'op list \<Rightarrow> bool" where
  "legal_run exec legal s [] \<longleftrightarrow> True"
| "legal_run exec legal s (op # ops) \<longleftrightarrow>
     legal s op \<and> (case exec s op of Inl e \<Rightarrow> True | Inr (r, s') \<Rightarrow> legal_run exec legal s' ops)"

locale res_simulation =
  fixes exec :: "'s \<Rightarrow> 'op \<Rightarrow> ('r \<times> 's) res"
    and rel :: "'s \<Rightarrow> 'a \<Rightarrow> bool"
    and legal :: "'s \<Rightarrow> 'op \<Rightarrow> bool"
    and spec :: "'a \<Rightarrow> 'op \<Rightarrow> 'r \<Rightarrow> 'a \<Rightarrow> bool"
  assumes step: "rel s a \<Longrightarrow> legal s op \<Longrightarrow> \<exists>r s' a'. exec s op = Inr (r, s') \<and> spec a op r a' \<and> rel s' a'"
begin

lemma run_refines:
  assumes "rel s a" "legal_run exec legal s ops"
  shows "\<exists>rs s' a'. run_res exec s ops = Inr (rs, s') \<and> spec_run spec a ops rs a' \<and> rel s' a'"
  using assms
proof (induction ops arbitrary: s a)
  case (Cons op ops)
  then obtain r s1 a1 where s1: "exec s op = Inr (r, s1)" "spec a op r a1" "rel s1 a1"
    using step [of s a op] by auto
  then obtain rs s' a' where "run_res exec s1 ops = Inr (rs, s')" "spec_run spec a1 ops rs a'" "rel s' a'"
    using Cons.IH [of s1 a1] Cons.prems by auto
  then show ?case using s1 by auto
qed simp

end

end
