(* ===== verification/Flagged_Ptr.thy ===== *)
theory Flagged_Ptr
  imports Prelude
begin

text \<open>
  The tagged pointers of \<open>src/flagged_ptr.h\<close>: a 64 bit word whose low bits, free because
  the pointed-to type is aligned, carry flags. The table keeps its "shared" bit there, the
  version chains of entries their "deleted" bit. Equality compares the whole word, flags
  included, which the two clients rely on; the locale \<open>tagged_pointer\<close> states what they use.
\<close>

section \<open>The class flagged_ptr\<close>

text \<open>
  \<open>alignof(T)\<close> of the only instantiation, \<open>T = entry\<close>: the member \<open>data\<close> is declared
  \<open>aligned(sizeof(struct mem_pair))\<close>, two pointers wide.
\<close>

definition entry_align :: u64 where
  "entry_align = 16"

definition flag_mask :: u64 where
  "flag_mask = entry_align - 1"

definition ptr_mask :: u64 where
  "ptr_mask = NOT flag_mask"

definition fp_null :: u64 where
  "fp_null = 0"

definition fp_ptr :: "addr \<Rightarrow> u64" where
  "fp_ptr p = p"

definition fp_flagged :: "addr \<Rightarrow> u64 \<Rightarrow> u64 res" where
  "fp_flagged p flags =
     (if flags = flags AND flag_mask then Inr (p OR flags) else Inl AssertFailed)"

definition get_flags :: "u64 \<Rightarrow> u64" where
  "get_flags d = d AND flag_mask"

definition get_flag :: "u64 \<Rightarrow> u64 \<Rightarrow> bool" where
  "get_flag d flag \<longleftrightarrow> d AND flag \<noteq> 0"

definition get_ptr :: "u64 \<Rightarrow> addr" where
  "get_ptr d = d AND ptr_mask"

text \<open>A pointer to an entry is aligned when its flag bits are clear.\<close>

definition aligned :: "addr \<Rightarrow> bool" where
  "aligned p \<longleftrightarrow> p AND flag_mask = 0"

section \<open>Facts about the bits\<close>

lemma flag_mask_15: "flag_mask = 15"
  by (simp add: flag_mask_def entry_align_def)

lemma aligned_0 [simp]: "aligned 0"
  by (simp add: aligned_def)

lemma get_ptr_0 [simp]: "get_ptr 0 = 0"
  by (simp add: get_ptr_def)

lemma get_flag_0 [simp]: "\<not> get_flag 0 f"
  by (simp add: get_flag_def)

lemma get_ptr_or:
  assumes "aligned p" "f = f AND flag_mask"
  shows "get_ptr (p OR f) = p" and "get_flags (p OR f) = f"
proof -
  have p: "p AND flag_mask = 0" using assms(1) by (simp add: aligned_def)
  have bits: "\<not> (bit p n \<and> bit flag_mask n)" for n
    using p by (metis bit_and_iff bit_0_eq bot_apply bot_bool_def)
  have fb: "bit f n \<Longrightarrow> bit flag_mask n" for n
    using assms(2) by (metis bit_and_iff)
  show "get_ptr (p OR f) = p"
    unfolding get_ptr_def ptr_mask_def
    by (rule bit_word_eqI) (use bits fb in \<open>auto simp: bit_simps\<close>)
  show "get_flags (p OR f) = f"
    unfolding get_flags_def
    by (rule bit_word_eqI) (use bits fb in \<open>auto simp: bit_simps\<close>)
qed

lemma get_ptr_aligned [simp, ptr_simps]: "aligned p \<Longrightarrow> get_ptr p = p"
  using get_ptr_or(1) [of p 0] by simp

lemma aligned_get_ptr [simp]: "aligned (get_ptr d)"
  by (simp add: aligned_def get_ptr_def ptr_mask_def and.assoc)

lemma get_ptr_get_ptr [simp]: "get_ptr (get_ptr d) = get_ptr d"
  by simp

lemma get_flag_aligned [simp, ptr_simps]: "aligned p \<Longrightarrow> \<not> get_flag p 1"
proof -
  assume a: "aligned p"
  have "p AND 1 = (p AND flag_mask) AND 1"
    by (simp add: flag_mask_15 and.assoc)
  then show ?thesis using a by (simp add: aligned_def get_flag_def)
qed

text \<open>
  Both clients use the single flag bit 1 (\<open>shared_flag\<close> in \<open>table.h\<close>, \<open>del_flag\<close> in
  \<open>history.h\<close>), for which the constructor's assertion always holds.
\<close>

definition tagged :: "addr \<Rightarrow> bool \<Rightarrow> u64" where
  "tagged p b = (if b then p OR 1 else p)"

lemma fp_flagged_1 [simp, ptr_simps]: "fp_flagged p 1 = Inr (tagged p True)"
  by (simp add: fp_flagged_def tagged_def flag_mask_15)

lemma fp_flagged_0 [simp, ptr_simps]: "fp_flagged p 0 = Inr (tagged p False)"
  by (simp add: fp_flagged_def tagged_def)

lemma fp_ptr_tagged [ptr_simps]: "fp_ptr p = tagged p False"
  by (simp add: fp_ptr_def tagged_def)

lemma fp_null_tagged [ptr_simps]: "fp_null = tagged 0 False"
  by (simp add: fp_null_def tagged_def)

lemma get_ptr_tagged [simp, ptr_simps]: "aligned p \<Longrightarrow> get_ptr (tagged p b) = p"
  using get_ptr_or(1) [of p 1] by (simp add: tagged_def flag_mask_15)

lemma get_flag_tagged [simp, ptr_simps]: "aligned p \<Longrightarrow> get_flag (tagged p b) 1 = b"
proof -
  have "(p OR 1) AND 1 = (1 :: u64)"
    by (rule bit_word_eqI) (auto simp: bit_simps)
  then show "aligned p \<Longrightarrow> ?thesis"
    by (simp add: tagged_def get_flag_def get_flag_aligned [unfolded get_flag_def, simplified])
qed

section \<open>What the clients rely on\<close>

text \<open>
  A pointer and a flag packed in one word: both can be read back, for every pointer the
  packing accepts. The consequence that matters is the last one: a flagged null pointer is
  \<^emph>\<open>not\<close> equal to the null word, although its pointer part is null.
\<close>

locale tagged_pointer =
  fixes mk :: "'p \<Rightarrow> bool \<Rightarrow> 'w"
    and ptr :: "'w \<Rightarrow> 'p"
    and flag :: "'w \<Rightarrow> bool"
    and ok :: "'p \<Rightarrow> bool"
    and null :: 'p
  assumes ptr_mk: "ok p \<Longrightarrow> ptr (mk p b) = p"
    and flag_mk: "ok p \<Longrightarrow> flag (mk p b) = b"
    and ok_null: "ok null"
begin

lemma mk_eq_iff:
  assumes "ok p" "ok q"
  shows "mk p b = mk q c \<longleftrightarrow> p = q \<and> b = c"
proof
  assume eq: "mk p b = mk q c"
  have "p = ptr (mk p b)" by (rule ptr_mk [OF assms(1), symmetric])
  also have "\<dots> = q" unfolding eq by (rule ptr_mk [OF assms(2)])
  finally have pq: "p = q" .
  have "b = flag (mk p b)" by (rule flag_mk [OF assms(1), symmetric])
  also have "\<dots> = c" unfolding eq by (rule flag_mk [OF assms(2)])
  finally show "p = q \<and> b = c" using pq by simp
qed simp

lemma mk_null_iff: "ok p \<Longrightarrow> mk p b = mk null False \<longleftrightarrow> p = null \<and> \<not> b"
  by (simp add: mk_eq_iff ok_null)

lemma flagged_null_is_not_null: "mk null True \<noteq> mk null False \<and> ptr (mk null True) = null"
  by (simp add: mk_null_iff ok_null ptr_mk)

end

interpretation fp: tagged_pointer tagged get_ptr "\<lambda>w. get_flag w 1" aligned 0
  by unfold_locales simp_all

lemmas tagged_eq_iff [ptr_simps] = fp.mk_eq_iff

lemma tagged_0_iff [simp, ptr_simps]: "aligned p \<Longrightarrow> tagged p b = 0 \<longleftrightarrow> p = 0 \<and> \<not> b"
  using fp.mk_null_iff [of p b] by (simp add: tagged_def)

section \<open>Properties\<close>

text \<open>
  C19: Packing a pointer with flags into one word loses nothing: for an aligned pointer
  and flags that pass the constructor's assertion, the pointer and the flags are both read
  back, and the word compares equal to \<open>nullptr\<close> exactly when the pointer is null and no
  flag is set. In particular a null pointer that carries a flag is not \<open>nullptr\<close>.
\<close>

theorem flagged_ptr_roundtrip:
  assumes "aligned p" and "fp_flagged p flags = Inr d"
  shows "get_ptr d = p \<and> get_flags d = flags \<and> (d = fp_null \<longleftrightarrow> p = 0 \<and> flags = 0)"
proof -
  from assms(2) have f: "flags = flags AND flag_mask" and d: "d = p OR flags"
    by (auto simp: fp_flagged_def split: if_splits)
  have rt: "get_ptr d = p" "get_flags d = flags"
    using get_ptr_or [OF assms(1) f] d by simp_all
  have "d = fp_null \<longleftrightarrow> p = 0 \<and> flags = 0"
  proof
    assume "d = fp_null"
    then show "p = 0 \<and> flags = 0"
      using rt by (simp add: fp_null_def get_flags_def)
  qed (simp add: d fp_null_def)
  with rt show ?thesis by simp
qed

theorem flagged_ptr_roundtrip_witness:
  "get_ptr 0x7f0011 = 0x7f0010 \<and> get_flags 0x7f0011 = 1 \<and> (0x7f0011 = fp_null \<longleftrightarrow> False)"
proof -
  have a: "aligned 0x7f0010" by (simp add: aligned_def flag_mask_15)
  have f: "fp_flagged 0x7f0010 1 = Inr 0x7f0011" by (simp add: tagged_def)
  from flagged_ptr_roundtrip [OF a f] show ?thesis by simp
qed

end
