(* ===== verification/Probing.thy ===== *)
theory Probing
  imports Prelude
begin

text \<open>
  Open addressing in the abstract: an array of optional keys, and for every key a sequence
  of slots to try. A key lives in the first slot of its sequence that was free when it
  arrived, and keys are never taken out. The locale \<open>open_addressing\<close> states what a table
  needs from its probing sequence, and proves once that lookups find what insertions placed.
\<close>

section \<open>Slots\<close>

fun slot :: "'k option list \<Rightarrow> nat list \<Rightarrow> 'k \<Rightarrow> nat option" where
  "slot ks [] k = None"
| "slot ks (i # is) k = (if ks ! i = None \<or> ks ! i = Some k then Some i else slot ks is k)"

definition placed :: "('k \<Rightarrow> nat list) \<Rightarrow> 'k option list \<Rightarrow> bool" where
  "placed probes ks \<longleftrightarrow>
     (\<forall>i k. i < length ks \<longrightarrow> ks ! i = Some k \<longrightarrow> slot ks (probes k) k = Some i)"

text \<open>The slots after \<open>k\<close> has claimed its own, none when every slot of its sequence is taken by another key.\<close>

definition claim :: "'k option list \<Rightarrow> nat list \<Rightarrow> 'k \<Rightarrow> 'k option list option" where
  "claim ks is k = map_option (\<lambda>i. ks[i := Some k]) (slot ks is k)"

definition occupied :: "'k option list \<Rightarrow> nat" where
  "occupied ks = length (filter (\<lambda>k. k \<noteq> None) ks)"

lemma slot_SomeD:
  "slot ks is k = Some i \<Longrightarrow> i \<in> set is \<and> (ks ! i = None \<or> ks ! i = Some k)"
  by (induction "is") (auto split: if_splits)

lemma slot_NoneD:
  "slot ks is k = None \<Longrightarrow> i \<in> set is \<Longrightarrow> \<exists>k'. ks ! i = Some k' \<and> k' \<noteq> k"
  by (induction "is") (auto split: if_splits)

lemma claim_None: "claim ks is k = None \<longleftrightarrow> slot ks is k = None"
  by (simp add: claim_def)

lemma claim_kept: "claim ks is k = Some ks' \<Longrightarrow> ks ! j \<noteq> None \<Longrightarrow> ks' ! j \<noteq> None"
  by (cases "j = the (slot ks is k)"; cases "j < length ks") (auto simp: claim_def list_update_beyond)

lemma slot_fill:
  assumes "i < length ks" "ks ! i = None"
  shows "slot ks is k' = Some j \<Longrightarrow> j \<noteq> i \<Longrightarrow> slot (ks[i := Some k]) is k' = Some j"
    and "slot ks is k = Some i \<Longrightarrow> slot (ks[i := Some k]) is k = Some i"
  using assms by (induction "is") (auto simp: nth_list_update split: if_splits)

lemma slot_fill_absent:
  assumes "i < length ks" "ks ! i = None" "k \<noteq> k'"
  shows "slot (ks[i := Some k]) is k' = Some j \<Longrightarrow> (ks[i := Some k]) ! j = Some k' \<longleftrightarrow> ks ! j = Some k'"
  using assms by (cases "i = j") auto

section \<open>The contract of a probing sequence\<close>

text \<open>
  \<open>probes t k\<close> lists the slots a table \<open>t\<close> tries for the key \<open>k\<close>, \<open>cap t\<close> is the length of its
  array and \<open>wf t\<close> says that \<open>t\<close> is well formed.
\<close>

locale open_addressing =
  fixes probes :: "'t \<Rightarrow> 'k \<Rightarrow> nat list" and cap :: "'t \<Rightarrow> nat" and wf :: "'t \<Rightarrow> bool"
  assumes probes_range: "wf t \<Longrightarrow> i \<in> set (probes t k) \<Longrightarrow> i < cap t"
begin

lemma slot_range: "wf t \<Longrightarrow> slot ks (probes t k) k = Some i \<Longrightarrow> i < cap t"
  by (auto dest: slot_SomeD probes_range)

lemma placed_unique:
  assumes "placed (probes t) ks" "i < length ks" "j < length ks" "ks ! i = Some k" "ks ! j = Some k"
  shows "i = j"
proof -
  have "slot ks (probes t k) k = Some i" using assms(1,2,4) unfolding placed_def by blast
  moreover have "slot ks (probes t k) k = Some j" using assms(1,3,5) unfolding placed_def by blast
  ultimately show ?thesis by simp
qed

lemma placed_slot_iff:
  assumes "wf t" "placed (probes t) ks" "length ks = cap t"
  shows "slot ks (probes t k) k = Some i \<and> ks ! i = Some k \<longleftrightarrow> i < cap t \<and> ks ! i = Some k"
  using assms by (auto simp: placed_def dest: slot_range)

lemma placed_absent:
  assumes "placed (probes t) ks" "length ks = cap t" "slot ks (probes t k) k = Some i" "ks ! i = None"
  shows "\<forall>j < cap t. ks ! j \<noteq> Some k"
  using assms by (auto simp: placed_def)

lemma placed_full_absent:
  assumes "placed (probes t) ks" "length ks = cap t" "slot ks (probes t k) k = None"
  shows "\<forall>j < cap t. ks ! j \<noteq> Some k"
  using assms by (auto simp: placed_def)

lemma placed_insert:
  assumes wf: "wf t" and pl: "placed (probes t) ks" and len: "length ks = cap t"
    and sl: "slot ks (probes t k) k = Some i" and free: "ks ! i = None"
  shows "placed (probes t) (ks[i := Some k])"
  unfolding placed_def
proof (intro allI impI)
  fix j k'
  assume j: "j < length (ks[i := Some k])" and kj: "ks[i := Some k] ! j = Some k'"
  have i: "i < length ks" using slot_range [OF wf sl] len by simp
  show "slot (ks[i := Some k]) (probes t k') k' = Some j"
  proof (cases "j = i")
    case True
    then have "k' = k" using kj i by simp
    then show ?thesis using slot_fill(2) [OF i free sl] True by simp
  next
    case False
    then have "ks ! j = Some k'" using kj by simp
    then have "slot ks (probes t k') k' = Some j" using pl j by (simp add: placed_def)
    then show ?thesis using slot_fill(1) [OF i free] False by simp
  qed
qed

end

lemma occupied_fill:
  "i < length ks \<Longrightarrow> ks ! i = None \<Longrightarrow> occupied (ks[i := Some k]) = Suc (occupied ks)"
  by (induction ks arbitrary: i) (auto simp: occupied_def nth_Cons split: nat.splits)

lemma occupied_le: "occupied ks \<le> length ks"
  by (simp add: occupied_def)

end
