(* ===== verification/Table.thy ===== *)
theory Table
  imports Flagged_Ptr Probing
begin

text \<open>
  The open hash table of \<open>src/table.h\<close>: an array of buckets, each a key pointer and a
  tagged value pointer, probed along a sequence derived from successive hashes of the key.
  Keys are never removed from a table, values are.

  A key object is immutable, so a key pointer is modelled as its address paired with the
  bytes it points to; a value pointer is a word that the table never follows. Each operation
  is one atomic step: a compare-and-swap loop runs until its swap succeeds. The calls of
  \<open>val_release\<close> and \<open>key_release\<close>, always the last effect of an operation, are returned as
  the lists of pointers to release.
\<close>

section \<open>The class opentable\<close>

type_synonym 'k keyref = "addr \<times> 'k"

record 'k bucket_t =
  bkt_k :: "'k keyref option"
  bkt_v :: u64

record 'k opentable =
  lg2size :: nat
  t_eq :: "'k \<Rightarrow> 'k \<Rightarrow> bool"
  t_hash :: "'k \<Rightarrow> int \<Rightarrow> u128"
  value_count :: u64
  usage_count :: u64
  table :: "'k bucket_t list"

definition empty_bucket :: "'k bucket_t" where
  "empty_bucket = \<lparr>bkt_k = None, bkt_v = fp_null\<rparr>"

definition tsize :: "'k opentable \<Rightarrow> u64" where
  "tsize t = push_bit (lg2size t) 1"

definition tmask :: "'k opentable \<Rightarrow> u64" where
  "tmask t = tsize t - 1"

definition opentable_new :: "nat \<Rightarrow> ('k \<Rightarrow> 'k \<Rightarrow> bool) \<Rightarrow> ('k \<Rightarrow> int \<Rightarrow> u128) \<Rightarrow> 'k opentable" where
  "opentable_new lg2 eq hash =
     \<lparr>lg2size = lg2, t_eq = eq, t_hash = hash, value_count = 0, usage_count = 0,
      table = replicate (unat (push_bit lg2 1 :: u64)) empty_bucket\<rparr>"

definition bucket :: "'k opentable \<Rightarrow> nat \<Rightarrow> 'k bucket_t" where
  "bucket t i = table t ! i"

definition upd_bucket :: "'k opentable \<Rightarrow> nat \<Rightarrow> 'k bucket_t \<Rightarrow> 'k opentable" where
  "upd_bucket t i b = t\<lparr>table := (table t)[i := b]\<rparr>"

text \<open>
  The probing loop. \<open>act\<close> is the action run on an empty or matching bucket, over the table
  and the variables \<open>r\<close> the lambda captures; it answers whether to stop. \<open>h\<close> is 128 bits wide
  and is consumed \<open>lg2size\<close> bits at a time, then the key is hashed again with the next seed.
\<close>

fun iterate_loop :: "nat \<Rightarrow> ('k opentable \<Rightarrow> 'r \<Rightarrow> nat \<Rightarrow> bool \<times> 'k opentable \<times> 'r) \<Rightarrow> 'k
    \<Rightarrow> int \<Rightarrow> u128 \<Rightarrow> int \<Rightarrow> u64 \<Rightarrow> 'k opentable \<Rightarrow> 'r \<Rightarrow> bool \<times> 'k opentable \<times> 'r" where
  "iterate_loop 0 act key seed h bits i t r = (False, t, r)"
| "iterate_loop (Suc n) act key seed h bits i t r =
    (let (seed, h, bits) = (if bits < int (lg2size t)
                            then (seed + 1, t_hash t key seed, 128)
                            else (seed, h, bits));
         i = ucast ((ucast i + h) AND (ucast (tmask t) :: u128));
         (stop, t, r) = (case bkt_k (bucket t (unat i)) of
                           None \<Rightarrow> act t r (unat i)
                         | Some cur \<Rightarrow> if t_eq t key (snd cur) then act t r (unat i) else (False, t, r))
     in if stop then (True, t, r)
        else iterate_loop n act key seed (drop_bit (lg2size t) h) (bits - int (lg2size t)) i t r)"

definition iterate_buckets :: "'k opentable \<Rightarrow> 'k
    \<Rightarrow> ('k opentable \<Rightarrow> 'r \<Rightarrow> nat \<Rightarrow> bool \<times> 'k opentable \<times> 'r) \<Rightarrow> 'r \<Rightarrow> bool \<times> 'k opentable \<times> 'r" where
  "iterate_buckets t key act r =
     iterate_loop (unat (tsize t)) act key 1 (t_hash t key 0) 128 0 t r"

definition find_bucket :: "'k opentable \<Rightarrow> 'k \<Rightarrow> nat option" where
  "find_bucket t key =
     snd (snd (iterate_buckets t key
       (\<lambda>t r i. case bkt_k (bucket t i) of
                  None \<Rightarrow> (True, t, r)
                | Some cur \<Rightarrow> if t_eq t (snd cur) key then (True, t, Some i) else (False, t, r))
       None))"

definition set_key :: "'k opentable \<Rightarrow> nat \<Rightarrow> 'k keyref \<Rightarrow> 'k keyref option \<times> 'k opentable" where
  "set_key t i key =
     (case bkt_k (bucket t i) of
        None \<Rightarrow> (Some key, upd_bucket (t\<lparr>usage_count := usage_count t + 1\<rparr>) i
                             ((bucket t i)\<lparr>bkt_k := Some key\<rparr>))
      | Some cur \<Rightarrow> if t_eq t (snd cur) (snd key) then (Some cur, t) else (None, t))"

definition allocate_bucket :: "'k opentable \<Rightarrow> 'k keyref \<Rightarrow> (nat \<times> 'k keyref) option \<times> 'k opentable" where
  "allocate_bucket t key =
     (case iterate_buckets t (snd key)
        (\<lambda>t r i. case set_key t i key of
                   (None, t') \<Rightarrow> (False, t', r)
                 | (Some k, t') \<Rightarrow> (True, t', Some (i, k)))
        None
      of (_, t', found) \<Rightarrow> (found, t'))"

section \<open>Values of a bucket\<close>

definition changed_value :: "'k opentable \<Rightarrow> u64 \<Rightarrow> 'k opentable \<times> addr list" where
  "changed_value t old =
     (if old = fp_null then (t\<lparr>value_count := value_count t + 1\<rparr>, [])
      else if \<not> get_flag old 1 then (t, [get_ptr old])
      else (t, []))"

definition set_value :: "'k opentable \<Rightarrow> nat \<Rightarrow> u64 \<Rightarrow> 'k opentable \<times> addr list" where
  "set_value t i v =
     (let previous = bkt_v (bucket t i);
          t' = upd_bucket t i ((bucket t i)\<lparr>bkt_v := v\<rparr>)
      in changed_value t' previous)"

definition replace_value :: "'k opentable \<Rightarrow> nat \<Rightarrow> u64 \<Rightarrow> bool \<times> 'k opentable \<times> addr list" where
  "replace_value t i v =
     (let previous = bkt_v (bucket t i)
      in if previous = fp_null then (False, t, [])
         else let t' = upd_bucket t i ((bucket t i)\<lparr>bkt_v := v\<rparr>)
              in (True, changed_value t' previous))"

definition add_value :: "'k opentable \<Rightarrow> nat \<Rightarrow> u64 \<Rightarrow> bool \<times> addr \<times> 'k opentable \<times> addr list" where
  "add_value t i v =
     (let previous = bkt_v (bucket t i)
      in if previous = fp_null
         then (True, get_ptr v, changed_value (upd_bucket t i ((bucket t i)\<lparr>bkt_v := v\<rparr>)) fp_null)
         else (False, get_ptr previous, t, []))"

definition remove_value :: "'k opentable \<Rightarrow> nat \<Rightarrow> bool \<times> 'k opentable \<times> addr list" where
  "remove_value t i =
     (let old = bkt_v (bucket t i);
          t' = upd_bucket t i ((bucket t i)\<lparr>bkt_v := fp_null\<rparr>)
      in if old = fp_null then (False, t', [])
         else (True, t'\<lparr>value_count := value_count t' - 1\<rparr>,
               if \<not> get_flag old 1 then [get_ptr old] else []))"

section \<open>Operations of the table\<close>

definition tfind :: "'k opentable \<Rightarrow> 'k \<Rightarrow> addr" where
  "tfind t key = (case find_bucket t key of None \<Rightarrow> 0 | Some i \<Rightarrow> get_ptr (bkt_v (bucket t i)))"

definition set_impl :: "'k opentable \<Rightarrow> 'k keyref \<Rightarrow> u64
    \<Rightarrow> 'k keyref option \<times> 'k opentable \<times> addr list" where
  "set_impl t key v =
     (case allocate_bucket t key of
        (None, t') \<Rightarrow> (None, t', [])
      | (Some (i, cur_key), t') \<Rightarrow> (Some cur_key, set_value t' i v))"

definition add_impl :: "'k opentable \<Rightarrow> 'k keyref \<Rightarrow> u64
    \<Rightarrow> bool \<times> 'k keyref option \<times> addr \<times> 'k opentable \<times> addr list" where
  "add_impl t key v =
     (case allocate_bucket t key of
        (None, t') \<Rightarrow> (False, None, 0, t', [])
      | (Some (i, cur_key), t') \<Rightarrow>
          (case add_value t' i v of (ok, cur_value, r) \<Rightarrow> (ok, Some cur_key, cur_value, r)))"

text \<open>The second argument of the shared variants carries the flag bit.\<close>

definition tset :: "'k opentable \<Rightarrow> 'k keyref \<Rightarrow> addr \<Rightarrow> 'k keyref option \<times> 'k opentable \<times> addr list" where
  "tset t key v = set_impl t key (fp_ptr v)"

definition set_shared :: "'k opentable \<Rightarrow> 'k keyref \<Rightarrow> addr
    \<Rightarrow> ('k keyref option \<times> 'k opentable \<times> addr list) res" where
  "set_shared t key v = rbind (fp_flagged v 1) (\<lambda>ref. Inr (set_impl t key ref))"

definition tadd :: "'k opentable \<Rightarrow> 'k keyref \<Rightarrow> addr
    \<Rightarrow> bool \<times> 'k keyref option \<times> addr \<times> 'k opentable \<times> addr list" where
  "tadd t key v = add_impl t key (fp_ptr v)"

definition add_shared :: "'k opentable \<Rightarrow> 'k keyref \<Rightarrow> addr
    \<Rightarrow> (bool \<times> 'k keyref option \<times> addr \<times> 'k opentable \<times> addr list) res" where
  "add_shared t key v = rbind (fp_flagged v 1) (\<lambda>ref. Inr (add_impl t key ref))"

definition treplace :: "'k opentable \<Rightarrow> 'k \<Rightarrow> addr \<Rightarrow> bool \<times> 'k opentable \<times> addr list" where
  "treplace t key v =
     (case find_bucket t key of None \<Rightarrow> (False, t, []) | Some i \<Rightarrow> replace_value t i (fp_ptr v))"

definition tremove :: "'k opentable \<Rightarrow> 'k \<Rightarrow> bool \<times> 'k opentable \<times> addr list" where
  "tremove t key =
     (case find_bucket t key of None \<Rightarrow> (False, t, []) | Some i \<Rightarrow> remove_value t i)"

text \<open>
  \<open>exclusive\<close> returns the keys and the values it releases. Where the key is absent it
  releases \<open>v\<close> even when \<open>v\<close> is null.
\<close>

definition exclusive :: "'k opentable \<Rightarrow> 'k keyref \<Rightarrow> addr
    \<Rightarrow> ('k opentable \<times> 'k keyref list \<times> addr list) res" where
  "exclusive t k v =
     (case find_bucket t (snd k) of
        None \<Rightarrow> Inr (t, [k], [v])
      | Some i \<Rightarrow>
          (let krel = (if map_option fst (bkt_k (bucket t i)) \<noteq> Some (fst k) then [k] else [])
           in if v = 0 then Inr (t, krel, [])
              else rbind (fp_flagged v 1) (\<lambda>expected.
                if bkt_v (bucket t i) = expected
                then Inr (upd_bucket t i ((bucket t i)\<lparr>bkt_v := fp_ptr v\<rparr>), krel, [])
                else Inr (t, krel, [v]))))"

section \<open>Iterators\<close>

text \<open>\<open>advance\<close> of both iterators: the next bucket at or after \<open>ref\<close> that holds a key.\<close>

function advance :: "'k opentable \<Rightarrow> nat \<Rightarrow> nat" where
  "advance t ref =
     (if ref < length (table t)
      then (if bkt_k (bucket t ref) \<noteq> None then ref else advance t (Suc ref))
      else ref)"
  by pat_completeness auto
termination
  by (relation "measure (\<lambda>(t, ref). length (table t) - ref)") auto

declare advance.simps [simp del]

definition reset_bucket :: "'k opentable \<Rightarrow> nat \<Rightarrow> 'k opentable" where
  "reset_bucket t i = upd_bucket t i empty_bucket"

text \<open>The loop \<open>for (i = cbegin(); i != cend(); ++i)\<close> over an unchanging table.\<close>

function citems_from :: "'k opentable \<Rightarrow> nat \<Rightarrow> ('k keyref \<times> addr) list" where
  "citems_from t ref =
     (let r = advance t ref in
      if r < length (table t)
      then (the (bkt_k (bucket t r)), get_ptr (bkt_v (bucket t r))) # citems_from t (Suc r)
      else [])"
  by pat_completeness auto

lemma advance_ge: "ref \<le> advance t ref"
proof (induction t ref rule: advance.induct)
  case (1 t ref)
  then show ?case by (subst advance.simps) (auto dest: Suc_leD)
qed

termination citems_from
  by (relation "measure (\<lambda>(t, ref). length (table t) - ref)")
     (auto intro!: diff_less_mono2 le_imp_less_Suc advance_ge elim: le_less_trans [OF advance_ge])

declare citems_from.simps [simp del]

section \<open>Invariant and abstraction\<close>

text \<open>
  The indices the probing loop visits for a key, the keys of the buckets, and the invariant:
  every key sits where its own probing sequence first finds it, a bucket without a key has no
  value, and the two counters count keys and values. \<open>lg2size < 31\<close> keeps the loop's \<open>int\<close>
  counter from overflowing.
\<close>

fun probe_loop :: "('k \<Rightarrow> int \<Rightarrow> u128) \<Rightarrow> nat \<Rightarrow> u64 \<Rightarrow> 'k \<Rightarrow> nat \<Rightarrow> int \<Rightarrow> u128 \<Rightarrow> int \<Rightarrow> u64 \<Rightarrow> nat list" where
  "probe_loop hash lg2 msk key 0 seed h bits i = []"
| "probe_loop hash lg2 msk key (Suc n) seed h bits i =
    (let (seed, h, bits) = (if bits < int lg2 then (seed + 1, hash key seed, 128) else (seed, h, bits));
         i = ucast ((ucast i + h) AND (ucast msk :: u128))
     in unat i # probe_loop hash lg2 msk key n seed (drop_bit lg2 h) (bits - int lg2) i)"

definition probes_of :: "'k opentable \<Rightarrow> 'k \<Rightarrow> nat list" where
  "probes_of t key =
     probe_loop (t_hash t) (lg2size t) (tmask t) key (unat (tsize t)) 1 (t_hash t key 0) 128 0"

definition tkeys :: "'k opentable \<Rightarrow> 'k option list" where
  "tkeys t = map (\<lambda>b. map_option snd (bkt_k b)) (table t)"

definition unshared :: "u64 \<Rightarrow> addr list" where
  "unshared w = (if w \<noteq> 0 \<and> \<not> get_flag w 1 then [get_ptr w] else [])"

definition valid_ref :: "u64 \<Rightarrow> bool" where
  "valid_ref w \<longleftrightarrow> (\<exists>p b. aligned p \<and> p \<noteq> 0 \<and> w = tagged p b)"

definition count_values :: "'k opentable \<Rightarrow> nat" where
  "count_values t = length (filter (\<lambda>b. bkt_v b \<noteq> 0) (table t))"

definition bucket_ok :: "'k bucket_t \<Rightarrow> bool" where
  "bucket_ok b \<longleftrightarrow> bkt_v b = 0 \<or> bkt_k b \<noteq> None \<and> valid_ref (bkt_v b)"

definition table_inv :: "'k opentable \<Rightarrow> bool" where
  "table_inv t \<longleftrightarrow>
     lg2size t < 31 \<and> length (table t) = 2 ^ lg2size t \<and>
     (\<forall>a b. t_eq t a b \<longleftrightarrow> a = b) \<and>
     placed (probes_of t) (tkeys t) \<and>
     (\<forall>b \<in> set (table t). bucket_ok b) \<and>
     usage_count t = of_nat (occupied (tkeys t)) \<and>
     value_count t = of_nat (count_values t)"

definition vref :: "'k opentable \<Rightarrow> 'k \<Rightarrow> u64" where
  "vref t key = (case find_bucket t key of None \<Rightarrow> 0 | Some i \<Rightarrow> bkt_v (bucket t i))"

definition has_key :: "'k opentable \<Rightarrow> 'k \<Rightarrow> bool" where
  "has_key t key \<longleftrightarrow> Some key \<in> set (tkeys t)"

text \<open>The key objects the buckets point to.\<close>

definition keyrefs :: "'k opentable \<Rightarrow> 'k keyref set" where
  "keyrefs t = {key. \<exists>i < length (table t). bkt_k (bucket t i) = Some key}"

text \<open>The two kinds of change: claiming an empty bucket, and writing a bucket's value.\<close>

definition fill :: "'k opentable \<Rightarrow> nat \<Rightarrow> 'k keyref \<Rightarrow> 'k opentable" where
  "fill t i key = upd_bucket (t\<lparr>usage_count := usage_count t + 1\<rparr>) i ((bucket t i)\<lparr>bkt_k := Some key\<rparr>)"

definition same_config :: "'k opentable \<Rightarrow> 'k opentable \<Rightarrow> bool" where
  "same_config t t' \<longleftrightarrow> lg2size t' = lg2size t \<and> t_hash t' = t_hash t \<and> t_eq t' = t_eq t"

definition put_ref :: "'k opentable \<Rightarrow> nat \<Rightarrow> u64 \<Rightarrow> 'k opentable" where
  "put_ref t i v = (upd_bucket t i ((bucket t i)\<lparr>bkt_v := v\<rparr>))
     \<lparr>value_count := value_count t + of_bool (v \<noteq> 0) - of_bool (bkt_v (bucket t i) \<noteq> 0)\<rparr>"

definition bucket_items :: "'k bucket_t list \<Rightarrow> ('k keyref \<times> addr) list" where
  "bucket_items bs = concat (map (\<lambda>b. case bkt_k b of None \<Rightarrow> [] | Some k \<Rightarrow> [(k, get_ptr (bkt_v b))]) bs)"

section \<open>The table as a map\<close>

text \<open>
  The operations a client issues and their replies. What they mean is stated on a view of the
  table without buckets, counters, key objects and reference bits: where each key is looked for,
  which key claimed which slot, and the map from keys to value pointers, in which 0 stands for
  "absent". A set or add first claims a slot for its key, and is refused exactly when there is
  none; a key keeps its slot, also when an add is rejected or the value removed. Every reply and
  every next view is determined.
\<close>

datatype 'k table_op =
    TFind 'k
  | TSet "'k keyref" addr
  | TAdd "'k keyref" addr
  | TReplace 'k addr
  | TRemove 'k

datatype table_reply = RPtr addr | RBool bool

fun texec :: "'k opentable \<Rightarrow> 'k table_op \<Rightarrow> table_reply \<times> 'k opentable" where
  "texec t (TFind k) = (RPtr (tfind t k), t)"
| "texec t (TSet key v) = (case tset t key v of (c, t', _) \<Rightarrow> (RBool (c \<noteq> None), t'))"
| "texec t (TAdd key v) = (case tadd t key v of (ok, _, _, t', _) \<Rightarrow> (RBool ok, t'))"
| "texec t (TReplace k v) = (case treplace t k v of (ok, t', _) \<Rightarrow> (RBool ok, t'))"
| "texec t (TRemove k) = (case tremove t k of (ok, t', _) \<Rightarrow> (RBool ok, t'))"

fun tlegal :: "'k table_op \<Rightarrow> bool" where
  "tlegal (TSet _ v) \<longleftrightarrow> aligned v \<and> v \<noteq> 0"
| "tlegal (TAdd _ v) \<longleftrightarrow> aligned v \<and> v \<noteq> 0"
| "tlegal (TReplace _ v) \<longleftrightarrow> aligned v \<and> v \<noteq> 0"
| "tlegal _ \<longleftrightarrow> True"

record 'k table_view =
  v_probes :: "'k \<Rightarrow> nat list"
  v_slots :: "'k option list"
  v_values :: "'k \<Rightarrow> addr"

definition tview :: "'k opentable \<Rightarrow> 'k table_view" where
  "tview t = \<lparr>v_probes = probes_of t, v_slots = tkeys t, v_values = tfind t\<rparr>"

definition v_claim :: "'k table_view \<Rightarrow> 'k \<Rightarrow> 'k table_view option" where
  "v_claim a k = map_option (\<lambda>ks. a\<lparr>v_slots := ks\<rparr>) (claim (v_slots a) (v_probes a k) k)"

definition v_bind :: "'k table_view \<Rightarrow> 'k \<Rightarrow> addr \<Rightarrow> 'k table_view" where
  "v_bind a k v = a\<lparr>v_values := (v_values a)(k := v)\<rparr>"

fun tspec :: "'k table_view \<Rightarrow> 'k table_op \<Rightarrow> table_reply \<times> 'k table_view" where
  "tspec a (TFind k) = (RPtr (v_values a k), a)"
| "tspec a (TSet key v) =
     (case v_claim a (snd key) of None \<Rightarrow> (RBool False, a) | Some a \<Rightarrow> (RBool True, v_bind a (snd key) v))"
| "tspec a (TAdd key v) =
     (case v_claim a (snd key) of
        None \<Rightarrow> (RBool False, a)
      | Some a \<Rightarrow> if v_values a (snd key) = 0 then (RBool True, v_bind a (snd key) v) else (RBool False, a))"
| "tspec a (TReplace k v) = (if v_values a k \<noteq> 0 then (RBool True, v_bind a k v) else (RBool False, a))"
| "tspec a (TRemove k) = (RBool (v_values a k \<noteq> 0), v_bind a k 0)"

section \<open>Lemmas\<close>

lemma unat_tsize: "lg2size t < 64 \<Longrightarrow> unat (tsize t) = 2 ^ lg2size t"
  by (simp add: tsize_def push_bit_of_1 unat_exp2_u64)

lemma tmask_mask: "tmask t = mask (lg2size t)"
  by (simp add: tmask_def tsize_def mask_eq_exp_minus_1 push_bit_of_1)

lemma probe_index_range:
  fixes x :: u128
  assumes "lg2size t < 64"
  shows "unat (ucast (x AND ucast (tmask t)) :: u64) < 2 ^ lg2size t"
proof -
  have "(ucast (x AND ucast (tmask t)) :: u64) = take_bit (lg2size t) (ucast x)"
    by (rule bit_word_eqI) (use assms in \<open>auto simp: bit_simps tmask_mask\<close>)
  also have "unat \<dots> < 2 ^ lg2size t"
    by (simp add: unsigned_take_bit_eq)
  finally show ?thesis .
qed

lemma probe_loop_range:
  "lg2size t < 64 \<Longrightarrow> j \<in> set (probe_loop hash lg2 (tmask t) key n seed h bits i) \<Longrightarrow> j < 2 ^ lg2size t"
  by (induction n arbitrary: seed h bits i)
     (auto simp: Let_def probe_index_range split: if_splits)

lemma iterate_loop_slot:
  assumes eq: "\<And>a b. t_eq t a b \<longleftrightarrow> a = b"
    and len: "length (table t) = 2 ^ lg2size t" "lg2size t < 64"
    and act: "\<And>j. j < 2 ^ lg2size t \<Longrightarrow> tkeys t ! j = None \<or> tkeys t ! j = Some key \<Longrightarrow> fst (act t r j)"
  shows "iterate_loop n act key seed h bits i t r =
    (case slot (tkeys t) (probe_loop (t_hash t) (lg2size t) (tmask t) key n seed h bits i) key of
       None \<Rightarrow> (False, t, r) | Some j \<Rightarrow> act t r j)"
proof (induction n arbitrary: seed h bits i)
  case 0
  show ?case by simp
next
  case (Suc n)
  define sb where "sb = (if bits < int (lg2size t) then (seed + 1, t_hash t key seed, 128) else (seed, h, bits))"
  obtain seed' h' bits' where sb': "sb = (seed', h', bits')" by (cases sb)
  define i' :: u64 where "i' = ucast ((ucast i + h') AND (ucast (tmask t) :: u128))"
  define rest where "rest = probe_loop (t_hash t) (lg2size t) (tmask t) key n seed' (drop_bit (lg2size t) h') (bits' - int (lg2size t)) i'"
  have pl: "probe_loop (t_hash t) (lg2size t) (tmask t) key (Suc n) seed h bits i = unat i' # rest"
    using sb' by (simp add: sb_def rest_def i'_def Let_def)
  have r: "unat i' < 2 ^ lg2size t"
    unfolding i'_def by (rule probe_index_range [OF len(2)])
  then have ki: "tkeys t ! unat i' = map_option snd (bkt_k (bucket t (unat i')))"
    using len by (simp add: tkeys_def bucket_def)
  have it: "iterate_loop (Suc n) act key seed h bits i t r =
    (case bkt_k (bucket t (unat i')) of
       None \<Rightarrow> act t r (unat i')
     | Some cur \<Rightarrow> if key = snd cur then act t r (unat i')
         else iterate_loop n act key seed' (drop_bit (lg2size t) h') (bits' - int (lg2size t)) i' t r)"
    using act [OF r] ki sb'
    by (cases "act t r (unat i')") (auto simp: sb_def [symmetric] i'_def [symmetric] eq Let_def split: option.splits)
  show ?case
    unfolding it pl using ki by (auto simp: Suc.IH rest_def [symmetric] split: option.splits)
qed

lemma iterate_buckets_slot:
  assumes eq: "\<And>a b. t_eq t a b \<longleftrightarrow> a = b"
    and len: "length (table t) = 2 ^ lg2size t" "lg2size t < 64"
    and act: "\<And>j. j < 2 ^ lg2size t \<Longrightarrow> tkeys t ! j = None \<or> tkeys t ! j = Some key \<Longrightarrow> fst (act t r j)"
  shows "iterate_buckets t key act r =
    (case slot (tkeys t) (probes_of t key) key of None \<Rightarrow> (False, t, r) | Some j \<Rightarrow> act t r j)"
  unfolding iterate_buckets_def probes_of_def
  by (intro iterate_loop_slot eq len act)

lemma table_invD:
  assumes "table_inv t"
  shows "lg2size t < 31" "lg2size t < 64" "length (table t) = 2 ^ lg2size t" "length (tkeys t) = 2 ^ lg2size t"
    "t_eq t a b \<longleftrightarrow> a = b" "placed (probes_of t) (tkeys t)"
    "usage_count t = of_nat (occupied (tkeys t))" "value_count t = of_nat (count_values t)"
    "i < 2 ^ lg2size t \<Longrightarrow> bucket_ok (bucket t i)"
  using assms by (auto simp: table_inv_def tkeys_def bucket_def)

interpretation oa: open_addressing probes_of "\<lambda>t. 2 ^ lg2size t" table_inv
  by unfold_locales (auto simp: probes_of_def table_invD(2) dest: probe_loop_range [rotated])

lemma nth_tkeys: "table_inv t \<Longrightarrow> i < 2 ^ lg2size t \<Longrightarrow> tkeys t ! i = map_option snd (bkt_k (bucket t i))"
  by (simp add: tkeys_def bucket_def table_invD(3))

lemma find_bucket_slot:
  assumes "table_inv t"
  shows "find_bucket t key = (case slot (tkeys t) (probes_of t key) key of
     None \<Rightarrow> None | Some i \<Rightarrow> if tkeys t ! i = Some key then Some i else None)"
proof -
  have r: "slot (tkeys t) (probes_of t key) key = Some i \<Longrightarrow> i < 2 ^ lg2size t" for i
    by (rule oa.slot_range [OF assms])
  show ?thesis
    unfolding find_bucket_def
    by (subst iterate_buckets_slot)
       (use assms in \<open>auto simp: table_invD nth_tkeys r split: option.splits\<close>)
qed

lemma find_bucket_iff:
  assumes "table_inv t"
  shows "find_bucket t key = Some i \<longleftrightarrow> i < 2 ^ lg2size t \<and> tkeys t ! i = Some key"
proof -
  have "slot (tkeys t) (probes_of t key) key = Some i \<and> tkeys t ! i = Some key
      \<longleftrightarrow> i < 2 ^ lg2size t \<and> tkeys t ! i = Some key"
    by (rule oa.placed_slot_iff [OF assms])
       (use assms in \<open>auto simp: table_invD\<close>)
  then show ?thesis
    by (auto simp: find_bucket_slot [OF assms] split: option.splits)
qed

lemma find_bucket_has_key: "table_inv t \<Longrightarrow> find_bucket t key \<noteq> None \<longleftrightarrow> has_key t key"
  by (auto simp: find_bucket_iff has_key_def in_set_conv_nth table_invD)

lemma find_bucket_None: "table_inv t \<Longrightarrow> find_bucket t key = None \<longleftrightarrow> \<not> has_key t key"
  by (simp flip: find_bucket_has_key)

lemma find_bucket_cong:
  assumes "table_inv t" "table_inv t'" "tkeys t' = tkeys t" "lg2size t' = lg2size t"
  shows "find_bucket t' k = find_bucket t k"
  by (rule option_eqI) (use assms in \<open>simp add: find_bucket_iff\<close>)

text \<open>Writing the value of a bucket leaves the keys, and so every lookup, where they are.\<close>

lemma upd_bucket_simps [simp, table_simps]:
  "lg2size (upd_bucket t i b) = lg2size t" "t_eq (upd_bucket t i b) = t_eq t"
  "t_hash (upd_bucket t i b) = t_hash t" "usage_count (upd_bucket t i b) = usage_count t"
  "value_count (upd_bucket t i b) = value_count t"
  "table (upd_bucket t i b) = (table t)[i := b]"
  by (simp_all add: upd_bucket_def)

lemma probes_of_cong:
  "t_hash t' = t_hash t \<Longrightarrow> lg2size t' = lg2size t \<Longrightarrow> probes_of t' = probes_of t"
  by (rule ext) (simp add: probes_of_def tmask_def tsize_def)

lemma tkeys_upd_value [simp, table_simps]:
  "tkeys (upd_bucket t i ((bucket t i)\<lparr>bkt_v := v\<rparr>)) = tkeys t"
proof (cases "i < length (table t)")
  case True
  then show ?thesis by (intro nth_equalityI) (auto simp: tkeys_def bucket_def nth_list_update)
qed (simp add: tkeys_def list_update_beyond)

lemma bucket_upd [simp, table_simps]:
  "i < length (table t) \<Longrightarrow> bucket (upd_bucket t i b) j = (if j = i then b else bucket t j)"
  by (simp add: bucket_def nth_list_update)

lemma table_inv_upd_value:
  assumes inv: "table_inv t" and i: "i < 2 ^ lg2size t" and k: "bkt_k (bucket t i) \<noteq> None"
    and v: "v = 0 \<or> valid_ref v"
    and vc: "vc = value_count t + of_bool (v \<noteq> 0) - of_bool (bkt_v (bucket t i) \<noteq> 0)"
  shows "table_inv ((upd_bucket t i ((bucket t i)\<lparr>bkt_v := v\<rparr>))\<lparr>value_count := vc\<rparr>)"
    (is "table_inv ?t'")
proof -
  let ?t1 = "upd_bucket t i ((bucket t i)\<lparr>bkt_v := v\<rparr>)"
  have tk: "tkeys ?t' = tkeys t" using tkeys_upd_value [of t i v] by (simp add: tkeys_def)
  have pr: "probes_of ?t' = probes_of t" by (rule probes_of_cong) simp_all
  have cnt: "count_values ?t1 + of_bool (bkt_v (bucket t i) \<noteq> 0) = count_values t + of_bool (v \<noteq> 0)"
    unfolding count_values_def
    using count_list_update [of i "table t" "\<lambda>b. bkt_v b \<noteq> 0" "(bucket t i)\<lparr>bkt_v := v\<rparr>"] i inv
    by (simp add: bucket_def table_invD)
  have "(of_nat (count_values ?t1 + of_bool (bkt_v (bucket t i) \<noteq> 0)) :: u64)
      = of_nat (count_values t + of_bool (v \<noteq> 0))"
    unfolding cnt ..
  then have "of_nat (count_values ?t1) = value_count t + of_bool (v \<noteq> 0) - of_bool (bkt_v (bucket t i) \<noteq> 0)"
    using inv by (simp only: table_invD of_nat_add of_nat_of_bool eq_diff_eq)
  then have "vc = of_nat (count_values ?t1)"
    using vc by simp
  moreover have "\<forall>b \<in> set (table ?t1). bucket_ok b"
  proof
    fix b assume "b \<in> set (table ?t1)"
    then show "bucket_ok b"
      using inv k v i set_update_subset_insert [of "table t" i "(bucket t i)\<lparr>bkt_v := v\<rparr>"]
      by (auto simp: table_inv_def bucket_ok_def)
  qed
  moreover have "count_values ?t' = count_values ?t1" by (simp add: count_values_def)
  ultimately show ?thesis
    using inv tk pr by (simp add: table_inv_def)
qed

lemma vref_upd_value:
  assumes inv: "table_inv t" and i: "i < 2 ^ lg2size t" and k: "tkeys t ! i = Some key"
    and inv': "table_inv ((upd_bucket t i ((bucket t i)\<lparr>bkt_v := v\<rparr>))\<lparr>value_count := vc\<rparr>)"
  shows "find_bucket ((upd_bucket t i ((bucket t i)\<lparr>bkt_v := v\<rparr>))\<lparr>value_count := vc\<rparr>) key' = find_bucket t key'"
    "vref ((upd_bucket t i ((bucket t i)\<lparr>bkt_v := v\<rparr>))\<lparr>value_count := vc\<rparr>) key' = (if key' = key then v else vref t key')"
proof -
  let ?t' = "(upd_bucket t i ((bucket t i)\<lparr>bkt_v := v\<rparr>))\<lparr>value_count := vc\<rparr>"
  have tk: "tkeys ?t' = tkeys t" using tkeys_upd_value [of t i v] by (simp add: tkeys_def)
  have fb: "find_bucket ?t' k = find_bucket t k" for k
    by (rule find_bucket_cong [OF inv inv' tk]) simp
  then show "find_bucket ?t' key' = find_bucket t key'" .
  have b: "bucket ?t' j = (if j = i then (bucket t i)\<lparr>bkt_v := v\<rparr> else bucket t j)" for j
    using i inv by (simp add: bucket_def nth_list_update table_invD)
  have fi: "find_bucket t key = Some i" using find_bucket_iff [OF inv] i k by simp
  have other: "find_bucket t key' = Some i \<Longrightarrow> key' = key"
    using k by (simp add: find_bucket_iff [OF inv])
  show "vref ?t' key' = (if key' = key then v else vref t key')"
  proof (cases "key' = key")
    case True
    then show ?thesis by (simp add: vref_def fb b fi)
  next
    case False
    then have "find_bucket t key' \<noteq> Some i" using other by blast
    with False show ?thesis by (cases "find_bucket t key'") (simp_all add: vref_def fb b)
  qed
qed

text \<open>Claiming a bucket for a new key.\<close>

lemma allocate_bucket_slot:
  assumes inv: "table_inv t"
  shows "allocate_bucket t key =
    (case slot (tkeys t) (probes_of t (snd key)) (snd key) of
       None \<Rightarrow> (None, t)
     | Some i \<Rightarrow> (case bkt_k (bucket t i) of
                   None \<Rightarrow> (Some (i, key), fill t i key)
                 | Some cur \<Rightarrow> (Some (i, cur), t)))"
proof -
  have r: "slot (tkeys t) (probes_of t (snd key)) (snd key) = Some i \<Longrightarrow> i < 2 ^ lg2size t" for i
    by (rule oa.slot_range [OF inv])
  have sk: "set_key t i key = (case bkt_k (bucket t i) of None \<Rightarrow> (Some key, fill t i key) | Some cur \<Rightarrow> (Some cur, t))"
    if "i < 2 ^ lg2size t" "tkeys t ! i = None \<or> tkeys t ! i = Some (snd key)" for i
    using that inv by (auto simp: set_key_def fill_def nth_tkeys table_invD split: option.splits)
  have m: "tkeys t ! i = None \<or> tkeys t ! i = Some (snd key)"
    if "slot (tkeys t) (probes_of t (snd key)) (snd key) = Some i" for i
    using slot_SomeD [OF that] by simp
  show ?thesis
    unfolding allocate_bucket_def
    by (subst iterate_buckets_slot)
       (use inv in \<open>auto simp: table_invD sk r m split: option.splits\<close>)
qed

lemma fill_props:
  assumes inv: "table_inv t" and sl: "slot (tkeys t) (probes_of t (snd key)) (snd key) = Some i"
    and free: "bkt_k (bucket t i) = None"
  shows "table_inv (fill t i key)" "tkeys (fill t i key) = (tkeys t)[i := Some (snd key)]"
    "bucket (fill t i key) j = (if j = i then (bucket t i)\<lparr>bkt_k := Some key\<rparr> else bucket t j)"
    "bkt_v (bucket t i) = 0" "i < 2 ^ lg2size t" "\<not> has_key t (snd key)"
proof -
  show i: "i < 2 ^ lg2size t" by (rule oa.slot_range [OF inv sl])
  have il: "i < length (table t)" using i inv by (simp add: table_invD)
  have ok: "bucket_ok (bucket t i)" using inv i by (simp add: table_invD)
  then show v0: "bkt_v (bucket t i) = 0" using free by (simp add: bucket_ok_def)
  have free': "tkeys t ! i = None" using free nth_tkeys [OF inv i] by simp
  show tk: "tkeys (fill t i key) = (tkeys t)[i := Some (snd key)]"
    by (simp add: fill_def tkeys_def map_update)
  show b: "bucket (fill t i key) j = (if j = i then (bucket t i)\<lparr>bkt_k := Some key\<rparr> else bucket t j)" for j
    using il by (simp add: fill_def bucket_def nth_list_update)
  show "\<not> has_key t (snd key)"
    using oa.placed_absent [OF _ _ sl free'] inv
    by (auto simp: has_key_def in_set_conv_nth table_invD)
  have pr: "probes_of (fill t i key) = probes_of t"
    by (rule probes_of_cong) (simp_all add: fill_def)
  have pl: "placed (probes_of t) ((tkeys t)[i := Some (snd key)])"
    by (rule oa.placed_insert [OF inv _ _ sl free']) (use inv in \<open>simp_all add: table_invD\<close>)
  have occ: "occupied ((tkeys t)[i := Some (snd key)]) = Suc (occupied (tkeys t))"
    by (rule occupied_fill) (use free' i inv in \<open>simp_all add: table_invD\<close>)
  have cv: "count_values (fill t i key) = count_values t"
    using count_list_update [of i "table t" "\<lambda>b. bkt_v b \<noteq> 0" "(bucket t i)\<lparr>bkt_k := Some key\<rparr>"] il
    by (simp add: count_values_def fill_def bucket_def)
  have bo: "\<forall>b \<in> set (table (fill t i key)). bucket_ok b"
    using inv v0 set_update_subset_insert [of "table t" i "(bucket t i)\<lparr>bkt_k := Some key\<rparr>"]
    by (auto simp: table_inv_def fill_def bucket_ok_def)
  show "table_inv (fill t i key)"
    unfolding table_inv_def tk pr occ cv using bo pl inv
    by (simp add: fill_def table_inv_def)
qed


lemma same_config_refl [simp]: "same_config t t"
  by (simp add: same_config_def)

lemma same_config_trans [trans]: "same_config a b \<Longrightarrow> same_config b c \<Longrightarrow> same_config a c"
  by (simp add: same_config_def)

lemma allocate_full:
  assumes inv: "table_inv t" and a: "allocate_bucket t key = (None, t')"
  shows "t' = t" "\<not> has_key t (snd key)" "\<forall>i \<in> set (probes_of t (snd key)). tkeys t ! i \<noteq> None"
proof -
  from a have s: "slot (tkeys t) (probes_of t (snd key)) (snd key) = None" and t: "t' = t"
    by (auto simp: allocate_bucket_slot [OF inv] split: option.splits)
  show "t' = t" by (rule t)
  show "\<not> has_key t (snd key)"
    using oa.placed_full_absent [OF _ _ s] inv
    by (auto simp: has_key_def in_set_conv_nth table_invD)
  show "\<forall>i \<in> set (probes_of t (snd key)). tkeys t ! i \<noteq> None"
    using slot_NoneD [OF s] by fastforce
qed

lemma has_key_find: "table_inv t \<Longrightarrow> find_bucket t k = Some i \<Longrightarrow> has_key t k"
  using find_bucket_has_key by fastforce

lemma vref_absent: "table_inv t \<Longrightarrow> \<not> has_key t k \<Longrightarrow> vref t k = 0"
  by (simp add: vref_def find_bucket_None [THEN iffD2])

lemma fill_lookup:
  assumes inv: "table_inv t" and sl: "slot (tkeys t) (probes_of t (snd key)) (snd key) = Some i"
    and free: "bkt_k (bucket t i) = None"
  shows "find_bucket (fill t i key) k = (if k = snd key then Some i else find_bucket t k)"
    "vref (fill t i key) k = vref t k"
proof -
  note f = fill_props [OF inv sl free]
  have lg: "lg2size (fill t i key) = lg2size t" by (simp add: fill_def)
  have il: "i < length (tkeys t)" using f(5) inv by (simp add: table_invD)
  have ti: "tkeys t ! i = None" using free nth_tkeys [OF inv f(5)] by simp
  have absent: "j < 2 ^ lg2size t \<Longrightarrow> tkeys t ! j \<noteq> Some (snd key)" for j
    using f(6) inv by (auto simp: has_key_def in_set_conv_nth table_invD)
  show fb: "find_bucket (fill t i key) k = (if k = snd key then Some i else find_bucket t k)" for k
  proof (rule option_eqI)
    fix j
    have "find_bucket (fill t i key) k = Some j \<longleftrightarrow> j < 2 ^ lg2size t \<and> (tkeys t)[i := Some (snd key)] ! j = Some k"
      unfolding find_bucket_iff [OF f(1)] lg f(2) ..
    also have "\<dots> \<longleftrightarrow> (if k = snd key then Some i else find_bucket t k) = Some j"
      using il ti f(5) absent [of j] by (cases "j = i") (auto simp: find_bucket_iff [OF inv])
    finally show "find_bucket (fill t i key) k = Some j \<longleftrightarrow> (if k = snd key then Some i else find_bucket t k) = Some j" .
  qed
  show "vref (fill t i key) k = vref t k"
  proof (cases "k = snd key")
    case True
    then show ?thesis using f(4,6) vref_absent [OF inv] by (simp add: vref_def fb f(3))
  next
    case False
    then have "find_bucket t k \<noteq> Some i" using ti by (simp add: find_bucket_iff [OF inv])
    with False show ?thesis by (cases "find_bucket t k") (simp_all add: vref_def fb f(3))
  qed
qed

lemma allocate_found:
  assumes inv: "table_inv t" and a: "allocate_bucket t key = (Some (i, cur), t')"
  shows "table_inv t'" "same_config t t'" "i < 2 ^ lg2size t" "snd cur = snd key"
    "bkt_k (bucket t' i) = Some cur" "vref t' k = vref t k" "bkt_v (bucket t' i) = vref t (snd key)"
    "has_key t' k \<longleftrightarrow> has_key t k \<or> k = snd key" "\<not> has_key t (snd key) \<Longrightarrow> cur = key"
    "find_bucket t' (snd key) = Some i"
    "has_key t (snd key) \<Longrightarrow> t' = t"
proof -
  from a obtain sl: "slot (tkeys t) (probes_of t (snd key)) (snd key) = Some i"
    and c: "bkt_k (bucket t i) = None \<and> cur = key \<and> t' = fill t i key \<or> bkt_k (bucket t i) = Some cur \<and> t' = t"
    by (auto simp: allocate_bucket_slot [OF inv] split: option.splits)
  have i: "i < 2 ^ lg2size t" by (rule oa.slot_range [OF inv sl])
  have m: "tkeys t ! i = None \<or> tkeys t ! i = Some (snd key)" using slot_SomeD [OF sl] by simp
  have "table_inv t' \<and> same_config t t' \<and> snd cur = snd key \<and> bkt_k (bucket t' i) = Some cur \<and>
    (\<forall>k. vref t' k = vref t k) \<and> bkt_v (bucket t' i) = vref t (snd key) \<and>
    (\<forall>k. has_key t' k \<longleftrightarrow> has_key t k \<or> k = snd key) \<and> (\<not> has_key t (snd key) \<longrightarrow> cur = key) \<and>
    find_bucket t' (snd key) = Some i \<and> (has_key t (snd key) \<longrightarrow> t' = t)"
    using c
  proof
    assume c1: "bkt_k (bucket t i) = None \<and> cur = key \<and> t' = fill t i key"
    then have free: "bkt_k (bucket t i) = None" and t': "t' = fill t i key" and cur: "cur = key" by auto
    note f = fill_props [OF inv sl free] and l = fill_lookup [OF inv sl free]
    have "has_key t' k \<longleftrightarrow> has_key t k \<or> k = snd key" for k
      using find_bucket_has_key [OF f(1), of k] find_bucket_has_key [OF inv, of k]
      by (simp add: t' l split: if_splits)
    then show ?thesis
      using f l vref_absent [OF inv f(6)] by (simp add: t' cur same_config_def fill_def)
  next
    assume c2: "bkt_k (bucket t i) = Some cur \<and> t' = t"
    then have tk: "tkeys t ! i = Some (snd cur)" using nth_tkeys [OF inv i] by simp
    then have sc: "snd cur = snd key" using m by simp
    then have fb: "find_bucket t (snd key) = Some i" using tk i by (simp add: find_bucket_iff [OF inv])
    then show ?thesis
      using c2 inv sc has_key_find [OF inv fb] by (auto simp: vref_def)
  qed
  then show "table_inv t'" "same_config t t'" "snd cur = snd key" "bkt_k (bucket t' i) = Some cur"
    "vref t' k = vref t k" "bkt_v (bucket t' i) = vref t (snd key)"
    "has_key t' k \<longleftrightarrow> has_key t k \<or> k = snd key" "\<not> has_key t (snd key) \<Longrightarrow> cur = key"
    "find_bucket t' (snd key) = Some i" "has_key t (snd key) \<Longrightarrow> t' = t"
    by auto
  show "i < 2 ^ lg2size t" by (rule i)
qed

text \<open>Every change of a bucket's value is this write, with the count of values kept exact.\<close>

lemma put_ref_props:
  assumes inv: "table_inv t" and fb: "find_bucket t key = Some i" and v: "v = 0 \<or> valid_ref v"
  shows "table_inv (put_ref t i v)" "same_config t (put_ref t i v)"
    "vref (put_ref t i v) k = (if k = key then v else vref t k)"
    "has_key (put_ref t i v) k \<longleftrightarrow> has_key t k"
proof -
  have i: "i < 2 ^ lg2size t" and tk: "tkeys t ! i = Some key"
    using fb by (simp_all add: find_bucket_iff [OF inv])
  then have bk: "bkt_k (bucket t i) \<noteq> None" using nth_tkeys [OF inv i] by auto
  show inv': "table_inv (put_ref t i v)"
    unfolding put_ref_def by (rule table_inv_upd_value [OF inv i bk v]) simp
  show "same_config t (put_ref t i v)" by (simp add: put_ref_def same_config_def)
  show "vref (put_ref t i v) k = (if k = key then v else vref t k)"
    using vref_upd_value(2) [OF inv i tk inv' [unfolded put_ref_def]] by (simp add: put_ref_def)
  have "tkeys (put_ref t i v) = tkeys t"
    using tkeys_upd_value [of t i v] by (simp add: put_ref_def tkeys_def)
  then show "has_key (put_ref t i v) k \<longleftrightarrow> has_key t k" by (simp add: has_key_def)
qed

lemma valid_ref_nonzero: "valid_ref v \<Longrightarrow> v \<noteq> 0"
  by (auto simp: valid_ref_def)

lemma set_value_put: "v \<noteq> 0 \<Longrightarrow> set_value t i v = (put_ref t i v, unshared (bkt_v (bucket t i)))"
  by (simp add: set_value_def changed_value_def put_ref_def unshared_def Let_def fp_null_def upd_bucket_def)

lemma replace_value_put:
  "v \<noteq> 0 \<Longrightarrow> replace_value t i v =
     (if bkt_v (bucket t i) = 0 then (False, t, []) else (True, put_ref t i v, unshared (bkt_v (bucket t i))))"
  by (simp add: replace_value_def changed_value_def put_ref_def unshared_def Let_def fp_null_def upd_bucket_def)

lemma add_value_put:
  "v \<noteq> 0 \<Longrightarrow> add_value t i v =
     (if bkt_v (bucket t i) = 0 then (True, get_ptr v, put_ref t i v, [])
      else (False, get_ptr (bkt_v (bucket t i)), t, []))"
  by (simp add: add_value_def changed_value_def put_ref_def Let_def fp_null_def upd_bucket_def)

lemma remove_value_put:
  "remove_value t i = (bkt_v (bucket t i) \<noteq> 0, put_ref t i 0, unshared (bkt_v (bucket t i)))"
  by (simp add: remove_value_def put_ref_def unshared_def Let_def fp_null_def upd_bucket_def)

lemma find_vref: "tfind t k = get_ptr (vref t k)"
  by (simp add: tfind_def vref_def split: option.splits)

lemma vref_bucket: "find_bucket t k = Some i \<Longrightarrow> vref t k = bkt_v (bucket t i)"
  by (simp add: vref_def)

lemma set_impl_ok:
  assumes inv: "table_inv t" and v: "valid_ref v" and s: "set_impl t key v = (Some cur, t', rel)"
  shows "table_inv t'" "same_config t t'" "vref t' k = (if k = snd key then v else vref t k)"
    "has_key t' k \<longleftrightarrow> has_key t k \<or> k = snd key" "snd cur = snd key" "rel = unshared (vref t (snd key))"
    "\<not> has_key t (snd key) \<Longrightarrow> cur = key"
proof -
  from s obtain i t1 where a: "allocate_bucket t key = (Some (i, cur), t1)"
    and w: "set_value t1 i v = (t', rel)"
    by (auto simp: set_impl_def split: prod.splits option.splits)
  note al = allocate_found [OF inv a]
  have t': "t' = put_ref t1 i v" and rel: "rel = unshared (vref t (snd key))"
    using w al(7) by (simp_all add: set_value_put valid_ref_nonzero [OF v])
  note p = put_ref_props [OF al(1) al(10), of v]
  show "table_inv t'" "vref t' k = (if k = snd key then v else vref t k)"
    "has_key t' k \<longleftrightarrow> has_key t k \<or> k = snd key"
    using p v al by (simp_all add: t')
  show "same_config t t'" using p(2) v al(2) t' same_config_trans by blast
  show "snd cur = snd key" "rel = unshared (vref t (snd key))" "\<not> has_key t (snd key) \<Longrightarrow> cur = key"
    using al rel by simp_all
qed

lemma set_impl_full:
  assumes inv: "table_inv t" and s: "set_impl t key v = (None, t', rel)"
  shows "t' = t" "rel = []" "\<not> has_key t (snd key)"
    "\<forall>i \<in> set (probes_of t (snd key)). tkeys t ! i \<noteq> None"
proof -
  from s have a: "allocate_bucket t key = (None, t')" and "rel = []"
    by (auto simp: set_impl_def split: prod.splits option.splits)
  then show "t' = t" "rel = []" "\<not> has_key t (snd key)"
    "\<forall>i \<in> set (probes_of t (snd key)). tkeys t ! i \<noteq> None"
    using allocate_full [OF inv a] by simp_all
qed

lemma add_impl_ok:
  assumes inv: "table_inv t" and v: "valid_ref v" and s: "add_impl t key v = (ok, Some cur, cv, t', rel)"
  shows "table_inv t'" "same_config t t'" "ok \<longleftrightarrow> vref t (snd key) = 0" "rel = []"
    "vref t' k = (if k = snd key \<and> ok then v else vref t k)"
    "has_key t' k \<longleftrightarrow> has_key t k \<or> k = snd key" "snd cur = snd key"
    "cv = get_ptr (if ok then v else vref t (snd key))" "\<not> has_key t (snd key) \<Longrightarrow> cur = key"
proof -
  from s obtain i t1 where a: "allocate_bucket t key = (Some (i, cur), t1)"
    and w: "add_value t1 i v = (ok, cv, t', rel)"
    by (auto simp: add_impl_def split: prod.splits option.splits)
  note al = allocate_found [OF inv a]
  note p = put_ref_props [OF al(1) al(10), of v]
  have d: "ok = (vref t (snd key) = 0)" "cv = get_ptr (if ok then v else vref t (snd key))" "rel = []"
    "t' = (if ok then put_ref t1 i v else t1)"
    using w al(7) by (auto simp: add_value_put valid_ref_nonzero [OF v] split: if_splits)
  show "table_inv t'" "ok \<longleftrightarrow> vref t (snd key) = 0" "rel = []"
    "vref t' k = (if k = snd key \<and> ok then v else vref t k)"
    "has_key t' k \<longleftrightarrow> has_key t k \<or> k = snd key" "snd cur = snd key"
    "cv = get_ptr (if ok then v else vref t (snd key))" "\<not> has_key t (snd key) \<Longrightarrow> cur = key"
    using p v al d by simp_all
  show "same_config t t'"
    using p(2) v al(2) same_config_trans by (cases ok) (auto simp: d(4))
qed

lemma add_impl_full:
  assumes inv: "table_inv t" and s: "add_impl t key v = (ok, None, cv, t', rel)"
  shows "t' = t" "\<not> ok" "cv = 0" "rel = []" "\<not> has_key t (snd key)"
proof -
  from s have a: "allocate_bucket t key = (None, t')" and "\<not> ok" "cv = 0" "rel = []"
    by (auto simp: add_impl_def split: prod.splits option.splits)
  then show "t' = t" "\<not> ok" "cv = 0" "rel = []" "\<not> has_key t (snd key)"
    using allocate_full [OF inv a] by simp_all
qed

lemma treplace_ok:
  assumes inv: "table_inv t" and v: "aligned v" "v \<noteq> 0" and s: "treplace t key v = (ok, t', rel)"
  shows "table_inv t'" "same_config t t'" "ok \<longleftrightarrow> vref t key \<noteq> 0"
    "vref t' k = (if k = key \<and> ok then v else vref t k)" "has_key t' k \<longleftrightarrow> has_key t k"
    "rel = unshared (vref t key)"
proof -
  have vr: "valid_ref v" using v by (auto simp: valid_ref_def tagged_def)
  have "table_inv t' \<and> same_config t t' \<and> (ok \<longleftrightarrow> vref t key \<noteq> 0) \<and>
    vref t' k = (if k = key \<and> ok then v else vref t k) \<and> (has_key t' k \<longleftrightarrow> has_key t k) \<and> rel = unshared (vref t key)"
  proof (cases "find_bucket t key")
    case None
    then show ?thesis using s inv by (simp add: treplace_def vref_def unshared_def)
  next
    case (Some i)
    then show ?thesis
      using s put_ref_props [OF inv Some, of v] vr v inv
      by (auto simp: treplace_def replace_value_put vref_bucket fp_ptr_def unshared_def split: if_splits)
  qed
  then show "table_inv t'" "same_config t t'" "ok \<longleftrightarrow> vref t key \<noteq> 0"
    "vref t' k = (if k = key \<and> ok then v else vref t k)" "has_key t' k \<longleftrightarrow> has_key t k"
    "rel = unshared (vref t key)" by simp_all
qed

lemma tremove_ok:
  assumes inv: "table_inv t" and s: "tremove t key = (ok, t', rel)"
  shows "table_inv t'" "same_config t t'" "ok \<longleftrightarrow> vref t key \<noteq> 0"
    "vref t' k = (if k = key then 0 else vref t k)" "has_key t' k \<longleftrightarrow> has_key t k"
    "rel = unshared (vref t key)"
proof -
  have "table_inv t' \<and> same_config t t' \<and> (ok \<longleftrightarrow> vref t key \<noteq> 0) \<and>
    vref t' k = (if k = key then 0 else vref t k) \<and> (has_key t' k \<longleftrightarrow> has_key t k) \<and> rel = unshared (vref t key)"
  proof (cases "find_bucket t key")
    case None
    then show ?thesis using s inv by (auto simp: tremove_def vref_def unshared_def)
  next
    case (Some i)
    then show ?thesis
      using s put_ref_props [OF inv Some, of 0]
      by (auto simp: tremove_def remove_value_put vref_bucket)
  qed
  then show "table_inv t'" "same_config t t'" "ok \<longleftrightarrow> vref t key \<noteq> 0"
    "vref t' k = (if k = key then 0 else vref t k)" "has_key t' k \<longleftrightarrow> has_key t k"
    "rel = unshared (vref t key)" by simp_all
qed

lemma valid_ref_cases:
  assumes "table_inv t"
  shows "vref t k = 0 \<or> valid_ref (vref t k)"
proof (cases "find_bucket t k")
  case None
  then show ?thesis by (simp add: vref_def)
next
  case (Some i)
  then have "i < 2 ^ lg2size t" by (simp add: find_bucket_iff [OF assms])
  then have "bucket_ok (bucket t i)" using assms by (simp add: table_invD)
  then show ?thesis using Some by (auto simp: vref_def bucket_ok_def)
qed

lemma get_ptr_valid: "valid_ref w \<Longrightarrow> get_ptr w \<noteq> 0 \<and> aligned (get_ptr w)"
  by (auto simp: valid_ref_def)

lemma tfind_0_iff: "table_inv t \<Longrightarrow> tfind t k = 0 \<longleftrightarrow> vref t k = 0"
  using valid_ref_cases [of t k] get_ptr_valid by (auto simp: find_vref)

lemma valid_ref_ptr: "aligned v \<Longrightarrow> v \<noteq> 0 \<Longrightarrow> valid_ref (fp_ptr v)"
  by (auto simp: valid_ref_def fp_ptr_tagged)

lemma valid_ref_tagged: "aligned v \<Longrightarrow> v \<noteq> 0 \<Longrightarrow> valid_ref (tagged v b)"
  by (auto simp: valid_ref_def)

lemma opentable_new_inv:
  assumes "lg2 < 31" "\<And>a b. eq a b \<longleftrightarrow> a = b"
  shows "table_inv (opentable_new lg2 eq hash)" "\<not> has_key (opentable_new lg2 eq hash) k"
    "vref (opentable_new lg2 eq hash) k = 0"
proof -
  let ?t = "opentable_new lg2 eq hash"
  have sz: "unat (2 ^ lg2 :: u64) = 2 ^ lg2"
    by (rule unat_exp2_u64) (use assms(1) in simp)
  have tk: "tkeys ?t = replicate (2 ^ lg2) None"
    by (simp add: tkeys_def opentable_new_def empty_bucket_def sz)
  have cv: "count_values ?t = 0"
    by (simp add: count_values_def opentable_new_def empty_bucket_def fp_null_def)
  show inv: "table_inv ?t"
    unfolding table_inv_def tk cv using assms
    by (simp add: opentable_new_def sz placed_def occupied_def bucket_ok_def empty_bucket_def fp_null_def)
  show nk: "\<not> has_key ?t k" by (simp add: has_key_def tk)
  show "vref ?t k = 0" by (rule vref_absent [OF inv nk])
qed

lemma exclusive_total:
  assumes inv: "table_inv t" and v: "aligned v"
  obtains t' krel vrel where "exclusive t k v = Inr (t', krel, vrel)"
    and "table_inv t'" "same_config t t'" "\<And>k'. tfind t' k' = tfind t k'"
    and "\<And>k'. has_key t' k' \<longleftrightarrow> has_key t k'"
    and "\<And>k'. vref t' k' = (if k' = snd k \<and> v \<noteq> 0 \<and> vref t k' = tagged v True then v else vref t k')"
    and "vrel = (if \<not> has_key t (snd k) \<or> v \<noteq> 0 \<and> vref t (snd k) \<noteq> tagged v True then [v] else [])"
    and "krel \<noteq> [] \<longrightarrow> krel = [k]"
proof (cases "find_bucket t (snd k)")
  case None
  then have nk: "\<not> has_key t (snd k)" by (simp add: find_bucket_None [OF inv])
  show ?thesis
    by (rule that [of t "[k]" "[v]"])
       (use None inv nk vref_absent [OF inv nk] v in \<open>auto simp: exclusive_def\<close>)
next
  case (Some i)
  have hk: "has_key t (snd k)" by (rule has_key_find [OF inv Some])
  define krel where "krel = (if map_option fst (bkt_k (bucket t i)) \<noteq> Some (fst k) then [k] else [])"
  have vr: "vref t (snd k) = bkt_v (bucket t i)" by (rule vref_bucket [OF Some])
  show ?thesis
  proof (cases "v \<noteq> 0 \<and> vref t (snd k) = tagged v True")
    case True
    then have valid: "valid_ref v" using v by (auto simp: valid_ref_def tagged_def)
    have nz: "bkt_v (bucket t i) \<noteq> 0" using True vr v by simp
    have eq: "upd_bucket t i ((bucket t i)\<lparr>bkt_v := v\<rparr>) = put_ref t i v"
      using nz True by (simp add: put_ref_def upd_bucket_def)
    note p = put_ref_props [OF inv Some, of v]
    have ex: "exclusive t k v = Inr (put_ref t i v, krel, [])"
      using Some True vr by (simp add: exclusive_def krel_def fp_ptr_def eq)
    have f: "tfind (put_ref t i v) k' = tfind t k'" for k'
      using p(3) valid True v by (simp add: find_vref)
    show ?thesis
      by (rule that [OF ex]) (use p valid True hk f in \<open>auto simp: krel_def\<close>)
  next
    case False
    have ex: "exclusive t k v = Inr (t, krel, if v = 0 then [] else [v])"
      using Some False vr by (auto simp: exclusive_def krel_def)
    show ?thesis
      by (rule that [OF ex]) (use False inv hk in \<open>auto simp: krel_def\<close>)
  qed
qed

subsection \<open>The key objects of a table\<close>

lemma keyrefs_bucket:
  "table_inv t \<Longrightarrow> key \<in> keyrefs t \<longleftrightarrow> (\<exists>i < 2 ^ lg2size t. bkt_k (bucket t i) = Some key)"
  by (simp add: keyrefs_def table_invD)

lemma keyrefs_find:
  assumes "table_inv t"
  shows "(a, k) \<in> keyrefs t \<longleftrightarrow> (\<exists>i. find_bucket t k = Some i \<and> bkt_k (bucket t i) = Some (a, k))"
  using nth_tkeys [OF assms] by (auto simp: keyrefs_bucket [OF assms] find_bucket_iff [OF assms])

lemma keyrefs_unique: "table_inv t \<Longrightarrow> (a, k) \<in> keyrefs t \<Longrightarrow> (b, k) \<in> keyrefs t \<Longrightarrow> a = b"
  by (auto simp: keyrefs_find)

lemma has_key_keyrefs:
  assumes "table_inv t"
  shows "has_key t k \<longleftrightarrow> (\<exists>a. (a, k) \<in> keyrefs t)"
proof -
  have "find_bucket t k = Some i \<Longrightarrow> \<exists>a. bkt_k (bucket t i) = Some (a, k)" for i
    using nth_tkeys [OF assms, of i] by (auto simp: find_bucket_iff [OF assms] map_option_case split: option.splits)
  then show ?thesis using find_bucket_has_key [OF assms, of k] by (fastforce simp: keyrefs_find [OF assms])
qed

lemma keyrefs_upd_value [simp, table_simps]: "keyrefs (upd_bucket t i ((bucket t i)\<lparr>bkt_v := v\<rparr>)) = keyrefs t"
proof (cases "i < length (table t)")
  case True
  then show ?thesis by (auto simp: keyrefs_def cong: conj_cong)
qed (simp add: keyrefs_def upd_bucket_def bucket_def list_update_beyond)

lemma keyrefs_same_table: "table t' = table t \<Longrightarrow> keyrefs t' = keyrefs t"
  by (simp add: keyrefs_def bucket_def)

lemma keyrefs_put_ref [simp]: "keyrefs (put_ref t i v) = keyrefs t"
  using keyrefs_upd_value [of t i v] by (simp add: put_ref_def keyrefs_def bucket_def)

lemma keyrefs_fill:
  assumes "i < length (table t)" "bkt_k (bucket t i) = None"
  shows "keyrefs (fill t i key) = insert key (keyrefs t)"
proof -
  have b: "bucket (fill t i key) j = (if j = i then (bucket t i)\<lparr>bkt_k := Some key\<rparr> else bucket t j)"
    "length (table (fill t i key)) = length (table t)" for j
    using assms(1) by (simp_all add: fill_def bucket_def nth_list_update)
  show ?thesis
    using assms by (auto simp: keyrefs_def b split: if_splits) (metis option.distinct(1))
qed

lemma keyrefs_allocate:
  assumes inv: "table_inv t" and a: "allocate_bucket t key = (r, t')"
  shows "keyrefs t' = keyrefs t \<union> set_option (map_option snd r)" "set_option (map_option snd r) \<subseteq> insert key (keyrefs t)"
proof -
  have "keyrefs t' = keyrefs t \<union> set_option (map_option snd r) \<and> set_option (map_option snd r) \<subseteq> insert key (keyrefs t)"
  proof (cases "slot (tkeys t) (probes_of t (snd key)) (snd key)")
    case None
    then show ?thesis using a by (simp add: allocate_bucket_slot [OF inv])
  next
    case (Some i)
    then have i: "i < 2 ^ lg2size t" by (rule oa.slot_range [OF inv])
    show ?thesis
    proof (cases "bkt_k (bucket t i)")
      case None
      then show ?thesis using a Some i keyrefs_fill [of i t key] inv
        by (auto simp: allocate_bucket_slot [OF inv] table_invD)
    next
      case (Some cur)
      then have "cur \<in> keyrefs t" using i by (auto simp: keyrefs_bucket [OF inv])
      then show ?thesis using a \<open>slot _ _ _ = Some i\<close> Some by (auto simp: allocate_bucket_slot [OF inv])
    qed
  qed
  then show "keyrefs t' = keyrefs t \<union> set_option (map_option snd r)" "set_option (map_option snd r) \<subseteq> insert key (keyrefs t)"
    by auto
qed

text \<open>An update adds the key it reports, which is its own or was there, and nothing else.\<close>

lemma keyrefs_set:
  assumes "table_inv t" "set_impl t key v = (cur, t', rel)" "v \<noteq> 0"
  shows "keyrefs t' = keyrefs t \<union> set_option cur \<and> set_option cur \<subseteq> insert key (keyrefs t)"
proof -
  obtain r t1 where a: "allocate_bucket t key = (r, t1)" by (cases "allocate_bucket t key")
  show ?thesis using keyrefs_allocate [OF assms(1) a] assms(2) a
    by (cases r) (auto simp: set_impl_def set_value_put [OF assms(3)] split: prod.splits)
qed

lemma keyrefs_add:
  assumes "table_inv t" "add_impl t key v = (ok, cur, cv, t', rel)" "v \<noteq> 0"
  shows "keyrefs t' = keyrefs t \<union> set_option cur \<and> set_option cur \<subseteq> insert key (keyrefs t)"
proof -
  obtain r t1 where a: "allocate_bucket t key = (r, t1)" by (cases "allocate_bucket t key")
  show ?thesis using keyrefs_allocate [OF assms(1) a] assms(2) a
    by (cases r) (auto simp: add_impl_def add_value_put [OF assms(3)] split: prod.splits if_splits)
qed

text \<open>Buckets that hold a key keep it; an add is refused only when it finds no free bucket.\<close>

definition no_room :: "'k opentable \<Rightarrow> 'k \<Rightarrow> bool" where
  "no_room t k \<longleftrightarrow> (\<forall>i \<in> set (probes_of t k). tkeys t ! i \<noteq> None)"

lemma tkeys_add:
  assumes "table_inv t" "add_impl t key v = (ok, cur, cv, t', rel)" "v \<noteq> 0"
  shows "tkeys t ! j \<noteq> None \<Longrightarrow> tkeys t' ! j \<noteq> None" and "cur = None \<Longrightarrow> no_room t (snd key)"
proof -
  obtain r t1 where a: "allocate_bucket t key = (r, t1)" by (cases "allocate_bucket t key")
  have "tkeys (put_ref t1 i v) = tkeys t1" for i
    using tkeys_upd_value [of t1 i v] by (simp add: put_ref_def tkeys_def)
  then have t': "tkeys t' = tkeys t1" using assms(2) a
    by (cases r) (auto simp: add_impl_def add_value_put [OF assms(3)] split: prod.splits if_splits)
  show "tkeys t' ! j \<noteq> None" if "tkeys t ! j \<noteq> None"
  proof (cases "slot (tkeys t) (probes_of t (snd key)) (snd key)")
    case (Some i)
    then have "t1 = t \<or> bkt_k (bucket t i) = None \<and> t1 = fill t i key"
      using a by (auto simp: allocate_bucket_slot [OF assms(1)] split: option.splits)
    moreover have "tkeys (fill t i key) ! j \<noteq> None" if "bkt_k (bucket t i) = None"
      using fill_props(2,5) [OF assms(1) Some that] \<open>tkeys t ! j \<noteq> None\<close> assms(1)
      by (cases "j = i") (simp_all add: table_invD)
    ultimately show ?thesis using that t' by auto
  qed (use a that t' in \<open>simp add: allocate_bucket_slot [OF assms(1)]\<close>)
  show "no_room t (snd key)" if "cur = None"
    using allocate_full(3) [OF assms(1)] assms(2) a that by (cases r) (auto simp: add_impl_def no_room_def split: prod.splits)
qed

lemma no_room_mono:
  "no_room t k \<Longrightarrow> same_config t t' \<Longrightarrow> (\<And>j. tkeys t ! j \<noteq> None \<Longrightarrow> tkeys t' ! j \<noteq> None) \<Longrightarrow> no_room t' k"
  using probes_of_cong [of t' t] by (auto simp: no_room_def same_config_def)

lemma keyrefs_replace:
  "table_inv t \<Longrightarrow> treplace t k v = (ok, t', rel) \<Longrightarrow> v \<noteq> 0 \<Longrightarrow> keyrefs t' = keyrefs t"
  by (auto simp: treplace_def fp_ptr_def replace_value_put split: option.splits if_splits)

lemma keyrefs_remove: "tremove t k = (ok, t', rel) \<Longrightarrow> keyrefs t' = keyrefs t"
  by (auto simp: tremove_def remove_value_put split: option.splits)

lemma exclusive_own_key:
  assumes "table_inv t" "exclusive t key v = Inr (t', krel, vrel)"
  shows "key \<in> keyrefs t \<Longrightarrow> krel = []" "\<not> has_key t (snd key) \<Longrightarrow> t' = t \<and> krel = [key] \<and> vrel = [v]"
    "tkeys t' = tkeys t" "same_config t t'"
proof -
  show "key \<in> keyrefs t \<Longrightarrow> krel = []"
    using keyrefs_find [OF assms(1), of "fst key" "snd key"] assms(2) by (auto simp: exclusive_def rbind_Inr_iff Let_def split: if_splits)
  show "\<not> has_key t (snd key) \<Longrightarrow> t' = t \<and> krel = [key] \<and> vrel = [v]"
    using assms(2) find_bucket_None [OF assms(1), of "snd key"] by (simp add: exclusive_def)
  show "tkeys t' = tkeys t" "same_config t t'"
    using assms(2) by (auto simp: exclusive_def rbind_Inr_iff Let_def same_config_def split: option.splits if_splits)
qed

lemma keyrefs_exclusive: "exclusive t k v = Inr (t', krel, vrel) \<Longrightarrow> keyrefs t' = keyrefs t"
  by (auto simp: exclusive_def rbind_Inr_iff Let_def split: option.splits if_splits)

lemma advance_props:
  "ref \<le> length (table t) \<Longrightarrow>
    advance t ref \<le> length (table t) \<and>
    (advance t ref < length (table t) \<longrightarrow> bkt_k (bucket t (advance t ref)) \<noteq> None) \<and>
    bucket_items (drop ref (table t)) = bucket_items (drop (advance t ref) (table t))"
proof (induction t ref rule: advance.induct)
  case (1 t ref)
  show ?case
  proof (cases "ref < length (table t) \<and> bkt_k (bucket t ref) = None")
    case True
    then have "advance t ref = advance t (Suc ref)" by (simp add: advance.simps [of t ref])
    moreover have "bucket_items (drop ref (table t)) = bucket_items (drop (Suc ref) (table t))"
      using True by (simp add: Cons_nth_drop_Suc [symmetric] bucket_items_def bucket_def)
    ultimately show ?thesis using "1.IH" True by auto
  next
    case False
    then have "advance t ref = ref" by (auto simp: advance.simps [of t ref])
    then show ?thesis using False "1.prems" by auto
  qed
qed

lemma citems_from_items:
  "ref \<le> length (table t) \<Longrightarrow> citems_from t ref = bucket_items (drop ref (table t))"
proof (induction t ref rule: citems_from.induct)
  case (1 t ref)
  let ?r = "advance t ref"
  note a = advance_props [OF "1.prems"]
  show ?case
  proof (cases "?r < length (table t)")
    case True
    then obtain k where k: "bkt_k (bucket t ?r) = Some k" using a by auto
    have "citems_from t ref = (k, get_ptr (bkt_v (bucket t ?r))) # bucket_items (drop (Suc ?r) (table t))"
      using "1.IH" [OF refl True] True k by (simp add: citems_from.simps [of t ref] Let_def)
    also have "\<dots> = bucket_items (drop ?r (table t))"
      using True k by (simp add: Cons_nth_drop_Suc [symmetric] bucket_items_def bucket_def)
    finally show ?thesis using a by simp
  next
    case False
    then have "drop ?r (table t) = []" by simp
    then show ?thesis using a False by (simp add: citems_from.simps [of t ref] Let_def bucket_items_def)
  qed
qed

text \<open>In a well-formed table an iteration lists every key once, with the value found by lookup.\<close>

lemma citems_lookup:
  assumes inv: "table_inv t"
  shows "(key, v) \<in> set (citems_from t 0) \<Longrightarrow> tfind t (snd key) = v"
    and "has_key t k \<Longrightarrow> \<exists>a. ((a, k), tfind t k) \<in> set (citems_from t 0)"
    and "distinct (map (snd \<circ> fst) (citems_from t 0))"
proof -
  have it: "citems_from t 0 = bucket_items (table t)" using citems_from_items [of 0 t] by simp
  show "tfind t (snd key) = v" if "(key, v) \<in> set (citems_from t 0)"
  proof -
    from that obtain b where b: "b \<in> set (table t)" "bkt_k b = Some key" "v = get_ptr (bkt_v b)"
      by (auto simp: it bucket_items_def split: option.splits)
    then obtain i where i: "i < 2 ^ lg2size t" "bucket t i = b"
      using inv by (auto simp: in_set_conv_nth bucket_def table_invD)
    then have "find_bucket t (snd key) = Some i"
      using b(2) nth_tkeys [OF inv i(1)] by (simp add: find_bucket_iff [OF inv])
    then show ?thesis using b i by (simp add: tfind_def)
  qed
  show "\<exists>a. ((a, k), tfind t k) \<in> set (citems_from t 0)" if "has_key t k"
  proof -
    from that obtain i where i: "i < 2 ^ lg2size t" "tkeys t ! i = Some k"
      using inv by (auto simp: has_key_def in_set_conv_nth table_invD)
    then obtain a where a: "bkt_k (bucket t i) = Some (a, k)" using nth_tkeys [OF inv i(1)] by auto
    have "find_bucket t k = Some i" using i by (simp add: find_bucket_iff [OF inv])
    then have "tfind t k = get_ptr (bkt_v (bucket t i))" by (simp add: tfind_def)
    moreover have "bucket t i \<in> set (table t)" using i inv by (simp add: bucket_def table_invD)
    ultimately show ?thesis
      using a by (auto simp: it bucket_items_def intro!: bexI [of _ "bucket t i"] exI [of _ a])
  qed
  have ks: "map (snd \<circ> fst) (bucket_items bs) = map the (filter (\<lambda>k. k \<noteq> None) (map (\<lambda>b. map_option snd (bkt_k b)) bs))"
    for bs :: "'a bucket_t list"
    by (induction bs) (auto simp: bucket_items_def split: option.splits)
  show "distinct (map (snd \<circ> fst) (citems_from t 0))"
    unfolding it ks tkeys_def [symmetric]
    by (rule distinct_somes, rule oa.placed_unique [of t])
       (use inv in \<open>auto simp: table_invD\<close>)
qed

subsection \<open>The slots of a table\<close>

lemma probes_of_config: "same_config t t' \<Longrightarrow> probes_of t' = probes_of t"
  by (rule probes_of_cong) (simp_all add: same_config_def)

lemma tkeys_put_ref [simp]: "tkeys (put_ref t i v) = tkeys t"
  using tkeys_upd_value [of t i v] by (simp add: put_ref_def tkeys_def)

lemma allocate_claim:
  assumes inv: "table_inv t" and a: "allocate_bucket t key = (r, t')"
  shows "claim (tkeys t) (probes_of t (snd key)) (snd key) = (if r = None then None else Some (tkeys t'))"
proof (cases "slot (tkeys t) (probes_of t (snd key)) (snd key)")
  case None
  then show ?thesis using a by (auto simp: allocate_bucket_slot [OF inv] claim_def)
next
  case (Some i)
  have i: "i < 2 ^ lg2size t" by (rule oa.slot_range [OF inv Some])
  show ?thesis
  proof (cases "bkt_k (bucket t i)")
    case None
    then show ?thesis using a Some fill_props(2) [OF inv Some None] by (auto simp: allocate_bucket_slot [OF inv] claim_def)
  next
    case b: (Some cur)
    then have "tkeys t ! i = Some (snd key)" using slot_SomeD [OF Some] nth_tkeys [OF inv i] by auto
    then have "(tkeys t)[i := Some (snd key)] = tkeys t" by (metis list_update_id)
    then show ?thesis using a Some b by (auto simp: allocate_bucket_slot [OF inv] claim_def)
  qed
qed

lemma set_impl_claim:
  assumes inv: "table_inv t" and v: "valid_ref v" and s: "set_impl t key v = (cur, t', rel)"
  shows "claim (tkeys t) (probes_of t (snd key)) (snd key) = (if cur = None then None else Some (tkeys t'))"
proof -
  obtain r t1 where a: "allocate_bucket t key = (r, t1)" by (cases "allocate_bucket t key")
  show ?thesis
    using allocate_claim [OF inv a] s a
    by (auto simp: set_impl_def set_value_put valid_ref_nonzero [OF v] split: option.splits prod.splits)
qed

lemma add_impl_claim:
  assumes inv: "table_inv t" and v: "valid_ref v" and s: "add_impl t key v = (ok, cur, cv, t', rel)"
  shows "claim (tkeys t) (probes_of t (snd key)) (snd key) = (if cur = None then None else Some (tkeys t'))"
proof -
  obtain r t1 where a: "allocate_bucket t key = (r, t1)" by (cases "allocate_bucket t key")
  show ?thesis
    using allocate_claim [OF inv a] s a
    by (auto simp: add_impl_def add_value_put valid_ref_nonzero [OF v] split: option.splits prod.splits if_splits)
qed

lemma tkeys_replace: "v \<noteq> 0 \<Longrightarrow> treplace t k v = (ok, t', rel) \<Longrightarrow> tkeys t' = tkeys t"
  by (auto simp: treplace_def fp_ptr_def replace_value_put split: option.splits if_splits)

lemma tkeys_remove: "tremove t k = (ok, t', rel) \<Longrightarrow> tkeys t' = tkeys t"
  by (auto simp: tremove_def remove_value_put split: option.splits)

section \<open>Properties\<close>

text \<open>Every operation refines the map, and so does every sequence of them.\<close>

lemma texec_ok:
  assumes inv: "table_inv t" and l: "tlegal op" and x: "texec t op = (r, t')"
  shows "table_inv t' \<and> tspec (tview t) op = (r, tview t')"
proof (cases op)
  case (TFind k)
  then show ?thesis using inv x by (auto simp: tview_def)
next
  case (TSet key v)
  obtain c t1 rel where s: "set_impl t key (fp_ptr v) = (c, t1, rel)" by (cases "set_impl t key (fp_ptr v)")
  have v: "valid_ref (fp_ptr v)" "get_ptr (fp_ptr v) = v"
    using l TSet valid_ref_ptr [of v] by (auto simp: fp_ptr_def)
  note cl = set_impl_claim [OF inv v(1) s]
  show ?thesis
  proof (cases c)
    case None
    note f = set_impl_full [OF inv s [unfolded None]]
    show ?thesis using f(1) cl s None x inv TSet by (auto simp: tset_def tview_def v_claim_def)
  next
    case (Some cur)
    note ok = set_impl_ok [OF inv v(1) s [unfolded Some]]
    show ?thesis
      using ok(1,3) cl probes_of_config [OF ok(2)] x s Some TSet v(2)
      by (auto simp: tset_def tview_def v_claim_def v_bind_def find_vref fun_eq_iff)
  qed
next
  case (TAdd key v)
  obtain ok c cv t1 rel where s: "add_impl t key (fp_ptr v) = (ok, c, cv, t1, rel)"
    by (cases "add_impl t key (fp_ptr v)")
  have v: "valid_ref (fp_ptr v)" "get_ptr (fp_ptr v) = v"
    using l TAdd valid_ref_ptr [of v] by (auto simp: fp_ptr_def)
  note cl = add_impl_claim [OF inv v(1) s]
  show ?thesis
  proof (cases c)
    case None
    note f = add_impl_full [OF inv s [unfolded None]]
    show ?thesis using f(1,2) cl s x inv TAdd None by (auto simp: tadd_def tview_def v_claim_def)
  next
    case (Some cur)
    note ok = add_impl_ok [OF inv v(1) s [unfolded Some]]
    show ?thesis
      using ok(1,3,5) cl probes_of_config [OF ok(2)] x s TAdd v(2) tfind_0_iff [OF inv] Some
      by (auto simp: tadd_def tview_def v_claim_def v_bind_def find_vref fun_eq_iff)
  qed
next
  case (TReplace k v)
  obtain ok t1 rel where s: "treplace t k v = (ok, t1, rel)" by (cases "treplace t k v")
  have v: "aligned v" "v \<noteq> 0" using l TReplace by auto
  note ok = treplace_ok [OF inv v s]
  show ?thesis
    using ok(1,3,4) probes_of_config [OF ok(2)] tkeys_replace [OF v(2) s] x s TReplace v tfind_0_iff [OF inv]
    by (auto simp: tview_def v_bind_def find_vref fun_eq_iff)
next
  case (TRemove k)
  obtain ok t1 rel where s: "tremove t k = (ok, t1, rel)" by (cases "tremove t k")
  note ok = tremove_ok [OF inv s]
  show ?thesis
    using ok(1,3,4) probes_of_config [OF ok(2)] tkeys_remove [OF s] x s TRemove tfind_0_iff [OF inv]
    by (auto simp: tview_def v_bind_def find_vref fun_eq_iff)
qed

interpretation tbl: simulation texec table_inv tview tlegal "\<lambda>a op r a'. tspec a op = (r, a')"
  by unfold_locales (use texec_ok in blast)+

text \<open>
  C5: Any sequence of lookups, sets, adds, replaces and removes on a well-formed table gives the
  replies of the same sequence on the view of the table (the slots claimed by keys and the map
  from keys to values), and leaves a well-formed table with the view that sequence ends in. There
  a set stores and an add stores when the key has no value, unless all slots of the key's probe
  sequence are taken by other keys, when they change nothing and are refused.
\<close>

theorem table_refines_map:
  assumes "table_inv t" and "list_all tlegal ops" and "run_ops texec t ops = (rs, t')"
  shows "table_inv t' \<and> run_ops tspec (tview t) ops = (rs, tview t')"
  using tbl.run_simulates [OF assms] by (simp only: spec_run_fun)

definition demo_hash :: "nat \<Rightarrow> int \<Rightarrow> u128" where
  "demo_hash k seed = of_nat k + 3 * word_of_int seed"

definition demo_table :: "nat opentable" where
  "demo_table = opentable_new 2 (=) demo_hash"

definition demo_ops :: "nat table_op list" where
  "demo_ops = [TSet (0x100, 5) 0x10, TAdd (0x110, 5) 0x20, TSet (0x120, 9) 0x30, TRemove 5, TFind 9, TFind 5]"

lemma demo_table_inv: "table_inv demo_table"
  unfolding demo_table_def by (rule opentable_new_inv) simp_all

lemma demo_ops_legal: "list_all tlegal demo_ops"
  by (simp add: demo_ops_def aligned_def flag_mask_15)

lemma demo_run:
  "fst (run_ops texec demo_table demo_ops)
   = [RBool True, RBool False, RBool True, RBool True, RPtr 0x30, RPtr 0]"
  by code_simp

theorem table_refines_map_witness:
  "table_inv (snd (run_ops texec demo_table demo_ops)) \<and>
   run_ops tspec (tview demo_table) demo_ops =
     ([RBool True, RBool False, RBool True, RBool True, RPtr 0x30, RPtr 0], tview (snd (run_ops texec demo_table demo_ops)))"
  by (rule table_refines_map [OF demo_table_inv demo_ops_legal]) (rule prod_eqI; simp add: demo_run)

text \<open>The probing loop answers bucket \<open>i\<close> if and only if bucket \<open>i\<close> of the array holds the key.\<close>

lemma find_bucket_exact:
  assumes "table_inv t"
  shows "find_bucket t key = Some i \<longleftrightarrow>
    i < length (table t) \<and> map_option snd (bkt_k (bucket t i)) = Some key"
  using nth_tkeys [OF assms, of i] table_invD(3) [OF assms]
  by (simp add: find_bucket_iff [OF assms] cong: conj_cong)

text \<open>
  C15: A set that returns a key has stored the value under that key and under no other, keeps
  every other key's value, returns a key equal to the one given, and releases the previous
  value exactly when there was one that is not shared with another table. A set that returns
  null changed nothing: the key was absent and every bucket on its probing sequence is taken
  by another key.
\<close>

theorem tset_spec:
  assumes inv: "table_inv t" and v: "aligned v" "v \<noteq> 0" and s: "tset t key v = (c, t', rel)"
  shows "case c of
      None \<Rightarrow> t' = t \<and> rel = [] \<and> tfind t (snd key) = 0 \<and>
        (\<forall>i \<in> set (probes_of t (snd key)). \<exists>k. bkt_k (bucket t i) = Some k \<and> snd k \<noteq> snd key)
    | Some cur \<Rightarrow> snd cur = snd key \<and> tfind t' = (tfind t)(snd key := v) \<and>
        rel = (if tfind t (snd key) \<noteq> 0 \<and> \<not> get_flag (vref t (snd key)) 1 then [tfind t (snd key)] else [])"
proof (cases c)
  case None
  note f = set_impl_full [OF inv s [unfolded tset_def None]]
  have r: "i \<in> set (probes_of t (snd key)) \<Longrightarrow> i < 2 ^ lg2size t" for i
    using oa.probes_range [OF inv] by blast
  have "\<exists>k. bkt_k (bucket t i) = Some k \<and> snd k \<noteq> snd key" if i: "i \<in> set (probes_of t (snd key))" for i
  proof -
    obtain k where k: "bkt_k (bucket t i) = Some k"
      using f(4) i nth_tkeys [OF inv r [OF i]] by (cases "bkt_k (bucket t i)") auto
    have "snd k \<noteq> snd key"
      using f(3) nth_tkeys [OF inv r [OF i]] k r [OF i] inv
      by (auto simp: has_key_def in_set_conv_nth table_invD)
    with k show ?thesis by blast
  qed
  then show ?thesis using f vref_absent [OF inv f(3)] None by (simp add: find_vref)
next
  case (Some cur)
  have vr: "valid_ref (fp_ptr v)" using v by (rule valid_ref_ptr)
  note ok = set_impl_ok [OF inv vr s [unfolded tset_def Some]]
  show ?thesis
    using ok(3,5,6) Some v tfind_0_iff [OF inv]
    by (auto simp: find_vref fun_eq_iff fp_ptr_def unshared_def)
qed

lemma demo_set: "fst (tset demo_table (0x100, 5) 0x10) = Some (0x100, 5)"
  by code_simp

theorem tset_spec_witness:
  "fst (tset demo_table (0x100, 5) 0x10) = Some (0x100, 5) \<and>
   tfind (fst (snd (tset demo_table (0x100, 5) 0x10))) = (tfind demo_table)(5 := 0x10)"
proof -
  have s: "tset demo_table (0x100, 5) 0x10 =
      (Some (0x100, 5), fst (snd (tset demo_table (0x100, 5) 0x10)), snd (snd (tset demo_table (0x100, 5) 0x10)))"
    by (rule prod_eqI) (simp_all add: demo_set)
  have a: "aligned 0x10" by (simp add: aligned_def flag_mask_15)
  from tset_spec [OF demo_table_inv a _ s] demo_set show ?thesis by simp
qed

text \<open>
  C16: An iteration over a table visits every key exactly once and pairs it with the value a
  lookup of that key returns (null for a key whose value was removed).
\<close>

theorem iteration_complete:
  assumes "table_inv t"
  shows "distinct (map (snd \<circ> fst) (citems_from t 0)) \<and>
    set (map (\<lambda>(key, v). (snd key, v)) (citems_from t 0)) = {(k, tfind t k) | k. has_key t k}"
proof -
  define items where "items = set (map (\<lambda>(key, v). (snd key, v)) (citems_from t 0))"
  have "(k, v) \<in> items \<longleftrightarrow> has_key t k \<and> v = tfind t k" for k v
    unfolding items_def
  proof
    assume "(k, v) \<in> set (map (\<lambda>(key, v). (snd key, v)) (citems_from t 0))"
    then obtain a where a: "((a, k), v) \<in> set (citems_from t 0)" by auto
    then obtain b where "b \<in> set (table t)" "bkt_k b = Some (a, k)"
      using citems_from_items [of 0 t] by (auto simp: bucket_items_def split: option.splits)
    then have "Some k \<in> set (tkeys t)" unfolding tkeys_def by (auto intro!: image_eqI [of _ _ b])
    then show "has_key t k \<and> v = tfind t k"
      using citems_lookup(1) [OF assms a] by (simp add: has_key_def)
  next
    assume "has_key t k \<and> v = tfind t k"
    then obtain a where "((a, k), v) \<in> set (citems_from t 0)"
      using citems_lookup(2) [OF assms] by blast
    then show "(k, v) \<in> set (map (\<lambda>(key, v). (snd key, v)) (citems_from t 0))" by force
  qed
  then have "items = {(k, tfind t k) | k. has_key t k}" by auto
  then show ?thesis using citems_lookup(3) [OF assms] by (simp add: items_def)
qed

theorem iteration_complete_witness:
  "distinct (map (snd \<circ> fst) (citems_from demo_table 0)) \<and>
   set (map (\<lambda>(key, v). (snd key, v)) (citems_from demo_table 0)) = {(k, tfind demo_table k) | k. has_key demo_table k}"
  by (rule iteration_complete [OF demo_table_inv])

lemma texec_keys:
  assumes inv: "table_inv t" and l: "tlegal op" and x: "texec t op = (r, t')" and k: "has_key t k"
  shows "has_key t' k"
proof (cases op)
  case (TSet key v)
  then have v: "valid_ref (fp_ptr v)" using l valid_ref_ptr [of v] by simp
  obtain c t1 rel where s: "set_impl t key (fp_ptr v) = (c, t1, rel)" by (cases "set_impl t key (fp_ptr v)")
  then show ?thesis
    using set_impl_ok(4) [OF inv v, of key] set_impl_full(1) [OF inv, of key] x k TSet
    by (cases c) (fastforce simp: tset_def)+
next
  case (TAdd key v)
  then have v: "valid_ref (fp_ptr v)" using l valid_ref_ptr [of v] by simp
  obtain ok c cv t1 rel where s: "add_impl t key (fp_ptr v) = (ok, c, cv, t1, rel)"
    by (cases "add_impl t key (fp_ptr v)")
  then show ?thesis
    using add_impl_ok(6) [OF inv v, of key] add_impl_full(1) [OF inv, of key] x k TAdd
    by (cases c) (fastforce simp: tadd_def)+
next
  case (TReplace k' v)
  obtain ok t1 rel where "treplace t k' v = (ok, t1, rel)" by (cases "treplace t k' v")
  then show ?thesis using treplace_ok(5) [OF inv] x k l TReplace by fastforce
next
  case (TRemove k')
  obtain ok t1 rel where "tremove t k' = (ok, t1, rel)" by (cases "tremove t k'")
  then show ?thesis using tremove_ok(5) [OF inv] x k TRemove by fastforce
qed (use x k in auto)

lemma run_keys:
  "table_inv t \<Longrightarrow> list_all tlegal ops \<Longrightarrow> run_ops texec t ops = (rs, t') \<Longrightarrow> has_key t k \<Longrightarrow> has_key t' k"
proof (induction ops arbitrary: t rs)
  case (Cons op ops)
  obtain r t1 where st: "texec t op = (r, t1)" by (cases "texec t op")
  then have "table_inv t1" "has_key t1 k"
    using texec_ok [of t op] texec_keys [of t op] Cons.prems by auto
  then show ?case using Cons.IH [of t1] Cons.prems st by (auto split: prod.splits)
qed simp

lemma usage_is_card:
  assumes "table_inv t"
  shows "unat (usage_count t) = card {k. has_key t k}"
proof -
  let ?ks = "map the (filter (\<lambda>k. k \<noteq> None) (tkeys t))"
  have "distinct ?ks"
    by (rule distinct_somes, rule oa.placed_unique [of t])
       (use assms in \<open>auto simp: table_invD\<close>)
  moreover have "set ?ks = {k. has_key t k}" by (force simp: has_key_def)
  ultimately have c: "card {k. has_key t k} = occupied (tkeys t)"
    using distinct_card [of ?ks] by (simp add: occupied_def)
  have "occupied (tkeys t) \<le> 2 ^ lg2size t" using occupied_le [of "tkeys t"] assms by (simp add: table_invD)
  also have "\<dots> < 2 ^ 64" using table_invD(2) [OF assms] by (intro power_strict_increasing) simp_all
  finally show ?thesis using assms c by (simp add: table_invD unsigned_of_nat take_bit_nat_eq_self)
qed

text \<open>
  The usage counter that decides when the table grows is the number of distinct keys the
  table holds, and no operation ever takes a key out: values come and go, keys stay.
\<close>

lemma usage_counts_keys:
  assumes "table_inv t" and "list_all tlegal ops" and "run_ops texec t ops = (rs, t')"
  shows "unat (usage_count t') = card {k. has_key t' k} \<and> {k. has_key t k} \<subseteq> {k. has_key t' k}"
  using usage_is_card tbl.run_simulates [OF assms] run_keys [OF assms] by auto

text \<open>
  C17: Taking exclusive ownership after a table was rebuilt never changes what a lookup
  returns. It clears the shared mark of a value that is still the key's value, and otherwise
  hands the value back for release; a key that is not in the table is handed back together
  with the value, even when that value is the null pointer.
\<close>

theorem exclusive_spec:
  assumes "table_inv t" and "aligned v" and "exclusive t k v = Inr (t', krel, vrel)"
  shows "table_inv t' \<and> tfind t' = tfind t \<and>
    (v \<noteq> 0 \<and> vref t (snd k) = tagged v True \<longrightarrow> vref t' (snd k) = v \<and> vrel = []) \<and>
    (\<not> has_key t (snd k) \<longrightarrow> krel = [k] \<and> vrel = [v]) \<and>
    (has_key t (snd k) \<and> v \<noteq> 0 \<and> vref t (snd k) \<noteq> tagged v True \<longrightarrow> vrel = [v])"
proof -
  obtain t1 kr vr where e: "exclusive t k v = Inr (t1, kr, vr)" and inv': "table_inv t1"
    and f: "\<And>k'. tfind t1 k' = tfind t k'"
    and w: "\<And>k'. vref t1 k' = (if k' = snd k \<and> v \<noteq> 0 \<and> vref t k' = tagged v True then v else vref t k')"
    and r: "vr = (if \<not> has_key t (snd k) \<or> v \<noteq> 0 \<and> vref t (snd k) \<noteq> tagged v True then [v] else [])"
    by (rule exclusive_total [OF assms(1,2), of k]) (erule (1) that; assumption)
  have eqs: "t1 = t'" "kr = krel" "vr = vrel" using e assms(3) by auto
  have absent: "\<not> has_key t (snd k) \<Longrightarrow> krel = [k]"
    using assms(3) find_bucket_None [OF assms(1), of "snd k"] by (simp add: exclusive_def)
  have present: "v \<noteq> 0 \<Longrightarrow> vref t (snd k) = tagged v True \<Longrightarrow> has_key t (snd k)"
    using vref_absent [OF assms(1), of "snd k"] assms(2) by auto
  show ?thesis using inv' f w r absent present unfolding eqs by (auto simp: fun_eq_iff)
qed

definition demo_shared :: "nat opentable" where
  "demo_shared = fst (snd (set_impl demo_table (0x100, 5) (tagged 0x10 True)))"

lemma demo_shared_inv: "table_inv demo_shared"
proof -
  have "fst (set_impl demo_table (0x100, 5) (tagged 0x10 True)) = Some (0x100, 5)" by code_simp
  then have s: "set_impl demo_table (0x100, 5) (tagged 0x10 True) =
      (Some (0x100, 5), demo_shared, snd (snd (set_impl demo_table (0x100, 5) (tagged 0x10 True))))"
    by (simp add: demo_shared_def prod_eq_iff)
  have "valid_ref (tagged 0x10 True)"
    unfolding valid_ref_def
    by (rule exI [of _ "0x10"], rule exI [of _ True]) (simp add: aligned_def flag_mask_15)
  from set_impl_ok(1) [OF demo_table_inv this s] show ?thesis .
qed

lemma demo_exclusive:
  "\<exists>t'. exclusive demo_shared (0x100, 5) 0x10 = Inr (t', [], [])"
proof -
  have "map_sum (\<lambda>e. e) snd (exclusive demo_shared (0x100, 5) 0x10) = Inr ([], [])" by code_simp
  then show ?thesis by (cases "exclusive demo_shared (0x100, 5) 0x10") auto
qed

theorem exclusive_spec_witness:
  "\<exists>t'. exclusive demo_shared (0x100, 5) 0x10 = Inr (t', [], []) \<and> vref demo_shared 5 = tagged 0x10 True \<and>
     vref t' 5 = 0x10 \<and> tfind t' = tfind demo_shared \<and> table_inv t'"
proof -
  obtain t' where e: "exclusive demo_shared (0x100, 5) 0x10 = Inr (t', [], [])"
    using demo_exclusive by blast
  have v: "vref demo_shared 5 = tagged 0x10 True" by code_simp
  have a: "aligned 0x10" by (simp add: aligned_def flag_mask_15)
  from exclusive_spec [OF demo_shared_inv a e] e v show ?thesis by simp
qed

end
