(* ===== verification/Murmur2.thy ===== *)
theory Murmur2
  imports Prelude
begin

text \<open>
  The hash functions of \<open>src/murmur2.cc\<close> on byte lists: \<open>len\<close> is the length of the list, a
  read of a machine word is a little-endian read (the program is built for x86-64), and the
  fall-through switches on the remaining bytes are written out. \<open>MurmurHash64A\<close> is the one the
  table and the version numbers of values use; the file's other variants are claimed to
  compute the same function as \<open>MurmurHash2\<close> and are proved to.
\<close>

section \<open>Little-endian reads\<close>

fun le32 :: "u8 list \<Rightarrow> u32" where
  "le32 [] = 0"
| "le32 (b # bs) = ucast b OR push_bit 8 (le32 bs)"

fun le64 :: "u8 list \<Rightarrow> u64" where
  "le64 [] = 0"
| "le64 (b # bs) = ucast b OR push_bit 8 (le64 bs)"

section \<open>MurmurHash2\<close>

definition mm :: u32 where
  "mm = 0x5bd1e995"

text \<open>The multiply, shift, multiply of one word (also the macros \<open>mmix\<close> and \<open>MIX\<close>), \<open>r = 24\<close>.\<close>

definition mix_k :: "u32 \<Rightarrow> u32" where
  "mix_k k = (let k = k * mm; k = k XOR drop_bit 24 k in k * mm)"

definition MIX :: "u32 \<Rightarrow> u32 \<Rightarrow> u32" where
  "MIX h k = (h * mm) XOR mix_k k"

text \<open>The last 13, multiply, 15 steps that every 32 bit variant ends with.\<close>

definition final_mix :: "u32 \<Rightarrow> u32" where
  "final_mix h = (let h = h XOR drop_bit 13 h; h = h * mm in h XOR drop_bit 15 h)"

fun mh2_loop :: "u32 \<Rightarrow> u8 list \<Rightarrow> u32 \<times> u8 list" where
  "mh2_loop h (b0 # b1 # b2 # b3 # data) = mh2_loop (MIX h (le32 [b0, b1, b2, b3])) data"
| "mh2_loop h data = (h, data)"

text \<open>The switch on the up to three bytes left, falling through from the longest case.\<close>

fun mh2_tail :: "u32 \<Rightarrow> u8 list \<Rightarrow> u32" where
  "mh2_tail h [b0, b1, b2] = (h XOR push_bit 16 (ucast b2) XOR push_bit 8 (ucast b1) XOR ucast b0) * mm"
| "mh2_tail h [b0, b1] = (h XOR push_bit 8 (ucast b1) XOR ucast b0) * mm"
| "mh2_tail h [b0] = (h XOR ucast b0) * mm"
| "mh2_tail h _ = h"

definition MurmurHash2 :: "u8 list \<Rightarrow> u32 \<Rightarrow> u32" where
  "MurmurHash2 key seed =
     (let h = seed XOR of_nat (length key);
          (h, data) = mh2_loop h key
      in final_mix (mh2_tail h data))"

section \<open>MurmurHash64A\<close>

definition m64 :: u64 where
  "m64 = 0xc6a4a7935bd1e995"

definition mix_k64 :: "u64 \<Rightarrow> u64" where
  "mix_k64 k = (let k = k * m64; k = k XOR drop_bit 47 k in k * m64)"

fun mh64a_loop :: "u64 \<Rightarrow> u8 list \<Rightarrow> u64 \<times> u8 list" where
  "mh64a_loop h (b0 # b1 # b2 # b3 # b4 # b5 # b6 # b7 # data) =
     mh64a_loop ((h XOR mix_k64 (le64 [b0, b1, b2, b3, b4, b5, b6, b7])) * m64) data"
| "mh64a_loop h data = (h, data)"

text \<open>The switch on \<open>len & 7\<close>: case \<open>n\<close> starts with byte \<open>n - 1\<close> and falls through to byte 0.\<close>

fun tail64_xor :: "u64 \<Rightarrow> u8 list \<Rightarrow> nat \<Rightarrow> u64" where
  "tail64_xor h data2 0 = h"
| "tail64_xor h data2 (Suc n) = tail64_xor (h XOR push_bit (8 * n) (ucast (data2 ! n))) data2 n"

definition mh64a_tail :: "u64 \<Rightarrow> u8 list \<Rightarrow> u64" where
  "mh64a_tail h data2 = (if data2 = [] then h else tail64_xor h data2 (length data2) * m64)"

definition MurmurHash64A :: "u8 list \<Rightarrow> u64 \<Rightarrow> u64" where
  "MurmurHash64A key seed =
     (let h = seed XOR (of_nat (length key) * m64);
          (h, data2) = mh64a_loop h key;
          h = mh64a_tail h data2;
          h = h XOR drop_bit 47 h;
          h = h * m64
      in h XOR drop_bit 47 h)"

section \<open>MurmurHash64B\<close>

fun mh64b_loop :: "u32 \<Rightarrow> u32 \<Rightarrow> u8 list \<Rightarrow> u32 \<times> u32 \<times> u8 list" where
  "mh64b_loop h1 h2 (a0 # a1 # a2 # a3 # b0 # b1 # b2 # b3 # data) =
     mh64b_loop (MIX h1 (le32 [a0, a1, a2, a3])) (MIX h2 (le32 [b0, b1, b2, b3])) data"
| "mh64b_loop h1 h2 data = (h1, h2, data)"

fun mh64b_word :: "u32 \<Rightarrow> u8 list \<Rightarrow> u32 \<times> u8 list" where
  "mh64b_word h1 (a0 # a1 # a2 # a3 # data) = (MIX h1 (le32 [a0, a1, a2, a3]), data)"
| "mh64b_word h1 data = (h1, data)"

definition MurmurHash64B :: "u8 list \<Rightarrow> u64 \<Rightarrow> u64" where
  "MurmurHash64B key seed =
     (let h1 = ucast seed XOR of_nat (length key) :: u32;
          h2 = ucast (drop_bit 32 seed) :: u32;
          (h1, h2, data) = mh64b_loop h1 h2 key;
          (h1, data) = mh64b_word h1 data;
          h2 = mh2_tail h2 data;
          h1 = (h1 XOR drop_bit 18 h2) * mm;
          h2 = (h2 XOR drop_bit 22 h1) * mm;
          h1 = (h1 XOR drop_bit 17 h2) * mm;
          h2 = (h2 XOR drop_bit 19 h1) * mm;
          h = ucast h1 :: u64
      in push_bit 32 h OR ucast h2)"

section \<open>MurmurHash2A\<close>

fun tail2a :: "u8 list \<Rightarrow> u32" where
  "tail2a [b0, b1, b2] = push_bit 16 (ucast b2) XOR push_bit 8 (ucast b1) XOR ucast b0"
| "tail2a [b0, b1] = push_bit 8 (ucast b1) XOR ucast b0"
| "tail2a [b0] = ucast b0"
| "tail2a _ = 0"

definition MurmurHash2A :: "u8 list \<Rightarrow> u32 \<Rightarrow> u32" where
  "MurmurHash2A key seed =
     (let l = of_nat (length key) :: u32;
          (h, data) = mh2_loop seed key;
          t = tail2a data;
          h = MIX h t;
          h = MIX h l
      in final_mix h)"

section \<open>MurmurHashNeutral2\<close>

fun neutral_loop :: "u32 \<Rightarrow> u8 list \<Rightarrow> u32 \<times> u8 list" where
  "neutral_loop h (b0 # b1 # b2 # b3 # data) =
     (let k = ucast b0;
          k = k OR push_bit 8 (ucast b1);
          k = k OR push_bit 16 (ucast b2);
          k = k OR push_bit 24 (ucast b3)
      in neutral_loop ((h * mm) XOR mix_k k) data)"
| "neutral_loop h data = (h, data)"

definition MurmurHashNeutral2 :: "u8 list \<Rightarrow> u32 \<Rightarrow> u32" where
  "MurmurHashNeutral2 key seed =
     (let h = seed XOR of_nat (length key);
          (h, data) = neutral_loop h key
      in final_mix (mh2_tail h data))"

section \<open>MurmurHashAligned2\<close>

text \<open>
  \<open>align\<close> is the address of the data modulo 4. \<open>load_head\<close> is the switch that pre-loads the
  bytes before the first aligned word, \<open>load_tail n\<close> the one that reads \<open>n\<close> bytes into \<open>d\<close>.
\<close>

definition load_head :: "nat \<Rightarrow> u8 list \<Rightarrow> u32" where
  "load_head align data =
     (let t = 0;
          t = (if align = 1 then t OR push_bit 16 (ucast (data ! 2)) else t);
          t = (if align \<le> 2 then t OR push_bit 8 (ucast (data ! 1)) else t)
      in t OR ucast (data ! 0))"

definition load_tail :: "nat \<Rightarrow> u8 list \<Rightarrow> u32" where
  "load_tail n data =
     (let d = 0;
          d = (if n = 3 then d OR push_bit 16 (ucast (data ! 2)) else d);
          d = (if 2 \<le> n then d OR push_bit 8 (ucast (data ! 1)) else d)
      in if 1 \<le> n then d OR ucast (data ! 0) else d)"

fun aligned_loop :: "nat \<Rightarrow> u32 \<Rightarrow> u32 \<Rightarrow> u8 list \<Rightarrow> u32 \<times> u32 \<times> u8 list" where
  "aligned_loop align h t (b0 # b1 # b2 # b3 # data) =
     (let d = le32 [b0, b1, b2, b3];
          k = drop_bit (8 * align) t OR push_bit (8 * (4 - align)) d
      in aligned_loop align (MIX h k) d data)"
| "aligned_loop align h t data = (h, t, data)"

definition MurmurHashAligned2 :: "nat \<Rightarrow> u8 list \<Rightarrow> u32 \<Rightarrow> u32" where
  "MurmurHashAligned2 align key seed =
     (let h = seed XOR of_nat (length key) in
      if align \<noteq> 0 \<and> 4 \<le> length key then
        (let t = push_bit (8 * align) (load_head align key);
             data = drop (4 - align) key;
             (h, t, data) = aligned_loop align h t data
         in if align \<le> length data then
              (let d = load_tail align data;
                   k = drop_bit (8 * align) t OR push_bit (8 * (4 - align)) d;
                   h = MIX h k;
                   data = drop align data
               in final_mix (mh2_tail h data))
            else
              (let d = load_tail (length data) data;
                   h = (h XOR (drop_bit (8 * align) t OR push_bit (8 * (4 - align)) d)) * mm
               in final_mix h))
      else
        (let (h, data) = mh2_loop h key in final_mix (mh2_tail h data)))"

section \<open>Bits of a little-endian word\<close>

lemma bit_le32:
  "bit (le32 bs) n \<longleftrightarrow> n < 32 \<and> n div 8 < length bs \<and> bit (bs ! (n div 8)) (n mod 8)"
proof (induction bs arbitrary: n)
  case Nil
  then show ?case by simp
next
  case (Cons b bs)
  show ?case
  proof (cases "n < 8")
    case True
    then show ?thesis by (auto simp: bit_simps)
  next
    case False
    then have d: "n div 8 = Suc ((n - 8) div 8)" "n mod 8 = (n - 8) mod 8"
      by (simp_all add: le_div_geq le_mod_geq)
    show ?thesis using False Cons.IH [of "n - 8"] d
      by (auto simp: bit_simps dest: bit_imp_le_length)
  qed
qed

lemma div8_shift: "8 * l \<le> n \<Longrightarrow> n div 8 = l + (n - 8 * l) div 8 \<and> n mod 8 = (n - 8 * l) mod (8 :: nat)"
  by (auto simp: le_iff_add)

lemma div8_less: "n div 8 < l \<longleftrightarrow> n < 8 * (l :: nat)"
  by (simp add: div_less_iff_less_mult mult.commute)

lemma le32_append: "le32 (xs @ ys) = le32 xs OR push_bit (8 * length xs) (le32 ys)"
proof (rule bit_word_eqI)
  fix n assume "n < LENGTH(32)"
  then have n: "n < 32" by simp
  show "bit (le32 (xs @ ys)) n \<longleftrightarrow> bit (le32 xs OR push_bit (8 * length xs) (le32 ys)) n"
  proof (cases "n < 8 * length xs")
    case True
    then show ?thesis using n by (simp add: bit_simps bit_le32 nth_append div8_less)
  next
    case False
    then have "8 * length xs \<le> n" by simp
    from div8_shift [OF this] False n show ?thesis
      by (auto simp: bit_simps bit_le32 nth_append div8_less)
  qed
qed

lemma drop_bit_le32: "length bs \<le> 4 \<Longrightarrow> drop_bit (8 * j) (le32 bs) = le32 (drop j bs)"
proof (rule bit_word_eqI)
  fix n assume l: "length bs \<le> 4" and "n < LENGTH(32)"
  then have n: "n < 32" by simp
  have d: "(8 * j + n) div 8 = j + n div 8" "(8 * j + n) mod 8 = n mod 8" by simp_all
  have "j + n div 8 < length bs \<Longrightarrow> 8 * j + n < 32" using l by linarith
  then show "bit (drop_bit (8 * j) (le32 bs)) n \<longleftrightarrow> bit (le32 (drop j bs)) n"
    using n by (auto simp: bit_simps bit_le32 d less_diff_conv add.commute)
qed

lemma le32_cut: "le32 (bs @ cs) = le32 bs" if "4 \<le> length bs"
proof -
  have "push_bit (8 * length bs) (le32 cs) = 0"
    by (rule bit_word_eqI) (use that in \<open>auto simp: bit_simps\<close>)
  then show ?thesis by (simp add: le32_append)
qed

section \<open>The unaligned word in two registers\<close>

text \<open>
  With \<open>t\<close> holding the word whose last \<open>4 - align\<close> bytes are still to be hashed and \<open>d\<close> the
  next word, the shifted combination is the word that starts with those bytes.
\<close>

lemma combine_words:
  assumes a: "a \<le> 4" and t: "length ts = 4"
  shows "drop_bit (8 * a) (le32 ts) OR push_bit (8 * (4 - a)) (le32 ds) = le32 (drop a ts @ ds)"
proof -
  have "drop_bit (8 * a) (le32 ts) = le32 (drop a ts)"
    by (rule drop_bit_le32) (simp add: t)
  moreover have "push_bit (8 * (4 - a)) (le32 ds) = push_bit (8 * length (drop a ts)) (le32 ds)"
    using t by simp
  ultimately show ?thesis by (simp only: le32_append)
qed

lemma load_head_le32:
  assumes "align \<in> {1, 2, 3}" "4 \<le> length key"
  shows "push_bit (8 * align) (load_head align key) = le32 (replicate align 0 @ take (4 - align) key)"
proof -
  obtain b0 b1 b2 b3 rest where k: "key = b0 # b1 # b2 # b3 # rest"
    using assms(2) by (auto simp: numeral_eq_Suc Suc_le_length_iff)
  have z: "le32 (replicate n 0) = 0" for n by (induction n) auto
  have l: "load_head align key = le32 (take (4 - align) key)"
    using assms(1) by (auto simp: load_head_def k Let_def push_bit_or ac_simps)
  show ?thesis by (simp add: le32_append z l)
qed

lemma load_tail_le32:
  assumes "n \<le> 3" "n \<le> length data"
  shows "load_tail n data = le32 (take n data)"
proof -
  consider "n = 0" | b0 rest where "n = 1" "data = b0 # rest"
    | b0 b1 rest where "n = 2" "data = b0 # b1 # rest"
    | b0 b1 b2 rest where "n = 3" "data = b0 # b1 # b2 # rest"
    using assms by (cases n; cases data; cases "tl data"; cases "tl (tl data)")
      (auto simp: numeral_eq_Suc le_Suc_eq Suc_le_length_iff)
  then show ?thesis
    by cases (simp_all add: load_tail_def Let_def push_bit_or ac_simps)
qed

section \<open>Words and tails\<close>

lemma list4: "length w = 4 \<Longrightarrow> \<exists>b0 b1 b2 b3. w = [b0, b1, b2, b3]"
  by (auto simp: numeral_eq_Suc length_Suc_conv)

lemma mh2_loop_word: "length w = 4 \<Longrightarrow> mh2_loop h (w @ data) = mh2_loop (MIX h (le32 w)) data"
  by (auto dest!: list4)

lemma mh2_loop_short: "length data < 4 \<Longrightarrow> mh2_loop h data = (h, data)"
  by (cases "(h, data)" rule: mh2_loop.cases) auto

lemma or_disjoint_xor: "ucast (b :: u8) OR push_bit 8 x = ucast b XOR push_bit 8 (x :: u32)"
  by (rule bit_word_eqI) (auto simp: bit_simps dest: bit_imp_le_length)

lemma le32_xor: "le32 (b # bs) = ucast b XOR push_bit 8 (le32 bs)"
  by (simp add: or_disjoint_xor)

lemma mh2_tail_xor: "data \<noteq> [] \<Longrightarrow> length data < 4 \<Longrightarrow> mh2_tail h data = (h XOR le32 data) * mm"
  by (cases "(h, data)" rule: mh2_tail.cases)
     (auto simp: le32_xor push_bit_xor ac_simps simp del: le32.simps(2))

lemma neutral_loop_mh2: "neutral_loop h data = mh2_loop h data"
  by (induction h data rule: neutral_loop.induct)
     (simp_all add: MIX_def push_bit_or ac_simps Let_def)

lemma aligned_loop_mh2:
  assumes "a \<in> {1, 2, 3}" "length ts = 4" "t = le32 ts" "aligned_loop a h t data = (h', t', data')"
  shows "\<exists>ts'. length ts' = 4 \<and> t' = le32 ts' \<and> length data' < 4 \<and>
    mh2_loop h (drop a ts @ data) = mh2_loop h' (drop a ts' @ data')"
  using assms
proof (induction a h t data arbitrary: ts rule: aligned_loop.induct)
  case (1 align h t b0 b1 b2 b3 data ts)
  let ?bs = "[b0, b1, b2, b3]"
  let ?w = "drop align ts @ take align ?bs"
  have a: "align \<le> 4" using "1.prems"(1) by auto
  have lw: "length ?w = 4" using "1.prems"(1,2) by auto
  have k: "drop_bit (8 * align) (le32 ts) OR push_bit (8 * (4 - align)) (le32 ?bs) = le32 ?w"
  proof -
    have "drop align ts @ ?bs = ?w @ drop align ?bs"
      by (simp only: append_assoc append_take_drop_id)
    then show ?thesis
      unfolding combine_words [OF a "1.prems"(2)] using le32_cut [of ?w "drop align ?bs"] lw by simp
  qed
  have e: "drop align ts @ b0 # b1 # b2 # b3 # data = ?w @ (drop align ?bs @ data)"
    using append_take_drop_id [of align ?bs] by (metis append.assoc append_Cons append_Nil)
  have "aligned_loop align (MIX h (le32 ?w)) (le32 ?bs) data = (h', t', data')"
    using "1.prems"(3,4) k by (simp add: Let_def del: le32.simps)
  then obtain ts' where ts': "length ts' = 4" "t' = le32 ts'" "length data' < 4"
    "mh2_loop (MIX h (le32 ?w)) (drop align ?bs @ data) = mh2_loop h' (drop align ts' @ data')"
    using "1.IH" [OF refl refl "1.prems"(1), of ?bs] k "1.prems"(3) by auto
  have "mh2_loop h (drop align ts @ b0 # b1 # b2 # b3 # data)
      = mh2_loop (MIX h (le32 ?w)) (drop align ?bs @ data)"
    unfolding e by (rule mh2_loop_word [OF lw])
  with ts' show ?case by metis
qed auto

section \<open>Properties\<close>

text \<open>
  C18: \<open>MurmurHashNeutral2\<close>, which reads its input byte by byte, computes \<open>MurmurHash2\<close>, and so
  does \<open>MurmurHashAligned2\<close>, which reads only aligned words and stitches them together in two
  registers, for every alignment of the data, every length and every seed.
\<close>

theorem murmur_variants_agree:
  assumes "align < 4"
  shows "MurmurHashNeutral2 key seed = MurmurHash2 key seed \<and>
    MurmurHashAligned2 align key seed = MurmurHash2 key seed"
proof
  show "MurmurHashNeutral2 key seed = MurmurHash2 key seed"
    by (simp add: MurmurHashNeutral2_def MurmurHash2_def neutral_loop_mh2)
  show "MurmurHashAligned2 align key seed = MurmurHash2 key seed"
  proof (cases "align \<noteq> 0 \<and> 4 \<le> length key")
    case False
    then show ?thesis by (auto simp: MurmurHashAligned2_def MurmurHash2_def)
  next
    case True
    then have a: "align \<in> {1, 2, 3}" using assms by auto
    let ?h = "seed XOR of_nat (length key) :: u32"
    let ?ts = "replicate align 0 @ take (4 - align) key"
    have ts: "length ?ts = 4" using True assms by (auto simp: min_def)
    have d: "drop align ?ts @ drop (4 - align) key = key" by simp
    obtain h' t' data' where al: "aligned_loop align ?h (le32 ?ts) (drop (4 - align) key) = (h', t', data')"
      by (cases "aligned_loop align ?h (le32 ?ts) (drop (4 - align) key)")
    obtain ts' where ts': "length ts' = 4" "t' = le32 ts'" "length data' < 4"
      and eq: "mh2_loop ?h key = mh2_loop h' (drop align ts' @ data')"
      using aligned_loop_mh2 [OF a ts refl al] unfolding d by blast
    have cw: "drop_bit (8 * align) t' OR push_bit (8 * (4 - align)) (le32 ds) = le32 (drop align ts' @ ds)" for ds
      using combine_words [of align ts' ds] ts' assms by simp
    show ?thesis
    proof (cases "align \<le> length data'")
      case True
      let ?w = "drop align ts' @ take align data'"
      have lw: "length ?w = 4" using True ts' assms by simp
      have "mh2_loop ?h key = (MIX h' (le32 ?w), drop align data')"
        using mh2_loop_word [OF lw, of h' "drop align data'"] mh2_loop_short [of "drop align data'"] ts'(3) eq
        by simp
      moreover have "load_tail align data' = le32 (take align data')"
        by (rule load_tail_le32) (use True assms in auto)
      ultimately show ?thesis
        using \<open>align \<noteq> 0 \<and> 4 \<le> length key\<close> True al cw load_head_le32 [OF a]
        by (simp add: MurmurHashAligned2_def MurmurHash2_def Let_def)
    next
      case False
      let ?r = "drop align ts' @ data'"
      have r: "?r \<noteq> []" "length ?r < 4" using False ts' assms by auto
      have "load_tail (length data') data' = le32 data'"
        using load_tail_le32 [of "length data'" data'] ts'(3) by simp
      moreover have "mh2_loop ?h key = (h', ?r)" using eq mh2_loop_short [OF r(2)] by simp
      ultimately show ?thesis
        using \<open>align \<noteq> 0 \<and> 4 \<le> length key\<close> False al cw load_head_le32 [OF a] mh2_tail_xor [OF r]
        by (simp add: MurmurHashAligned2_def MurmurHash2_def Let_def)
    qed
  qed
qed

theorem murmur_variants_agree_witness:
  "(3 :: nat) < 4 \<and> MurmurHashNeutral2 [104, 101, 108, 108, 111, 33] 7 = MurmurHash2 [104, 101, 108, 108, 111, 33] 7 \<and>
   MurmurHashAligned2 3 [104, 101, 108, 108, 111, 33] 7 = MurmurHash2 [104, 101, 108, 108, 111, 33] 7"
  using murmur_variants_agree [of 3 "[104, 101, 108, 108, 111, 33]" 7] by simp

end
