(* ===== verification/Mem.thy ===== *)
theory Mem
  imports Murmur2
begin

text \<open>
  Values in memory: \<open>src/mem.h\<close>, \<open>src/mem.cc\<close>, \<open>src/rope.h\<close> and \<open>src/const_rope.{h,cc}\<close>. A value is
  a chain of malloc'ed chunks linked through \<open>next\<close>; a rope is the pair of its first and last
  chunk. The heap maps addresses to chunks; reading address 0 or an address that is not
  allocated is an error value, and a walk along a cyclic chain never returns.
\<close>

section \<open>Chunks\<close>

record mem =
  m_magic :: u32
  m_next :: addr
  m_size :: "32 word"
  m_data :: bytes

type_synonym mem_heap = "addr \<rightharpoonup> mem"

definition MEM_MAGIC :: u32 where
  "MEM_MAGIC = 0xabcd1234"

definition mread :: "mem_heap \<Rightarrow> addr \<Rightarrow> mem res" where
  "mread h a = (if a = 0 then Inl NullDeref else case h a of None \<Rightarrow> Inl BadPtr | Some m \<Rightarrow> Inr m)"

text \<open>The bytes \<open>data[0 .. size)\<close> of a chunk; reading past the allocated block is an error.\<close>

definition mem_bytes :: "mem \<Rightarrow> bytes res" where
  "mem_bytes m =
     (if 0 \<le> sint (m_size m) \<and> nat (sint (m_size m)) \<le> length (m_data m)
      then Inr (take (nat (sint (m_size m))) (m_data m)) else Inl BadPtr)"

text \<open>\<open>memcpy(m->data, bs, n)\<close>: the start of a chunk is written.\<close>

definition mem_store :: "mem \<Rightarrow> bytes \<Rightarrow> mem res" where
  "mem_store m bs =
     (if length bs \<le> length (m_data m) then Inr (m\<lparr>m_data := bs @ drop (length bs) (m_data m)\<rparr>) else Inl BadPtr)"

partial_function (option) mem_tail_loop :: "mem_heap \<Rightarrow> addr \<Rightarrow> addr res option" where
  "mem_tail_loop h head =
     (case mread h head of
        Inl e \<Rightarrow> Some (Inl e)
      | Inr m \<Rightarrow> if m_next m \<noteq> 0 then mem_tail_loop h (m_next m) else Some (Inr head))"

declare mem_tail_loop.simps [code]

definition mem_tail :: "mem_heap \<Rightarrow> addr \<Rightarrow> addr res" where
  "mem_tail h head = outcome (mem_tail_loop h head)"

text \<open>\<open>a\<close> and \<open>raw\<close> are the address and the (uninitialised) bytes that \<open>malloc\<close> returns.\<close>

definition mem_alloc :: "addr \<Rightarrow> bytes \<Rightarrow> u64 \<Rightarrow> mem_heap \<Rightarrow> mem_heap" where
  "mem_alloc a raw sz h =
     h(a \<mapsto> \<lparr>m_magic = MEM_MAGIC, m_next = 0, m_size = ucast sz, m_data = raw\<rparr>)"

partial_function (option) mem_free_loop :: "mem_heap \<Rightarrow> addr \<Rightarrow> mem_heap res option" where
  "mem_free_loop h m =
     (if m = 0 then Some (Inr h)
      else case mread h m of
        Inl e \<Rightarrow> Some (Inl e)
      | Inr c \<Rightarrow> mem_free_loop (h(m := None)) (m_next c))"

declare mem_free_loop.simps [code]

definition mem_free :: "mem_heap \<Rightarrow> addr \<Rightarrow> mem_heap res" where
  "mem_free h m =
     rbind (mread h m) (\<lambda>c.
     rbind (require (m_magic c = MEM_MAGIC) AssertFailed) (\<lambda>_.
     outcome (mem_free_loop h m)))"

partial_function (option) mem_size_rec :: "mem_heap \<Rightarrow> addr \<Rightarrow> addr \<Rightarrow> u64 res option" where
  "mem_size_rec h head tail =
     (if head = tail
      then (if head = 0 then Some (Inr 0) else Some (rbind (mread h head) (\<lambda>m. Inr (scast (m_size m)))))
      else case mread h head of
        Inl e \<Rightarrow> Some (Inl e)
      | Inr m \<Rightarrow> Option.bind (mem_size_rec h (m_next m) tail)
                  (\<lambda>r. Some (rbind r (\<lambda>s. Inr (scast (m_size m) + s)))))"

declare mem_size_rec.simps [code]

definition mem_size :: "mem_heap \<Rightarrow> addr \<Rightarrow> addr \<Rightarrow> u64 res" where
  "mem_size h head tail = outcome (mem_size_rec h head tail)"

section \<open>Ropes\<close>

record rope =
  r_head :: addr
  r_tail :: addr

definition rope_size :: "mem_heap \<Rightarrow> rope \<Rightarrow> u64 res" where
  "rope_size h r = mem_size h (r_head r) (r_tail r)"

partial_function (option) cr_size_loop :: "mem_heap \<Rightarrow> addr \<Rightarrow> addr \<Rightarrow> u64 \<Rightarrow> u64 res option" where
  "cr_size_loop h m tail s =
     (if m = tail then Some (Inr s)
      else case mread h m of
        Inl e \<Rightarrow> Some (Inl e)
      | Inr c \<Rightarrow> (case mread h (m_next c) of
          Inl e \<Rightarrow> Some (Inl e)
        | Inr n \<Rightarrow> cr_size_loop h (m_next c) tail (s + scast (m_size n))))"

declare cr_size_loop.simps [code]

definition const_rope_size :: "mem_heap \<Rightarrow> rope \<Rightarrow> u64 res" where
  "const_rope_size h r =
     rbind (mread h (r_head r)) (\<lambda>m.
     outcome (cr_size_loop h (r_head r) (r_tail r) (scast (m_size m))))"

definition hash_chunk :: "mem \<Rightarrow> u64 \<Rightarrow> u64 res" where
  "hash_chunk m seed = rbind (mem_bytes m) (\<lambda>bs. Inr (MurmurHash64A (map of_char bs) seed))"

partial_function (option) cr_hash_loop :: "mem_heap \<Rightarrow> addr \<Rightarrow> addr \<Rightarrow> u64 \<Rightarrow> u64 res option" where
  "cr_hash_loop h m tail hash =
     (if m = tail then Some (Inr hash)
      else case mread h m of
        Inl e \<Rightarrow> Some (Inl e)
      | Inr c \<Rightarrow> (case rbind (mread h (m_next c)) (\<lambda>n. hash_chunk n hash) of
          Inl e \<Rightarrow> Some (Inl e)
        | Inr hash \<Rightarrow> cr_hash_loop h (m_next c) tail hash))"

declare cr_hash_loop.simps [code]

definition const_rope_hash :: "mem_heap \<Rightarrow> rope \<Rightarrow> u64 \<Rightarrow> u64 res" where
  "const_rope_hash h r seed =
     rbind (mread h (r_head r)) (\<lambda>m.
     rbind (hash_chunk m seed) (\<lambda>hash.
     outcome (cr_hash_loop h (r_head r) (r_tail r) hash)))"

definition const_rope_pop :: "mem_heap \<Rightarrow> rope \<Rightarrow> (addr \<times> rope) res" where
  "const_rope_pop h r =
     (let m = r_head r in
      if m = r_tail r then Inr (m, \<lparr>r_head = 0, r_tail = 0\<rparr>)
      else rbind (mread h m) (\<lambda>c. Inr (m, r\<lparr>r_head := m_next c\<rparr>)))"

text \<open>The loop \<open>while (const mem *m = rope.pop())\<close> that sends a value chunk by chunk.\<close>

partial_function (option) drain_loop :: "mem_heap \<Rightarrow> rope \<Rightarrow> bytes \<Rightarrow> bytes res option" where
  "drain_loop h r acc =
     (case const_rope_pop h r of
        Inl e \<Rightarrow> Some (Inl e)
      | Inr (m, r') \<Rightarrow>
          if m = 0 then Some (Inr acc)
          else (case rbind (mread h m) mem_bytes of
                  Inl e \<Rightarrow> Some (Inl e)
                | Inr bs \<Rightarrow> drain_loop h r' (acc @ bs)))"

declare drain_loop.simps [code]

definition drain :: "mem_heap \<Rightarrow> rope \<Rightarrow> bytes res" where
  "drain h r = outcome (drain_loop h r [])"

section \<open>Chains\<close>

text \<open>A well-formed chunk, its bytes, and a chain: the addresses of linked chunks in order.\<close>

definition chunk_ok :: "mem \<Rightarrow> bool" where
  "chunk_ok m \<longleftrightarrow> m_magic m = MEM_MAGIC \<and> 0 \<le> sint (m_size m) \<and> nat (sint (m_size m)) \<le> length (m_data m)"

definition chunk :: "mem \<Rightarrow> bytes" where
  "chunk m = take (nat (sint (m_size m))) (m_data m)"

fun seg :: "mem_heap \<Rightarrow> addr list \<Rightarrow> bool" where
  "seg h [] \<longleftrightarrow> True"
| "seg h (x # xs) \<longleftrightarrow> x \<noteq> 0 \<and> (\<exists>m. h x = Some m \<and> chunk_ok m \<and> (xs \<noteq> [] \<longrightarrow> m_next m = hd xs)) \<and> seg h xs"

definition chain :: "mem_heap \<Rightarrow> addr \<Rightarrow> addr \<Rightarrow> addr list \<Rightarrow> bool" where
  "chain h head tail xs \<longleftrightarrow> xs \<noteq> [] \<and> distinct xs \<and> seg h xs \<and> hd xs = head \<and> last xs = tail"

definition ends :: "mem_heap \<Rightarrow> addr list \<Rightarrow> bool" where
  "ends h xs \<longleftrightarrow> m_next (the (h (last xs))) = 0"

definition chunks :: "mem_heap \<Rightarrow> addr list \<Rightarrow> bytes list" where
  "chunks h xs = map (\<lambda>x. chunk (the (h x))) xs"

definition contents :: "mem_heap \<Rightarrow> addr list \<Rightarrow> bytes" where
  "contents h xs = concat (chunks h xs)"

section \<open>Lemmas\<close>

lemma mread_Some [simp, heap_simps]: "h a = Some m \<Longrightarrow> a \<noteq> 0 \<Longrightarrow> mread h a = Inr m"
  by (simp add: mread_def)

lemma mread_0 [simp, heap_simps]: "mread h 0 = Inl NullDeref"
  by (simp add: mread_def)

lemma mem_bytes_ok [simp, heap_simps]: "chunk_ok m \<Longrightarrow> mem_bytes m = Inr (chunk m)"
  by (simp add: mem_bytes_def chunk_ok_def chunk_def)

lemma scast_size: "chunk_ok m \<Longrightarrow> (scast (m_size m) :: u64) = of_nat (length (chunk m))"
  by (simp add: chunk_ok_def chunk_def min.absorb2)

lemma seg_hd: "seg h (x # xs) \<Longrightarrow> \<exists>m. h x = Some m \<and> x \<noteq> 0 \<and> chunk_ok m \<and> (xs \<noteq> [] \<longrightarrow> m_next m = hd xs)"
  by auto

lemma seg_in: "seg h xs \<Longrightarrow> x \<in> set xs \<Longrightarrow> x \<noteq> 0 \<and> (\<exists>m. h x = Some m \<and> chunk_ok m)"
  by (induction xs) auto

lemma seg_upd [simp, heap_simps]: "a \<notin> set xs \<Longrightarrow> seg (h(a := v)) xs = seg h xs"
  by (induction xs) auto

lemma chunks_upd [simp, heap_simps]: "a \<notin> set xs \<Longrightarrow> chunks (h(a := v)) xs = chunks h xs"
  by (auto simp: chunks_def)

lemma contents_upd [simp, heap_simps]: "a \<notin> set xs \<Longrightarrow> contents (h(a := v)) xs = contents h xs"
  by (simp add: contents_def)

lemma contents_simps [simp, heap_simps]:
  "contents h [] = []" "contents h (x # xs) = chunk (the (h x)) @ contents h xs"
  "contents h (xs @ ys) = contents h xs @ contents h ys"
  by (simp_all add: contents_def chunks_def)

lemma seg_append:
  "seg h (xs @ ys) \<longleftrightarrow> seg h xs \<and> seg h ys \<and> (xs \<noteq> [] \<and> ys \<noteq> [] \<longrightarrow> m_next (the (h (last xs))) = hd ys)"
  by (induction xs) auto

text \<open>Walking to the end of a chain.\<close>

lemma mem_tail_loop_seg:
  "seg h (x # xs) \<Longrightarrow> ends h (x # xs) \<Longrightarrow> mem_tail_loop h x = Some (Inr (last (x # xs)))"
proof (induction xs arbitrary: x)
  case Nil
  then show ?case by (auto simp: mem_tail_loop.simps ends_def)
next
  case (Cons y ys)
  then obtain m where "h x = Some m" "x \<noteq> 0" "m_next m = y" by auto
  moreover have "y \<noteq> 0" using Cons.prems by auto
  ultimately show ?case
    using Cons.IH [of y] Cons.prems by (subst mem_tail_loop.simps) (simp add: ends_def)
qed

lemma mem_tail_chain: "chain h head tail xs \<Longrightarrow> ends h xs \<Longrightarrow> mem_tail h head = Inr tail"
  by (cases xs) (auto simp: chain_def mem_tail_def mem_tail_loop_seg simp del: seg.simps)

text \<open>Adding up sizes, up to and including the tail or up to the null pointer.\<close>

lemma mem_size_rec_seg:
  "seg h (x # xs) \<Longrightarrow> distinct (x # xs) \<Longrightarrow>
   mem_size_rec h x (last (x # xs)) = Some (Inr (of_nat (length (contents h (x # xs)))))"
proof (induction xs arbitrary: x)
  case Nil
  then show ?case by (auto simp: mem_size_rec.simps scast_size)
next
  case (Cons y ys)
  then obtain m where m: "h x = Some m" "x \<noteq> 0" "chunk_ok m" "m_next m = y" by auto
  moreover have "x \<noteq> last (y # ys)" using Cons.prems(2) last_in_set [of "y # ys"] by (metis distinct.simps(2) list.distinct(1))
  ultimately show ?case
    using Cons.IH [of y] Cons.prems by (subst mem_size_rec.simps) (simp add: scast_size)
qed

lemma mem_size_rec_null:
  "seg h (x # xs) \<Longrightarrow> ends h (x # xs) \<Longrightarrow>
   mem_size_rec h x 0 = Some (Inr (of_nat (length (contents h (x # xs)))))"
proof (induction xs arbitrary: x)
  case Nil
  then obtain m where "h x = Some m" "x \<noteq> 0" "chunk_ok m" "m_next m = 0" by (auto simp: ends_def)
  moreover have "mem_size_rec h 0 0 = Some (Inr 0)" by (simp add: mem_size_rec.simps)
  ultimately show ?case by (subst mem_size_rec.simps) (simp add: scast_size)
next
  case (Cons y ys)
  then obtain m where m: "h x = Some m" "x \<noteq> 0" "chunk_ok m" "m_next m = y" by auto
  then show ?case
    using Cons.IH [of y] Cons.prems by (subst mem_size_rec.simps) (simp add: scast_size ends_def)
qed

lemma mem_size_chain:
  assumes "chain h head tail xs"
  shows "mem_size h head tail = Inr (of_nat (length (contents h xs)))"
    and "ends h xs \<Longrightarrow> mem_size h head 0 = Inr (of_nat (length (contents h xs)))"
proof -
  obtain x ys where "xs = x # ys" using assms by (cases xs) (auto simp: chain_def)
  then show "mem_size h head tail = Inr (of_nat (length (contents h xs)))"
    "ends h xs \<Longrightarrow> mem_size h head 0 = Inr (of_nat (length (contents h xs)))"
    using mem_size_rec_seg [of h x ys] mem_size_rec_null [of h x ys] assms
    by (auto simp: chain_def mem_size_def simp del: seg.simps contents_simps)
qed

lemma cr_size_loop_seg:
  "seg h (x # xs) \<Longrightarrow> distinct (x # xs) \<Longrightarrow>
   cr_size_loop h x (last (x # xs)) s = Some (Inr (s + of_nat (length (contents h xs))))"
proof (induction xs arbitrary: x s)
  case Nil
  then show ?case by (simp add: cr_size_loop.simps)
next
  case (Cons y ys)
  then obtain m n where m: "h x = Some m" "x \<noteq> 0" "m_next m = y" "h y = Some n" "y \<noteq> 0" "chunk_ok n" by auto
  moreover have "x \<noteq> last (y # ys)" using Cons.prems(2) last_in_set [of "y # ys"] by (metis distinct.simps(2) list.distinct(1))
  ultimately show ?case
    using Cons.IH [of y] Cons.prems by (subst cr_size_loop.simps) (simp add: scast_size add.assoc)
qed

definition hash_chunks :: "bytes list \<Rightarrow> u64 \<Rightarrow> u64" where
  "hash_chunks cs seed = foldl (\<lambda>s c. MurmurHash64A (map of_char c) s) seed cs"

lemma hash_chunk_ok [simp]: "chunk_ok m \<Longrightarrow> hash_chunk m seed = Inr (hash_chunks [chunk m] seed)"
  by (simp add: hash_chunk_def hash_chunks_def)

lemma cr_hash_loop_seg:
  "seg h (x # xs) \<Longrightarrow> distinct (x # xs) \<Longrightarrow>
   cr_hash_loop h x (last (x # xs)) s = Some (Inr (hash_chunks (chunks h xs) s))"
proof (induction xs arbitrary: x s)
  case Nil
  then show ?case by (simp add: cr_hash_loop.simps hash_chunks_def chunks_def)
next
  case (Cons y ys)
  then obtain m n where m: "h x = Some m" "x \<noteq> 0" "m_next m = y" "h y = Some n" "y \<noteq> 0" "chunk_ok n" by auto
  moreover have "x \<noteq> last (y # ys)" using Cons.prems(2) last_in_set [of "y # ys"] by (metis distinct.simps(2) list.distinct(1))
  ultimately show ?case
    using Cons.IH [of y] Cons.prems by (subst cr_hash_loop.simps) (simp add: hash_chunks_def chunks_def)
qed

lemma chainE:
  assumes "chain h head tail xs"
  obtains x ys m where "xs = x # ys" "head = x" "tail = last (x # ys)" "seg h (x # ys)" "distinct (x # ys)"
    "h x = Some m" "x \<noteq> 0" "chunk_ok m"
  using assms seg_hd by (cases xs) (force simp: chain_def)+

lemma const_rope_size_chain:
  assumes "chain h (r_head r) (r_tail r) xs"
  shows "const_rope_size h r = Inr (of_nat (length (contents h xs)))"
  using assms
proof (rule chainE)
  fix x ys m
  assume c: "xs = x # ys" "r_head r = x" "r_tail r = last (x # ys)" "seg h (x # ys)" "distinct (x # ys)"
    and m: "h x = Some m" "x \<noteq> 0" "chunk_ok m"
  show ?thesis
    unfolding const_rope_size_def c(1) c(2) c(3)
    using m cr_size_loop_seg [OF c(4,5)] by (simp add: scast_size del: last.simps)
qed

lemma const_rope_hash_chain:
  assumes "chain h (r_head r) (r_tail r) xs"
  shows "const_rope_hash h r seed = Inr (hash_chunks (chunks h xs) seed)"
  using assms
proof (rule chainE)
  fix x ys m
  assume c: "xs = x # ys" "r_head r = x" "r_tail r = last (x # ys)" "seg h (x # ys)" "distinct (x # ys)"
    and m: "h x = Some m" "x \<noteq> 0" "chunk_ok m"
  show ?thesis
    unfolding const_rope_hash_def c(1) c(2) c(3)
    using m cr_hash_loop_seg [OF c(4,5)] by (simp add: hash_chunks_def chunks_def del: last.simps)
qed

lemma drain_null: "drain_loop h \<lparr>r_head = 0, r_tail = 0\<rparr> acc = Some (Inr acc)"
  by (simp add: drain_loop.simps const_rope_pop_def)

lemma drain_loop_seg:
  "seg h (x # xs) \<Longrightarrow> distinct (x # xs) \<Longrightarrow>
   drain_loop h \<lparr>r_head = x, r_tail = last (x # xs)\<rparr> acc = Some (Inr (acc @ contents h (x # xs)))"
proof (induction xs arbitrary: x acc)
  case Nil
  then obtain m where "h x = Some m" "x \<noteq> 0" "chunk_ok m" by auto
  then show ?case by (subst drain_loop.simps) (simp add: const_rope_pop_def drain_null)
next
  case (Cons y ys)
  then obtain m where m: "h x = Some m" "x \<noteq> 0" "chunk_ok m" "m_next m = y" by auto
  moreover have "x \<noteq> last (y # ys)" using Cons.prems(2) last_in_set [of "y # ys"] by (metis distinct.simps(2) list.distinct(1))
  ultimately show ?case
    using Cons.IH [of y] Cons.prems by (subst drain_loop.simps) (simp add: const_rope_pop_def)
qed

lemma drain_chain:
  assumes "chain h (r_head r) (r_tail r) xs"
  shows "drain h r = Inr (contents h xs)"
proof -
  obtain x ys where xs: "xs = x # ys" using assms by (cases xs) (auto simp: chain_def)
  have r: "r = \<lparr>r_head = x, r_tail = last (x # ys)\<rparr>" using assms xs by (cases r) (simp add: chain_def)
  show ?thesis
    unfolding drain_def using drain_loop_seg [of h x ys "[]"] assms xs r by (simp add: chain_def del: seg.simps)
qed

lemma mem_free_loop_seg:
  "seg h (x # xs) \<Longrightarrow> distinct (x # xs) \<Longrightarrow> ends h (x # xs) \<Longrightarrow>
   mem_free_loop h x = Some (Inr (h |` (- set (x # xs))))"
proof (induction xs arbitrary: x h)
  case Nil
  then obtain m where "h x = Some m" "x \<noteq> 0" "m_next m = 0" by (auto simp: ends_def)
  moreover have "mem_free_loop g 0 = Some (Inr g)" for g by (simp add: mem_free_loop.simps)
  moreover have "h(x := None) = h |` (- {x})" by (simp add: restrict_complement_singleton_eq)
  ultimately show ?case by (subst mem_free_loop.simps) simp
next
  case (Cons y ys)
  then obtain m where m: "h x = Some m" "x \<noteq> 0" "m_next m = y" by auto
  have "last (y # ys) \<noteq> x" using Cons.prems(2) last_in_set [of "y # ys"] by (metis distinct.simps(2) list.distinct(1))
  then have e: "ends (h(x := None)) (y # ys)" using Cons.prems(3) by (simp add: ends_def)
  have s: "seg (h(x := None)) (y # ys)"
    using Cons.prems by (subst seg_upd) simp_all
  have "mem_free_loop (h(x := None)) y = Some (Inr (h(x := None) |` (- set (y # ys))))"
    by (rule Cons.IH [OF s _ e]) (use Cons.prems(2) in simp)
  moreover have "h(x := None) |` (- set (y # ys)) = h |` (- set (x # y # ys))"
    by (rule ext) (auto simp: restrict_map_def)
  ultimately show ?case using m by (subst mem_free_loop.simps) simp
qed

lemma mem_free_chain:
  assumes "chain h head tail xs" "ends h xs"
  shows "mem_free h head = Inr (h |` (- set xs))"
proof -
  obtain x ys where xs: "xs = x # ys" using assms by (cases xs) (auto simp: chain_def)
  then obtain m where m: "h x = Some m" "x \<noteq> 0" "chunk_ok m" using assms by (auto simp: chain_def)
  then show ?thesis
    using mem_free_loop_seg [of h x ys] assms xs by (auto simp: chain_def mem_free_def chunk_ok_def simp del: seg.simps)
qed

text \<open>A single fresh chunk is a chain.\<close>

lemma chain_single:
  "h a = Some m \<Longrightarrow> a \<noteq> 0 \<Longrightarrow> chunk_ok m \<Longrightarrow> m_next m = 0 \<Longrightarrow> chain h a a [a] \<and> ends h [a] \<and> contents h [a] = chunk m"
  by (simp add: chain_def ends_def)

lemma chain_addrs: "chain h head tail xs \<Longrightarrow> set xs \<subseteq> dom h \<and> 0 \<notin> set xs \<and> head \<in> set xs \<and> tail \<in> set xs"
  using seg_in [of h xs] by (auto simp: chain_def)

lemma chain_upd [simp, heap_simps]: "a \<notin> set xs \<Longrightarrow> chain (h(a := v)) head tail xs = chain h head tail xs"
  by (simp add: chain_def)

lemma ends_upd [simp, heap_simps]: "a \<noteq> last xs \<Longrightarrow> ends (h(a := v)) xs = ends h xs"
  by (simp add: ends_def)

lemma chain_restrict:
  "set xs \<inter> ys = {} \<Longrightarrow> chain (h |` (- ys)) head tail xs = chain h head tail xs"
proof -
  assume d: "set xs \<inter> ys = {}"
  have "seg (h |` (- ys)) zs = seg h zs" if "set zs \<inter> ys = {}" for zs
    using that by (induction zs) (auto simp: restrict_map_def)
  then show ?thesis using d by (simp add: chain_def)
qed

end
