(* ===== verification/Entry.thy ===== *)
theory Entry
  imports Mem
begin

text \<open>
  Entries: \<open>src/entry.h\<close>, \<open>src/entry.cc\<close> and the timestamps of \<open>src/atime.h\<close>. An entry holds
  the flags, the expiry time and the chain of chunks of one value. Its methods work on the heap
  of chunks and on the entry itself; a compare-and-swap loop is one atomic step, which succeeds.
  The clock (\<open>now\<close>), the address and the raw bytes that \<open>malloc\<close> returns are arguments.
\<close>

section \<open>The class entry\<close>

record entry =
  e_flags :: u32
  e_exptime :: u32
  e_head :: addr
  e_tail :: addr
  e_atime :: int
  e_mtime :: int
  e_deleted :: bool

definition update_atime_every :: int where
  "update_atime_every = 8"

definition entry_new :: "u32 \<Rightarrow> u32 \<Rightarrow> rope \<Rightarrow> int \<Rightarrow> entry" where
  "entry_new flags exptime r now =
     \<lparr>e_flags = flags, e_exptime = exptime, e_head = r_head r, e_tail = r_tail r,
      e_atime = now, e_mtime = now, e_deleted = False\<rparr>"

definition set_next :: "mem_heap \<Rightarrow> addr \<Rightarrow> addr \<Rightarrow> mem_heap res" where
  "set_next h a nxt = rbind (mread h a) (\<lambda>m. Inr (h(a \<mapsto> m\<lparr>m_next := nxt\<rparr>)))"

definition entry_delete :: "mem_heap \<Rightarrow> entry \<Rightarrow> mem_heap res" where
  "entry_delete h e = rbind (require (\<not> e_deleted e) AssertFailed) (\<lambda>_. mem_free h (e_head e))"

definition entry_append :: "int \<Rightarrow> mem_heap \<Rightarrow> entry \<Rightarrow> rope \<Rightarrow> (mem_heap \<times> entry) res" where
  "entry_append now h e a =
     (let old = e_tail e; e = e\<lparr>e_tail := r_tail a\<rparr> in
      rbind (mread h old) (\<lambda>m.
      rbind (require (m_next m = 0) AssertFailed) (\<lambda>_.
      rbind (set_next h old (r_head a)) (\<lambda>h.
      Inr (h, e\<lparr>e_mtime := now\<rparr>)))))"

definition entry_prepend :: "int \<Rightarrow> mem_heap \<Rightarrow> entry \<Rightarrow> rope \<Rightarrow> (mem_heap \<times> entry) res" where
  "entry_prepend now h e p =
     rbind (set_next h (r_tail p) (e_head e)) (\<lambda>h.
     Inr (h, e\<lparr>e_head := r_head p, e_mtime := now\<rparr>))"

section \<open>Numbers in a value\<close>

definition is_ws :: "char \<Rightarrow> bool" where
  "is_ws c \<longleftrightarrow> c = CHR '' '' \<or> c = CHR 0x09 \<or> c = CHR 0x0D \<or> c = CHR 0x0A"

definition is_digit :: "char \<Rightarrow> bool" where
  "is_digit c \<longleftrightarrow> (48 :: nat) \<le> of_char c \<and> (of_char c :: nat) \<le> 57"

partial_function (option) mem_consume_whitespace ::
    "mem_heap \<Rightarrow> addr \<Rightarrow> addr \<Rightarrow> nat \<Rightarrow> (addr \<times> nat) res option" where
  "mem_consume_whitespace h head tail i =
     (case mread h head of
        Inl e \<Rightarrow> Some (Inl e)
      | Inr m \<Rightarrow>
          if int i < sint (m_size m)
          then (if i < length (m_data m)
                then (if is_ws (m_data m ! i) then mem_consume_whitespace h head tail (i + 1)
                      else Some (Inr (head, i)))
                else Some (Inl BadPtr))
          else if head = tail then Some (Inr (head, i))
          else mem_consume_whitespace h (m_next m) tail 0)"

declare mem_consume_whitespace.simps [code]

partial_function (option) mem_atoi_r ::
    "mem_heap \<Rightarrow> addr \<Rightarrow> addr \<Rightarrow> u64 \<Rightarrow> nat \<Rightarrow> u64 res option" where
  "mem_atoi_r h head tail a i =
     (case mread h head of
        Inl e \<Rightarrow> Some (Inl e)
      | Inr m \<Rightarrow>
          if int i < sint (m_size m)
          then (if i < length (m_data m)
                then (if is_digit (m_data m ! i)
                      then mem_atoi_r h head tail (a * 10 + of_char (m_data m ! i) - of_char (CHR ''0'')) (i + 1)
                      else Option.bind (mem_consume_whitespace h head tail i) (\<lambda>r. Some (
                        rbind r (\<lambda>(head, i).
                        rbind (mread h tail) (\<lambda>t.
                        if head \<noteq> tail \<or> int i \<noteq> sint (m_size t) then Inl NotANumber
                        else Inr a)))))
                else Some (Inl BadPtr))
          else if head = tail then Some (Inr a)
          else mem_atoi_r h (m_next m) tail a 0)"

declare mem_atoi_r.simps [code]

definition mem_atoi :: "mem_heap \<Rightarrow> addr \<Rightarrow> addr \<Rightarrow> u64 res" where
  "mem_atoi h head tail =
     rbind (outcome (mem_consume_whitespace h head tail 0)) (\<lambda>(head, i).
     outcome (mem_atoi_r h head tail 0 i))"

text \<open>The decimal digits that \<open>snprintf(..., "%lu", a)\<close> writes.\<close>

fun dec_digits :: "nat \<Rightarrow> bytes" where
  "dec_digits n = (if n < 10 then [char_of (48 + n)] else dec_digits (n div 10) @ [char_of (48 + n mod 10)])"

declare dec_digits.simps [simp del]

definition print_u64 :: "u64 \<Rightarrow> bytes" where
  "print_u64 a = dec_digits (unat a)"

definition max_incr_size :: nat where
  "max_incr_size = 32"

text \<open>\<open>snprintf\<close> writes at most \<open>n\<close> bytes, the terminating zero included.\<close>

definition snprintf_lu :: "nat \<Rightarrow> u64 \<Rightarrow> mem \<Rightarrow> mem" where
  "snprintf_lu n a m =
     (let ds = print_u64 a; out = take (n - 1) ds @ [CHR 0x00] in
      m\<lparr>m_data := out @ drop (length out) (m_data m), m_size := of_nat (length ds)\<rparr>)"

definition incrdecr :: "addr \<Rightarrow> bytes \<Rightarrow> int \<Rightarrow> (u64 \<Rightarrow> u64) \<Rightarrow> mem_heap \<Rightarrow> entry
    \<Rightarrow> (u64 \<times> mem_heap \<times> entry) res" where
  "incrdecr b raw now doit h e =
     (let h = mem_alloc b raw (of_nat max_incr_size) h; phead = e_head e; ptail = e_tail e in
      rbind (mem_atoi h phead ptail) (\<lambda>a.
      let a = doit a in
      rbind (mread h b) (\<lambda>m.
      let m = snprintf_lu max_incr_size a m; h = h(b \<mapsto> m) in
      rbind (require (sint (m_size m) < int max_incr_size) AssertFailed) (\<lambda>_.
      let e = e\<lparr>e_head := b, e_tail := b\<rparr> in
      rbind (mem_free h phead) (\<lambda>h.
      Inr (a, h, e\<lparr>e_mtime := now\<rparr>))))))"

definition entry_incr :: "addr \<Rightarrow> bytes \<Rightarrow> int \<Rightarrow> mem_heap \<Rightarrow> entry \<Rightarrow> u64 \<Rightarrow> (u64 \<times> mem_heap \<times> entry) res" where
  "entry_incr b raw now h e v = incrdecr b raw now (\<lambda>a. a + v) h e"

definition entry_decr :: "addr \<Rightarrow> bytes \<Rightarrow> int \<Rightarrow> mem_heap \<Rightarrow> entry \<Rightarrow> u64 \<Rightarrow> (u64 \<times> mem_heap \<times> entry) res" where
  "entry_decr b raw now h e v = incrdecr b raw now (\<lambda>a. if a > v then a - v else 0) h e"

section \<open>Reading, expiry and compare-and-swap\<close>

definition entry_expired :: "int \<Rightarrow> entry \<Rightarrow> bool" where
  "entry_expired now e \<longleftrightarrow> e_exptime e \<noteq> 0 \<and> uint (e_exptime e) \<le> now"

text \<open>\<open>n\<close> is the thread's counter \<open>updated_atime\<close>.\<close>

definition entry_read :: "int \<Rightarrow> int \<Rightarrow> mem_heap \<Rightarrow> entry \<Rightarrow> (rope \<times> int \<times> entry) res" where
  "entry_read now n h e =
     (let head = e_head e;
          e = (if n mod update_atime_every = 0 then e\<lparr>e_atime := now\<rparr> else e) in
      rbind (mem_tail h head) (\<lambda>tail. Inr (\<lparr>r_head = head, r_tail = tail\<rparr>, n + 1, e)))"

definition entry_cas :: "int \<Rightarrow> mem_heap \<Rightarrow> entry \<Rightarrow> u32 \<Rightarrow> u32 \<Rightarrow> u64 \<Rightarrow> rope \<Rightarrow> (bool \<times> entry) res" where
  "entry_cas now h e newflags newexptime version r =
     (let cur = \<lparr>r_head = e_head e, r_tail = e_tail e\<rparr> in
      rbind (const_rope_hash h cur (ucast (e_flags e))) (\<lambda>cur_version.
      if cur_version = version
      then Inr (True, e\<lparr>e_head := r_head r, e_tail := r_tail r, e_flags := newflags,
                         e_exptime := newexptime, e_mtime := now\<rparr>)
      else Inr (False, e)))"

definition entry_touch :: "int \<Rightarrow> entry \<Rightarrow> u32 \<Rightarrow> entry" where
  "entry_touch now e exptime = e\<lparr>e_exptime := exptime, e_mtime := now\<rparr>"

definition entry_size :: "mem_heap \<Rightarrow> entry \<Rightarrow> u64 res" where
  "entry_size h e = mem_size h (e_head e) 0"

section \<open>Specification: the number a byte string denotes\<close>

text \<open>
  White space, decimal digits (possibly none), white space. The value wraps at 64 bits.
\<close>

fun parse_digits :: "u64 \<Rightarrow> bytes \<Rightarrow> u64 option" where
  "parse_digits a [] = Some a"
| "parse_digits a (c # cs) =
     (if is_digit c then parse_digits (a * 10 + of_char c - of_char (CHR ''0'')) cs
      else if list_all is_ws (c # cs) then Some a else None)"

definition parse_number :: "bytes \<Rightarrow> u64 option" where
  "parse_number bs = parse_digits 0 (dropWhile is_ws bs)"

definition entry_ok :: "mem_heap \<Rightarrow> entry \<Rightarrow> addr list \<Rightarrow> bool" where
  "entry_ok h e xs \<longleftrightarrow> chain h (e_head e) (e_tail e) xs \<and> ends h xs \<and> \<not> e_deleted e"

text \<open>The state after \<open>incr\<close> or \<open>decr\<close> stored the number \<open>r\<close> in the fresh chunk \<open>b\<close>.\<close>

definition number_stored :: "mem_heap \<Rightarrow> entry \<Rightarrow> addr list \<Rightarrow> addr \<Rightarrow> u64 \<Rightarrow> mem_heap \<Rightarrow> entry \<Rightarrow> bool" where
  "number_stored h e xs b r h' e' \<longleftrightarrow>
     entry_ok h' e' [b] \<and> contents h' [b] = print_u64 r \<and> parse_number (contents h' [b]) = Some r \<and>
     e_flags e' = e_flags e \<and> e_exptime e' = e_exptime e \<and>
     (\<forall>x. x \<noteq> b \<longrightarrow> h' x = (if x \<in> set xs then None else h x))"

definition rope_ok :: "mem_heap \<Rightarrow> rope \<Rightarrow> addr list \<Rightarrow> bool" where
  "rope_ok h r xs \<longleftrightarrow> chain h (r_head r) (r_tail r) xs \<and> ends h xs"

section \<open>Parsing across chunk boundaries\<close>

lemma ws_step:
  assumes "h x = Some m" "x \<noteq> 0" "chunk_ok m" "i < length (chunk m)"
  shows "mem_consume_whitespace h x tail i =
     (if is_ws (chunk m ! i) then mem_consume_whitespace h x tail (i + 1) else Some (Inr (x, i)))"
  using assms by (subst mem_consume_whitespace.simps) (auto simp: chunk_ok_def chunk_def)

lemma ws_end:
  assumes "h x = Some m" "x \<noteq> 0" "chunk_ok m"
  shows "mem_consume_whitespace h x tail (length (chunk m)) =
     (if x = tail then Some (Inr (x, length (chunk m))) else mem_consume_whitespace h (m_next m) tail 0)"
  using assms by (subst mem_consume_whitespace.simps) (auto simp: chunk_ok_def chunk_def)

text \<open>A position in a chain: an offset into one of its chunks, and the bytes from there on.\<close>

definition at_pos :: "mem_heap \<Rightarrow> addr list \<Rightarrow> addr \<Rightarrow> nat \<Rightarrow> bytes \<Rightarrow> bool" where
  "at_pos h xs y j rest \<longleftrightarrow>
     (\<exists>pre zs m. xs = pre @ y # zs \<and> h y = Some m \<and> j \<le> length (chunk m) \<and>
        rest = drop j (chunk m) @ contents h zs \<and> (rest = [] \<longrightarrow> zs = []))"

lemma at_pos_mono: "at_pos h xs y j rest \<Longrightarrow> at_pos h (pre @ xs) y j rest"
  unfolding at_pos_def by (metis append.assoc)

lemma ws_chunk:
  assumes "h x = Some m" "x \<noteq> 0" "chunk_ok m" "i \<le> length (chunk m)"
  shows "mem_consume_whitespace h x tail i =
     (if list_all is_ws (drop i (chunk m)) then mem_consume_whitespace h x tail (length (chunk m))
      else Some (Inr (x, i + length (takeWhile is_ws (drop i (chunk m))))))"
  using assms(4)
proof (induction "length (chunk m) - i" arbitrary: i)
  case (Suc k)
  then have "i < length (chunk m)" by simp
  then show ?case
    using Suc.hyps(1) [of "i + 1"] Suc.hyps(2) ws_step [of h x m i tail] assms(1-3)
    by (simp add: Cons_nth_drop_Suc [symmetric])
qed simp

lemma at_pos_here:
  assumes "h x = Some m" "i \<le> length (chunk m)" "\<not> list_all is_ws (drop i (chunk m))"
  shows "at_pos h (x # ys) x (i + length (takeWhile is_ws (drop i (chunk m))))
     (dropWhile is_ws (drop i (chunk m) @ contents h ys))"
proof -
  let ?b = "drop i (chunk m)"
  obtain c where c: "c \<in> set ?b" "\<not> is_ws c" using assms(3) by (auto simp: list_all_iff)
  have d: "dropWhile is_ws (?b @ contents h ys) = dropWhile is_ws ?b @ contents h ys"
    using c by (rule dropWhile_append1)
  have "dropWhile is_ws ?b \<noteq> []" using c by (auto simp: dropWhile_eq_Nil_conv)
  moreover have "dropWhile is_ws ?b = drop (i + length (takeWhile is_ws ?b)) (chunk m)"
    by (simp add: dropWhile_eq_drop add.commute)
  moreover have "i + length (takeWhile is_ws ?b) \<le> length (chunk m)"
    using length_takeWhile_le [of is_ws ?b] assms(2) by simp
  ultimately show ?thesis
    unfolding at_pos_def d using assms(1) by (intro exI [of _ "[]"] exI [of _ ys] exI [of _ m]) simp
qed

lemma ws_skip:
  assumes "seg h (x # ys)" "distinct (x # ys)" "h x = Some m" "i \<le> length (chunk m)"
  shows "\<exists>y j. mem_consume_whitespace h x (last (x # ys)) i = Some (Inr (y, j)) \<and>
     at_pos h (x # ys) y j (dropWhile is_ws (drop i (chunk m) @ contents h ys))"
  using assms
proof (induction ys arbitrary: x m i)
  case (Cons y ys)
  then obtain m' where m: "x \<noteq> 0" "chunk_ok m" and nx: "m_next m = y" and y: "h y = Some m'" by auto
  have ne: "x \<noteq> last (x # y # ys)" using Cons.prems(2) last_in_set [of "y # ys"] by auto
  have nxt: "\<exists>z j. mem_consume_whitespace h y (last (y # ys)) 0 = Some (Inr (z, j)) \<and>
      at_pos h (x # y # ys) z j (dropWhile is_ws (contents h (y # ys)))"
    using Cons.IH [of y m' 0] Cons.prems y at_pos_mono [of h "y # ys" _ _ _ "[x]"] by fastforce
  show ?case
  proof (cases "list_all is_ws (drop i (chunk m))")
    case True
    then show ?thesis
      using nxt ne nx m Cons.prems(3,4) ws_end [of h x m "last (x # y # ys)"] ws_chunk [of h x m i "last (x # y # ys)"]
      by (auto simp: dropWhile_append1 dropWhile_append2 list_all_iff)
  next
    case False
    then show ?thesis
      using m Cons.prems(3,4) ws_chunk [of h x m i "last (x # y # ys)"] at_pos_here [of h x m i "y # ys"] by auto
  qed
next
  case Nil
  then have m: "x \<noteq> 0" "chunk_ok m" by auto
  show ?case
  proof (cases "list_all is_ws (drop i (chunk m))")
    case True
    then have "dropWhile is_ws (drop i (chunk m)) = []" by (simp add: dropWhile_eq_Nil_conv list_all_iff)
    then have "at_pos h [x] x (length (chunk m)) (dropWhile is_ws (drop i (chunk m)))"
      using Nil.prems(3) by (simp add: at_pos_def)
    then show ?thesis
      using True m Nil.prems(3,4) ws_end [of h x m x] ws_chunk [of h x m i x] by auto
  next
    case False
    then show ?thesis
      using m Nil.prems(3,4) ws_chunk [of h x m i x] at_pos_here [of h x m i "[]"] by auto
  qed
qed

lemma atoi_step:
  assumes "h x = Some m" "x \<noteq> 0" "chunk_ok m" "i < length (chunk m)" "is_digit (chunk m ! i)"
  shows "mem_atoi_r h x tail a i =
     mem_atoi_r h x tail (a * 10 + of_char (chunk m ! i) - of_char (CHR ''0'')) (i + 1)"
  using assms by (subst mem_atoi_r.simps) (auto simp: chunk_ok_def chunk_def)

lemma atoi_nondigit:
  assumes "h x = Some m" "x \<noteq> 0" "chunk_ok m" "i < length (chunk m)" "\<not> is_digit (chunk m ! i)"
    "mem_consume_whitespace h x tail i = Some (Inr (y, j))" "h tail = Some t" "tail \<noteq> 0"
  shows "mem_atoi_r h x tail a i = Some (if y \<noteq> tail \<or> int j \<noteq> sint (m_size t) then Inl NotANumber else Inr a)"
  using assms by (subst mem_atoi_r.simps) (auto simp: chunk_ok_def chunk_def)

lemma atoi_end:
  assumes "h x = Some m" "x \<noteq> 0" "chunk_ok m"
  shows "mem_atoi_r h x tail a (length (chunk m)) =
     (if x = tail then Some (Inr a) else mem_atoi_r h (m_next m) tail a 0)"
  using assms by (subst mem_atoi_r.simps) (auto simp: chunk_ok_def chunk_def)

definition numeric :: "u64 option \<Rightarrow> u64 res" where
  "numeric r = (case r of None \<Rightarrow> Inl NotANumber | Some v \<Rightarrow> Inr v)"

lemma at_pos_end:
  assumes "at_pos h xs y j rest" "seg h xs" "distinct xs" "h (last xs) = Some t"
  shows "rest = [] \<longleftrightarrow> y = last xs \<and> j = length (chunk t)"
proof -
  obtain pre zs m where d: "xs = pre @ y # zs" "h y = Some m" "j \<le> length (chunk m)"
      "rest = drop j (chunk m) @ contents h zs" "rest = [] \<longrightarrow> zs = []"
    using assms(1) unfolding at_pos_def by blast
  have "y = last xs \<longleftrightarrow> zs = []"
    using d(1) assms(3) last_in_set [of zs] by (cases "zs = []") auto
  then show ?thesis using d assms(4) by auto
qed

lemma atoi_stop:
  assumes "seg h (x # ys)" "distinct (x # ys)" "h x = Some m" "i < length (chunk m)" "\<not> is_digit (chunk m ! i)"
  shows "mem_atoi_r h x (last (x # ys)) a i = Some (numeric (parse_digits a (drop i (chunk m) @ contents h ys)))"
proof -
  let ?t = "last (x # ys)" and ?r = "drop i (chunk m) @ contents h ys"
  obtain t where t: "h ?t = Some t" "?t \<noteq> 0" "chunk_ok t"
    using seg_in [OF assms(1), of ?t] last_in_set [of "x # ys"] by blast
  have m: "x \<noteq> 0" "chunk_ok m" using assms(1,3) by auto
  obtain y j where y: "mem_consume_whitespace h x ?t i = Some (Inr (y, j))"
      "at_pos h (x # ys) y j (dropWhile is_ws ?r)"
    using ws_skip [OF assms(1-3), of i] assms(4) by auto
  have "dropWhile is_ws ?r = [] \<longleftrightarrow> y = ?t \<and> j = length (chunk t)"
    by (rule at_pos_end [OF y(2) assms(1,2) t(1)])
  moreover have "dropWhile is_ws ?r = [] \<longleftrightarrow> list_all is_ws ?r" by (simp add: dropWhile_eq_Nil_conv list_all_iff)
  moreover have "int j \<noteq> sint (m_size t) \<longleftrightarrow> j \<noteq> length (chunk t)" using t(3) by (auto simp: chunk_ok_def chunk_def)
  moreover note atoi_nondigit [OF assms(3) m assms(4,5) y(1) t(1,2), of a]
  ultimately have "mem_atoi_r h x ?t a i = Some (if list_all is_ws ?r then Inr a else Inl NotANumber)"
    by presburger
  then show ?thesis
    using assms(4,5) by (simp add: Cons_nth_drop_Suc [symmetric] numeric_def)
qed

lemma atoi_chain:
  assumes "seg h (x # ys)" "distinct (x # ys)" "h x = Some m" "i \<le> length (chunk m)"
  shows "mem_atoi_r h x (last (x # ys)) a i = Some (numeric (parse_digits a (drop i (chunk m) @ contents h ys)))"
  using assms
proof (induction ys arbitrary: x m i a)
  case Nil
  then have m: "x \<noteq> 0" "chunk_ok m" by auto
  show ?case using Nil.prems(4)
  proof (induction "length (chunk m) - i" arbitrary: i a)
    case 0
    then show ?case using m Nil.prems(3) atoi_end [of h x m x] by (simp add: numeric_def)
  next
    case (Suc k)
    then have i: "i < length (chunk m)" by simp
    show ?case
      using Suc.hyps(1) [of "i + 1"] Suc.hyps(2) i m Nil.prems atoi_step [of h x m i x a] atoi_stop [of h x "[]" m i a]
      by (cases "is_digit (chunk m ! i)") (simp_all add: Cons_nth_drop_Suc [symmetric])
  qed
next
  case (Cons y ys)
  then obtain m' where m: "x \<noteq> 0" "chunk_ok m" and nx: "m_next m = y" and y: "h y = Some m'" by auto
  have ne: "x \<noteq> last (y # ys)" using Cons.prems(2) last_in_set [of "y # ys"] by auto
  show ?case using Cons.prems(4)
  proof (induction "length (chunk m) - i" arbitrary: i a)
    case 0
    then show ?case
      using m nx y ne Cons.prems atoi_end [of h x m "last (y # ys)"] Cons.IH [of y m' 0] by simp
  next
    case (Suc k)
    then have i: "i < length (chunk m)" by simp
    show ?case
      using Suc.hyps(1) [of "i + 1"] Suc.hyps(2) i m Cons.prems(1-3) atoi_step [of h x m i "last (y # ys)" a]
        atoi_stop [of h x "y # ys" m i a]
      by (cases "is_digit (chunk m ! i)") (simp_all add: Cons_nth_drop_Suc [symmetric])
  qed
qed

lemma mem_atoi_chain:
  assumes "chain h head tail xs"
  shows "mem_atoi h head tail = numeric (parse_number (contents h xs))"
  using assms
proof (rule chainE)
  fix x ys m
  assume c: "xs = x # ys" "head = x" "tail = last (x # ys)" "seg h (x # ys)" "distinct (x # ys)" "h x = Some m"
  obtain y j where y: "mem_consume_whitespace h x (last (x # ys)) 0 = Some (Inr (y, j))"
      "at_pos h (x # ys) y j (dropWhile is_ws (contents h (x # ys)))"
    using ws_skip [OF c(4,5,6), of 0] c(6) by auto
  obtain pre zs m' where d: "x # ys = pre @ y # zs" "h y = Some m'" "j \<le> length (chunk m')"
      "dropWhile is_ws (contents h (x # ys)) = drop j (chunk m') @ contents h zs"
    using y(2) unfolding at_pos_def by blast
  have "seg h (y # zs)" "distinct (y # zs)" "last (x # ys) = last (y # zs)"
    using c(4,5) d(1) by (simp_all add: seg_append del: seg.simps)
  then have "mem_atoi_r h y (last (x # ys)) 0 j = Some (numeric (parse_digits 0 (drop j (chunk m') @ contents h zs)))"
    using atoi_chain [of h y zs m' j 0] d(2,3) by metis
  then show ?thesis
    unfolding mem_atoi_def c(1) c(2) c(3) parse_number_def d(4) y(1) by simp
qed

section \<open>Printing and parsing\<close>

lemma digit_char:
  assumes "n < 10"
  shows "is_digit (char_of (48 + n))" and "(of_char (char_of (48 + n)) :: u64) = 48 + of_nat n"
proof -
  have o: "(of_char (char_of (48 + n)) :: nat) = 48 + n" using assms by simp
  then show "is_digit (char_of (48 + n))" using assms unfolding is_digit_def by linarith
  show "(of_char (char_of (48 + n)) :: u64) = 48 + of_nat n"
    by (metis o of_nat_of_char of_nat_add of_nat_numeral)
qed

lemma is_ws_not_digit: "is_digit c \<Longrightarrow> \<not> is_ws c"
  by (auto simp: is_ws_def is_digit_def)

lemma dec_digits_digits: "dec_digits n \<noteq> [] \<and> list_all is_digit (dec_digits n)"
proof (induction n rule: dec_digits.induct)
  case (1 n)
  then show ?case using digit_char(1) [of n] digit_char(1) [of "n mod 10"] by (subst (1 2) dec_digits.simps) auto
qed

lemma dec_digits_length: "n < 10 ^ k \<Longrightarrow> 0 < k \<Longrightarrow> length (dec_digits n) \<le> k"
proof (induction n arbitrary: k rule: dec_digits.induct)
  case (1 n)
  show ?case
  proof (cases "n < 10")
    case True
    then show ?thesis using 1(3) by (subst dec_digits.simps) simp
  next
    case False
    then obtain j where j: "k = Suc j" "0 < j" using 1(2,3) by (cases k; cases "k - 1") auto
    have "n div 10 < 10 ^ j" using 1(2) j by (simp add: div_less_iff_less_mult)
    then show ?thesis using 1(1) [OF False, of j] j False by (subst dec_digits.simps) simp
  qed
qed

lemma parse_dec_digits:
  "parse_digits a (dec_digits n @ rest) = parse_digits (a * 10 ^ length (dec_digits n) + of_nat n) rest"
proof (induction n arbitrary: a rest rule: dec_digits.induct)
  case (1 n)
  show ?case
  proof (cases "n < 10")
    case True
    then have "dec_digits n = [char_of (48 + n)]" by (subst dec_digits.simps) simp
    then show ?thesis using digit_char [OF True] by simp
  next
    case False
    let ?d = "char_of (48 + n mod 10)"
    have dn: "dec_digits n = dec_digits (n div 10) @ [?d]" using False by (subst dec_digits.simps) simp
    have n: "of_nat n = (of_nat (n div 10) * 10 + of_nat (n mod 10) :: u64)"
      by (metis div_mult_mod_eq of_nat_add of_nat_mult of_nat_numeral)
    have d: "is_digit ?d" "(of_char ?d :: u64) = 48 + of_nat (n mod 10)" using digit_char [of "n mod 10"] by simp_all
    show ?thesis
      unfolding dn append.assoc 1 [OF False] n
      by (simp only: append.simps parse_digits.simps d if_True) (simp add: algebra_simps)
  qed
qed

lemma parse_print: "parse_number (print_u64 a) = Some a"
proof -
  have "dropWhile is_ws (print_u64 a) = print_u64 a"
    using dec_digits_digits [of "unat a"] is_ws_not_digit unfolding print_u64_def
    by (cases "dec_digits (unat a)") auto
  then show ?thesis
    using parse_dec_digits [of 0 "unat a" "[]"] by (simp add: parse_number_def print_u64_def)
qed

lemma print_length: "0 < length (print_u64 a) \<and> length (print_u64 a) \<le> 20"
proof -
  have "unat a < 2 ^ 64" using unsigned_less [of a, where ?'a = nat] by simp
  then have "unat a < 10 ^ 20" by (rule less_trans) simp
  then show ?thesis using dec_digits_length [of "unat a" 20] dec_digits_digits [of "unat a"] by (simp add: print_u64_def)
qed

lemma snprintf_chunk:
  assumes "m_magic m = MEM_MAGIC" "m_next m = 0" "32 \<le> length (m_data m)"
  shows "chunk_ok (snprintf_lu max_incr_size a m)" "chunk (snprintf_lu max_incr_size a m) = print_u64 a"
    "m_next (snprintf_lu max_incr_size a m) = 0" "sint (m_size (snprintf_lu max_incr_size a m)) < 32"
proof -
  let ?n = "length (print_u64 a)"
  have n: "0 < ?n" "?n \<le> 20" using print_length by auto
  have sz: "sint (of_nat ?n :: u32) = int ?n"
  proof -
    have "sint (word_of_int (int ?n) :: u32) = signed_take_bit 31 (int ?n)" by (subst signed_of_int) simp
    also have "\<dots> = int ?n" using n by (intro signed_take_bit_int_eq_self) auto
    finally show ?thesis by simp
  qed
  show "chunk_ok (snprintf_lu max_incr_size a m)" "chunk (snprintf_lu max_incr_size a m) = print_u64 a"
    "m_next (snprintf_lu max_incr_size a m) = 0" "sint (m_size (snprintf_lu max_incr_size a m)) < 32"
    using assms n sz by (simp_all add: chunk_ok_def chunk_def snprintf_lu_def max_incr_size_def Let_def)
qed

section \<open>Operations on well-formed entries\<close>

lemma set_next_ok: "h a = Some m \<Longrightarrow> a \<noteq> 0 \<Longrightarrow> set_next h a nxt = Inr (h(a \<mapsto> m\<lparr>m_next := nxt\<rparr>))"
  by (simp add: set_next_def)

lemma chunk_next [simp]: "chunk (m\<lparr>m_next := n\<rparr>) = chunk m" "chunk_ok (m\<lparr>m_next := n\<rparr>) = chunk_ok m"
  by (simp_all add: chunk_def chunk_ok_def)

text \<open>Linking the last chunk of one chain to the first of another concatenates the contents.\<close>

lemma seg_relink_last:
  assumes "seg h (zs @ [a])" "distinct (zs @ [a])" "h a = Some m"
  shows "seg (h(a \<mapsto> m\<lparr>m_next := n\<rparr>)) (zs @ [a])"
    and "contents (h(a \<mapsto> m\<lparr>m_next := n\<rparr>)) (zs @ [a]) = contents h (zs @ [a])"
    and "chunks (h(a \<mapsto> m\<lparr>m_next := n\<rparr>)) (zs @ [a]) = chunks h (zs @ [a])"
proof -
  have a: "a \<notin> set zs" using assms(2) by simp
  show "contents (h(a \<mapsto> m\<lparr>m_next := n\<rparr>)) (zs @ [a]) = contents h (zs @ [a])"
    "chunks (h(a \<mapsto> m\<lparr>m_next := n\<rparr>)) (zs @ [a]) = chunks h (zs @ [a])"
    using a assms(3) by (simp_all add: chunks_def)
  have "zs \<noteq> [] \<longrightarrow> last zs \<noteq> a" using a by (metis last_in_set)
  then show "seg (h(a \<mapsto> m\<lparr>m_next := n\<rparr>)) (zs @ [a])"
    using assms(1,3) a seg_upd [OF a, of h "Some (m\<lparr>m_next := n\<rparr>)"] unfolding seg_append
    by (cases "zs = []") auto
qed

lemma link_chains:
  assumes x: "chain h hd1 tl1 xs" and y: "chain h hd2 tl2 ys" "ends h ys" and d: "set xs \<inter> set ys = {}"
    and m: "h tl1 = Some m"
  defines "h' \<equiv> h(tl1 \<mapsto> m\<lparr>m_next := hd2\<rparr>)"
  shows "chain h' hd1 tl2 (xs @ ys)" "ends h' (xs @ ys)"
    "contents h' (xs @ ys) = contents h xs @ contents h ys" "chunks h' (xs @ ys) = chunks h xs @ chunks h ys"
proof -
  obtain zs where zs: "xs = zs @ [tl1]" using x unfolding chain_def by (metis append_butlast_last_id)
  have t: "tl1 \<notin> set ys" using zs d by auto
  have sx: "seg h' xs" "contents h' xs = contents h xs" "chunks h' xs = chunks h xs"
    using seg_relink_last [of h zs tl1 m hd2] x m zs unfolding h'_def chain_def by auto
  have sy: "seg h' ys" "contents h' ys = contents h ys" "chunks h' ys = chunks h ys" "hd ys = hd2" "ys \<noteq> []"
    using y t unfolding h'_def chain_def by auto
  have l: "m_next (the (h' (last xs))) = hd2" by (simp add: h'_def zs)
  show "chain h' hd1 tl2 (xs @ ys)"
    using x y(1) sx(1) sy l d unfolding chain_def seg_append by auto
  have "last ys \<noteq> tl1" using t sy(5) last_in_set [of ys] by auto
  then show "ends h' (xs @ ys)" using y(2) sy(5) by (simp add: ends_def h'_def)
  show "contents h' (xs @ ys) = contents h xs @ contents h ys" using sx(2) sy(2) by simp
  show "chunks h' (xs @ ys) = chunks h xs @ chunks h ys" using sx(3) sy(3) by (simp add: chunks_def)
qed

lemma entry_append_ok:
  assumes e: "entry_ok h e xs" and r: "rope_ok h r ys" and d: "set xs \<inter> set ys = {}"
  obtains m where "h (e_tail e) = Some m"
    "entry_append now h e r = Inr (h(e_tail e \<mapsto> m\<lparr>m_next := r_head r\<rparr>), e\<lparr>e_tail := r_tail r, e_mtime := now\<rparr>)"
    "entry_ok (h(e_tail e \<mapsto> m\<lparr>m_next := r_head r\<rparr>)) (e\<lparr>e_tail := r_tail r, e_mtime := now\<rparr>) (xs @ ys)"
    "contents (h(e_tail e \<mapsto> m\<lparr>m_next := r_head r\<rparr>)) (xs @ ys) = contents h xs @ contents h ys"
    "chunks (h(e_tail e \<mapsto> m\<lparr>m_next := r_head r\<rparr>)) (xs @ ys) = chunks h xs @ chunks h ys"
proof -
  have c: "chain h (e_head e) (e_tail e) xs" "ends h xs" using e by (auto simp: entry_ok_def)
  obtain m where m: "h (e_tail e) = Some m" "e_tail e \<noteq> 0" using chain_addrs [OF c(1)] by (metis domD subsetD)
  have "m_next m = 0" using c m by (simp add: chain_def ends_def)
  then have "entry_append now h e r = Inr (h(e_tail e \<mapsto> m\<lparr>m_next := r_head r\<rparr>), e\<lparr>e_tail := r_tail r, e_mtime := now\<rparr>)"
    using m by (simp add: entry_append_def set_next_ok)
  then show thesis
    using that m link_chains [OF c(1) _ _ d m(1), of "r_head r" "r_tail r"] r e
    by (simp add: entry_ok_def rope_ok_def del: contents_simps)
qed

lemma entry_prepend_ok:
  assumes e: "entry_ok h e xs" and r: "rope_ok h r ys" and d: "set xs \<inter> set ys = {}"
  obtains m where "h (r_tail r) = Some m"
    "entry_prepend now h e r = Inr (h(r_tail r \<mapsto> m\<lparr>m_next := e_head e\<rparr>), e\<lparr>e_head := r_head r, e_mtime := now\<rparr>)"
    "entry_ok (h(r_tail r \<mapsto> m\<lparr>m_next := e_head e\<rparr>)) (e\<lparr>e_head := r_head r, e_mtime := now\<rparr>) (ys @ xs)"
    "contents (h(r_tail r \<mapsto> m\<lparr>m_next := e_head e\<rparr>)) (ys @ xs) = contents h ys @ contents h xs"
    "chunks (h(r_tail r \<mapsto> m\<lparr>m_next := e_head e\<rparr>)) (ys @ xs) = chunks h ys @ chunks h xs"
proof -
  have c: "chain h (e_head e) (e_tail e) xs" "ends h xs" using e by (auto simp: entry_ok_def)
  have cr: "chain h (r_head r) (r_tail r) ys" using r by (simp add: rope_ok_def)
  obtain m where m: "h (r_tail r) = Some m" "r_tail r \<noteq> 0" using chain_addrs [OF cr] by (metis domD subsetD)
  then have "entry_prepend now h e r = Inr (h(r_tail r \<mapsto> m\<lparr>m_next := e_head e\<rparr>), e\<lparr>e_head := r_head r, e_mtime := now\<rparr>)"
    by (simp add: entry_prepend_def set_next_ok)
  moreover have "set ys \<inter> set xs = {}" using d by auto
  ultimately show thesis
    using that m link_chains [OF cr c _ m(1)] e by (simp add: entry_ok_def del: contents_simps)
qed

text \<open>The old chain is freed and the number is printed into one fresh chunk.\<close>

lemma incrdecr_ok:
  assumes e: "entry_ok h e xs" and b: "b \<noteq> 0" "b \<notin> dom h" and raw: "32 \<le> length raw"
  shows "incrdecr b raw now doit h e =
     (case parse_number (contents h xs) of
        None \<Rightarrow> Inl NotANumber
      | Some a \<Rightarrow> Inr (doit a,
          (h |` (- set xs))(b \<mapsto> snprintf_lu max_incr_size (doit a) (the (mem_alloc b raw 32 h b))),
          e\<lparr>e_head := b, e_tail := b, e_mtime := now\<rparr>))"
proof -
  have c: "chain h (e_head e) (e_tail e) xs" "ends h xs" using e by (auto simp: entry_ok_def)
  have bx: "b \<notin> set xs" using chain_addrs [OF c(1)] b(2) by auto
  define M where "M = \<lparr>m_magic = MEM_MAGIC, m_next = 0, m_size = (32 :: u32), m_data = raw\<rparr>"
  have al: "mem_alloc b raw (of_nat max_incr_size) h = h(b \<mapsto> M)" "mem_alloc b raw 32 h b = Some M"
    by (simp_all add: mem_alloc_def M_def max_incr_size_def)
  have at: "mem_atoi (h(b \<mapsto> M)) (e_head e) (e_tail e) = numeric (parse_number (contents h xs))"
    using mem_atoi_chain [of "h(b \<mapsto> M)" "e_head e" "e_tail e" xs] c bx by simp
  have fr: "mem_free (h(b \<mapsto> m)) (e_head e) = Inr ((h |` (- set xs))(b \<mapsto> m))" for m
  proof -
    have "last xs \<noteq> b" using bx c chain_addrs [OF c(1)] by (auto simp: chain_def)
    then have "mem_free (h(b \<mapsto> m)) (e_head e) = Inr ((h(b \<mapsto> m)) |` (- set xs))"
      using mem_free_chain [of "h(b \<mapsto> m)" "e_head e" "e_tail e" xs] c bx by simp
    also have "(h(b \<mapsto> m)) |` (- set xs) = (h |` (- set xs))(b \<mapsto> m)"
      using bx by (auto simp: restrict_map_def fun_eq_iff)
    finally show ?thesis .
  qed
  have sz: "sint (m_size (snprintf_lu max_incr_size a M)) < int max_incr_size" for a
    using snprintf_chunk(4) [of M a] raw by (simp add: M_def max_incr_size_def)
  show ?thesis
    unfolding incrdecr_def al Let_def at using b(1) sz
    by (cases "parse_number (contents h xs)") (simp_all add: numeric_def fr)
qed

lemma incrdecr_chain:
  assumes "entry_ok h e xs" "b \<noteq> 0" "b \<notin> dom h" "32 \<le> length raw"
    "incrdecr b raw now doit h e = Inr (v, h', e')"
  shows "entry_ok h' e' [b]" "contents h' [b] = print_u64 v" "parse_number (contents h xs) \<noteq> None"
    "v = doit (the (parse_number (contents h xs)))"
    "e' = e\<lparr>e_head := b, e_tail := b, e_mtime := now\<rparr>"
    "\<And>x. x \<noteq> b \<Longrightarrow> h' x = (if x \<in> set xs then None else h x)"
proof -
  let ?m = "the (mem_alloc b raw 32 h b)"
  have m: "m_magic ?m = MEM_MAGIC" "m_next ?m = 0" "32 \<le> length (m_data ?m)"
    using assms(4) by (simp_all add: mem_alloc_def)
  obtain a where a: "parse_number (contents h xs) = Some a" "v = doit a"
      "h' = (h |` (- set xs))(b \<mapsto> snprintf_lu max_incr_size (doit a) ?m)"
      "e' = e\<lparr>e_head := b, e_tail := b, e_mtime := now\<rparr>"
    using assms(5) unfolding incrdecr_ok [OF assms(1-4)] by (auto split: option.splits)
  note s = snprintf_chunk [OF m, of v]
  have "chain h' b b [b] \<and> ends h' [b] \<and> contents h' [b] = print_u64 v"
    using chain_single [of h' b "snprintf_lu max_incr_size v ?m"] s assms(2) a(2,3) by simp
  then show "entry_ok h' e' [b]" "contents h' [b] = print_u64 v"
    using a(4) assms(1) by (simp_all add: entry_ok_def)
  show "parse_number (contents h xs) \<noteq> None" "v = doit (the (parse_number (contents h xs)))"
    "e' = e\<lparr>e_head := b, e_tail := b, e_mtime := now\<rparr>" using a by simp_all
  show "h' x = (if x \<in> set xs then None else h x)" if "x \<noteq> b" for x
    using that a(3) by (simp add: restrict_map_def)
qed

lemma entry_read_ok:
  "entry_ok h e xs \<Longrightarrow> entry_read now n h e =
     Inr (\<lparr>r_head = e_head e, r_tail = e_tail e\<rparr>, n + 1,
          if n mod 8 = 0 then e\<lparr>e_atime := now\<rparr> else e)"
  using mem_tail_chain [of h "e_head e" "e_tail e" xs]
  by (simp add: entry_ok_def entry_read_def update_atime_every_def Let_def)

lemma entry_cas_ok:
  "entry_ok h e xs \<Longrightarrow> entry_cas now h e nf ne version r =
     (if version = hash_chunks (chunks h xs) (ucast (e_flags e))
      then Inr (True, e\<lparr>e_head := r_head r, e_tail := r_tail r, e_flags := nf, e_exptime := ne, e_mtime := now\<rparr>)
      else Inr (False, e))"
  using const_rope_hash_chain [of h "\<lparr>r_head = e_head e, r_tail = e_tail e\<rparr>" xs]
  by (auto simp: entry_ok_def entry_cas_def Let_def)

lemma entry_size_ok: "entry_ok h e xs \<Longrightarrow> entry_size h e = Inr (of_nat (length (contents h xs)))"
  using mem_size_chain(2) [of h "e_head e" "e_tail e" xs] by (simp add: entry_ok_def entry_size_def)

lemma entry_delete_ok: "entry_ok h e xs \<Longrightarrow> entry_delete h e = Inr (h |` (- set xs))"
  using mem_free_chain [of h "e_head e" "e_tail e" xs] by (simp add: entry_ok_def entry_delete_def)

lemma incrdecr_stores:
  assumes "entry_ok h e xs" "b \<noteq> 0" "b \<notin> dom h" "32 \<le> length raw" "parse_number (contents h xs) = Some a"
  shows "\<exists>h' e'. incrdecr b raw now doit h e = Inr (doit a, h', e') \<and> number_stored h e xs b (doit a) h' e'"
proof -
  obtain h' e' where r: "incrdecr b raw now doit h e = Inr (doit a, h', e')"
    using incrdecr_ok [OF assms(1-4), of now doit] assms(5) by simp
  note c = incrdecr_chain [OF assms(1-4) r]
  have "e_flags e' = e_flags e" "e_exptime e' = e_exptime e" unfolding c(5) by simp_all
  then have "number_stored h e xs b (doit a) h' e'"
    unfolding number_stored_def using c(1,2,6) parse_print by (simp del: contents_simps)
  then show ?thesis using r by blast
qed

lemma decr_saturates: "(if a > v then a - v else 0) = (of_nat (unat a - unat v) :: u64)"
  using unat_sub [of v a] by (simp add: word_less_nat_alt word_le_nat_alt)

lemma incr_decr_stores:
  assumes "entry_ok h e xs" and "b \<noteq> 0" and "b \<notin> dom h" and "32 \<le> length raw"
    and "parse_number (contents h xs) = Some a"
  shows "(\<exists>h' e'. entry_incr b raw now h e v = Inr (of_nat (unat a + unat v), h', e') \<and>
            number_stored h e xs b (of_nat (unat a + unat v)) h' e') \<and>
         (\<exists>h' e'. entry_decr b raw now h e v = Inr (of_nat (unat a - unat v), h', e') \<and>
            number_stored h e xs b (of_nat (unat a - unat v)) h' e')"
  using incrdecr_stores [OF assms, of now "\<lambda>a. a + v"]
    incrdecr_stores [OF assms, of now "\<lambda>a. if a > v then a - v else 0"]
  unfolding entry_incr_def entry_decr_def decr_saturates by (simp del: of_nat_diff)

section \<open>Properties\<close>

text \<open>
  C12: The number \<open>mem_atoi\<close> reads from a value is the number its bytes denote, however the
  bytes are split into chunks: white space and digits may straddle chunk boundaries and chunks
  may be empty. It always returns, and it throws exactly for bytes that are not white space,
  digits, white space.
\<close>

theorem atoi_chunking_independent:
  assumes "chain h head tail xs"
  shows "mem_atoi h head tail =
     (case parse_number (contents h xs) of None \<Rightarrow> Inl NotANumber | Some v \<Rightarrow> Inr v)"
  using mem_atoi_chain [OF assms] by (simp add: numeric_def)

definition demo_chunk :: "bytes \<Rightarrow> addr \<Rightarrow> mem" where
  "demo_chunk bs nxt = \<lparr>m_magic = MEM_MAGIC, m_next = nxt, m_size = of_nat (length bs), m_data = bs\<rparr>"

definition demo_heap :: mem_heap where
  "demo_heap = [16 \<mapsto> demo_chunk '' 4'' 32, 32 \<mapsto> demo_chunk ''2 '' 0]"

lemma demo_chain: "chain demo_heap 16 32 [16, 32]" "ends demo_heap [16, 32]" "contents demo_heap [16, 32] = '' 42 ''"
  by (simp_all add: chain_def ends_def demo_heap_def demo_chunk_def chunk_ok_def chunk_def)

theorem atoi_chunking_independent_witness:
  "chain demo_heap 16 32 [16, 32] \<and> mem_atoi demo_heap 16 32 = Inr 42"
proof -
  have "parse_number '' 42 '' = Some 42" by code_simp
  then show ?thesis using atoi_chunking_independent [OF demo_chain(1)] demo_chain by simp
qed

text \<open>
  C11: \<open>incr\<close> and \<open>decr\<close> on a value that denotes a number \<open>a\<close> return, and leave in the entry one
  chunk with the decimal digits of the result, which parse back to it: \<open>incr\<close> adds modulo
  2^64, \<open>decr\<close> subtracts and stops at zero. Flags and expiry time are kept, the chunks of the old
  value are freed, and no other chunk changes.
\<close>

theorem incr_decr_spec:
  assumes "entry_ok h e xs" and "b \<noteq> 0" and "b \<notin> dom h" and "32 \<le> length raw"
    and "parse_number (contents h xs) = Some a"
  shows "(\<exists>h' e'. entry_incr b raw now h e v = Inr (of_nat (unat a + unat v), h', e') \<and>
            number_stored h e xs b (of_nat (unat a + unat v)) h' e') \<and>
         (\<exists>h' e'. entry_decr b raw now h e v = Inr (of_nat (unat a - unat v), h', e') \<and>
            number_stored h e xs b (of_nat (unat a - unat v)) h' e')"
  by (rule incr_decr_stores [OF assms])

definition demo_entry :: entry where
  "demo_entry = \<lparr>e_flags = 7, e_exptime = 0, e_head = 16, e_tail = 32, e_atime = 5, e_mtime = 5, e_deleted = False\<rparr>"

lemma demo_entry_ok: "entry_ok demo_heap demo_entry [16, 32]"
  using demo_chain by (simp add: entry_ok_def demo_entry_def)

theorem incr_decr_spec_witness:
  "(\<exists>h' e'. entry_incr 48 (replicate 32 CHR 0x00) 9 demo_heap demo_entry 8 = Inr (50, h', e') \<and>
      number_stored demo_heap demo_entry [16, 32] 48 50 h' e') \<and>
   (\<exists>h' e'. entry_decr 48 (replicate 32 CHR 0x00) 9 demo_heap demo_entry 43 = Inr (0, h', e') \<and>
      number_stored demo_heap demo_entry [16, 32] 48 0 h' e')"
proof -
  have p: "parse_number (contents demo_heap [16, 32]) = Some 42"
    unfolding demo_chain(3) by code_simp
  have f: "(48 :: addr) \<noteq> 0" "48 \<notin> dom demo_heap" "32 \<le> length (replicate 32 CHR 0x00)"
    by (simp_all add: demo_heap_def)
  show ?thesis
    using incr_decr_spec [OF demo_entry_ok f p, of 9 8] incr_decr_spec [OF demo_entry_ok f p, of 9 43] by simp
qed

text \<open>
  C14: Appending or prepending a rope to an entry returns, and the bytes of the entry are then
  the concatenation, in order, with flags and expiry time kept; the only chunk written is the one
  that links the two chains.
\<close>

theorem append_prepend_spec:
  assumes "entry_ok h e xs" and "rope_ok h r ys" and "set xs \<inter> set ys = {}"
  shows "(\<exists>h' e'. entry_append now h e r = Inr (h', e') \<and> entry_ok h' e' (xs @ ys) \<and>
       contents h' (xs @ ys) = contents h xs @ contents h ys \<and>
       e_flags e' = e_flags e \<and> e_exptime e' = e_exptime e \<and> (\<forall>x. x \<noteq> e_tail e \<longrightarrow> h' x = h x)) \<and>
    (\<exists>h' e'. entry_prepend now h e r = Inr (h', e') \<and> entry_ok h' e' (ys @ xs) \<and>
       contents h' (ys @ xs) = contents h ys @ contents h xs \<and>
       e_flags e' = e_flags e \<and> e_exptime e' = e_exptime e \<and> (\<forall>x. x \<noteq> r_tail r \<longrightarrow> h' x = h x))"
proof
  obtain m where
    "entry_append now h e r = Inr (h(e_tail e \<mapsto> m\<lparr>m_next := r_head r\<rparr>), e\<lparr>e_tail := r_tail r, e_mtime := now\<rparr>)"
    "entry_ok (h(e_tail e \<mapsto> m\<lparr>m_next := r_head r\<rparr>)) (e\<lparr>e_tail := r_tail r, e_mtime := now\<rparr>) (xs @ ys)"
    "contents (h(e_tail e \<mapsto> m\<lparr>m_next := r_head r\<rparr>)) (xs @ ys) = contents h xs @ contents h ys"
    by (rule entry_append_ok [OF assms])
  then show "\<exists>h' e'. entry_append now h e r = Inr (h', e') \<and> entry_ok h' e' (xs @ ys) \<and>
       contents h' (xs @ ys) = contents h xs @ contents h ys \<and>
       e_flags e' = e_flags e \<and> e_exptime e' = e_exptime e \<and> (\<forall>x. x \<noteq> e_tail e \<longrightarrow> h' x = h x)"
    by (simp del: contents_simps)
  obtain m where
    "entry_prepend now h e r = Inr (h(r_tail r \<mapsto> m\<lparr>m_next := e_head e\<rparr>), e\<lparr>e_head := r_head r, e_mtime := now\<rparr>)"
    "entry_ok (h(r_tail r \<mapsto> m\<lparr>m_next := e_head e\<rparr>)) (e\<lparr>e_head := r_head r, e_mtime := now\<rparr>) (ys @ xs)"
    "contents (h(r_tail r \<mapsto> m\<lparr>m_next := e_head e\<rparr>)) (ys @ xs) = contents h ys @ contents h xs"
    by (rule entry_prepend_ok [OF assms])
  then show "\<exists>h' e'. entry_prepend now h e r = Inr (h', e') \<and> entry_ok h' e' (ys @ xs) \<and>
       contents h' (ys @ xs) = contents h ys @ contents h xs \<and>
       e_flags e' = e_flags e \<and> e_exptime e' = e_exptime e \<and> (\<forall>x. x \<noteq> r_tail r \<longrightarrow> h' x = h x)"
    by (simp del: contents_simps)
qed

definition demo_heap2 :: mem_heap where
  "demo_heap2 = demo_heap(64 \<mapsto> demo_chunk ''xyz'' 0)"

lemma demo_heap2_ok:
  "entry_ok demo_heap2 demo_entry [16, 32]" "rope_ok demo_heap2 \<lparr>r_head = 64, r_tail = 64\<rparr> [64]"
  "contents demo_heap2 [16, 32] = '' 42 ''" "contents demo_heap2 [64] = ''xyz''"
  using demo_entry_ok demo_chain(3)
  by (simp_all add: demo_heap2_def entry_ok_def rope_ok_def chain_def ends_def demo_chunk_def chunk_ok_def chunk_def)

theorem append_prepend_spec_witness:
  "\<exists>h' e'. entry_append 9 demo_heap2 demo_entry \<lparr>r_head = 64, r_tail = 64\<rparr> = Inr (h', e') \<and>
      contents h' [16, 32, 64] = '' 42 xyz''"
  using append_prepend_spec [OF demo_heap2_ok(1,2), of 9] demo_heap2_ok(3,4)
  by (auto simp del: contents_simps)

text \<open>
  C13: The version a reader of an entry computes is the one \<open>cas\<close> checks. For a well-formed
  entry, \<open>read\<close> returns the rope of the whole value; hashing that rope, seeded with the
  flags, gives the version of the value, and \<open>cas\<close> stores the new value exactly when it is
  handed that version, otherwise it changes nothing.
\<close>

theorem cas_version_spec:
  assumes "entry_ok h e xs"
  shows "\<exists>r n' e1 version.
     entry_read now n h e = Inr (r, n', e1) \<and> rope_ok h r xs \<and> drain h r = Inr (contents h xs) \<and>
     const_rope_hash h r (ucast (e_flags e)) = Inr version \<and>
     (\<forall>nf ne w new. entry_cas now h e nf ne w new =
        (if w = version
         then Inr (True, e\<lparr>e_head := r_head new, e_tail := r_tail new, e_flags := nf, e_exptime := ne, e_mtime := now\<rparr>)
         else Inr (False, e)))"
proof -
  let ?r = "\<lparr>r_head = e_head e, r_tail = e_tail e\<rparr>"
  have r: "rope_ok h ?r xs" using assms by (simp add: rope_ok_def entry_ok_def)
  then have "drain h ?r = Inr (contents h xs)"
    "const_rope_hash h ?r (ucast (e_flags e)) = Inr (hash_chunks (chunks h xs) (ucast (e_flags e)))"
    unfolding rope_ok_def by (simp_all add: drain_chain const_rope_hash_chain)
  then show ?thesis
    using entry_read_ok [OF assms, of now n] entry_cas_ok [OF assms, of now] r by metis
qed

theorem cas_version_spec_witness:
  "\<exists>r n' e1 version. entry_read 9 0 demo_heap demo_entry = Inr (r, n', e1) \<and>
     const_rope_hash demo_heap r 7 = Inr version \<and>
     entry_cas 9 demo_heap demo_entry 3 0 version \<lparr>r_head = 64, r_tail = 64\<rparr> =
       Inr (True, demo_entry\<lparr>e_head := 64, e_tail := 64, e_flags := 3, e_exptime := 0, e_mtime := 9\<rparr>) \<and>
     entry_cas 9 demo_heap demo_entry 3 0 (version + 1) \<lparr>r_head = 64, r_tail = 64\<rparr> = Inr (False, demo_entry)"
proof -
  have "ucast (e_flags demo_entry) = (7 :: u64)" by (simp add: demo_entry_def)
  then show ?thesis using cas_version_spec [OF demo_entry_ok, of 9 0] by fastforce
qed

end
