(* ===== verification/History.thy ===== *)
theory History
  imports Flagged_Ptr
begin

text \<open>
  Version chains: \<open>src/history.h\<close>. While the cache rebuilds its table, an update of a key does not
  replace the entry in the old table; it is linked behind it through \<open>newer_\<close>, a tagged pointer
  whose flag marks the key as deleted. The heap maps the address of an object to its \<open>newer_\<close>
  word. A failing compare-and-swap reads the current word, as in the code; a call through a null
  pointer is an error value.
\<close>

section \<open>The class mv_object\<close>

type_synonym mv_heap = "addr \<rightharpoonup> u64"

definition nread :: "mv_heap \<Rightarrow> addr \<Rightarrow> u64 res" where
  "nread hn a = (if a = 0 then Inl NullDeref else case hn a of None \<Rightarrow> Inl BadPtr | Some w \<Rightarrow> Inr w)"

definition mv_new :: "mv_heap \<Rightarrow> addr \<Rightarrow> mv_heap" where
  "mv_new hn a = hn(a \<mapsto> fp_null)"

partial_function (option) mv_tail :: "mv_heap \<Rightarrow> addr \<Rightarrow> addr \<Rightarrow> addr res option" where
  "mv_tail hn this end =
     (case nread hn this of
        Inl err \<Rightarrow> Some (Inl err)
      | Inr nxt \<Rightarrow>
          if get_ptr nxt = end
          then (if get_flag nxt 1 then Some (Inr 0) else Some (Inr this))
          else mv_tail hn (get_ptr nxt) end)"

declare mv_tail.simps [code]

definition newest :: "mv_heap \<Rightarrow> addr \<Rightarrow> addr res" where
  "newest hn this = outcome (mv_tail hn this 0)"

definition newer :: "mv_heap \<Rightarrow> addr \<Rightarrow> addr res" where
  "newer hn this = rbind (nread hn this) (\<lambda>w. Inr (get_ptr w))"

text \<open>The four updates; \<open>expected\<close> is the loop's variable, reset at every call of the method.\<close>

partial_function (option) mv_set_loop :: "mv_heap \<Rightarrow> addr \<Rightarrow> addr \<Rightarrow> u64 \<Rightarrow> mv_heap res option" where
  "mv_set_loop hn this e expected =
     (case nread hn this of
        Inl err \<Rightarrow> Some (Inl err)
      | Inr cur \<Rightarrow>
          if cur = expected then Some (Inr (hn(this \<mapsto> fp_ptr e)))
          else if cur \<noteq> fp_null then mv_set_loop hn (get_ptr cur) e fp_null
          else (case fp_flagged 0 (get_flags cur) of
                  Inl err \<Rightarrow> Some (Inl err)
                | Inr expected \<Rightarrow> mv_set_loop hn this e expected))"

declare mv_set_loop.simps [code]

definition mv_set :: "mv_heap \<Rightarrow> addr \<Rightarrow> addr \<Rightarrow> mv_heap res" where
  "mv_set hn this e = outcome (mv_set_loop hn this e fp_null)"

definition del_mark :: u64 where
  "del_mark = 1"

partial_function (option) mv_add_loop :: "mv_heap \<Rightarrow> addr \<Rightarrow> addr \<Rightarrow> u64 \<Rightarrow> (bool \<times> mv_heap) res option" where
  "mv_add_loop hn this e expected =
     (case nread hn this of
        Inl err \<Rightarrow> Some (Inl err)
      | Inr cur \<Rightarrow>
          if cur = expected then Some (Inr (True, hn(this \<mapsto> fp_ptr e)))
          else if cur \<noteq> fp_null then mv_add_loop hn (get_ptr cur) e del_mark
          else if \<not> get_flag cur 1 then Some (Inr (False, hn))
          else mv_add_loop hn this e cur)"

declare mv_add_loop.simps [code]

definition mv_add :: "mv_heap \<Rightarrow> addr \<Rightarrow> addr \<Rightarrow> (bool \<times> mv_heap) res" where
  "mv_add hn this e = rbind (fp_flagged 0 1) (\<lambda>expected. outcome (mv_add_loop hn this e expected))"

partial_function (option) mv_replace_loop :: "mv_heap \<Rightarrow> addr \<Rightarrow> addr \<Rightarrow> u64 \<Rightarrow> (bool \<times> mv_heap) res option" where
  "mv_replace_loop hn this e expected =
     (case nread hn this of
        Inl err \<Rightarrow> Some (Inl err)
      | Inr cur \<Rightarrow>
          if cur = expected then Some (Inr (True, hn(this \<mapsto> fp_ptr e)))
          else if cur = fp_null \<and> get_flag cur 1 then Some (Inr (False, hn))
          else if cur \<noteq> fp_null then mv_replace_loop hn (get_ptr cur) e fp_null
          else mv_replace_loop hn this e cur)"

declare mv_replace_loop.simps [code]

definition mv_replace :: "mv_heap \<Rightarrow> addr \<Rightarrow> addr \<Rightarrow> (bool \<times> mv_heap) res" where
  "mv_replace hn this e = outcome (mv_replace_loop hn this e fp_null)"

partial_function (option) mv_del_loop :: "mv_heap \<Rightarrow> addr \<Rightarrow> u64 \<Rightarrow> (bool \<times> mv_heap) res option" where
  "mv_del_loop hn this expected =
     (case nread hn this of
        Inl err \<Rightarrow> Some (Inl err)
      | Inr cur \<Rightarrow>
          if cur = expected
          then (case fp_flagged 0 1 of
                  Inl err \<Rightarrow> Some (Inl err)
                | Inr w \<Rightarrow> Some (Inr (True, hn(this \<mapsto> w))))
          else if cur = fp_null \<and> get_flag cur 1 then Some (Inr (False, hn))
          else if cur \<noteq> fp_null then mv_del_loop hn (get_ptr cur) fp_null
          else mv_del_loop hn this fp_null)"

declare mv_del_loop.simps [code]

definition mv_del :: "mv_heap \<Rightarrow> addr \<Rightarrow> (bool \<times> mv_heap) res" where
  "mv_del hn this = outcome (mv_del_loop hn this fp_null)"

section \<open>Version chains\<close>

text \<open>
  The versions of a key, oldest first, and whether the newest one was deleted. The current version
  is the newest one, or none.
\<close>

fun vlinks :: "mv_heap \<Rightarrow> addr list \<Rightarrow> bool \<Rightarrow> bool" where
  "vlinks hn [] d \<longleftrightarrow> False"
| "vlinks hn [x] d \<longleftrightarrow> x \<noteq> 0 \<and> aligned x \<and> hn x = Some (tagged 0 d)"
| "vlinks hn (x # y # ys) d \<longleftrightarrow> x \<noteq> 0 \<and> aligned x \<and> hn x = Some (tagged y False) \<and> vlinks hn (y # ys) d"

definition versions :: "mv_heap \<Rightarrow> addr \<Rightarrow> addr list \<Rightarrow> bool \<Rightarrow> bool" where
  "versions hn a xs d \<longleftrightarrow> vlinks hn xs d \<and> hd xs = a \<and> distinct xs"

definition current :: "addr list \<Rightarrow> bool \<Rightarrow> addr" where
  "current xs d = (if d then 0 else last xs)"

lemma nread_simps [simp]:
  "nread hn 0 = Inl NullDeref" "a \<noteq> 0 \<Longrightarrow> hn a = Some w \<Longrightarrow> nread hn a = Inr w"
  by (simp_all add: nread_def)

lemma vlinks_hd: "vlinks hn (x # xs) d \<Longrightarrow> x \<noteq> 0 \<and> aligned x"
  by (cases xs) auto

lemma tagged_null [simp]: "tagged 0 False = 0" "tagged 0 True = 1"
  by (simp_all add: tagged_def)

lemma get_ptr_1 [simp]: "get_ptr 1 = 0" "get_flag 1 1"
  using get_ptr_tagged [of 0 True] get_flag_tagged [of 0 True] by (simp_all add: tagged_def)

lemma tagged_ptr [simp]: "tagged p False = p"
  by (simp add: tagged_def)

lemma vlinks_upd: "a \<notin> set xs \<Longrightarrow> vlinks (hn(a := v)) xs d = vlinks hn xs d"
  by (induction hn xs d rule: vlinks.induct) auto

lemma vlinks_in: "vlinks hn xs d \<Longrightarrow> x \<in> set xs \<Longrightarrow> x \<noteq> 0 \<and> aligned x \<and> x \<in> dom hn"
  by (induction hn xs d rule: vlinks.induct) auto

lemma vlinks_snoc:
  assumes "vlinks hn xs d" "distinct xs" "e \<notin> set xs" "e \<noteq> 0" "aligned e" "hn e = Some 0"
  shows "vlinks (hn(last xs \<mapsto> e)) (xs @ [e]) False"
  using assms
proof (induction hn xs d rule: vlinks.induct)
  case (3 hn x y ys d)
  then have "x \<noteq> last (y # ys)" by (metis distinct.simps(2) last_in_set list.distinct(1))
  then show ?case using 3 by simp
qed auto

lemma vlinks_del:
  assumes "vlinks hn xs d" "distinct xs"
  shows "vlinks (hn(last xs \<mapsto> 1)) xs True"
  using assms
proof (induction hn xs d rule: vlinks.induct)
  case (3 hn x y ys d)
  then have "x \<noteq> last (y # ys)" by (metis distinct.simps(2) last_in_set list.distinct(1))
  then show ?case using 3 by simp
qed auto

text \<open>What each loop does at the end of a chain of versions.\<close>

lemma mv_tail_links: "vlinks hn xs d \<Longrightarrow> mv_tail hn (hd xs) 0 = Some (Inr (current xs d))"
proof (induction hn xs d rule: vlinks.induct)
  case (2 hn x d)
  then show ?case by (cases d) (simp_all add: mv_tail.simps current_def)
next
  case (3 hn x y ys d)
  then show ?case using vlinks_hd [of hn y ys d] by (subst mv_tail.simps) (simp add: current_def)
qed simp

lemma mv_set_links:
  "vlinks hn xs d \<Longrightarrow> mv_set_loop hn (hd xs) e 0 =
     Some (if d then Inl NullDeref else Inr (hn(last xs \<mapsto> e)))"
proof (induction hn xs d rule: vlinks.induct)
  case (2 hn x d)
  then show ?case
    by (cases d) (subst mv_set_loop.simps, simp add: fp_null_def fp_ptr_def mv_set_loop.simps [of hn 0])+
next
  case (3 hn x y ys d)
  then show ?case
    using vlinks_hd [of hn y ys d] by (subst mv_set_loop.simps) (simp add: fp_null_def)
qed simp

lemma mv_add_links:
  "vlinks hn xs d \<Longrightarrow> mv_add_loop hn (hd xs) e 1 =
     Some (if d then Inr (True, hn(last xs \<mapsto> e)) else Inr (False, hn))"
proof (induction hn xs d rule: vlinks.induct)
  case (2 hn x d)
  then show ?case
    by (cases d) (subst mv_add_loop.simps, simp add: fp_null_def fp_ptr_def mv_add_loop.simps [of hn 0])+
next
  case (3 hn x y ys d)
  then have y: "y \<noteq> 0" "aligned y" using vlinks_hd [of hn y ys d] by auto
  then have "y \<noteq> 1" using get_flag_aligned [of 1] by auto
  then show ?case
    using 3 y by (subst mv_add_loop.simps) (simp add: fp_null_def del_mark_def)
qed simp

lemma mv_replace_links:
  "vlinks hn xs d \<Longrightarrow> mv_replace_loop hn (hd xs) e 0 =
     Some (if d then Inl NullDeref else Inr (True, hn(last xs \<mapsto> e)))"
proof (induction hn xs d rule: vlinks.induct)
  case (2 hn x d)
  then show ?case
    by (cases d) (subst mv_replace_loop.simps, simp add: fp_null_def fp_ptr_def mv_replace_loop.simps [of hn 0])+
next
  case (3 hn x y ys d)
  then have y: "y \<noteq> 0" "aligned y" using vlinks_hd [of hn y ys d] by auto
  then show ?case
    using 3 y by (subst mv_replace_loop.simps) (simp add: fp_null_def del_mark_def)
qed simp

lemma mv_del_links:
  "vlinks hn xs d \<Longrightarrow> mv_del_loop hn (hd xs) 0 =
     Some (if d then Inl NullDeref else Inr (True, hn(last xs \<mapsto> 1)))"
proof (induction hn xs d rule: vlinks.induct)
  case (2 hn x d)
  then show ?case
    by (cases d) (subst mv_del_loop.simps, simp add: fp_null_def fp_ptr_def mv_del_loop.simps [of hn 0])+
next
  case (3 hn x y ys d)
  then have y: "y \<noteq> 0" "aligned y" using vlinks_hd [of hn y ys d] by auto
  then show ?case
    using 3 y by (subst mv_del_loop.simps) (simp add: fp_null_def del_mark_def)
qed simp

text \<open>The operations on a chain of versions.\<close>

lemma newest_versions: "versions hn a xs d \<Longrightarrow> newest hn a = Inr (current xs d)"
  using mv_tail_links [of hn xs d] by (simp add: versions_def newest_def)

lemma mv_set_versions:
  "versions hn a xs d \<Longrightarrow> mv_set hn a e = (if d then Inl NullDeref else Inr (hn(last xs \<mapsto> e)))"
  using mv_set_links [of hn xs d e] by (auto simp: versions_def mv_set_def fp_null_def)

lemma mv_add_versions:
  "versions hn a xs d \<Longrightarrow> mv_add hn a e = (if d then Inr (True, hn(last xs \<mapsto> e)) else Inr (False, hn))"
  using mv_add_links [of hn xs d e] by (auto simp: versions_def mv_add_def)

lemma mv_replace_versions:
  "versions hn a xs d \<Longrightarrow> mv_replace hn a e = (if d then Inl NullDeref else Inr (True, hn(last xs \<mapsto> e)))"
  using mv_replace_links [of hn xs d e] by (auto simp: versions_def mv_replace_def fp_null_def)

lemma mv_del_versions:
  "versions hn a xs d \<Longrightarrow> mv_del hn a = (if d then Inl NullDeref else Inr (True, hn(last xs \<mapsto> 1)))"
  using mv_del_links [of hn xs d] by (auto simp: versions_def mv_del_def fp_null_def)

lemma versions_ne: "versions hn a xs d \<Longrightarrow> xs \<noteq> []"
  by (auto simp: versions_def)

lemma versions_snoc:
  "versions hn a xs d \<Longrightarrow> e \<notin> set xs \<Longrightarrow> e \<noteq> 0 \<Longrightarrow> aligned e \<Longrightarrow> hn e = Some 0 \<Longrightarrow>
   versions (hn(last xs \<mapsto> e)) a (xs @ [e]) False"
  using vlinks_snoc [of hn xs d e] versions_ne [of hn a xs d] by (simp add: versions_def)

lemma versions_del: "versions hn a xs d \<Longrightarrow> versions (hn(last xs \<mapsto> 1)) a xs True"
  using vlinks_del [of hn xs d] by (simp add: versions_def)

lemma versions_upd: "versions hn a xs d \<Longrightarrow> b \<notin> set xs \<Longrightarrow> versions (hn(b := v)) a xs d"
  by (simp add: versions_def vlinks_upd)

lemma versions_mv_new: "a \<noteq> 0 \<Longrightarrow> aligned a \<Longrightarrow> versions (mv_new hn a) a [a] False"
  by (simp add: versions_def mv_new_def fp_null_def)

section \<open>Properties\<close>

text \<open>
  C10: The version chain of a key that has not been deleted behaves as a history whose last
  element is the key's value. For every chain and every fresh object \<open>e\<close>, all operations
  return: \<open>newest\<close> is the last version, \<open>mv_set\<close> and \<open>mv_replace\<close> append \<open>e\<close>, \<open>mv_add\<close> refuses
  and changes nothing, \<open>mv_del\<close> leaves a chain with no current version, to which \<open>mv_add\<close> can then
  add again.
\<close>

theorem history_spec:
  assumes "versions hn a xs False" and "e \<notin> set xs" and "e \<noteq> 0" and "aligned e" and "hn e = Some fp_null"
  shows "newest hn a = Inr (last xs) \<and>
    mv_add hn a e = Inr (False, hn) \<and>
    (\<exists>hn'. mv_set hn a e = Inr hn' \<and> mv_replace hn a e = Inr (True, hn') \<and>
       versions hn' a (xs @ [e]) False \<and> newest hn' a = Inr e) \<and>
    (\<exists>hn'. mv_del hn a = Inr (True, hn') \<and> versions hn' a xs True \<and> newest hn' a = Inr 0 \<and>
       (\<exists>hn''. mv_add hn' a e = Inr (True, hn'') \<and> versions hn'' a (xs @ [e]) False \<and> newest hn'' a = Inr e))"
proof -
  let ?s = "hn(last xs \<mapsto> e)" and ?d = "hn(last xs \<mapsto> 1)"
  have e: "hn e = Some 0" using assms(5) by (simp add: fp_null_def)
  have s: "versions ?s a (xs @ [e]) False" by (rule versions_snoc [OF assms(1-4) e])
  have d: "versions ?d a xs True" by (rule versions_del [OF assms(1)])
  have "last xs \<noteq> e" using assms(1,2) versions_ne last_in_set by metis
  then have "versions (?d(last xs \<mapsto> e)) a (xs @ [e]) False"
    using versions_snoc [OF d assms(2-4)] e by simp
  then show ?thesis
    using assms(1) s d newest_versions [OF s] newest_versions [OF d] newest_versions [OF assms(1)]
    by (simp add: mv_add_versions mv_set_versions mv_replace_versions mv_del_versions current_def)
qed

definition demo_hist :: mv_heap where
  "demo_hist = [16 \<mapsto> 32, 32 \<mapsto> 0, 48 \<mapsto> 0]"

lemma demo_hist_ok: "versions demo_hist 16 [16, 32] False"
  by (simp add: versions_def demo_hist_def aligned_def flag_mask_15)

theorem history_spec_witness:
  "newest demo_hist 16 = Inr 32 \<and> (\<exists>hn'. mv_set demo_hist 16 48 = Inr hn' \<and> newest hn' 16 = Inr 48)"
proof -
  have "(48 :: addr) \<notin> set [16, 32]" "(48 :: addr) \<noteq> 0" "aligned 48" "demo_hist 48 = Some fp_null"
    by (simp_all add: demo_hist_def aligned_def flag_mask_15 fp_null_def)
  from history_spec [OF demo_hist_ok this] show ?thesis by auto
qed

text \<open>
  C20: Once a key has been deleted through its version chain, \<open>mv_set\<close>, \<open>mv_replace\<close> and \<open>mv_del\<close>
  dereference a null pointer: the deleted mark is a flagged null pointer, which is not equal to
  \<open>nullptr\<close>, so the comparison with \<open>nullptr\<close> takes it for a newer version. Their branch for a
  deleted key, \<open>expected == nullptr && expected.get_flag(del_flag)\<close>, is never taken.
\<close>

theorem history_crash_after_delete:
  assumes "versions hn a xs True"
  shows "mv_set hn a e = Inl NullDeref \<and> mv_replace hn a e = Inl NullDeref \<and> mv_del hn a = Inl NullDeref"
  using assms by (simp add: mv_set_versions mv_replace_versions mv_del_versions)

theorem history_crash_after_delete_witness:
  "\<exists>hn'. mv_del demo_hist 16 = Inr (True, hn') \<and> mv_set hn' 16 48 = Inl NullDeref"
proof -
  have "mv_del demo_hist 16 = Inr (True, demo_hist(32 \<mapsto> 1))"
    using mv_del_versions [OF demo_hist_ok] by simp
  then show ?thesis
    using history_crash_after_delete [OF versions_del [OF demo_hist_ok], of 48] by simp
qed

end
