(* ===== verification/Gc.thy ===== *)
theory Gc
  imports Prelude
begin

text \<open>
  Deferred deletion: \<open>src/gc.h\<close>, \<open>src/gc.cc\<close>, \<open>src/cpu.h\<close> and \<open>src/cpu.cc\<close>. A freed object is pushed
  on the pending list of the thread ("cpu") that freed it; a checkpoint of a thread marks the head
  of every pending list as seen by it, and a thread deletes the tail of its own list once every
  registered thread has been seen. \<open>gc_flush\<close> waits until every thread has checkpointed.

  Each call is one atomic step, except that \<open>gc_flush\<close> is two: the part up to the wait, and the part
  after it. \<open>gc_object\<close>s live in a heap of their own; \<open>delete\<close> removes the object from it, and the
  addresses deleted are returned, in order, to the owner of the destructors.
\<close>

section \<open>Threads: cpu.cc\<close>

definition MAX_CPUS :: nat where
  "MAX_CPUS = 32"

lemma MAX_CPUS_pos [simp]: "0 < MAX_CPUS"
  by (simp add: MAX_CPUS_def)

record gc_object =
  g_next :: addr
  g_seen :: u64
  g_scheduled :: bool
  g_dispatched :: bool

record waiter =
  w_seen :: u64
  w_id :: nat
  w_next :: addr

record gc_state =
  gheap :: "addr \<rightharpoonup> gc_object"
  pending :: "nat \<Rightarrow> addr"
  last_observed :: "nat \<Rightarrow> nat \<Rightarrow> addr"
  cpu_mask :: u64
  cpu_count :: nat
  flushes :: addr
  wheap :: "addr \<rightharpoonup> waiter"

definition gc_initial :: gc_state where
  "gc_initial = \<lparr>gheap = Map.empty, pending = (\<lambda>_. 0), last_observed = (\<lambda>_ _. 0),
     cpu_mask = 0, cpu_count = 0, flushes = 0, wheap = Map.empty\<rparr>"

definition cpu_init :: "gc_state \<Rightarrow> (nat \<times> gc_state) res" where
  "cpu_init st =
     (let c = cpu_count st;
          st = st\<lparr>cpu_count := c + 1\<rparr>;
          st = st\<lparr>cpu_mask := cpu_mask st OR push_bit c 1\<rparr>
      in rbind (require (c < MAX_CPUS) AssertFailed) (\<lambda>_. Inr (c, st)))"

definition cpu_exit :: "gc_state \<Rightarrow> nat \<Rightarrow> gc_state" where
  "cpu_exit st c = st\<lparr>cpu_mask := cpu_mask st AND NOT (push_bit c 1)\<rparr>"

definition cpu_seen_all :: "gc_state \<Rightarrow> u64 \<Rightarrow> bool" where
  "cpu_seen_all st seen \<longleftrightarrow> \<not> (NOT seen AND cpu_mask st \<noteq> 0)"

section \<open>Objects: gc.cc\<close>

definition gread :: "gc_state \<Rightarrow> addr \<Rightarrow> gc_object res" where
  "gread st a = (if a = 0 then Inl NullDeref else case gheap st a of None \<Rightarrow> Inl BadPtr | Some g \<Rightarrow> Inr g)"

definition gwrite :: "gc_state \<Rightarrow> addr \<Rightarrow> gc_object \<Rightarrow> gc_state" where
  "gwrite st a g = st\<lparr>gheap := (gheap st)(a \<mapsto> g)\<rparr>"

definition gc_object_new :: "gc_state \<Rightarrow> addr \<Rightarrow> gc_state" where
  "gc_object_new st a = gwrite st a \<lparr>g_next = 0, g_seen = 0, g_scheduled = False, g_dispatched = False\<rparr>"

text \<open>An object that was never handed to \<open>gc_free\<close> may be deleted by its owner.\<close>

definition gc_object_delete :: "gc_state \<Rightarrow> addr \<Rightarrow> gc_state" where
  "gc_object_delete st a = st\<lparr>gheap := (gheap st)(a := None)\<rparr>"

definition set_gnext :: "gc_state \<Rightarrow> addr \<Rightarrow> addr \<Rightarrow> gc_state res" where
  "set_gnext st a nxt =
     rbind (require (nxt = 0 \<or> nxt > 0x1000) AssertFailed) (\<lambda>_.
     rbind (gread st a) (\<lambda>g. Inr (gwrite st a (g\<lparr>g_next := nxt\<rparr>))))"

definition gc_free :: "gc_state \<Rightarrow> nat \<Rightarrow> addr \<Rightarrow> gc_state res" where
  "gc_free st cpu this =
     rbind (gread st this) (\<lambda>g.
     rbind (require (\<not> g_scheduled g) AssertFailed) (\<lambda>_.
     let st = gwrite st this (g\<lparr>g_scheduled := True\<rparr>); sub = pending st cpu in
     rbind (set_gnext st this sub) (\<lambda>st.
     Inr (st\<lparr>pending := (pending st)(cpu := this)\<rparr>))))"

text \<open>\<open>1 << cpu\<close> is a 32 bit \<open>int\<close>, sign-extended when it is or-ed into the 64 bit mask.\<close>

definition observe_object :: "gc_state \<Rightarrow> addr \<Rightarrow> nat \<Rightarrow> gc_state res" where
  "observe_object st this cpu =
     rbind (gread st this) (\<lambda>g.
     Inr (gwrite st this (g\<lparr>g_seen := g_seen g OR scast (push_bit cpu 1 :: u32)\<rparr>)))"

definition observe :: "gc_state \<Rightarrow> nat \<Rightarrow> nat \<Rightarrow> addr \<Rightarrow> (addr \<times> gc_state) res" where
  "observe st i cpu unless =
     (let head = pending st i in
      if head \<noteq> 0 \<and> head \<noteq> unless
      then rbind (observe_object st head cpu) (\<lambda>st. Inr (head, st))
      else Inr (head, st))"

fun observe_loop :: "gc_state \<Rightarrow> nat \<Rightarrow> nat list \<Rightarrow> gc_state res" where
  "observe_loop st cpu [] = Inr st"
| "observe_loop st cpu (i # is) =
     rbind (observe st i cpu (last_observed st cpu i)) (\<lambda>(head, st).
     observe_loop (st\<lparr>last_observed := (last_observed st)(cpu := (last_observed st cpu)(i := head))\<rparr>) cpu is)"

text \<open>\<open>at\<close> is \<open>&pending\<close> (\<open>None\<close>) or \<open>&t->next\<close>.\<close>

definition read_at :: "gc_state \<Rightarrow> nat \<Rightarrow> addr option \<Rightarrow> addr res" where
  "read_at st cpu at = (case at of None \<Rightarrow> Inr (pending st cpu) | Some t \<Rightarrow> rbind (gread st t) (\<lambda>g. Inr (g_next g)))"

definition clear_at :: "gc_state \<Rightarrow> nat \<Rightarrow> addr option \<Rightarrow> gc_state res" where
  "clear_at st cpu at =
     (case at of
        None \<Rightarrow> Inr (st\<lparr>pending := (pending st)(cpu := 0)\<rparr>)
      | Some t \<Rightarrow> rbind (gread st t) (\<lambda>g. Inr (gwrite st t (g\<lparr>g_next := 0\<rparr>))))"

partial_function (option) pop_ready_loop :: "gc_state \<Rightarrow> nat \<Rightarrow> addr option \<Rightarrow> u64 \<Rightarrow> (addr \<times> gc_state) res option" where
  "pop_ready_loop st cpu at seen =
     (case read_at st cpu at of
        Inl e \<Rightarrow> Some (Inl e)
      | Inr t \<Rightarrow>
          if t = 0 then Some (Inr (0, st))
          else (case gread st t of
                  Inl e \<Rightarrow> Some (Inl e)
                | Inr g \<Rightarrow>
                    (let seen = seen OR g_seen g in
                     if cpu_seen_all st seen then Some (rbind (clear_at st cpu at) (\<lambda>st. Inr (t, st)))
                     else pop_ready_loop st cpu (Some t) seen)))"

declare pop_ready_loop.simps [code]

definition pop_ready :: "gc_state \<Rightarrow> nat \<Rightarrow> (addr \<times> gc_state) res" where
  "pop_ready st cpu = outcome (pop_ready_loop st cpu None 0)"

partial_function (option) service_loop :: "gc_state \<Rightarrow> addr \<Rightarrow> addr list \<Rightarrow> (addr list \<times> gc_state) res option" where
  "service_loop st ready ds =
     (if ready = 0 then Some (Inr (ds, st))
      else case gread st ready of
        Inl e \<Rightarrow> Some (Inl e)
      | Inr g \<Rightarrow>
          if g_dispatched g then Some (Inl AssertFailed)
          else service_loop (st\<lparr>gheap := (gheap st)(ready := None)\<rparr>) (g_next g) (ds @ [ready]))"

declare service_loop.simps [code]

definition gc_service :: "gc_state \<Rightarrow> nat \<Rightarrow> (addr list \<times> gc_state) res" where
  "gc_service st cpu =
     rbind (pop_ready st cpu) (\<lambda>(ready, st).
     if ready = 0 then Inr ([], st) else outcome (service_loop st ready []))"

definition cpu_checkpoint :: "gc_state \<Rightarrow> nat \<Rightarrow> (addr list \<times> gc_state) res" where
  "cpu_checkpoint st cpu =
     rbind (observe_loop st cpu [0..<MAX_CPUS]) (\<lambda>st. gc_service st cpu)"

section \<open>Waiting for every thread: gc_flush_control\<close>

definition wread :: "gc_state \<Rightarrow> addr \<Rightarrow> waiter res" where
  "wread st a = (if a = 0 then Inl NullDeref else case wheap st a of None \<Rightarrow> Inl BadPtr | Some w \<Rightarrow> Inr w)"

definition wwrite :: "gc_state \<Rightarrow> addr \<Rightarrow> waiter \<Rightarrow> gc_state" where
  "wwrite st a w = st\<lparr>wheap := (wheap st)(a \<mapsto> w)\<rparr>"

partial_function (option) waiter_append :: "gc_state \<Rightarrow> addr \<Rightarrow> addr \<Rightarrow> gc_state res option" where
  "waiter_append st this w =
     (case wread st this of
        Inl e \<Rightarrow> Some (Inl e)
      | Inr x \<Rightarrow>
          if w_next x \<noteq> 0 then waiter_append st (w_next x) w
          else Some (Inr (wwrite st this (x\<lparr>w_next := w\<rparr>))))"

declare waiter_append.simps [code]

partial_function (option) waiter_checkpoint :: "gc_state \<Rightarrow> addr \<Rightarrow> nat \<Rightarrow> gc_state res option" where
  "waiter_checkpoint st this cpu =
     (case wread st this of
        Inl e \<Rightarrow> Some (Inl e)
      | Inr x \<Rightarrow>
          (let st = wwrite st this (x\<lparr>w_seen := w_seen x OR push_bit cpu 1\<rparr>) in
           if w_next x \<noteq> 0 then waiter_checkpoint st (w_next x) cpu else Some (Inr st)))"

declare waiter_checkpoint.simps [code]

definition checkpoint_locked :: "gc_state \<Rightarrow> nat \<Rightarrow> gc_state res" where
  "checkpoint_locked st cpu =
     (if flushes st \<noteq> 0 then outcome (waiter_checkpoint st (flushes st) cpu) else Inr st)"

definition force_checkpoint :: "gc_state \<Rightarrow> nat \<Rightarrow> gc_state res" where
  "force_checkpoint st cpu = checkpoint_locked st cpu"

definition flush_checkpoint :: "gc_state \<Rightarrow> nat \<Rightarrow> gc_state res" where
  "flush_checkpoint st cpu = (if flushes st = 0 then Inr st else force_checkpoint st cpu)"

definition gc_checkpoint :: "gc_state \<Rightarrow> nat \<Rightarrow> (addr list \<times> gc_state) res" where
  "gc_checkpoint st cpu =
     rbind (cpu_checkpoint st cpu) (\<lambda>(ds, st).
     rbind (flush_checkpoint st cpu) (\<lambda>st. Inr (ds, st)))"

text \<open>
  \<open>flush\<close> up to \<open>w.wait()\<close>, with the waiter at stack address \<open>a\<close>; its return, which is possible when
  \<open>flush_ready\<close>; the waiter's stack frame is gone afterwards.
\<close>

definition flush_begin :: "gc_state \<Rightarrow> nat \<Rightarrow> addr \<Rightarrow> (addr list \<times> gc_state) res" where
  "flush_begin st cpu a =
     rbind (gc_checkpoint st cpu) (\<lambda>(ds, st).
     let st = wwrite st a \<lparr>w_seen = 0, w_id = cpu, w_next = 0\<rparr>; head = flushes st in
     rbind (if head = 0 then Inr (st\<lparr>flushes := a\<rparr>) else outcome (waiter_append st head a)) (\<lambda>st.
     rbind (checkpoint_locked st cpu) (\<lambda>st. Inr (ds, st))))"

definition flush_ready :: "gc_state \<Rightarrow> addr \<Rightarrow> bool" where
  "flush_ready st a = (case wheap st a of None \<Rightarrow> False | Some w \<Rightarrow> cpu_seen_all st (w_seen w))"

definition flush_end :: "gc_state \<Rightarrow> addr \<Rightarrow> gc_state res" where
  "flush_end st a =
     rbind (wread st a) (\<lambda>w. Inr (st\<lparr>flushes := w_next w, wheap := (wheap st)(a := None)\<rparr>))"

fun finish_loop :: "gc_state \<Rightarrow> nat list \<Rightarrow> (addr list \<times> gc_state) res" where
  "finish_loop st [] = Inr ([], st)"
| "finish_loop st (i # is) =
     rbind (cpu_checkpoint st i) (\<lambda>(ds, st).
     rbind (finish_loop st is) (\<lambda>(ds', st). Inr (ds @ ds', st)))"

definition gc_finish :: "gc_state \<Rightarrow> (addr list \<times> gc_state) res" where
  "gc_finish st =
     rbind (finish_loop st [0..<cpu_count st]) (\<lambda>(ds, st).
     rbind (finish_loop st [0..<cpu_count st]) (\<lambda>(ds', st). Inr (ds @ ds', st)))"

definition gc_exit :: "gc_state \<Rightarrow> nat \<Rightarrow> (addr list \<times> gc_state) res" where
  "gc_exit st cpu =
     rbind (gc_checkpoint st cpu) (\<lambda>(ds, st).
     let st = cpu_exit st cpu in
     rbind (gc_checkpoint st cpu) (\<lambda>(ds', st).
     rbind (force_checkpoint st cpu) (\<lambda>st. Inr (ds @ ds', st))))"

text \<open>\<open>n\<close> is the thread's counter \<open>gc_thread_locked\<close>.\<close>

definition gc_lock :: "int \<Rightarrow> int" where
  "gc_lock n = n + 1"

definition gc_unlock :: "gc_state \<Rightarrow> nat \<Rightarrow> int \<Rightarrow> (addr list \<times> int \<times> gc_state) res" where
  "gc_unlock st cpu n =
     (let n = n - 1 in
      if n = 0 then rbind (gc_checkpoint st cpu) (\<lambda>(ds, st). Inr (ds, n, st)) else Inr ([], n, st))"

section \<open>Executions\<close>

text \<open>
  The events of an execution, with the conditions the callers guarantee: an object is created at
  an address that is free (possibly one that was deleted before), it is freed once or, if it never
  was, deleted by its owner, and at most one flush is under way (only the service thread flushes). Traces list the events newest first.
\<close>

datatype gc_event =
    EvNew addr
  | EvFree nat addr
  | EvDelete addr
  | EvCheckpoint nat
  | EvInit
  | EvExit nat
  | EvFlushBegin nat addr
  | EvFlushEnd addr

fun gc_exec :: "gc_state \<Rightarrow> gc_event \<Rightarrow> (addr list \<times> gc_state) res" where
  "gc_exec st (EvNew a) = Inr ([], gc_object_new st a)"
| "gc_exec st (EvFree c a) = rbind (gc_free st c a) (\<lambda>st. Inr ([], st))"
| "gc_exec st (EvDelete a) = Inr ([], gc_object_delete st a)"
| "gc_exec st (EvCheckpoint c) = gc_checkpoint st c"
| "gc_exec st EvInit = rbind (cpu_init st) (\<lambda>(_, st). Inr ([], st))"
| "gc_exec st (EvExit c) = Inr ([], cpu_exit st c)"
| "gc_exec st (EvFlushBegin c a) = flush_begin st c a"
| "gc_exec st (EvFlushEnd a) = rbind (flush_end st a) (\<lambda>st. Inr ([], st))"

fun gc_enabled :: "gc_state \<Rightarrow> gc_event \<Rightarrow> bool" where
  "gc_enabled st (EvNew a) \<longleftrightarrow> a > 0x1000 \<and> gheap st a = None"
| "gc_enabled st (EvFree c a) \<longleftrightarrow>
     c < MAX_CPUS \<and> (case gheap st a of None \<Rightarrow> False | Some g \<Rightarrow> \<not> g_scheduled g)"
| "gc_enabled st (EvDelete a) \<longleftrightarrow> (case gheap st a of None \<Rightarrow> False | Some g \<Rightarrow> \<not> g_scheduled g)"
| "gc_enabled st (EvCheckpoint c) \<longleftrightarrow> c < cpu_count st"
| "gc_enabled st EvInit \<longleftrightarrow> cpu_count st < MAX_CPUS"
| "gc_enabled st (EvExit c) \<longleftrightarrow> c < cpu_count st"
| "gc_enabled st (EvFlushBegin c a) \<longleftrightarrow> c < cpu_count st \<and> a \<noteq> 0 \<and> flushes st = 0"
| "gc_enabled st (EvFlushEnd a) \<longleftrightarrow> a \<noteq> 0 \<and> flushes st = a \<and> flush_ready st a"

inductive gc_run :: "gc_event list \<Rightarrow> gc_state \<Rightarrow> bool" where
  gc_run_init: "gc_run [] gc_initial"
| gc_run_step: "gc_run tr st \<Longrightarrow> gc_enabled st ev \<Longrightarrow> gc_exec st ev = Inr (ds, st') \<Longrightarrow> gc_run (ev # tr) st'"

text \<open>The threads that checkpointed since the object was last freed, and since the last flush began.\<close>

fun since :: "gc_event list \<Rightarrow> addr \<Rightarrow> nat set" where
  "since [] x = {}"
| "since (EvFree c y # tr) x = (if x = y then {} else since tr x)"
| "since (EvCheckpoint c # tr) x = insert c (since tr x)"
| "since (EvFlushBegin c a # tr) x = insert c (since tr x)"
| "since (EvNew a # tr) x = since tr x"
| "since (EvDelete a # tr) x = since tr x"
| "since (EvInit # tr) x = since tr x"
| "since (EvExit c # tr) x = since tr x"
| "since (EvFlushEnd a # tr) x = since tr x"

fun flush_since :: "gc_event list \<Rightarrow> nat set" where
  "flush_since [] = {}"
| "flush_since (EvFlushBegin c a # tr) = {c}"
| "flush_since (EvCheckpoint c # tr) = insert c (flush_since tr)"
| "flush_since (ev # tr) = flush_since tr"

section \<open>Invariant\<close>

fun plist :: "(addr \<rightharpoonup> gc_object) \<Rightarrow> addr \<Rightarrow> addr list \<Rightarrow> bool" where
  "plist h a [] \<longleftrightarrow> a = 0"
| "plist h a (x # xs) \<longleftrightarrow> a = x \<and> x \<noteq> 0 \<and> (\<exists>g. h x = Some g \<and> plist h (g_next g) xs)"

definition seen_by :: "gc_object \<Rightarrow> nat set" where
  "seen_by g = {b. b < 32 \<and> bit (g_seen g) b}"

text \<open>
  \<open>xss\<close> gives the pending list of every thread, newest object first. The older an object, the
  more threads have checkpointed since it was freed; no thread is marked that has not. Every object
  that was freed is in a list.
\<close>

definition gc_lists :: "gc_event list \<Rightarrow> gc_state \<Rightarrow> (nat \<Rightarrow> addr list) \<Rightarrow> bool" where
  "gc_lists tr st xss \<longleftrightarrow>
     (\<forall>i < 32. plist (gheap st) (pending st i) (xss i) \<and> distinct (xss i) \<and>
        sorted_wrt (\<lambda>x y. since tr x \<subseteq> since tr y) (xss i) \<and>
        (\<forall>x \<in> set (xss i). \<forall>g. gheap st x = Some g \<longrightarrow> g_scheduled g \<and> seen_by g \<subseteq> since tr x)) \<and>
     (\<forall>i < 32. \<forall>j < 32. i \<noteq> j \<longrightarrow> set (xss i) \<inter> set (xss j) = {}) \<and>
     (\<forall>x g. gheap st x = Some g \<longrightarrow> g_scheduled g \<longrightarrow> (\<exists>i < 32. x \<in> set (xss i)))"

definition gc_inv :: "gc_event list \<Rightarrow> gc_state \<Rightarrow> bool" where
  "gc_inv tr st \<longleftrightarrow>
     (\<exists>xss. gc_lists tr st xss) \<and>
     (\<forall>x g. gheap st x = Some g \<longrightarrow> x > 0x1000 \<and> \<not> g_dispatched g \<and> (g_scheduled g \<or> seen_by g = {})) \<and>
     cpu_count st \<le> 32 \<and> (\<forall>b. bit (cpu_mask st) b \<longrightarrow> b < cpu_count st) \<and>
     (flushes st \<noteq> 0 \<longrightarrow> (\<exists>w. wheap st (flushes st) = Some w \<and> w_next w = 0 \<and>
        (\<forall>b. bit (w_seen w) b \<longrightarrow> b \<in> flush_since tr)))"

section \<open>Lemmas\<close>

lemma cpu_seen_all_iff: "cpu_seen_all st seen \<longleftrightarrow> (\<forall>b. bit (cpu_mask st) b \<longrightarrow> bit seen b)"
proof -
  have "NOT seen AND cpu_mask st = 0 \<longleftrightarrow> (\<forall>b. bit (cpu_mask st) b \<longrightarrow> bit seen b)"
    using bit_imp_le_length [of "cpu_mask st"] by (auto simp: bit_eq_iff bit_simps)
  then show ?thesis by (simp add: cpu_seen_all_def)
qed

lemma bit_cpu32: "b < 32 \<Longrightarrow> c < 32 \<Longrightarrow> bit (scast (push_bit c 1 :: u32) :: u64) b \<longleftrightarrow> b = c"
  by (auto simp: bit_simps min_def)

lemma gread_simps [simp]:
  "gread st 0 = Inl NullDeref" "a \<noteq> 0 \<Longrightarrow> gheap st a = Some g \<Longrightarrow> gread st a = Inr g"
  by (simp_all add: gread_def)

lemma plist_in: "plist h a xs \<Longrightarrow> x \<in> set xs \<Longrightarrow> x \<noteq> 0 \<and> (\<exists>g. h x = Some g)"
  by (induction h a xs rule: plist.induct) auto

lemma plist_hd: "plist h a xs \<Longrightarrow> a \<noteq> 0 \<Longrightarrow> xs \<noteq> [] \<and> hd xs = a"
  by (cases xs) auto

lemma plist_upd: "x \<notin> set xs \<Longrightarrow> plist (h(x := v)) a xs = plist h a xs"
  by (induction xs arbitrary: a) auto

lemma plist_cong:
  "(\<And>x. x \<in> set xs \<Longrightarrow> map_option g_next (h' x) = map_option g_next (h x)) \<Longrightarrow> plist h a xs \<Longrightarrow> plist h' a xs"
proof (induction xs arbitrary: a)
  case (Cons x xs)
  then obtain g where g: "h x = Some g" "plist h (g_next g) xs" "a = x" "x \<noteq> 0" by auto
  then obtain g' where "h' x = Some g'" "g_next g' = g_next g" using Cons.prems(1) [of x] by auto
  then show ?case using Cons.IH [of "g_next g"] Cons.prems(1) g by simp
qed simp

lemma plist_split:
  "plist h a (xs @ y # ys) \<Longrightarrow> plist h y (y # ys)"
  by (induction xs arbitrary: a) auto

lemma plist_cut:
  assumes "plist h a (xs @ ys)" "distinct (xs @ ys)" "xs \<noteq> []" "h (last xs) = Some g"
  shows "plist (h(last xs \<mapsto> g\<lparr>g_next := 0\<rparr>)) a xs"
  using assms
proof (induction xs arbitrary: a)
  case (Cons x xs)
  show ?case
  proof (cases "xs = []")
    case False
    then have "x \<noteq> last xs" using Cons.prems(2) last_in_set by fastforce
    then show ?thesis using Cons.IH Cons.prems False by auto
  qed (use Cons.prems in auto)
qed simp

subsection \<open>Observing\<close>

definition obs1 :: "nat \<Rightarrow> gc_object \<Rightarrow> gc_object \<Rightarrow> bool" where
  "obs1 c g g' \<longleftrightarrow> g_next g' = g_next g \<and> g_scheduled g' = g_scheduled g \<and> g_dispatched g' = g_dispatched g \<and>
     seen_by g' \<subseteq> insert c (seen_by g) \<and> (g_scheduled g \<or> g' = g)"

definition observed :: "nat \<Rightarrow> (addr \<rightharpoonup> gc_object) \<Rightarrow> (addr \<rightharpoonup> gc_object) \<Rightarrow> bool" where
  "observed c h h' \<longleftrightarrow> (\<forall>x. rel_option (obs1 c) (h x) (h' x))"

lemma obs1_refl: "obs1 c g g"
  by (auto simp: obs1_def)

lemma observed_refl: "observed c h h"
  by (simp add: observed_def option.rel_refl obs1_refl)

lemma observedE:
  assumes "observed c h h'" "h x = Some g"
  obtains g' where "h' x = Some g'" "obs1 c g g'"
proof -
  have "rel_option (obs1 c) (Some g) (h' x)" using assms unfolding observed_def by metis
  then show thesis using that by (cases "h' x") auto
qed

lemma observed_back:
  assumes "observed c h h'" "h' x = Some g'"
  obtains g where "h x = Some g" "obs1 c g g'"
proof -
  have "rel_option (obs1 c) (h x) (Some g')" using assms unfolding observed_def by metis
  then show thesis using that by (cases "h x") auto
qed

lemma observed_trans: "observed c h h' \<Longrightarrow> observed c h' h'' \<Longrightarrow> observed c h h''"
  unfolding observed_def
proof
  fix x assume o: "\<forall>x. rel_option (obs1 c) (h x) (h' x)" "\<forall>x. rel_option (obs1 c) (h' x) (h'' x)"
  have t: "obs1 c g g' \<Longrightarrow> obs1 c g' g'' \<Longrightarrow> obs1 c g g''" for g g' g'' unfolding obs1_def by auto
  from o [THEN spec [of _ x]] show "rel_option (obs1 c) (h x) (h'' x)"
    by (cases "h x"; cases "h' x"; cases "h'' x") (auto intro: t)
qed

lemma observe_object_observed:
  assumes "h x = Some g" "c < 32" "g_scheduled g"
  shows "observed c h (h(x \<mapsto> g\<lparr>g_seen := g_seen g OR scast (push_bit c 1 :: u32)\<rparr>))"
proof -
  have "seen_by (g\<lparr>g_seen := g_seen g OR scast (push_bit c 1 :: u32)\<rparr>) \<subseteq> insert c (seen_by g)"
    using assms(2) by (auto simp: seen_by_def bit_or_iff bit_cpu32 simp del: push_bit_of_1)
  then show ?thesis
    using assms(1,3) observed_refl [of c h] by (simp add: observed_def obs1_def)
qed

definition heads_ok :: "gc_state \<Rightarrow> nat list \<Rightarrow> bool" where
  "heads_ok st is \<longleftrightarrow>
     (\<forall>i \<in> set is. pending st i \<noteq> 0 \<longrightarrow> (\<exists>g. gheap st (pending st i) = Some g \<and> g_scheduled g))"

lemma observe_ok:
  assumes "heads_ok st [i]" "c < 32"
  shows "\<exists>h. observe st i c unless = Inr (pending st i, st\<lparr>gheap := h\<rparr>) \<and> observed c (gheap st) h"
proof (cases "pending st i \<noteq> 0 \<and> pending st i \<noteq> unless")
  case True
  then obtain g where g: "gheap st (pending st i) = Some g" "g_scheduled g" using assms(1) by (auto simp: heads_ok_def)
  then show ?thesis
    using True observe_object_observed [of "gheap st" "pending st i" g c] g assms(2)
    by (auto simp: observe_def observe_object_def gwrite_def Let_def)
next
  case False
  then show ?thesis using observed_refl by (intro exI [of _ "gheap st"]) (auto simp: observe_def Let_def)
qed

lemma observe_loop_ok:
  assumes "heads_ok st is" "c < 32"
  shows "\<exists>h' lo. observe_loop st c is = Inr (st\<lparr>gheap := h', last_observed := lo\<rparr>) \<and> observed c (gheap st) h'"
  using assms(1)
proof (induction "is" arbitrary: st)
  case Nil
  then show ?case using observed_refl by (intro exI [of _ "gheap st"] exI [of _ "last_observed st"]) simp
next
  case (Cons i "is")
  have "heads_ok st [i]" using Cons.prems by (simp add: heads_ok_def)
  then obtain h1 where h1: "observe st i c (last_observed st c i) = Inr (pending st i, st\<lparr>gheap := h1\<rparr>)"
      "observed c (gheap st) h1" using observe_ok [OF _ assms(2)] by blast
  define st1 where "st1 = st\<lparr>gheap := h1, last_observed := (last_observed st)(c := (last_observed st c)(i := pending st i))\<rparr>"
  have "heads_ok st1 is"
    unfolding heads_ok_def
  proof (intro ballI impI)
    fix j assume "j \<in> set is" "pending st1 j \<noteq> 0"
    then obtain g where g: "gheap st (pending st j) = Some g" "g_scheduled g"
      using Cons.prems by (auto simp: heads_ok_def st1_def)
    obtain g' where "h1 (pending st j) = Some g'" "obs1 c g g'" by (rule observedE [OF h1(2) g(1)])
    then show "\<exists>g. gheap st1 (pending st1 j) = Some g \<and> g_scheduled g" using g(2) by (auto simp: st1_def obs1_def)
  qed
  then obtain h' lo where "observe_loop st1 c is = Inr (st1\<lparr>gheap := h', last_observed := lo\<rparr>)" "observed c h1 h'"
    using Cons.IH [of st1] by (auto simp: st1_def)
  then show ?case
    using h1 observed_trans [OF h1(2)] by (auto simp: st1_def)
qed

subsection \<open>Popping and deleting\<close>

text \<open>The threads seen on a prefix of a pending list.\<close>

definition seen_on :: "gc_state \<Rightarrow> addr list \<Rightarrow> nat set" where
  "seen_on st xs = (\<Union>x \<in> set xs. seen_by (the (gheap st x)))"

definition low_bits :: "u64 \<Rightarrow> nat set" where
  "low_bits s = {b. b < 32 \<and> bit s b}"

lemma low_bits_or: "low_bits (s OR g_seen g) = low_bits s \<union> seen_by g"
  by (auto simp: low_bits_def seen_by_def bit_or_iff)

definition cut_at :: "gc_state \<Rightarrow> nat \<Rightarrow> addr option \<Rightarrow> addr list \<Rightarrow> gc_state res" where
  "cut_at st c at pre = clear_at st c (if pre = [] then at else Some (last pre))"

lemma pop_ready_loop_ok:
  assumes "plist (gheap st) a ys" "read_at st c at = Inr a"
  shows "pop_ready_loop st c at s = Some (Inr (0, st)) \<or>
    (\<exists>pre t post. ys = pre @ t # post \<and>
       pop_ready_loop st c at s = Some (rbind (cut_at st c at pre) (\<lambda>st. Inr (t, st))) \<and>
       (\<exists>s'. low_bits s' = low_bits s \<union> seen_on st (pre @ [t]) \<and> cpu_seen_all st s'))"
  using assms
proof (induction ys arbitrary: a at s)
  case Nil
  then show ?case by (subst pop_ready_loop.simps) simp
next
  case (Cons t ys)
  then obtain g where g: "a = t" "t \<noteq> 0" "gheap st t = Some g" "plist (gheap st) (g_next g) ys" by auto
  let ?s = "s OR g_seen g"
  have lb: "low_bits ?s = low_bits s \<union> seen_on st [t]" using g by (simp add: low_bits_or seen_on_def)
  show ?case
  proof (cases "cpu_seen_all st ?s")
    case True
    then have "pop_ready_loop st c at s = Some (rbind (cut_at st c at []) (\<lambda>st. Inr (t, st)))"
      using Cons.prems(2) g by (subst pop_ready_loop.simps) (simp add: cut_at_def)
    then show ?thesis using True lb by (intro disjI2 exI [of _ "[]"]) auto
  next
    case False
    have eq: "pop_ready_loop st c at s = pop_ready_loop st c (Some t) ?s"
      using Cons.prems(2) g False by (subst pop_ready_loop.simps) simp
    have "read_at st c (Some t) = Inr (g_next g)" using g by (simp add: read_at_def)
    from Cons.IH [OF g(4) this, of ?s] show ?thesis
    proof (elim disjE exE conjE)
      fix pre u post s'
      assume p: "ys = pre @ u # post" "low_bits s' = low_bits ?s \<union> seen_on st (pre @ [u])" "cpu_seen_all st s'"
        "pop_ready_loop st c (Some t) ?s = Some (rbind (cut_at st c (Some t) pre) (\<lambda>st. Inr (u, st)))"
      have "cut_at st c (Some t) pre = cut_at st c at (t # pre)" by (simp add: cut_at_def)
      moreover have "low_bits s' = low_bits s \<union> seen_on st ((t # pre) @ [u])"
        using p(2) lb by (auto simp: seen_on_def)
      ultimately show ?thesis using p eq by (intro disjI2 exI [of _ "t # pre"]) auto
    qed (simp add: eq)
  qed
qed

lemma service_loop_ok:
  assumes "plist (gheap st) a ys" "distinct ys" "\<forall>x g. gheap st x = Some g \<longrightarrow> \<not> g_dispatched g"
  shows "service_loop st a ds = Some (Inr (ds @ ys, st\<lparr>gheap := gheap st |` (- set ys)\<rparr>))"
  using assms
proof (induction ys arbitrary: st a ds)
  case Nil
  then show ?case by (subst service_loop.simps) (simp add: restrict_map_def)
next
  case (Cons y ys)
  then obtain g where g: "a = y" "y \<noteq> 0" "gheap st y = Some g" "plist (gheap st) (g_next g) ys" by auto
  let ?st = "st\<lparr>gheap := (gheap st)(y := None)\<rparr>"
  have "service_loop st a ds = service_loop ?st (g_next g) (ds @ [y])"
    using g Cons.prems(3) by (subst service_loop.simps) simp
  also have "\<dots> = Some (Inr ((ds @ [y]) @ ys, ?st\<lparr>gheap := gheap ?st |` (- set ys)\<rparr>))"
  proof (rule Cons.IH)
    show "plist (gheap ?st) (g_next g) ys" using g(4) Cons.prems(2) by (simp add: plist_upd del: fun_upd_apply)
  qed (use Cons.prems in auto)
  also have "?st\<lparr>gheap := gheap ?st |` (- set ys)\<rparr> = st\<lparr>gheap := gheap st |` (- set (y # ys))\<rparr>"
    by (simp add: restrict_map_def fun_eq_iff)
  finally show ?case by simp
qed

lemma cut_ok:
  assumes pl: "plist (gheap st) (pending st c) (pre @ t # post)" "distinct (pre @ t # post)"
  shows "\<exists>h p. cut_at st c None pre = Inr (st\<lparr>gheap := h, pending := (pending st)(c := p)\<rparr>) \<and>
     plist h p pre \<and> plist h t (t # post) \<and> (\<forall>x. x \<notin> set pre \<longrightarrow> h x = gheap st x) \<and>
     (\<forall>x \<in> set pre. \<exists>g n. gheap st x = Some g \<and> h x = Some (g\<lparr>g_next := n\<rparr>))"
proof (cases "pre = []")
  case True
  then show ?thesis
    using pl by (intro exI [of _ "gheap st"] exI [of _ 0]) (simp add: cut_at_def clear_at_def)
next
  case False
  then have l: "last pre \<in> set pre" by simp
  then obtain g where g: "gheap st (last pre) = Some g" "last pre \<noteq> 0" using plist_in [OF pl(1)] by force
  let ?h = "(gheap st)(last pre \<mapsto> g\<lparr>g_next := 0\<rparr>)"
  have "plist ?h (pending st c) pre" by (rule plist_cut [OF pl False g(1)])
  moreover have "plist ?h t (t # post)"
  proof -
    have "last pre \<notin> set (t # post)" using l pl(2) by auto
    from plist_upd [OF this] show ?thesis using plist_split [OF pl(1)] by (rule iffD2)
  qed
  moreover have "\<exists>g n. gheap st x = Some g \<and> ?h x = Some (g\<lparr>g_next := n\<rparr>)" if x: "x \<in> set pre" for x
  proof (cases "x = last pre")
    case False
    obtain g' where "gheap st x = Some g'" using plist_in [OF pl(1), of x] x by auto
    then show ?thesis using False by (intro exI [of _ g'] exI [of _ "g_next g'"]) simp
  qed (use g in auto)
  ultimately show ?thesis
    using False g l by (intro exI [of _ ?h] exI [of _ "pending st c"]) (simp add: cut_at_def clear_at_def gwrite_def)
qed

text \<open>Servicing a pending list keeps a prefix of it and deletes the rest, all of it seen by everyone.\<close>

lemma gc_service_ok:
  assumes pl: "plist (gheap st) (pending st c) xs" "distinct xs"
    and nd: "\<forall>x g. gheap st x = Some g \<longrightarrow> \<not> g_dispatched g"
  shows "\<exists>pre ds st'. xs = pre @ ds \<and> gc_service st c = Inr (ds, st') \<and>
    (\<exists>h p. st' = st\<lparr>gheap := h, pending := (pending st)(c := p)\<rparr> \<and> plist h p pre \<and>
       (\<forall>x. x \<notin> set xs \<longrightarrow> h x = gheap st x) \<and> (\<forall>x \<in> set ds. h x = None) \<and>
       (\<forall>x \<in> set pre. \<exists>g n. gheap st x = Some g \<and> h x = Some (g\<lparr>g_next := n\<rparr>))) \<and>
    (ds \<noteq> [] \<longrightarrow> (\<exists>s. low_bits s = seen_on st (pre @ [hd ds]) \<and> cpu_seen_all st s))"
proof -
  have "read_at st c None = Inr (pending st c)" by (simp add: read_at_def)
  from pop_ready_loop_ok [OF pl(1) this, of 0] show ?thesis
  proof (elim disjE exE conjE)
    assume "pop_ready_loop st c None 0 = Some (Inr (0, st))"
    then have "gc_service st c = Inr ([], st)" by (simp add: gc_service_def pop_ready_def)
    moreover have "\<forall>x \<in> set xs. \<exists>g n. gheap st x = Some g \<and> gheap st x = Some (g\<lparr>g_next := n\<rparr>)"
    proof
      fix x assume "x \<in> set xs"
      then obtain g where "gheap st x = Some g" using plist_in [OF pl(1)] by blast
      then show "\<exists>g n. gheap st x = Some g \<and> gheap st x = Some (g\<lparr>g_next := n\<rparr>)"
        by (intro exI [of _ g] exI [of _ "g_next g"]) simp
    qed
    ultimately show ?thesis
      using pl(1) by (intro exI [of _ xs] exI [of _ "[]"] exI [of _ st] conjI exI [of _ "gheap st"] exI [of _ "pending st c"]) auto
  next
    fix pre t post s'
    assume p: "xs = pre @ t # post" "low_bits s' = low_bits 0 \<union> seen_on st (pre @ [t])" "cpu_seen_all st s'"
      "pop_ready_loop st c None 0 = Some (rbind (cut_at st c None pre) (\<lambda>st. Inr (t, st)))"
    obtain h q where c: "cut_at st c None pre = Inr (st\<lparr>gheap := h, pending := (pending st)(c := q)\<rparr>)"
        "plist h q pre" "plist h t (t # post)" "\<forall>x. x \<notin> set pre \<longrightarrow> h x = gheap st x"
        "\<forall>x \<in> set pre. \<exists>g n. gheap st x = Some g \<and> h x = Some (g\<lparr>g_next := n\<rparr>)"
      using cut_ok pl unfolding p(1) by blast
    let ?st = "st\<lparr>gheap := h, pending := (pending st)(c := q)\<rparr>" and ?h = "h |` (- set (t # post))"
    have nd': "\<forall>x g. gheap ?st x = Some g \<longrightarrow> \<not> g_dispatched g"
    proof (intro allI impI)
      fix x g assume "gheap ?st x = Some g"
      then show "\<not> g_dispatched g" using nd c(4) bspec [OF c(5), of x] by (cases "x \<in> set pre") auto
    qed
    have "service_loop ?st t [] = Some (Inr (t # post, ?st\<lparr>gheap := gheap ?st |` (- set (t # post))\<rparr>))"
      using service_loop_ok [of ?st t "t # post" "[]"] c(3) pl(2) p(1) nd' by simp
    moreover have "t \<noteq> 0" using c(3) by simp
    ultimately have "gc_service st c = Inr (t # post, st\<lparr>gheap := ?h, pending := (pending st)(c := q)\<rparr>)"
      using p(4) c(1) by (simp add: gc_service_def pop_ready_def)
    moreover have "plist ?h q pre"
      by (rule plist_cong [OF _ c(2)]) (use pl(2) p(1) in \<open>auto simp: restrict_map_def\<close>)
    moreover have "\<forall>x \<in> set pre. \<exists>g n. gheap st x = Some g \<and> ?h x = Some (g\<lparr>g_next := n\<rparr>)"
      using c(5) pl(2) p(1) by (auto simp: restrict_map_def)
    moreover have "\<forall>x. x \<notin> set xs \<longrightarrow> ?h x = gheap st x"
      using c(4) p(1) by (simp add: restrict_map_def)
    moreover have "\<forall>x \<in> set (t # post). ?h x = None" by (simp add: restrict_map_def)
    moreover have "low_bits s' = seen_on st (pre @ [hd (t # post)])" using p(2) by (simp add: low_bits_def)
    ultimately show ?thesis using p(1,3) by blast
  qed
qed

subsection \<open>A checkpoint\<close>

lemma gc_listsD:
  assumes "gc_lists tr st xss" "i < 32"
  shows "plist (gheap st) (pending st i) (xss i)" "distinct (xss i)"
    "sorted_wrt (\<lambda>x y. since tr x \<subseteq> since tr y) (xss i)"
    "x \<in> set (xss i) \<Longrightarrow> gheap st x = Some g \<Longrightarrow> g_scheduled g \<and> seen_by g \<subseteq> since tr x"
    "j < 32 \<Longrightarrow> i \<noteq> j \<Longrightarrow> set (xss i) \<inter> set (xss j) = {}"
  using assms unfolding gc_lists_def by blast+

lemma gc_listsI:
  assumes "\<And>i. i < 32 \<Longrightarrow> plist (gheap st) (pending st i) (xss i)" "\<And>i. i < 32 \<Longrightarrow> distinct (xss i)"
    "\<And>i. i < 32 \<Longrightarrow> sorted_wrt (\<lambda>x y. since tr x \<subseteq> since tr y) (xss i)"
    "\<And>i x g. i < 32 \<Longrightarrow> x \<in> set (xss i) \<Longrightarrow> gheap st x = Some g \<Longrightarrow> g_scheduled g \<and> seen_by g \<subseteq> since tr x"
    "\<And>i j. i < 32 \<Longrightarrow> j < 32 \<Longrightarrow> i \<noteq> j \<Longrightarrow> set (xss i) \<inter> set (xss j) = {}"
    "\<And>x g. gheap st x = Some g \<Longrightarrow> g_scheduled g \<Longrightarrow> \<exists>i < 32. x \<in> set (xss i)"
  shows "gc_lists tr st xss"
  using assms unfolding gc_lists_def by blast

lemma gc_lists_all: "gc_lists tr st xss \<Longrightarrow> gheap st x = Some g \<Longrightarrow> g_scheduled g \<Longrightarrow> \<exists>i < 32. x \<in> set (xss i)"
  unfolding gc_lists_def by blast

lemma gc_lists_observed:
  assumes l: "gc_lists tr st xss" and o: "observed c (gheap st) h" and c: "c < 32"
    and tr': "\<And>x. since tr' x = insert c (since tr x)"
  shows "gc_lists tr' (st\<lparr>gheap := h, last_observed := lo\<rparr>) xss"
proof (rule gc_listsI)
  let ?st = "st\<lparr>gheap := h, last_observed := lo\<rparr>"
  show "\<exists>i < 32. x \<in> set (xss i)" if y: "gheap ?st x = Some g" "g_scheduled g" for x g
  proof -
    have "h x = Some g" using y(1) by simp
    then obtain g0 where "gheap st x = Some g0" "obs1 c g0 g" by (rule observed_back [OF o])
    then show ?thesis using gc_lists_all [OF l] y(2) by (simp add: obs1_def)
  qed
  fix i :: nat assume i: "i < 32"
  note L = gc_listsD [OF l i]
  have "plist h (pending st i) (xss i)"
  proof (rule plist_cong [OF _ L(1)])
    fix x assume "x \<in> set (xss i)"
    then obtain g where g: "gheap st x = Some g" using plist_in [OF L(1)] by blast
    obtain g' where "h x = Some g'" "obs1 c g g'" by (rule observedE [OF o g])
    then show "map_option g_next (h x) = map_option g_next (gheap st x)" using g by (simp add: obs1_def)
  qed
  then show "plist (gheap ?st) (pending ?st i) (xss i)" by simp
  show "distinct (xss i)" by (rule L(2))
  show "sorted_wrt (\<lambda>x y. since tr' x \<subseteq> since tr' y) (xss i)"
    by (rule sorted_wrt_mono_rel [OF _ L(3)]) (auto simp: tr')
  show "set (xss i) \<inter> set (xss j) = {}" if "j < 32" "i \<noteq> j" for j using L(5) that .
  fix x g assume x: "x \<in> set (xss i)" and "gheap ?st x = Some g"
  then have g: "h x = Some g" by simp
  obtain g0 where g0: "gheap st x = Some g0" "obs1 c g0 g" by (rule observed_back [OF o g])
  then show "g_scheduled g \<and> seen_by g \<subseteq> since tr' x" using L(4) [OF x g0(1)] by (auto simp: tr' obs1_def)
qed

lemma gc_lists_serviced:
  assumes l: "gc_lists tr st xss" and c: "c < 32" and x: "xss c = pre @ ds" and p: "plist h p pre"
    and keep: "\<forall>x. x \<notin> set (xss c) \<longrightarrow> h x = gheap st x"
    and kept: "\<forall>x \<in> set pre. \<exists>g n. gheap st x = Some g \<and> h x = Some (g\<lparr>g_next := n\<rparr>)"
    and gone: "\<forall>x \<in> set ds. h x = None"
  shows "gc_lists tr (st\<lparr>gheap := h, pending := (pending st)(c := p)\<rparr>) (xss(c := pre))"
proof -
  have sub: "set ((xss(c := pre)) i) \<subseteq> set (xss i)" for i using x by auto
  have dj: "h x = gheap st x" if "i < 32" "i \<noteq> c" "x \<in> set (xss i)" for i x
    using gc_listsD(5) [OF l that(1) c that(2)] that(3) keep by auto
  have pl: "plist h (((pending st)(c := p)) i) ((xss(c := pre)) i)" if i: "i < 32" for i
  proof (cases "i = c")
    case False
    then show ?thesis using plist_cong [OF _ gc_listsD(1) [OF l i]] dj [OF i] by simp
  qed (simp add: p)
  have ob: "g_scheduled g \<and> seen_by g \<subseteq> since tr x" if i: "i < 32" and xi: "x \<in> set ((xss(c := pre)) i)" and g: "h x = Some g" for i x g
  proof (cases "i = c")
    case True
    then obtain g0 n where "gheap st x = Some g0" "g = g0\<lparr>g_next := n\<rparr>" using kept xi g by fastforce
    then show ?thesis using gc_listsD(4) [OF l i, of x g0] sub [of i] xi by (auto simp: seen_by_def)
  next
    case False
    then show ?thesis using gc_listsD(4) [OF l i, of x g] dj [OF i] xi g by auto
  qed
  have so: "distinct ((xss(c := pre)) i) \<and> sorted_wrt (\<lambda>x y. since tr x \<subseteq> since tr y) ((xss(c := pre)) i)" if "i < 32" for i
    using gc_listsD(2,3) [OF l that] x by (auto simp: sorted_wrt_append)
  have dis: "set ((xss(c := pre)) i) \<inter> set ((xss(c := pre)) j) = {}" if "i < 32" "j < 32" "i \<noteq> j" for i j
    using gc_listsD(5) [OF l that] sub [of i] sub [of j] by blast
  have al: "\<exists>i < 32. x \<in> set ((xss(c := pre)) i)" if g: "h x = Some g" "g_scheduled g" for x g
  proof (cases "x \<in> set (xss c)")
    case True
    then have "x \<in> set pre" using x gone g(1) by auto
    then show ?thesis using c by (intro exI [of _ c]) simp
  next
    case False
    then have "gheap st x = Some g" using keep g(1) by simp
    then obtain i where "i < 32" "x \<in> set (xss i)" using gc_lists_all [OF l _ g(2)] by blast
    then show ?thesis using False by (intro exI [of _ i]) auto
  qed
  show ?thesis by (rule gc_listsI) (use pl ob so dis al in simp_all)
qed

text \<open>What a checkpoint keeps of an object it does not delete.\<close>

definition kept :: "gc_object \<Rightarrow> gc_object \<Rightarrow> bool" where
  "kept g g' \<longleftrightarrow> g_dispatched g' = g_dispatched g \<and> g_scheduled g' = g_scheduled g \<and>
     (g_scheduled g \<or> seen_by g' = seen_by g)"

lemma cpu_checkpoint_ok:
  assumes l: "gc_lists tr st xss" and nd: "\<forall>x g. gheap st x = Some g \<longrightarrow> \<not> g_dispatched g" and c: "c < 32"
    and mask: "\<forall>b. bit (cpu_mask st) b \<longrightarrow> b < 32"
    and tr': "\<And>x. since tr' x = insert c (since tr x)"
  obtains ds st' pre where "cpu_checkpoint st c = Inr (ds, st')" "xss c = pre @ ds" "gc_lists tr' st' (xss(c := pre))"
    "\<forall>x g'. gheap st' x = Some g' \<longrightarrow> (\<exists>g. gheap st x = Some g \<and> kept g g')"
    "\<forall>x. x \<notin> set ds \<longrightarrow> gheap st x \<noteq> None \<longrightarrow> gheap st' x \<noteq> None"
    "cpu_mask st' = cpu_mask st" "cpu_count st' = cpu_count st" "flushes st' = flushes st" "wheap st' = wheap st"
    "\<forall>x \<in> set ds. gheap st' x = None \<and> (\<forall>b. bit (cpu_mask st) b \<longrightarrow> b \<in> since tr' x)"
proof -
  have "heads_ok st [0..<MAX_CPUS]"
    unfolding heads_ok_def
  proof (intro ballI impI)
    fix i assume "i \<in> set [0..<MAX_CPUS]" "pending st i \<noteq> 0"
    then show "\<exists>g. gheap st (pending st i) = Some g \<and> g_scheduled g"
      using gc_listsD(1,4) [OF l, of i] by (cases "xss i") (auto simp: MAX_CPUS_def)
  qed
  then obtain h1 lo where o: "observe_loop st c [0..<MAX_CPUS] = Inr (st\<lparr>gheap := h1, last_observed := lo\<rparr>)"
      "observed c (gheap st) h1" using observe_loop_ok [OF _ c] by blast
  let ?s1 = "st\<lparr>gheap := h1, last_observed := lo\<rparr>"
  have l1: "gc_lists tr' ?s1 xss" by (rule gc_lists_observed [OF l o(2) c tr'])
  have g1: "\<exists>g. gheap st x = Some g \<and> kept g g1" if x: "h1 x = Some g1" for x g1
    by (rule observed_back [OF o(2) x]) (auto simp: kept_def obs1_def)
  have nd1: "\<forall>x g. gheap ?s1 x = Some g \<longrightarrow> \<not> g_dispatched g" using g1 nd by (fastforce simp: kept_def)
  from gc_service_ok [OF gc_listsD(1,2) [OF l1 c] nd1]
  obtain pre ds h p where v: "xss c = pre @ ds"
      "gc_service ?s1 c = Inr (ds, ?s1\<lparr>gheap := h, pending := (pending ?s1)(c := p)\<rparr>)" "plist h p pre"
      "\<forall>x. x \<notin> set (xss c) \<longrightarrow> h x = gheap ?s1 x" "\<forall>x \<in> set ds. h x = None"
      "\<forall>x \<in> set pre. \<exists>g n. gheap ?s1 x = Some g \<and> h x = Some (g\<lparr>g_next := n\<rparr>)"
      "ds \<noteq> [] \<longrightarrow> (\<exists>s. low_bits s = seen_on ?s1 (pre @ [hd ds]) \<and> cpu_seen_all ?s1 s)"
    by (elim exE conjE) blast
  let ?s2 = "?s1\<lparr>gheap := h, pending := (pending ?s1)(c := p)\<rparr>"
  have l2: "gc_lists tr' ?s2 (xss(c := pre))"
    by (rule gc_lists_serviced [OF l1 c v(1,3,4,6,5)])
  have hs: "\<exists>g. gheap st x = Some g \<and> kept g g'" if x: "h x = Some g'" for x g'
  proof (cases "x \<in> set pre")
    case True
    then obtain g2 n where "h1 x = Some g2" "g' = g2\<lparr>g_next := n\<rparr>" using v(6) x by fastforce
    then show ?thesis using g1 [of x g2] by (auto simp: kept_def seen_by_def)
  next
    case False
    then have "x \<notin> set (xss c)" using v(1,5) x by auto
    then show ?thesis using v(4) x g1 by simp
  qed
  have stay: "h x \<noteq> None" if x: "x \<notin> set ds" "gheap st x \<noteq> None" for x
  proof -
    obtain g where "gheap st x = Some g" using x(2) by auto
    then obtain g1 where "h1 x = Some g1" by (rule observedE [OF o(2)])
    then show ?thesis using v(1,4,6) x(1) by (cases "x \<in> set pre") auto
  qed
  have seen: "b \<in> since tr' x" if x: "x \<in> set ds" and b: "bit (cpu_mask st) b" for x b
  proof -
    obtain s where s: "low_bits s = seen_on ?s1 (pre @ [hd ds])" "cpu_seen_all ?s1 s" using v(7) x by (cases ds) auto
    have "b \<in> low_bits s" using s(2) b mask by (simp add: cpu_seen_all_iff low_bits_def)
    then obtain y where y: "y \<in> set (pre @ [hd ds])" "b \<in> seen_by (the (h1 y))" unfolding s(1) seen_on_def by auto
    have yx: "y \<in> set (xss c)" using y(1) x v(1) by (cases ds) auto
    obtain g where g: "h1 y = Some g" using plist_in [OF gc_listsD(1) [OF l1 c] yx] by auto
    have "b \<in> since tr' y" using gc_listsD(4) [OF l1 c yx, of g] g y(2) by auto
    moreover have "since tr' y \<subseteq> since tr' x"
    proof -
      obtain d ds' where ds: "ds = d # ds'" using x by (cases ds) auto
      then show ?thesis
        using gc_listsD(3) [OF l1 c] x y(1) unfolding v(1) ds by (auto simp: sorted_wrt_append)
    qed
    ultimately show ?thesis by blast
  qed
  show thesis
    by (rule that [of ds ?s2 pre]) (use o(1) v(1,2,5) l2 hs stay seen in \<open>simp_all add: cpu_checkpoint_def\<close>)
qed

subsection \<open>Every event keeps the invariant\<close>

lemma since_other:
  "since (EvInit # tr) = since tr" "since (EvExit c # tr) = since tr" "since (EvFlushEnd a # tr) = since tr"
  "since (EvFlushBegin c a # tr) = since (EvCheckpoint c # tr)"
  by (simp_all add: fun_eq_iff)

lemma gc_lists_cong:
  "gheap st' = gheap st \<Longrightarrow> pending st' = pending st \<Longrightarrow> since tr' = since tr \<Longrightarrow> gc_lists tr' st' xss = gc_lists tr st xss"
  by (simp add: gc_lists_def)

definition flush_inv :: "nat set \<Rightarrow> gc_state \<Rightarrow> bool" where
  "flush_inv F st \<longleftrightarrow> (flushes st \<noteq> 0 \<longrightarrow> (\<exists>w. wheap st (flushes st) = Some w \<and> w_next w = 0 \<and>
        (\<forall>b. bit (w_seen w) b \<longrightarrow> b \<in> F)))"

definition core_inv :: "gc_state \<Rightarrow> bool" where
  "core_inv st \<longleftrightarrow> (\<forall>x g. gheap st x = Some g \<longrightarrow> x > 0x1000 \<and> \<not> g_dispatched g \<and> (g_scheduled g \<or> seen_by g = {})) \<and>
     cpu_count st \<le> 32 \<and> (\<forall>b. bit (cpu_mask st) b \<longrightarrow> b < cpu_count st)"

lemma gc_inv_alt: "gc_inv tr st \<longleftrightarrow> (\<exists>xss. gc_lists tr st xss) \<and> core_inv st \<and> flush_inv (flush_since tr) st"
  by (simp add: gc_inv_def core_inv_def flush_inv_def)

lemma checkpoint_locked_ok:
  assumes "flush_inv F st"
  shows "\<exists>wh. checkpoint_locked st c = Inr (st\<lparr>wheap := wh\<rparr>) \<and> flush_inv (insert c F) (st\<lparr>wheap := wh\<rparr>)"
proof (cases "flushes st = 0")
  case True
  then show ?thesis by (intro exI [of _ "wheap st"]) (simp add: checkpoint_locked_def flush_inv_def)
next
  case False
  then obtain w where w: "wheap st (flushes st) = Some w" "w_next w = 0" "\<forall>b. bit (w_seen w) b \<longrightarrow> b \<in> F"
    using assms by (auto simp: flush_inv_def)
  let ?w = "w\<lparr>w_seen := w_seen w OR push_bit c 1\<rparr>"
  have "checkpoint_locked st c = Inr (st\<lparr>wheap := (wheap st)(flushes st \<mapsto> ?w)\<rparr>)"
    unfolding checkpoint_locked_def using False w
    by (subst waiter_checkpoint.simps) (simp add: wread_def wwrite_def Let_def)
  moreover have "bit (w_seen ?w) b \<longrightarrow> b \<in> insert c F" for b
    using w(3) by (auto simp: bit_or_iff bit_push_bit_iff bit_1_iff simp del: push_bit_of_1)
  ultimately show ?thesis using w(2) by (intro exI [of _ "(wheap st)(flushes st \<mapsto> ?w)"]) (simp add: flush_inv_def)
qed

lemma flush_checkpoint_ok:
  assumes "flush_inv F st"
  shows "\<exists>wh. flush_checkpoint st c = Inr (st\<lparr>wheap := wh\<rparr>) \<and> flush_inv (insert c F) (st\<lparr>wheap := wh\<rparr>)"
proof (cases "flushes st = 0")
  case True
  then show ?thesis by (intro exI [of _ "wheap st"]) (simp add: flush_checkpoint_def flush_inv_def)
next
  case False
  then show ?thesis using checkpoint_locked_ok [OF assms, of c] by (simp add: flush_checkpoint_def force_checkpoint_def)
qed

text \<open>The objects a step deletes, and the threads that checkpointed since they were freed.\<close>

definition safe_deletes :: "gc_state \<Rightarrow> gc_event list \<Rightarrow> addr list \<Rightarrow> gc_state \<Rightarrow> bool" where
  "safe_deletes st tr' ds st' \<longleftrightarrow> distinct ds \<and>
     (\<forall>x \<in> set ds. (\<exists>g. gheap st x = Some g \<and> g_scheduled g) \<and> gheap st' x = None \<and>
        (\<forall>b. bit (cpu_mask st) b \<longrightarrow> b \<in> since tr' x))"

lemma core_inv_kept:
  assumes "core_inv st" "\<forall>x g'. gheap st' x = Some g' \<longrightarrow> (\<exists>g. gheap st x = Some g \<and> kept g g')"
    "cpu_mask st' = cpu_mask st" "cpu_count st' = cpu_count st"
  shows "core_inv st'"
proof -
  have "x > 0x1000 \<and> \<not> g_dispatched g' \<and> (g_scheduled g' \<or> seen_by g' = {})" if g': "gheap st' x = Some g'" for x g'
  proof -
    obtain g where "gheap st x = Some g" "kept g g'" using assms(2) g' by blast
    then show ?thesis using assms(1) unfolding core_inv_def kept_def by metis
  qed
  then show ?thesis using assms unfolding core_inv_def by simp
qed

lemma gc_checkpoint_ok:
  assumes inv: "gc_inv tr st" and c: "c < cpu_count st"
  obtains ds st' where "gc_checkpoint st c = Inr (ds, st')" "gc_inv (EvCheckpoint c # tr) st'"
    "safe_deletes st (EvCheckpoint c # tr) ds st'" "cpu_mask st' = cpu_mask st" "cpu_count st' = cpu_count st"
    "flushes st' = flushes st" "\<forall>x. x \<notin> set ds \<longrightarrow> gheap st x \<noteq> None \<longrightarrow> gheap st' x \<noteq> None"
    "\<forall>x g'. gheap st' x = Some g' \<longrightarrow> (\<exists>g. gheap st x = Some g \<and> kept g g')"
proof -
  obtain xss where l: "gc_lists tr st xss" and ci: "core_inv st" and fi: "flush_inv (flush_since tr) st"
    using inv by (auto simp: gc_inv_alt)
  have c32: "c < 32" and mask: "\<forall>b. bit (cpu_mask st) b \<longrightarrow> b < 32" and nd: "\<forall>x g. gheap st x = Some g \<longrightarrow> \<not> g_dispatched g"
    using ci c by (auto simp: core_inv_def intro: less_le_trans)
  have tr': "since (EvCheckpoint c # tr) x = insert c (since tr x)" for x by simp
  obtain ds s1 pre where s1: "cpu_checkpoint st c = Inr (ds, s1)" "xss c = pre @ ds"
      "gc_lists (EvCheckpoint c # tr) s1 (xss(c := pre))"
      "\<forall>x g'. gheap s1 x = Some g' \<longrightarrow> (\<exists>g. gheap st x = Some g \<and> kept g g')"
      "\<forall>x. x \<notin> set ds \<longrightarrow> gheap st x \<noteq> None \<longrightarrow> gheap s1 x \<noteq> None"
      "cpu_mask s1 = cpu_mask st" "cpu_count s1 = cpu_count st" "flushes s1 = flushes st" "wheap s1 = wheap st"
      "\<forall>x \<in> set ds. gheap s1 x = None \<and> (\<forall>b. bit (cpu_mask st) b \<longrightarrow> b \<in> since (EvCheckpoint c # tr) x)"
    by (rule cpu_checkpoint_ok [OF l nd c32 mask tr'])
  have "flush_inv (flush_since tr) s1" using fi s1(8,9) by (simp add: flush_inv_def)
  then obtain wh where wh: "flush_checkpoint s1 c = Inr (s1\<lparr>wheap := wh\<rparr>)"
      "flush_inv (insert c (flush_since tr)) (s1\<lparr>wheap := wh\<rparr>)" using flush_checkpoint_ok by blast
  have ds: "x \<in> set ds \<Longrightarrow> \<exists>g. gheap st x = Some g \<and> g_scheduled g" "distinct ds" for x
    using plist_in [OF gc_listsD(1) [OF l c32], of x] gc_listsD(2,4) [OF l c32] unfolding s1(2) by fastforce+
  have "core_inv s1" using core_inv_kept [OF ci s1(4,6,7)] .
  then have "gc_inv (EvCheckpoint c # tr) (s1\<lparr>wheap := wh\<rparr>)"
    unfolding gc_inv_alt using wh(2) s1(3) gc_lists_cong [of "s1\<lparr>wheap := wh\<rparr>" s1] by (auto simp: core_inv_def)
  then show thesis
    by (rule that [rotated])
       (use s1(1,4,5,6,7,8,10) wh(1) ds in \<open>auto simp: gc_checkpoint_def safe_deletes_def\<close>)
qed

text \<open>A checkpoint marks the thread in the waiter of the flush under way.\<close>

lemma gc_checkpoint_waiter:
  assumes inv: "gc_inv tr st" and c: "c < cpu_count st" and x: "gc_checkpoint st c = Inr (ds, st')"
    and w: "flushes st = a" "a \<noteq> 0" "wheap st a = Some w" "w_next w = 0"
  shows "flushes st' = a" "wheap st' a = Some (w\<lparr>w_seen := w_seen w OR push_bit c 1\<rparr>)"
proof -
  obtain xss where l: "gc_lists tr st xss" and ci: "core_inv st" using inv by (auto simp: gc_inv_alt)
  have c32: "c < 32" and mask: "\<forall>b. bit (cpu_mask st) b \<longrightarrow> b < 32" and nd: "\<forall>x g. gheap st x = Some g \<longrightarrow> \<not> g_dispatched g"
    using ci c by (auto simp: core_inv_def intro: less_le_trans)
  obtain ds1 s1 where s1: "cpu_checkpoint st c = Inr (ds1, s1)" "flushes s1 = flushes st" "wheap s1 = wheap st"
    by (rule cpu_checkpoint_ok [OF l nd c32 mask, of "EvCheckpoint c # tr"]) simp_all
  have "wread s1 a = Inr w" using w s1(3) by (simp add: wread_def)
  then have "waiter_checkpoint s1 a c = Some (Inr (wwrite s1 a (w\<lparr>w_seen := w_seen w OR push_bit c 1\<rparr>)))"
    using w(4) by (subst waiter_checkpoint.simps) (simp add: Let_def)
  then have "st' = wwrite s1 a (w\<lparr>w_seen := w_seen w OR push_bit c 1\<rparr>)"
    using x s1 w by (simp add: gc_checkpoint_def flush_checkpoint_def force_checkpoint_def checkpoint_locked_def)
  then show "flushes st' = a" "wheap st' a = Some (w\<lparr>w_seen := w_seen w OR push_bit c 1\<rparr>)"
    using s1(2) w(1) by (simp_all add: wwrite_def)
qed

lemma not_listed:
  assumes "gc_lists tr st xss" "i < 32" "gheap st x = None \<or> (\<exists>g. gheap st x = Some g \<and> \<not> g_scheduled g)"
  shows "x \<notin> set (xss i)"
  using plist_in [OF gc_listsD(1) [OF assms(1,2)]] gc_listsD(4) [OF assms(1,2)] assms(3) by fastforce

lemma new_ok:
  assumes inv: "gc_inv tr st" and a: "a > 0x1000" "gheap st a = None"
  shows "gc_inv (EvNew a # tr) (gc_object_new st a)"
proof -
  obtain xss where l: "gc_lists tr st xss" and ci: "core_inv st" and fi: "flush_inv (flush_since tr) st"
    using inv by (auto simp: gc_inv_alt)
  have n: "a \<notin> set (xss i)" if "i < 32" for i using not_listed [OF l that] a(2) by simp
  have "gc_lists (EvNew a # tr) (gc_object_new st a) xss"
  proof (rule gc_listsI)
    show "\<exists>i < 32. x \<in> set (xss i)" if "gheap (gc_object_new st a) x = Some g" "g_scheduled g" for x g
      using gc_lists_all [OF l _ that(2)] that by (auto simp: gc_object_new_def gwrite_def split: if_splits)
    fix i :: nat assume i: "i < 32"
    note L = gc_listsD [OF l i]
    show "plist (gheap (gc_object_new st a)) (pending (gc_object_new st a) i) (xss i)"
      using L(1) n [OF i] by (simp add: gc_object_new_def gwrite_def plist_upd del: fun_upd_apply)
    show "distinct (xss i)" "sorted_wrt (\<lambda>x y. since (EvNew a # tr) x \<subseteq> since (EvNew a # tr) y) (xss i)"
      using L(2,3) by simp_all
    show "set (xss i) \<inter> set (xss j) = {}" if "j < 32" "i \<noteq> j" for j using L(5) that .
    show "g_scheduled g \<and> seen_by g \<subseteq> since (EvNew a # tr) x"
      if "x \<in> set (xss i)" "gheap (gc_object_new st a) x = Some g" for x g
      using L(4) [OF that(1)] that n [OF i] by (auto simp: gc_object_new_def gwrite_def split: if_splits)
  qed
  moreover have "core_inv (gc_object_new st a)"
    using ci a by (auto simp: core_inv_def gc_object_new_def gwrite_def seen_by_def)
  ultimately show ?thesis using fi by (auto simp: gc_inv_alt flush_inv_def gc_object_new_def gwrite_def)
qed

lemma delete_ok:
  assumes inv: "gc_inv tr st" and g: "gheap st a = Some g" "\<not> g_scheduled g"
  shows "gc_inv (EvDelete a # tr) (gc_object_delete st a)"
proof -
  obtain xss where l: "gc_lists tr st xss" and ci: "core_inv st" and fi: "flush_inv (flush_since tr) st"
    using inv by (auto simp: gc_inv_alt)
  have n: "a \<notin> set (xss i)" if "i < 32" for i using not_listed [OF l that] g by simp
  have "gc_lists (EvDelete a # tr) (gc_object_delete st a) xss"
  proof (rule gc_listsI)
    show "\<exists>i < 32. x \<in> set (xss i)" if "gheap (gc_object_delete st a) x = Some g" "g_scheduled g" for x g
      using gc_lists_all [OF l _ that(2)] that by (auto simp: gc_object_delete_def split: if_splits)
    fix i :: nat assume i: "i < 32"
    note L = gc_listsD [OF l i]
    show "plist (gheap (gc_object_delete st a)) (pending (gc_object_delete st a) i) (xss i)"
      using L(1) n [OF i] by (simp add: gc_object_delete_def plist_upd del: fun_upd_apply)
    show "distinct (xss i)" "sorted_wrt (\<lambda>x y. since (EvDelete a # tr) x \<subseteq> since (EvDelete a # tr) y) (xss i)"
      using L(2,3) by simp_all
    show "set (xss i) \<inter> set (xss j) = {}" if "j < 32" "i \<noteq> j" for j using L(5) that .
    show "g_scheduled g \<and> seen_by g \<subseteq> since (EvDelete a # tr) x"
      if "x \<in> set (xss i)" "gheap (gc_object_delete st a) x = Some g" for x g
      using L(4) [OF that(1)] that n [OF i] by (auto simp: gc_object_delete_def split: if_splits)
  qed
  moreover have "core_inv (gc_object_delete st a)"
    using ci by (auto simp: core_inv_def gc_object_delete_def)
  ultimately show ?thesis using fi by (auto simp: gc_inv_alt flush_inv_def gc_object_delete_def)
qed

lemma free_ok:
  assumes inv: "gc_inv tr st" and c: "c < MAX_CPUS" and g: "gheap st x = Some g" "\<not> g_scheduled g"
  obtains st' where "gc_free st c x = Inr st'" "gc_inv (EvFree c x # tr) st'"
proof -
  obtain xss where l: "gc_lists tr st xss" and ci: "core_inv st" and fi: "flush_inv (flush_since tr) st"
    using inv by (auto simp: gc_inv_alt)
  have c32: "c < 32" using c by (simp add: MAX_CPUS_def)
  have x: "x > 0x1000" "seen_by g = {}" using ci g by (auto simp: core_inv_def)
  then have x0: "x \<noteq> 0" by auto
  have n: "x \<notin> set (xss i)" if "i < 32" for i using not_listed [OF l that] g by simp
  define p where "p = pending st c"
  have p: "p = 0 \<or> p > 0x1000"
    using gc_listsD(1) [OF l c32] ci unfolding p_def by (cases "xss c") (auto simp: core_inv_def)
  define st' where "st' = st\<lparr>gheap := (gheap st)(x \<mapsto> g\<lparr>g_scheduled := True, g_next := p\<rparr>), pending := (pending st)(c := x)\<rparr>"
  have "gc_free st c x = Inr st'"
    using g x0 p by (simp add: gc_free_def set_gnext_def gwrite_def gread_def st'_def p_def Let_def)
  moreover have "gc_lists (EvFree c x # tr) st' (xss(c := x # xss c))"
  proof (rule gc_listsI)
    show "\<exists>i < 32. y \<in> set ((xss(c := x # xss c)) i)" if y: "gheap st' y = Some g'" "g_scheduled g'" for y g'
    proof (cases "y = x")
      case False
      then obtain i where "i < 32" "y \<in> set (xss i)" using gc_lists_all [OF l _ y(2)] y(1) by (auto simp: st'_def)
      then show ?thesis by (intro exI [of _ i]) auto
    qed (use c32 in auto)
    fix i :: nat assume i: "i < 32"
    note L = gc_listsD [OF l i]
    have "plist (gheap st') (if i = c then p else pending st i) (xss i)"
      using L(1) n [OF i] by (cases "i = c") (simp_all add: st'_def p_def plist_upd del: fun_upd_apply)
    then show "plist (gheap st') (pending st' i) ((xss(c := x # xss c)) i)"
      using x0 by (auto simp: st'_def)
    show "distinct ((xss(c := x # xss c)) i)" using L(2) n [OF i] by (cases "i = c") simp_all
    have "sorted_wrt (\<lambda>x' y. since (EvFree c x # tr) x' \<subseteq> since (EvFree c x # tr) y) (xss i)"
      by (rule sorted_wrt_mono_rel [OF _ L(3)]) (use n [OF i] in auto)
    moreover have "since (EvFree c x # tr) x = {}" by simp
    ultimately show "sorted_wrt (\<lambda>x' y. since (EvFree c x # tr) x' \<subseteq> since (EvFree c x # tr) y) ((xss(c := x # xss c)) i)"
      by (cases "i = c") (simp_all del: since.simps)
    show "set ((xss(c := x # xss c)) i) \<inter> set ((xss(c := x # xss c)) j) = {}" if "j < 32" "i \<noteq> j" for j
      using L(5) [OF that] n [OF i] n [OF that(1)] that(2) by (cases "i = c"; cases "j = c") auto
    show "g_scheduled g' \<and> seen_by g' \<subseteq> since (EvFree c x # tr) y"
      if y: "y \<in> set ((xss(c := x # xss c)) i)" "gheap st' y = Some g'" for y g'
    proof (cases "y = x")
      case True
      then show ?thesis using y(2) x(2) by (auto simp: st'_def seen_by_def)
    next
      case False
      then have "y \<in> set (xss i)" "gheap st y = Some g'" using y by (auto simp: st'_def split: if_splits)
      then show ?thesis using L(4) [of y g'] False by simp
    qed
  qed
  moreover have "core_inv st'" using ci x g unfolding core_inv_def st'_def by auto
  ultimately show thesis using that [of st'] fi by (auto simp: gc_inv_alt flush_inv_def st'_def)
qed

lemma init_ok:
  assumes inv: "gc_inv tr st" and c: "cpu_count st < MAX_CPUS"
  obtains i st' where "cpu_init st = Inr (i, st')" "gc_inv (EvInit # tr) st'"
proof -
  let ?st = "st\<lparr>cpu_count := cpu_count st + 1, cpu_mask := cpu_mask st OR push_bit (cpu_count st) 1\<rparr>"
  have i: "cpu_init st = Inr (cpu_count st, ?st)" using c by (simp add: cpu_init_def Let_def)
  have "core_inv ?st" using inv c
    by (auto simp: gc_inv_alt core_inv_def MAX_CPUS_def bit_or_iff bit_push_bit_iff bit_1_iff less_Suc_eq simp del: push_bit_of_1)
  then have "gc_inv (EvInit # tr) ?st"
    using inv gc_lists_cong [of ?st st "EvInit # tr" tr] since_other by (simp add: gc_inv_alt flush_inv_def)
  then show thesis using that i by blast
qed

lemma exit_ok: "gc_inv tr st \<Longrightarrow> gc_inv (EvExit c # tr) (cpu_exit st c)"
  using gc_lists_cong [of "cpu_exit st c" st "EvExit c # tr" tr] since_other(2) [of c tr]
  by (simp add: gc_inv_alt core_inv_def flush_inv_def cpu_exit_def bit_and_iff)

lemma flush_begin_ok:
  assumes inv: "gc_inv tr st" and c: "c < cpu_count st" and a: "a \<noteq> 0" "flushes st = 0"
  obtains ds st' where "flush_begin st c a = Inr (ds, st')" "gc_inv (EvFlushBegin c a # tr) st'"
    "safe_deletes st (EvFlushBegin c a # tr) ds st'"
proof -
  obtain ds s1 where s1: "gc_checkpoint st c = Inr (ds, s1)" "gc_inv (EvCheckpoint c # tr) s1"
      "safe_deletes st (EvCheckpoint c # tr) ds s1" "flushes s1 = flushes st"
    by (rule gc_checkpoint_ok [OF inv c])
  define s2 where "s2 = (wwrite s1 a \<lparr>w_seen = 0, w_id = c, w_next = 0\<rparr>)\<lparr>flushes := a\<rparr>"
  have "flush_inv {} s2" by (simp add: flush_inv_def s2_def wwrite_def)
  then obtain wh where wh: "checkpoint_locked s2 c = Inr (s2\<lparr>wheap := wh\<rparr>)" "flush_inv {c} (s2\<lparr>wheap := wh\<rparr>)"
    using checkpoint_locked_ok by blast
  let ?s3 = "s2\<lparr>wheap := wh\<rparr>"
  have eq: "gheap ?s3 = gheap s1" "pending ?s3 = pending s1" "cpu_mask ?s3 = cpu_mask s1" "cpu_count ?s3 = cpu_count s1"
    by (simp_all add: s2_def wwrite_def)
  have "flush_begin st c a = Inr (ds, ?s3)"
    using s1(1,4) a(2) wh(1) by (simp add: flush_begin_def s2_def wwrite_def Let_def)
  moreover have "gc_inv (EvFlushBegin c a # tr) ?s3"
    using s1(2) wh(2) gc_lists_cong [OF eq(1,2) since_other(4)] eq by (simp add: gc_inv_alt core_inv_def)
  moreover have "safe_deletes st (EvFlushBegin c a # tr) ds ?s3"
    using s1(3) eq(1) by (simp add: safe_deletes_def)
  ultimately show thesis by (rule that)
qed

lemma flush_end_ok:
  assumes inv: "gc_inv tr st" and a: "a \<noteq> 0" "flushes st = a" "flush_ready st a"
  obtains st' where "flush_end st a = Inr st'" "gc_inv (EvFlushEnd a # tr) st'"
    "\<forall>b. bit (cpu_mask st) b \<longrightarrow> b \<in> flush_since tr"
proof -
  obtain w where w: "wheap st a = Some w" "w_next w = 0" "\<forall>b. bit (w_seen w) b \<longrightarrow> b \<in> flush_since tr"
    using inv a(1,2) by (auto simp: gc_inv_alt flush_inv_def)
  let ?st = "st\<lparr>flushes := 0, wheap := (wheap st)(a := None)\<rparr>"
  have "flush_end st a = Inr ?st" using a(1) w by (simp add: flush_end_def wread_def)
  moreover have "gc_inv (EvFlushEnd a # tr) ?st"
    using inv gc_lists_cong [of ?st st "EvFlushEnd a # tr" tr] since_other(3) [of a tr]
    by (simp add: gc_inv_alt core_inv_def flush_inv_def)
  moreover have "\<forall>b. bit (cpu_mask st) b \<longrightarrow> b \<in> flush_since tr"
    using a(3) w by (simp add: flush_ready_def cpu_seen_all_iff)
  ultimately show thesis by (rule that)
qed

lemma gc_step_ok:
  assumes inv: "gc_inv tr st" and en: "gc_enabled st ev"
  obtains ds st' where "gc_exec st ev = Inr (ds, st')" "gc_inv (ev # tr) st'" "safe_deletes st (ev # tr) ds st'"
proof (cases ev)
  case (EvNew a)
  then show thesis using that [of "[]" "gc_object_new st a"] new_ok [OF inv] en by (auto simp: safe_deletes_def)
next
  case (EvDelete a)
  then obtain g where "gheap st a = Some g" "\<not> g_scheduled g" using en by (auto split: option.splits)
  then show thesis
    using that [of "[]" "gc_object_delete st a"] delete_ok [OF inv] EvDelete by (simp add: safe_deletes_def)
next
  case (EvFree c x)
  then obtain g where "c < MAX_CPUS" "gheap st x = Some g" "\<not> g_scheduled g" using en by (auto split: option.splits)
  then obtain st' where "gc_free st c x = Inr st'" "gc_inv (EvFree c x # tr) st'" using free_ok [OF inv] by blast
  then show thesis using that [of "[]" st'] EvFree by (simp add: safe_deletes_def)
next
  case (EvCheckpoint c)
  then have "c < cpu_count st" using en by simp
  then obtain ds st' where "gc_checkpoint st c = Inr (ds, st')" "gc_inv (EvCheckpoint c # tr) st'"
      "safe_deletes st (EvCheckpoint c # tr) ds st'" by (rule gc_checkpoint_ok [OF inv])
  then show thesis using that EvCheckpoint by simp
next
  case EvInit
  then obtain i st' where "cpu_init st = Inr (i, st')" "gc_inv (EvInit # tr) st'" using init_ok [OF inv] en by auto
  then show thesis using that [of "[]" st'] EvInit by (simp add: safe_deletes_def)
next
  case (EvExit c)
  then show thesis using that [of "[]" "cpu_exit st c"] exit_ok [OF inv] by (simp add: safe_deletes_def)
next
  case (EvFlushBegin c a)
  then show thesis using that flush_begin_ok [OF inv, of c a] en by auto
next
  case (EvFlushEnd a)
  then obtain st' where "flush_end st a = Inr st'" "gc_inv (EvFlushEnd a # tr) st'"
    using flush_end_ok [OF inv, of a] en by auto
  then show thesis using that [of "[]" st'] EvFlushEnd by (simp add: safe_deletes_def)
qed

lemma gc_inv_initial: "gc_inv [] gc_initial"
proof -
  have "gc_lists [] gc_initial (\<lambda>_. [])" by (rule gc_listsI) (simp_all add: gc_initial_def)
  then show ?thesis by (auto simp: gc_inv_alt core_inv_def flush_inv_def gc_initial_def)
qed

lemma gc_run_inv: "gc_run tr st \<Longrightarrow> gc_inv tr st"
proof (induction rule: gc_run.induct)
  case gc_run_init
  then show ?case by (rule gc_inv_initial)
next
  case (gc_run_step tr st ev ds st')
  then show ?case using gc_step_ok [OF gc_run_step.IH gc_run_step.hyps(2)] by auto
qed

lemma gc_progress:
  "gc_run tr st \<Longrightarrow> gc_enabled st ev \<Longrightarrow> \<exists>ds st'. gc_exec st ev = Inr (ds, st') \<and> gc_run (ev # tr) st'"
  using gc_step_ok [OF gc_run_inv] gc_run_step by metis

section \<open>Sample runs\<close>

text \<open>Two threads, with an object freed by the first one; one thread that flushes.\<close>

fun exec_trace :: "gc_state \<Rightarrow> gc_event list \<Rightarrow> gc_state res" where
  "exec_trace st [] = Inr st"
| "exec_trace st (ev # evs) =
     (if gc_enabled st ev then rbind (gc_exec st ev) (\<lambda>(ds, st). exec_trace st evs) else Inl AssertFailed)"

lemma exec_trace_run: "gc_run tr st \<Longrightarrow> exec_trace st evs = Inr st' \<Longrightarrow> gc_run (rev evs @ tr) st'"
proof (induction evs arbitrary: tr st)
  case (Cons ev evs)
  then obtain ds s1 where "gc_enabled st ev" "gc_exec st ev = Inr (ds, s1)" "exec_trace s1 evs = Inr st'"
    by (auto simp: res_simps split: if_splits)
  then show ?case using Cons.IH [of "ev # tr" s1] gc_run_step [OF Cons.prems(1)] by auto
qed simp

lemma observe_idle:
  "\<forall>i \<in> set is. pending st i = 0 \<and> last_observed st c i = 0 \<Longrightarrow> observe_loop st c is = Inr st"
  by (induction "is") (simp_all add: observe_def fun_upd_idem)

definition demo_gc :: "u64 \<Rightarrow> (nat \<Rightarrow> nat \<Rightarrow> addr) \<Rightarrow> gc_state" where
  "demo_gc s lo = \<lparr>gheap = [0x2000 \<mapsto> \<lparr>g_next = 0, g_seen = s, g_scheduled = True, g_dispatched = False\<rparr>],
     pending = (\<lambda>_. 0)(0 := 0x2000), last_observed = lo, cpu_mask = 3, cpu_count = 2, flushes = 0, wheap = Map.empty\<rparr>"

lemma demo_observe:
  "lo c = (\<lambda>_. 0) \<Longrightarrow> observe_loop (demo_gc s lo) c [0..<32] =
     Inr (demo_gc (s OR scast (push_bit c 1 :: u32)) (lo(c := (\<lambda>_. 0)(0 := 0x2000))))"
proof -
  assume lo: "lo c = (\<lambda>_. 0)"
  let ?st = "demo_gc (s OR scast (push_bit c 1 :: u32)) (lo(c := (\<lambda>_. 0)(0 := 0x2000)))"
  have "[0..<32] = 0 # [1..<32]" by (simp add: upt_conv_Cons)
  moreover have "observe (demo_gc s lo) 0 c 0 = Inr (0x2000, demo_gc (s OR scast (push_bit c 1 :: u32)) lo)"
    by (simp add: demo_gc_def observe_def observe_object_def gwrite_def gread_def)
  moreover have "observe_loop ?st c [1..<32] = Inr ?st"
    by (rule observe_idle) (simp add: demo_gc_def)
  ultimately show ?thesis using lo by (simp add: demo_gc_def)
qed

lemma demo_steps:
  "gc_run [EvFree 0 0x2000, EvNew 0x2000, EvInit, EvInit] (demo_gc 0 (\<lambda>_ _. 0))"
  "gc_exec (demo_gc 0 (\<lambda>_ _. 0)) (EvCheckpoint 1) = Inr ([], demo_gc 2 ((\<lambda>_ _. 0)(1 := (\<lambda>_. 0)(0 := 0x2000))))"
  "\<exists>st'. gc_exec (demo_gc 2 ((\<lambda>_ _. 0)(1 := (\<lambda>_. 0)(0 := 0x2000)))) (EvCheckpoint 0) = Inr ([0x2000], st')"
proof -
  have "exec_trace gc_initial [EvInit, EvInit, EvNew 0x2000, EvFree 0 0x2000] = Inr (demo_gc 0 (\<lambda>_ _. 0))"
    by (simp add: gc_initial_def demo_gc_def cpu_init_def gc_object_new_def gwrite_def gc_free_def set_gnext_def gread_def MAX_CPUS_def Let_def)
  from exec_trace_run [OF gc_run_init this]
  show "gc_run [EvFree 0 0x2000, EvNew 0x2000, EvInit, EvInit] (demo_gc 0 (\<lambda>_ _. 0))" by simp
  show "gc_exec (demo_gc 0 (\<lambda>_ _. 0)) (EvCheckpoint 1) = Inr ([], demo_gc 2 ((\<lambda>_ _. 0)(1 := (\<lambda>_. 0)(0 := 0x2000))))"
    using demo_observe [of "\<lambda>_ _. 0" 1 0]
    by (simp add: gc_checkpoint_def cpu_checkpoint_def MAX_CPUS_def gc_service_def pop_ready_def pop_ready_loop.simps
        read_at_def demo_gc_def flush_checkpoint_def)
  let ?lo = "((\<lambda>_ _. 0)(1 := (\<lambda>_. 0)(0 := 0x2000)) :: nat \<Rightarrow> nat \<Rightarrow> addr)"
  have "observe_loop (demo_gc 2 ?lo) 0 [0..<32] = Inr (demo_gc 3 (?lo(0 := (\<lambda>_. 0)(0 := 0x2000))))"
    using demo_observe [of ?lo 0 2] by simp
  then show "\<exists>st'. gc_exec (demo_gc 2 ?lo) (EvCheckpoint 0) = Inr ([0x2000], st')"
    by (simp add: gc_checkpoint_def cpu_checkpoint_def MAX_CPUS_def gc_service_def pop_ready_def pop_ready_loop.simps
        read_at_def demo_gc_def flush_checkpoint_def gread_def clear_at_def cpu_seen_all_def service_loop.simps)
qed

definition demo_flush :: gc_state where
  "demo_flush = \<lparr>gheap = Map.empty, pending = (\<lambda>_. 0), last_observed = (\<lambda>_ _. 0), cpu_mask = 1, cpu_count = 1,
     flushes = 64, wheap = [64 \<mapsto> \<lparr>w_seen = 1, w_id = 0, w_next = 0\<rparr>]\<rparr>"

lemma demo_flush_run: "gc_run [EvFlushBegin 0 64, EvInit] demo_flush"
proof -
  have "exec_trace gc_initial [EvInit, EvFlushBegin 0 64] = Inr demo_flush"
    by (simp add: gc_initial_def demo_flush_def cpu_init_def MAX_CPUS_def flush_begin_def gc_checkpoint_def cpu_checkpoint_def
        observe_idle gc_service_def pop_ready_def pop_ready_loop.simps read_at_def flush_checkpoint_def wwrite_def
        checkpoint_locked_def waiter_checkpoint.simps wread_def Let_def)
  from exec_trace_run [OF gc_run_init this] show ?thesis by simp
qed

section \<open>Properties\<close>

text \<open>
  C4: Deferred deletion is safe. In every execution, any object a step deletes was
  allocated, is deleted once, and since it was freed every registered thread has passed a
  checkpoint, at which it holds no reference. This covers addresses that are recycled by later
  allocations, for which a thread may wrongly believe it has observed the object already.
\<close>

theorem gc_deletes_safely:
  assumes "gc_run tr st" and "gc_enabled st ev" and "gc_exec st ev = Inr (ds, st')" and "x \<in> set ds"
  shows "gheap st x \<noteq> None \<and> gheap st' x = None \<and> distinct ds \<and>
    (\<forall>b. bit (cpu_mask st) b \<longrightarrow> b \<in> since (ev # tr) x)"
  using gc_step_ok [OF gc_run_inv [OF assms(1)] assms(2)] assms(3,4) by (auto simp: safe_deletes_def)

theorem gc_deletes_safely_witness:
  "\<exists>tr st st'. gc_run tr st \<and> gc_exec st (EvCheckpoint 0) = Inr ([0x2000], st') \<and> gheap st' 0x2000 = None \<and>
     {0, 1} \<subseteq> since (EvCheckpoint 0 # tr) 0x2000"
proof -
  let ?st = "demo_gc 2 ((\<lambda>_ _. 0)(1 := (\<lambda>_. 0)(0 := 0x2000)))"
  let ?tr = "[EvCheckpoint 1, EvFree 0 0x2000, EvNew 0x2000, EvInit, EvInit]"
  have r: "gc_run ?tr ?st"
    by (rule gc_run_step [OF demo_steps(1) _ demo_steps(2)]) (simp add: demo_gc_def)
  obtain st' where d: "gc_exec ?st (EvCheckpoint 0) = Inr ([0x2000], st')" using demo_steps(3) by blast
  have en: "gc_enabled ?st (EvCheckpoint 0)" by (simp add: demo_gc_def)
  have "bit (cpu_mask ?st) 0" "bit (cpu_mask ?st) 1" by (simp_all add: demo_gc_def)
  moreover have "(0x2000 :: addr) \<in> set [0x2000]" by simp
  ultimately have "gheap st' 0x2000 = None" "{0, 1} \<subseteq> since (EvCheckpoint 0 # ?tr) 0x2000"
    using gc_deletes_safely [OF r en d] by blast+
  then show ?thesis using r d by blast
qed

text \<open>
  C6: No step of an execution fails: no assertion (an object scheduled or dispatched twice, a
  bad link), no null or dangling pointer, and no loop that does not return.
\<close>

theorem gc_never_fails:
  assumes "gc_run tr st" and "gc_enabled st ev"
  shows "\<exists>ds st'. gc_exec st ev = Inr (ds, st') \<and> gc_run (ev # tr) st'"
  by (rule gc_progress [OF assms])

theorem gc_never_fails_witness:
  "\<exists>ds st'. gc_exec demo_flush (EvCheckpoint 0) = Inr (ds, st') \<and>
     gc_run [EvCheckpoint 0, EvFlushBegin 0 64, EvInit] st'"
  by (rule gc_never_fails [OF demo_flush_run]) (simp add: demo_flush_def)

text \<open>
  C7: \<open>gc_flush\<close> returns only after every registered thread has passed a checkpoint since
  the flush began.
\<close>

theorem gc_flush_waits:
  assumes "gc_run tr st" and "gc_enabled st (EvFlushEnd a)"
  shows "\<forall>b. bit (cpu_mask st) b \<longrightarrow> b \<in> flush_since tr"
  using flush_end_ok [OF gc_run_inv [OF assms(1)], of a] assms(2) by auto

theorem gc_flush_waits_witness:
  "gc_enabled demo_flush (EvFlushEnd 64) \<and> 0 \<in> flush_since [EvFlushBegin 0 64, EvInit]"
proof -
  have e: "gc_enabled demo_flush (EvFlushEnd 64)" by (simp add: demo_flush_def flush_ready_def cpu_seen_all_def)
  moreover have "bit (cpu_mask demo_flush) 0" by (simp add: demo_flush_def)
  ultimately show ?thesis using gc_flush_waits [OF demo_flush_run e] by blast
qed

end
