(* ===== verification/Cache.thy ===== *)
theory Cache
  imports Table Entry History Gc
begin

text \<open>
  The cache: \<open>src/cache.h\<close>, \<open>src/cache.cc\<close> and the counters of \<open>src/counter.h\<close>. The state of the
  program is one record: the cache object, the heap of chunks, the entries (split into their
  value and their \<open>newer_\<close> word), the tables by address, and the garbage collector. What an operation
  takes from outside (the running thread, the clock, the addresses \<open>malloc\<close> returns) is the record
  \<open>env\<close>. Every operation is one atomic step; \<open>collect\<close> is cut where it waits in \<open>gc_flush\<close>.
\<close>

section \<open>State\<close>

datatype cache_error_t = stored | deleted | notfound | set_error | cas_exists

text \<open>The counters are 64 bit; \<open>ssize_t\<close> and \<open>size_t\<close> differ only where they are compared.\<close>

record cache =
  max_bytes :: u64
  flushed :: int
  entries_p :: addr
  building_p :: addr
  bytes_c :: u64
  sets_c :: u64
  gets_c :: u64
  touches_c :: u64
  flushes_c :: u64
  get_misses_c :: u64

record world =
  wcache :: cache
  wmem :: mem_heap
  went :: "addr \<rightharpoonup> entry"
  wnewer :: mv_heap
  wtab :: "addr \<rightharpoonup> bytes opentable"
  wgc :: gc_state

record env =
  v_cpu :: nat
  v_now :: int
  v_key :: addr
  v_entry :: addr
  v_chunk :: addr
  v_raw :: bytes

definition counter_incr :: "u64 \<Rightarrow> u64" where
  "counter_incr v = v + 1"

definition counter_add :: "u64 \<Rightarrow> u64 \<Rightarrow> u64" where
  "counter_add v a = v + a"

definition counter_sub :: "u64 \<Rightarrow> u64 \<Rightarrow> u64" where
  "counter_sub v a = v - a"

definition upd_cache :: "world \<Rightarrow> (cache \<Rightarrow> cache) \<Rightarrow> world" where
  "upd_cache w f = w\<lparr>wcache := f (wcache w)\<rparr>"

definition tread :: "world \<Rightarrow> addr \<Rightarrow> bytes opentable res" where
  "tread w a = (if a = 0 then Inl NullDeref else case wtab w a of None \<Rightarrow> Inl BadPtr | Some t \<Rightarrow> Inr t)"

definition twrite :: "world \<Rightarrow> addr \<Rightarrow> bytes opentable \<Rightarrow> world" where
  "twrite w a t = w\<lparr>wtab := (wtab w)(a \<mapsto> t)\<rparr>"

definition eread :: "world \<Rightarrow> addr \<Rightarrow> entry res" where
  "eread w a = (if a = 0 then Inl NullDeref else case went w a of None \<Rightarrow> Inl BadPtr | Some e \<Rightarrow> Inr e)"

definition ewrite :: "world \<Rightarrow> addr \<Rightarrow> entry \<Rightarrow> world" where
  "ewrite w a e = w\<lparr>went := (went w)(a \<mapsto> e)\<rparr>"

section \<open>Keys, entries and tables\<close>

definition key_eq :: "bytes \<Rightarrow> bytes \<Rightarrow> bool" where
  "key_eq a b = (if length a = length b then list_all2 (=) a b else False)"

definition key_hash :: "bytes \<Rightarrow> int \<Rightarrow> u128" where
  "key_hash a seed = ucast (MurmurHash64A (map of_char a) (of_int seed))"

definition cache_key_alloc :: "world \<Rightarrow> addr \<Rightarrow> bytes \<Rightarrow> bytes keyref \<times> world" where
  "cache_key_alloc w a src = ((a, src), w\<lparr>wgc := gc_object_new (wgc w) a\<rparr>)"

definition cache_key_delete :: "world \<Rightarrow> bytes keyref \<Rightarrow> world" where
  "cache_key_delete w k = w\<lparr>wgc := gc_object_delete (wgc w) (fst k)\<rparr>"

definition entry_alloc :: "world \<Rightarrow> addr \<Rightarrow> u32 \<Rightarrow> u32 \<Rightarrow> rope \<Rightarrow> int \<Rightarrow> world" where
  "entry_alloc w a flags exptime r now =
     w\<lparr>wgc := gc_object_new (wgc w) a, wnewer := mv_new (wnewer w) a,
       went := (went w)(a \<mapsto> entry_new flags exptime r now)\<rparr>"

text \<open>\<open>delete\<close> of an entry: its chunks, then (in \<open>~mv_object\<close>) its newer versions.\<close>

partial_function (option) entry_destroy :: "world \<Rightarrow> addr \<Rightarrow> world res option" where
  "entry_destroy w a =
     (if a = 0 then Some (Inr w)
      else case rbind (eread w a) (\<lambda>e. rbind (entry_delete (wmem w) e) (\<lambda>h.
                rbind (nread (wnewer w) a) (\<lambda>n. Inr (h, n)))) of
        Inl err \<Rightarrow> Some (Inl err)
      | Inr (h, n) \<Rightarrow>
          (let w = w\<lparr>wmem := h, went := (went w)(a := None), wnewer := (wnewer w)(a := None),
                     wgc := gc_object_delete (wgc w) a\<rparr> in
           if n \<noteq> fp_null then entry_destroy w (get_ptr n) else Some (Inr w)))"

declare entry_destroy.simps [code]

definition key_release :: "nat \<Rightarrow> world \<Rightarrow> bytes keyref \<Rightarrow> world res" where
  "key_release cpu w k = rbind (gc_free (wgc w) cpu (fst k)) (\<lambda>g. Inr (w\<lparr>wgc := g\<rparr>))"

partial_function (option) release_size :: "world \<Rightarrow> addr \<Rightarrow> u64 \<Rightarrow> u64 res option" where
  "release_size w x sz =
     (if x = 0 then Some (Inr sz)
      else case rbind (eread w x) (\<lambda>e. rbind (entry_size (wmem w) e) (\<lambda>s.
                rbind (newer (wnewer w) x) (\<lambda>n. Inr (s, n)))) of
        Inl err \<Rightarrow> Some (Inl err)
      | Inr (s, n) \<Rightarrow> release_size w n (sz + s))"

declare release_size.simps [code]

definition entry_release :: "nat \<Rightarrow> world \<Rightarrow> addr \<Rightarrow> world res" where
  "entry_release cpu w e =
     rbind (outcome (release_size w e 0)) (\<lambda>sz.
     let w = upd_cache w (\<lambda>c. c\<lparr>bytes_c := counter_sub (bytes_c c) sz\<rparr>) in
     rbind (gc_free (wgc w) cpu e) (\<lambda>g. Inr (w\<lparr>wgc := g\<rparr>)))"

fun release_entries :: "nat \<Rightarrow> world \<Rightarrow> addr list \<Rightarrow> world res" where
  "release_entries cpu w [] = Inr w"
| "release_entries cpu w (e # es) = rbind (entry_release cpu w e) (\<lambda>w. release_entries cpu w es)"

fun release_keys :: "nat \<Rightarrow> world \<Rightarrow> bytes keyref list \<Rightarrow> world res" where
  "release_keys cpu w [] = Inr w"
| "release_keys cpu w (k # ks) = rbind (key_release cpu w k) (\<lambda>w. release_keys cpu w ks)"

text \<open>
  The objects a checkpoint deletes are entries or keys: the virtual destructor of an entry runs, a
  key is plain memory.
\<close>

fun gc_finalize :: "world \<Rightarrow> addr list \<Rightarrow> world res" where
  "gc_finalize w [] = Inr w"
| "gc_finalize w (d # ds) =
     rbind (case went w d of None \<Rightarrow> Inr w | Some _ \<Rightarrow> outcome (entry_destroy w d)) (\<lambda>w. gc_finalize w ds)"

definition cache_checkpoint :: "nat \<Rightarrow> world \<Rightarrow> world res" where
  "cache_checkpoint cpu w = rbind (gc_checkpoint (wgc w) cpu) (\<lambda>(ds, g). gc_finalize (w\<lparr>wgc := g\<rparr>) ds)"

definition initial_lg2size :: nat where
  "initial_lg2size = 20"

definition new_table :: "nat \<Rightarrow> bytes opentable" where
  "new_table lg2 = opentable_new lg2 key_eq key_hash"

definition cache_new :: "u64 \<Rightarrow> addr \<Rightarrow> nat \<Rightarrow> world" where
  "cache_new maxb t lg2 =
     \<lparr>wcache = \<lparr>max_bytes = maxb, flushed = 0, entries_p = t, building_p = 0, bytes_c = 0, sets_c = 0,
         gets_c = 0, touches_c = 0, flushes_c = 0, get_misses_c = 0\<rparr>,
      wmem = Map.empty, went = Map.empty, wnewer = Map.empty, wtab = [t \<mapsto> new_table lg2], wgc = gc_initial\<rparr>"

definition is_building :: "world \<Rightarrow> addr \<times> addr \<times> bool" where
  "is_building w =
     (let e = entries_p (wcache w); b = building_p (wcache w) in (e, b, b \<noteq> 0 \<and> b \<noteq> e))"

section \<open>Updates\<close>

text \<open>
  The body of \<open>set\<close> that stores the entry: it returns \<open>cur_key\<close>. The callers' local
  \<open>unique_ptr\<close>s are destroyed on return: the entry if it was not released, then the key.
\<close>

definition set_body :: "env \<Rightarrow> world \<Rightarrow> bytes keyref \<Rightarrow> addr \<Rightarrow> (bytes keyref option \<times> world) res" where
  "set_body v w mykey e =
     (let (entries, building, b) = is_building w in
      rbind (tread w entries) (\<lambda>t.
      if b then
        (let (ok, cur_key, cur_entry, t, rel) = tadd t mykey e in
         rbind (release_entries (v_cpu v) (twrite w entries t) rel) (\<lambda>w.
         if ok then
           (case cur_key of
              None \<Rightarrow> Inl NullDeref
            | Some k \<Rightarrow>
                rbind (tread w building) (\<lambda>tb.
                rbind (set_shared tb k cur_entry) (\<lambda>(_, tb, rel).
                rbind (release_entries (v_cpu v) (twrite w building tb) rel) (\<lambda>w.
                Inr (cur_key, w)))))
         else if cur_entry \<noteq> 0 then
           rbind (mv_set (wnewer w) cur_entry e) (\<lambda>n. Inr (cur_key, w\<lparr>wnewer := n\<rparr>))
         else rbind (require (cur_key = None) AssertFailed) (\<lambda>_. Inr (cur_key, w))))
      else
        (let (cur_key, t, rel) = tset t mykey e in
         rbind (release_entries (v_cpu v) (twrite w entries t) rel) (\<lambda>w. Inr (cur_key, w)))))"

definition drop_key :: "world \<Rightarrow> bytes keyref \<Rightarrow> bytes keyref option \<Rightarrow> world" where
  "drop_key w mykey cur_key =
     (if map_option fst cur_key = Some (fst mykey) then w else cache_key_delete w mykey)"

definition cache_set :: "env \<Rightarrow> world \<Rightarrow> bytes \<Rightarrow> u32 \<Rightarrow> u32 \<Rightarrow> rope \<Rightarrow> (cache_error_t \<times> world) res" where
  "cache_set v w k flags exptime r =
     (let w = upd_cache w (\<lambda>c. c\<lparr>sets_c := counter_incr (sets_c c)\<rparr>);
          (mykey, w) = cache_key_alloc w (v_key v) k;
          e = v_entry v;
          w = entry_alloc w e flags exptime r (v_now v) in
      rbind (set_body v w mykey e) (\<lambda>(cur_key, w).
      if cur_key = None then
        rbind (outcome (entry_destroy w e)) (\<lambda>w. Inr (set_error, drop_key w mykey cur_key))
      else
        rbind (rope_size (wmem w) r) (\<lambda>n.
        let w = upd_cache w (\<lambda>c. c\<lparr>bytes_c := counter_add (bytes_c c) n\<rparr>) in
        Inr (stored, drop_key w mykey cur_key))))"

definition add_body :: "env \<Rightarrow> world \<Rightarrow> bytes keyref \<Rightarrow> addr \<Rightarrow> (bool \<times> bytes keyref option \<times> world) res" where
  "add_body v w mykey e =
     (let (entries, building, b) = is_building w in
      rbind (tread w entries) (\<lambda>t.
      let (ok, cur_key, cur_entry, t, rel) = tadd t mykey e in
      rbind (release_entries (v_cpu v) (twrite w entries t) rel) (\<lambda>w.
      if b then
        (if ok then
           (case cur_key of
              None \<Rightarrow> Inl NullDeref
            | Some k \<Rightarrow>
                rbind (tread w building) (\<lambda>tb.
                rbind (add_shared tb k cur_entry) (\<lambda>(_, _, _, tb, rel).
                rbind (release_entries (v_cpu v) (twrite w building tb) rel) (\<lambda>w.
                Inr (True, cur_key, w)))))
         else
           rbind (mv_add (wnewer w) cur_entry e) (\<lambda>(ok, n). Inr (ok, cur_key, w\<lparr>wnewer := n\<rparr>)))
      else Inr (ok, cur_key, w))))"

definition cache_add :: "env \<Rightarrow> world \<Rightarrow> bytes \<Rightarrow> u32 \<Rightarrow> u32 \<Rightarrow> rope \<Rightarrow> (cache_error_t \<times> world) res" where
  "cache_add v w k flags exptime r =
     (let w = upd_cache w (\<lambda>c. c\<lparr>sets_c := counter_incr (sets_c c)\<rparr>);
          (mykey, w) = cache_key_alloc w (v_key v) k;
          e = v_entry v;
          w = entry_alloc w e flags exptime r (v_now v) in
      rbind (add_body v w mykey e) (\<lambda>(success, cur_key, w).
      if \<not> success then
        rbind (outcome (entry_destroy w e)) (\<lambda>w. Inr (set_error, drop_key w mykey cur_key))
      else
        rbind (rope_size (wmem w) r) (\<lambda>n.
        let w = upd_cache w (\<lambda>c. c\<lparr>bytes_c := counter_add (bytes_c c) n\<rparr>) in
        Inr (stored, drop_key w mykey cur_key))))"

definition replace_body :: "env \<Rightarrow> world \<Rightarrow> bytes \<Rightarrow> addr \<Rightarrow> (bool \<times> world) res" where
  "replace_body v w k e =
     (let (entries, _, b) = is_building w in
      rbind (tread w entries) (\<lambda>t.
      if b then
        (let cur = tfind t k in
         if cur = 0 then Inr (False, w)
         else rbind (mv_replace (wnewer w) cur e) (\<lambda>(ok, n). Inr (ok, w\<lparr>wnewer := n\<rparr>)))
      else
        (let (ok, t, rel) = treplace t k e in
         rbind (release_entries (v_cpu v) (twrite w entries t) rel) (\<lambda>w. Inr (ok, w)))))"

definition cache_replace :: "env \<Rightarrow> world \<Rightarrow> bytes \<Rightarrow> u32 \<Rightarrow> u32 \<Rightarrow> rope \<Rightarrow> (cache_error_t \<times> world) res" where
  "cache_replace v w k flags exptime r =
     (let w = upd_cache w (\<lambda>c. c\<lparr>sets_c := counter_incr (sets_c c)\<rparr>);
          e = v_entry v;
          w = entry_alloc w e flags exptime r (v_now v) in
      rbind (replace_body v w k e) (\<lambda>(ok, w).
      if \<not> ok then rbind (outcome (entry_destroy w e)) (\<lambda>w. Inr (set_error, w))
      else
        rbind (rope_size (wmem w) r) (\<lambda>n.
        Inr (stored, upd_cache w (\<lambda>c. c\<lparr>bytes_c := counter_add (bytes_c c) n\<rparr>)))))"

definition cache_del :: "env \<Rightarrow> world \<Rightarrow> bytes \<Rightarrow> (cache_error_t \<times> world) res" where
  "cache_del v w k =
     (let (entries, _, b) = is_building w in
      rbind (tread w entries) (\<lambda>t.
      if b then
        (let cur = tfind t k in
         if cur = 0 then Inr (notfound, w)
         else rbind (mv_del (wnewer w) cur) (\<lambda>(ok, n).
           Inr (if ok then deleted else notfound, w\<lparr>wnewer := n\<rparr>)))
      else
        (let (ok, t, rel) = tremove t k in
         rbind (release_entries (v_cpu v) (twrite w entries t) rel) (\<lambda>w.
         Inr (if ok then deleted else notfound, w)))))"

section \<open>Lookups and updates in place\<close>

definition cache_get :: "world \<Rightarrow> bytes \<Rightarrow> (addr \<times> world) res" where
  "cache_get w k =
     (let w = upd_cache w (\<lambda>c. c\<lparr>gets_c := counter_incr (gets_c c)\<rparr>) in
      rbind (tread w (entries_p (wcache w))) (\<lambda>t.
      let e = tfind t k in
      if e \<noteq> 0 then rbind (newest (wnewer w) e) (\<lambda>a. Inr (a, w))
      else Inr (0, upd_cache w (\<lambda>c. c\<lparr>get_misses_c := counter_incr (get_misses_c c)\<rparr>))))"

text \<open>\<open>append\<close> looks the entry up in the table, unlike \<open>prepend\<close> and the others, which use \<open>get\<close>.\<close>

definition cache_append :: "env \<Rightarrow> world \<Rightarrow> bytes \<Rightarrow> rope \<Rightarrow> (cache_error_t \<times> world) res" where
  "cache_append v w k suffix =
     rbind (tread w (entries_p (wcache w))) (\<lambda>t.
     let e = tfind t k in
     if e = 0 then Inr (set_error, w)
     else
       rbind (rope_size (wmem w) suffix) (\<lambda>n.
       let w = upd_cache w (\<lambda>c. c\<lparr>bytes_c := counter_add (bytes_c c) n\<rparr>) in
       rbind (eread w e) (\<lambda>x.
       rbind (entry_append (v_now v) (wmem w) x suffix) (\<lambda>(h, x).
       Inr (stored, ewrite (w\<lparr>wmem := h\<rparr>) e x)))))"

definition cache_prepend :: "env \<Rightarrow> world \<Rightarrow> bytes \<Rightarrow> rope \<Rightarrow> (cache_error_t \<times> world) res" where
  "cache_prepend v w k prefix =
     rbind (cache_get w k) (\<lambda>(e, w).
     if e = 0 then Inr (set_error, w)
     else
       rbind (rope_size (wmem w) prefix) (\<lambda>n.
       let w = upd_cache w (\<lambda>c. c\<lparr>bytes_c := counter_add (bytes_c c) n\<rparr>) in
       rbind (eread w e) (\<lambda>x.
       rbind (entry_prepend (v_now v) (wmem w) x prefix) (\<lambda>(h, x).
       Inr (stored, ewrite (w\<lparr>wmem := h\<rparr>) e x)))))"

text \<open>\<open>vout\<close> is returned with the result; it is written only when the result is \<open>stored\<close>.\<close>

definition cache_incr :: "env \<Rightarrow> world \<Rightarrow> bytes \<Rightarrow> u64 \<Rightarrow> (cache_error_t \<times> u64 option \<times> world) res" where
  "cache_incr v w k d =
     rbind (cache_get w k) (\<lambda>(e, w).
     if e = 0 then Inr (set_error, None, w)
     else
       rbind (eread w e) (\<lambda>x.
       rbind (entry_incr (v_chunk v) (v_raw v) (v_now v) (wmem w) x d) (\<lambda>(a, h, x).
       Inr (stored, Some a, ewrite (w\<lparr>wmem := h\<rparr>) e x))))"

definition cache_decr :: "env \<Rightarrow> world \<Rightarrow> bytes \<Rightarrow> u64 \<Rightarrow> (cache_error_t \<times> u64 option \<times> world) res" where
  "cache_decr v w k d =
     rbind (cache_get w k) (\<lambda>(e, w).
     if e = 0 then Inr (set_error, None, w)
     else
       rbind (eread w e) (\<lambda>x.
       rbind (entry_decr (v_chunk v) (v_raw v) (v_now v) (wmem w) x d) (\<lambda>(a, h, x).
       Inr (stored, Some a, ewrite (w\<lparr>wmem := h\<rparr>) e x))))"

definition cache_cas :: "env \<Rightarrow> world \<Rightarrow> bytes \<Rightarrow> u32 \<Rightarrow> u32 \<Rightarrow> u64 \<Rightarrow> rope \<Rightarrow> (cache_error_t \<times> world) res" where
  "cache_cas v w k flags exptime ver r =
     rbind (cache_get w k) (\<lambda>(e, w).
     if e = 0 then Inr (notfound, w)
     else
       rbind (eread w e) (\<lambda>x.
       rbind (entry_cas (v_now v) (wmem w) x flags exptime ver r) (\<lambda>(ok, x).
       Inr (if ok then stored else cas_exists, ewrite w e x))))"

definition cache_touch :: "env \<Rightarrow> world \<Rightarrow> bytes \<Rightarrow> u32 \<Rightarrow> (cache_error_t \<times> world) res" where
  "cache_touch v w k exptime =
     (let w = upd_cache w (\<lambda>c. c\<lparr>touches_c := counter_incr (touches_c c)\<rparr>) in
      rbind (cache_get w k) (\<lambda>(e, w).
      if e = 0 then Inr (notfound, w)
      else rbind (eread w e) (\<lambda>x. Inr (stored, ewrite w e (entry_touch (v_now v) x exptime)))))"

definition cache_flush_all :: "env \<Rightarrow> world \<Rightarrow> int \<Rightarrow> world" where
  "cache_flush_all v w delay =
     upd_cache w (\<lambda>c. c\<lparr>flushes_c := counter_incr (flushes_c c), flushed := v_now v + delay\<rparr>)"

definition get_hit_count :: "world \<Rightarrow> u64" where
  "get_hit_count w =
     (let misses = get_misses_c (wcache w); gets = gets_c (wcache w) in
      if gets > misses then gets - misses else 0)"

definition cache_buckets :: "world \<Rightarrow> u64 res" where
  "cache_buckets w = rbind (tread w (entries_p (wcache w))) (\<lambda>t. Inr (tsize t))"

definition cache_keys :: "world \<Rightarrow> u64 res" where
  "cache_keys w = rbind (tread w (entries_p (wcache w))) (\<lambda>t. Inr (usage_count t))"

end
