(* ===== verification/Cache_Inv.thy ===== *)
theory Cache_Inv
  imports Cache
begin

text \<open>
  The invariant of a cache at rest (no table being built) and what it represents: a map from
  keys to items. Every entry owns a chain of chunks, no two entries share one, every value in the
  table is an allocated entry that has not been handed to the garbage collector, and no two keys
  share an entry. Entries waiting for deletion keep their chunks until then.
\<close>

section \<open>Invariant and abstraction\<close>

record item =
  i_flags :: u32
  i_exptime :: u32
  i_chunks :: "bytes list"

definition item_of :: "mem_heap \<Rightarrow> entry \<Rightarrow> addr list \<Rightarrow> item" where
  "item_of h e xs = \<lparr>i_flags = e_flags e, i_exptime = e_exptime e, i_chunks = chunks h xs\<rparr>"

definition unsched :: "gc_state \<Rightarrow> addr \<Rightarrow> bool" where
  "unsched g a \<longleftrightarrow> (case gheap g a of None \<Rightarrow> False | Some x \<Rightarrow> \<not> g_scheduled x)"

definition entry_inv :: "mem_heap \<Rightarrow> mv_heap \<Rightarrow> gc_state \<Rightarrow> (addr \<Rightarrow> addr list) \<Rightarrow> addr \<Rightarrow> entry \<Rightarrow> bool" where
  "entry_inv h nw g own a e \<longleftrightarrow>
     entry_ok h e (own a) \<and> nw a = Some fp_null \<and> a \<noteq> 0 \<and> aligned a \<and> gheap g a \<noteq> None"

text \<open>
  What the heap has to satisfy for the entries \<open>R\<close> that keys refer to, and the key objects \<open>K\<close>: both
  are live objects of the collector, and none is used twice.
\<close>

definition hinv :: "(bytes \<Rightarrow> addr) \<Rightarrow> bytes keyref set \<Rightarrow> mem_heap \<Rightarrow> (addr \<rightharpoonup> entry) \<Rightarrow> mv_heap \<Rightarrow> gc_state \<Rightarrow>
    (addr \<Rightarrow> addr list) \<Rightarrow> bool" where
  "hinv R K h ent nw g own \<longleftrightarrow>
     (\<forall>a e. ent a = Some e \<longrightarrow> entry_inv h nw g own a e) \<and>
     (\<forall>a b. a \<in> dom ent \<longrightarrow> b \<in> dom ent \<longrightarrow> a \<noteq> b \<longrightarrow> set (own a) \<inter> set (own b) = {}) \<and>
     (\<forall>k. R k \<noteq> 0 \<longrightarrow> R k \<in> dom ent \<and> unsched g (R k)) \<and>
     (\<forall>k k'. R k \<noteq> 0 \<longrightarrow> R k = R k' \<longrightarrow> k = k') \<and>
     (\<exists>tr. gc_run tr g) \<and>
     (\<forall>key \<in> K. fst key \<notin> dom ent \<and> unsched g (fst key)) \<and>
     inj_on fst K"

definition tinv :: "bytes opentable \<Rightarrow> mem_heap \<Rightarrow> (addr \<rightharpoonup> entry) \<Rightarrow> mv_heap \<Rightarrow> gc_state \<Rightarrow> (addr \<Rightarrow> addr list) \<Rightarrow> bool" where
  "tinv t h ent nw g own \<longleftrightarrow> table_inv t \<and> hinv (vref t) (keyrefs t) h ent nw g own"

definition hmap :: "(bytes \<Rightarrow> addr) \<Rightarrow> mem_heap \<Rightarrow> (addr \<rightharpoonup> entry) \<Rightarrow> (addr \<Rightarrow> addr list) \<Rightarrow> bytes \<Rightarrow> item option" where
  "hmap R h ent own k = (let a = R k in if a = 0 then None else Some (item_of h (the (ent a)) (own a)))"

definition tmap :: "bytes opentable \<Rightarrow> mem_heap \<Rightarrow> (addr \<rightharpoonup> entry) \<Rightarrow> (addr \<Rightarrow> addr list) \<Rightarrow> bytes \<Rightarrow> item option" where
  "tmap t h ent own k =
     (let a = vref t k in if a = 0 then None else Some (item_of h (the (ent a)) (own a)))"

definition cinv :: "world \<Rightarrow> (addr \<Rightarrow> addr list) \<Rightarrow> bool" where
  "cinv w own \<longleftrightarrow>
     building_p (wcache w) = 0 \<and> entries_p (wcache w) \<noteq> 0 \<and>
     (\<exists>t. wtab w (entries_p (wcache w)) = Some t \<and> tinv t (wmem w) (went w) (wnewer w) (wgc w) own)"

definition cmap :: "world \<Rightarrow> (addr \<Rightarrow> addr list) \<Rightarrow> bytes \<Rightarrow> item option" where
  "cmap w own = tmap (the (wtab w (entries_p (wcache w)))) (wmem w) (went w) own"

definition crel :: "world \<Rightarrow> (bytes \<Rightarrow> item option) \<Rightarrow> bool" where
  "crel w m \<longleftrightarrow> (\<exists>own. cinv w own \<and> m = cmap w own)"

section \<open>Consequences\<close>

lemma hinvD:
  assumes "hinv R K h ent nw g own"
  shows "ent a = Some e \<Longrightarrow> entry_inv h nw g own a e"
    "a \<in> dom ent \<Longrightarrow> b \<in> dom ent \<Longrightarrow> a \<noteq> b \<Longrightarrow> set (own a) \<inter> set (own b) = {}"
    "R k \<noteq> 0 \<Longrightarrow> R k \<in> dom ent \<and> unsched g (R k)"
    "R k \<noteq> 0 \<Longrightarrow> R k = R k' \<Longrightarrow> k = k'" "\<exists>tr. gc_run tr g"
    "key \<in> K \<Longrightarrow> fst key \<notin> dom ent \<and> unsched g (fst key)" "inj_on fst K"
  using assms unfolding hinv_def by blast+

lemma hinvI:
  assumes "\<And>a e. ent a = Some e \<Longrightarrow> entry_inv h nw g own a e"
    "\<And>a b. a \<in> dom ent \<Longrightarrow> b \<in> dom ent \<Longrightarrow> a \<noteq> b \<Longrightarrow> set (own a) \<inter> set (own b) = {}"
    "\<And>k. R k \<noteq> 0 \<Longrightarrow> R k \<in> dom ent \<and> unsched g (R k)"
    "\<And>k k'. R k \<noteq> 0 \<Longrightarrow> R k = R k' \<Longrightarrow> k = k'" "\<exists>tr. gc_run tr g"
    "\<And>key. key \<in> K \<Longrightarrow> fst key \<notin> dom ent \<and> unsched g (fst key)" "inj_on fst K"
  shows "hinv R K h ent nw g own"
  using assms unfolding hinv_def by blast

lemma tinvD:
  assumes "tinv t h ent nw g own"
  shows "table_inv t" "ent a = Some e \<Longrightarrow> entry_inv h nw g own a e"
    "a \<in> dom ent \<Longrightarrow> b \<in> dom ent \<Longrightarrow> a \<noteq> b \<Longrightarrow> set (own a) \<inter> set (own b) = {}"
    "vref t k \<noteq> 0 \<Longrightarrow> vref t k \<in> dom ent \<and> unsched g (vref t k)"
    "vref t k \<noteq> 0 \<Longrightarrow> vref t k = vref t k' \<Longrightarrow> k = k'" "\<exists>tr. gc_run tr g"
    "key \<in> keyrefs t \<Longrightarrow> fst key \<notin> dom ent \<and> unsched g (fst key)" "inj_on fst (keyrefs t)"
  using assms unfolding tinv_def hinv_def by blast+

lemma tinvI:
  assumes "table_inv t" "\<And>a e. ent a = Some e \<Longrightarrow> entry_inv h nw g own a e"
    "\<And>a b. a \<in> dom ent \<Longrightarrow> b \<in> dom ent \<Longrightarrow> a \<noteq> b \<Longrightarrow> set (own a) \<inter> set (own b) = {}"
    "\<And>k. vref t k \<noteq> 0 \<Longrightarrow> vref t k \<in> dom ent \<and> unsched g (vref t k)"
    "\<And>k k'. vref t k \<noteq> 0 \<Longrightarrow> vref t k = vref t k' \<Longrightarrow> k = k'" "\<exists>tr. gc_run tr g"
    "\<And>key. key \<in> keyrefs t \<Longrightarrow> fst key \<notin> dom ent \<and> unsched g (fst key)" "inj_on fst (keyrefs t)"
  shows "tinv t h ent nw g own"
  using assms unfolding tinv_def hinv_def by blast

lemma tinv_hinv: "tinv t h ent nw g own \<Longrightarrow> hinv (vref t) (keyrefs t) h ent nw g own"
  by (simp add: tinv_def)

lemma hinv_tinv: "table_inv t \<Longrightarrow> hinv (vref t) (keyrefs t) h ent nw g own \<Longrightarrow> tinv t h ent nw g own"
  by (simp add: tinv_def)

lemma tmap_hmap: "tmap t = hmap (vref t)"
  by (simp add: tmap_def hmap_def fun_eq_iff)

lemma tinv_lookup:
  assumes "tinv t h ent nw g own" "vref t k = a" "a \<noteq> 0"
  obtains e where "ent a = Some e" "entry_ok h e (own a)" "tfind t k = a" "nw a = Some fp_null" "aligned a"
    "newest nw a = Inr a" "unsched g a"
proof -
  obtain e where e: "ent a = Some e" "unsched g a" using tinvD(4) [OF assms(1), of k] assms(2,3) by auto
  have i: "entry_inv h nw g own a e" by (rule tinvD(2) [OF assms(1) e(1)])
  then have "versions nw a [a] False" by (simp add: versions_def entry_inv_def fp_null_def)
  then have "newest nw a = Inr a" using newest_versions [of nw a "[a]" False] by (simp add: current_def)
  then show thesis using that [of e] i e assms(2) by (simp add: entry_inv_def find_vref)
qed

lemma tinv_tfind: "tinv t h ent nw g own \<Longrightarrow> tfind t k = vref t k"
  using tinv_lookup [of t h ent nw g own k] tfind_0_iff [OF tinvD(1)] by metis

lemma key_eq_iff: "key_eq a b \<longleftrightarrow> a = b"
  by (auto simp: key_eq_def list.rel_eq)

subsection \<open>The garbage collector\<close>

lemma gc_new_run:
  "gc_run tr g \<Longrightarrow> a > 0x1000 \<Longrightarrow> gheap g a = None \<Longrightarrow> gc_run (EvNew a # tr) (gc_object_new g a)"
  by (rule gc_run_step) simp_all

lemma gc_delete_run:
  "gc_run tr g \<Longrightarrow> unsched g a \<Longrightarrow> gc_run (EvDelete a # tr) (gc_object_delete g a)"
  by (rule gc_run_step) (simp_all add: unsched_def)

lemma gc_new_simps [simp]:
  "gheap (gc_object_new g a) b = (if b = a then Some \<lparr>g_next = 0, g_seen = 0, g_scheduled = False, g_dispatched = False\<rparr> else gheap g b)"
  "gheap (gc_object_delete g a) b = (if b = a then None else gheap g b)"
  "cpu_count (gc_object_new g a) = cpu_count g" "cpu_count (gc_object_delete g a) = cpu_count g"
  by (simp_all add: gc_object_new_def gc_object_delete_def gwrite_def)

lemma unsched_simps [simp]:
  "unsched (gc_object_new g a) b \<longleftrightarrow> b = a \<or> unsched g b"
  "unsched (gc_object_delete g a) b \<longleftrightarrow> b \<noteq> a \<and> unsched g b"
  by (auto simp: unsched_def)

lemma gc_free_run:
  assumes "gc_run tr g" "unsched g a" "c < MAX_CPUS"
  obtains g' where "gc_free g c a = Inr g'" "gc_run (EvFree c a # tr) g'" "cpu_count g' = cpu_count g"
    "\<And>b. gheap g' b = None \<longleftrightarrow> gheap g b = None" "\<And>b. b \<noteq> a \<Longrightarrow> unsched g' b = unsched g b"
proof -
  have "gc_enabled g (EvFree c a)" using assms(2,3) by (simp add: unsched_def)
  then obtain ds g' where g': "gc_exec g (EvFree c a) = Inr (ds, g')" "gc_run (EvFree c a # tr) g'"
    using gc_progress [OF assms(1)] by blast
  then have f: "gc_free g c a = Inr g'" by (auto simp: res_simps)
  then obtain x where x: "gheap g a = Some x"
      "gheap g' = (gheap g)(a \<mapsto> x\<lparr>g_scheduled := True, g_next := pending g c\<rparr>)" "cpu_count g' = cpu_count g"
    by (auto simp: gc_free_def set_gnext_def gread_def gwrite_def require_def res_simps Let_def split: if_splits option.splits)
  show thesis by (rule that [OF f g'(2) x(3)]) (auto simp: x unsched_def)
qed

section \<open>Changes that keep the invariant\<close>

text \<open>A new object of the collector: the key of an update.\<close>

lemma tinv_new_key:
  assumes "tinv t h ent nw g own" "a > 0x1000" "gheap g a = None"
  shows "tinv t h ent nw (gc_object_new g a) own"
proof (rule tinvI)
  show "table_inv t" by (rule tinvD(1) [OF assms(1)])
  show "entry_inv h nw (gc_object_new g a) own b e" if "ent b = Some e" for b e
    using tinvD(2) [OF assms(1) that] by (simp add: entry_inv_def)
  show "set (own b) \<inter> set (own c) = {}" if "b \<in> dom ent" "c \<in> dom ent" "b \<noteq> c" for b c
    by (rule tinvD(3) [OF assms(1) that])
  show "vref t k \<in> dom ent \<and> unsched (gc_object_new g a) (vref t k)" if "vref t k \<noteq> 0" for k
    using tinvD(4) [OF assms(1) that] by simp
  show "k = k'" if "vref t k \<noteq> 0" "vref t k = vref t k'" for k k' by (rule tinvD(5) [OF assms(1) that])
  show "\<exists>tr. gc_run tr (gc_object_new g a)" using tinvD(6) [OF assms(1)] gc_new_run assms(2,3) by blast
  show "fst key \<notin> dom ent \<and> unsched (gc_object_new g a) (fst key)" if "key \<in> keyrefs t" for key
    using tinvD(7) [OF assms(1) that] by simp
  show "inj_on fst (keyrefs t)" by (rule tinvD(8) [OF assms(1)])
qed

lemma tinv_delete_key:
  assumes "tinv t h ent nw g own" "a \<notin> dom ent" "unsched g a" "a \<notin> fst ` keyrefs t"
  shows "tinv t h ent nw (gc_object_delete g a) own"
proof (rule tinvI)
  show "table_inv t" by (rule tinvD(1) [OF assms(1)])
  show "entry_inv h nw (gc_object_delete g a) own b e" if "ent b = Some e" for b e
    using tinvD(2) [OF assms(1) that] that assms(2) by (auto simp: entry_inv_def)
  show "set (own b) \<inter> set (own c) = {}" if "b \<in> dom ent" "c \<in> dom ent" "b \<noteq> c" for b c
    by (rule tinvD(3) [OF assms(1) that])
  show "vref t k \<in> dom ent \<and> unsched (gc_object_delete g a) (vref t k)" if "vref t k \<noteq> 0" for k
    using tinvD(4) [OF assms(1) that] assms(2) by auto
  show "k = k'" if "vref t k \<noteq> 0" "vref t k = vref t k'" for k k' by (rule tinvD(5) [OF assms(1) that])
  show "\<exists>tr. gc_run tr (gc_object_delete g a)" using tinvD(6) [OF assms(1)] gc_delete_run assms(3) by blast
  show "fst key \<notin> dom ent \<and> unsched (gc_object_delete g a) (fst key)" if "key \<in> keyrefs t" for key
    using tinvD(7) [OF assms(1) that] assms(4) that by auto
  show "inj_on fst (keyrefs t)" by (rule tinvD(8) [OF assms(1)])
qed

text \<open>A new entry, which owns the chunks of its rope.\<close>

lemma tinv_new_entry:
  assumes "tinv t h ent nw g own" "a > 0x1000" "aligned a" "gheap g a = None"
    "rope_ok h r ys" "\<And>b. b \<in> dom ent \<Longrightarrow> set (own b) \<inter> set ys = {}"
  shows "tinv t h (ent(a \<mapsto> entry_new f x r now)) (mv_new nw a) (gc_object_new g a) (own(a := ys))"
    and "a \<notin> dom ent" and "vref t k \<noteq> a"
proof -
  show n: "a \<notin> dom ent" using tinvD(2) [OF assms(1), of a] assms(4) by (auto simp: entry_inv_def)
  have "a \<noteq> 0" using assms(2) by auto
  then show v: "vref t k \<noteq> a" for k using tinvD(4) [OF assms(1), of k] n by auto
  show "tinv t h (ent(a \<mapsto> entry_new f x r now)) (mv_new nw a) (gc_object_new g a) (own(a := ys))"
  proof (rule tinvI)
    show "table_inv t" by (rule tinvD(1) [OF assms(1)])
    show "entry_inv h (mv_new nw a) (gc_object_new g a) (own(a := ys)) b e" if "(ent(a \<mapsto> entry_new f x r now)) b = Some e" for b e
      using tinvD(2) [OF assms(1), of b] that assms(3,5) \<open>a \<noteq> 0\<close>
      by (auto simp: entry_inv_def entry_ok_def rope_ok_def entry_new_def mv_new_def split: if_splits)
    show "set ((own(a := ys)) b) \<inter> set ((own(a := ys)) c) = {}"
      if "b \<in> dom (ent(a \<mapsto> entry_new f x r now))" "c \<in> dom (ent(a \<mapsto> entry_new f x r now))" "b \<noteq> c" for b c
      using that tinvD(3) [OF assms(1), of b c] assms(6) [of b] assms(6) [of c] by (auto split: if_splits)
    show "vref t k \<in> dom (ent(a \<mapsto> entry_new f x r now)) \<and> unsched (gc_object_new g a) (vref t k)" if "vref t k \<noteq> 0" for k
      using tinvD(4) [OF assms(1) that] by simp
    show "k = k'" if "vref t k \<noteq> 0" "vref t k = vref t k'" for k k' by (rule tinvD(5) [OF assms(1) that])
    show "\<exists>tr. gc_run tr (gc_object_new g a)" using tinvD(6) [OF assms(1)] gc_new_run assms(2,4) by blast
    show "fst key \<notin> dom (ent(a \<mapsto> entry_new f x r now)) \<and> unsched (gc_object_new g a) (fst key)" if "key \<in> keyrefs t" for key
      using tinvD(7) [OF assms(1) that] assms(4) by (auto simp: unsched_def)
    show "inj_on fst (keyrefs t)" by (rule tinvD(8) [OF assms(1)])
  qed
qed

text \<open>
  A change of the table: a key is bound to an entry no key has, or to nothing. The table may get a
  key object: \<open>cur\<close>, which is the new one, \<open>key\<close>, or was there before.
\<close>

definition keys_after :: "bytes opentable \<Rightarrow> bytes opentable \<Rightarrow> bytes keyref \<Rightarrow> bytes keyref option \<Rightarrow> bool" where
  "keys_after t t' key cur \<longleftrightarrow> keyrefs t' = keyrefs t \<union> set_option cur \<and> set_option cur \<subseteq> insert key (keyrefs t)"

definition key_fresh :: "bytes opentable \<Rightarrow> (addr \<rightharpoonup> entry) \<Rightarrow> gc_state \<Rightarrow> bytes keyref \<Rightarrow> bool" where
  "key_fresh t ent g key \<longleftrightarrow> fst key \<notin> dom ent \<and> unsched g (fst key) \<and> fst key \<notin> fst ` keyrefs t"

lemma keys_after_None: "keyrefs t' = keyrefs t \<Longrightarrow> keys_after t t' key None"
  by (simp add: keys_after_def)

lemma hinv_keys:
  assumes "hinv R (keyrefs t) h ent nw g own" "keys_after t t' key cur" "cur = None \<or> key_fresh t ent g key"
  shows "hinv R (keyrefs t') h ent nw g own"
proof (rule hinvI)
  show "fst j \<notin> dom ent \<and> unsched g (fst j)" if "j \<in> keyrefs t'" for j
    using that assms(2,3) hinvD(6) [OF assms(1), of j] by (auto simp: keys_after_def key_fresh_def)
  show "inj_on fst (keyrefs t')"
  proof (cases "cur = None")
    case False
    then have "inj_on fst (insert key (keyrefs t))"
      using assms(3) hinvD(7) [OF assms(1)] by (auto simp: inj_on_insert key_fresh_def)
    moreover have "keyrefs t' \<subseteq> insert key (keyrefs t)" using assms(2) unfolding keys_after_def by blast
    ultimately show ?thesis by (rule inj_on_subset)
  qed (use assms(2) hinvD(7) [OF assms(1)] in \<open>simp add: keys_after_def\<close>)
qed (use hinvD [OF assms(1)] in blast)+

lemma hinv_bind:
  assumes "hinv R K h ent nw g own" "\<And>k'. R' k' = (if k' = k then a else R k')"
    "a = 0 \<or> a \<in> dom ent \<and> unsched g a \<and> (\<forall>k'. R k' \<noteq> a)"
  shows "hinv R' K h ent nw g own"
proof (rule hinvI)
  show "R' j \<in> dom ent \<and> unsched g (R' j)" if "R' j \<noteq> 0" for j
    using that assms(3) hinvD(3) [OF assms(1), of j] unfolding assms(2) by (auto split: if_splits)
  show "j = j'" if "R' j \<noteq> 0" "R' j = R' j'" for j j'
    using that assms(3) hinvD(4) [OF assms(1), of j j'] unfolding assms(2) by (auto split: if_splits)
qed (use hinvD [OF assms(1)] in blast)+

lemma tinv_keys:
  assumes "tinv t h ent nw g own" "table_inv t'" "vref t' = vref t" "keys_after t t' key cur" "cur = None \<or> key_fresh t ent g key"
  shows "tinv t' h ent nw g own"
  using hinv_keys [OF _ assms(4,5)] assms(1-3) by (simp add: tinv_def)

lemma tinv_bind:
  assumes "tinv t h ent nw g own" "table_inv t'" "\<And>k'. vref t' k' = (if k' = k then a else vref t k')"
    "a = 0 \<or> a \<in> dom ent \<and> unsched g a \<and> (\<forall>k'. vref t k' \<noteq> a)"
    "keys_after t t' key cur" "cur = None \<or> key_fresh t ent g key"
  shows "tinv t' h ent nw g own"
  using hinv_bind [OF hinv_keys [OF _ assms(5,6)] assms(3,4)] assms(1,2) by (simp add: tinv_def)

text \<open>The new key object is not in the table when it is not the one reported.\<close>

lemma key_not_added:
  assumes "keys_after t t' key cur" "fst key \<notin> fst ` keyrefs t" "map_option fst cur \<noteq> Some (fst key)"
  shows "fst key \<notin> fst ` keyrefs t'"
proof -
  have "set_option cur \<subseteq> keyrefs t" using assms(1,3) by (cases cur) (auto simp: keys_after_def)
  then have "keyrefs t' = keyrefs t" using assms(1) by (auto simp: keys_after_def)
  then show ?thesis using assms(2) by simp
qed

lemma new_key_address:
  assumes "tinv t h ent nw g own" "gheap g a = None"
  shows "a \<notin> fst ` keyrefs t"
  using tinvD(7) [OF assms(1)] assms(2) by (force simp: unsched_def)

text \<open>An entry that no key has any more is handed to the collector.\<close>

lemma entry_release_ok:
  assumes "hinv R K (wmem w) (went w) (wnewer w) (wgc w) own" "a \<in> dom (went w)" "unsched (wgc w) a"
    "\<And>k. R k \<noteq> a" "c < MAX_CPUS"
  obtains g where "entry_release c w a =
      Inr ((upd_cache w (\<lambda>x. x\<lparr>bytes_c := bytes_c x - of_nat (length (contents (wmem w) (own a)))\<rparr>))\<lparr>wgc := g\<rparr>)"
    "hinv R K (wmem w) (went w) (wnewer w) g own" "cpu_count g = cpu_count (wgc w)"
    "\<And>b. b \<noteq> a \<Longrightarrow> unsched g b = unsched (wgc w) b"
proof -
  obtain e where e: "went w a = Some e" using assms(2) by auto
  have i: "entry_inv (wmem w) (wnewer w) (wgc w) own a e" by (rule hinvD(1) [OF assms(1) e])
  have "release_size w 0 s = Some (Inr s)" for s by (simp add: release_size.simps)
  then have sz: "release_size w a 0 = Some (Inr (of_nat (length (contents (wmem w) (own a)))))"
    using i e entry_size_ok [of "wmem w" e "own a"]
    by (subst release_size.simps) (simp add: entry_inv_def eread_def newer_def fp_null_def)
  obtain tr where tr: "gc_run tr (wgc w)" using hinvD(5) [OF assms(1)] by blast
  obtain g where g: "gc_free (wgc w) c a = Inr g" "gc_run (EvFree c a # tr) g" "cpu_count g = cpu_count (wgc w)"
      "\<And>b. gheap g b = None \<longleftrightarrow> gheap (wgc w) b = None" "\<And>b. b \<noteq> a \<Longrightarrow> unsched g b = unsched (wgc w) b"
    using gc_free_run [OF tr assms(3,5)] by blast
  have "hinv R K (wmem w) (went w) (wnewer w) g own"
  proof (rule hinvI)
    show "entry_inv (wmem w) (wnewer w) g own b e" if "went w b = Some e" for b e
      using hinvD(1) [OF assms(1) that] g(4) by (simp add: entry_inv_def)
    show "R k \<in> dom (went w) \<and> unsched g (R k)" if "R k \<noteq> 0" for k
      using hinvD(3) [OF assms(1) that] g(5) assms(4) by blast
    show "fst key \<notin> dom (went w) \<and> unsched g (fst key)" if "key \<in> K" for key
      using hinvD(6) [OF assms(1) that] g(5) assms(2) by metis
    show "R k = R k' \<Longrightarrow> k = k'" if "R k \<noteq> 0" for k k' by (rule hinvD(4) [OF assms(1) that])
  qed (use hinvD [OF assms(1)] g(2) in blast)+
  moreover have "entry_release c w a =
      Inr ((upd_cache w (\<lambda>x. x\<lparr>bytes_c := bytes_c x - of_nat (length (contents (wmem w) (own a)))\<rparr>))\<lparr>wgc := g\<rparr>)"
    using sz g(1) by (simp add: entry_release_def upd_cache_def counter_sub_def Let_def)
  ultimately show thesis using that g(3,5) by blast
qed

text \<open>A value changed in place: its entry owns other chunks, every other chain is untouched.\<close>

lemma tinv_modify:
  assumes "tinv t h ent nw g own" "ent a \<noteq> None" "entry_ok h' e' xs"
    "\<And>b. b \<in> dom ent \<Longrightarrow> b \<noteq> a \<Longrightarrow> set (own b) \<inter> set xs = {}"
    "\<And>b x. b \<in> dom ent \<Longrightarrow> b \<noteq> a \<Longrightarrow> x \<in> set (own b) \<Longrightarrow> h' x = h x"
  shows "tinv t h' (ent(a \<mapsto> e')) nw g (own(a := xs))"
    and "tmap t h' (ent(a \<mapsto> e')) (own(a := xs)) =
      (\<lambda>k. if vref t k = a \<and> a \<noteq> 0 then Some (item_of h' e' xs) else tmap t h ent own k)"
proof -
  have seg: "seg h' zs = seg h zs" "chunks h' zs = chunks h zs" if "\<And>x. x \<in> set zs \<Longrightarrow> h' x = h x" for zs
    using that by (induction zs) (auto simp: chunks_def)
  have ok: "entry_ok h' e (own b) = entry_ok h e (own b)" "chunks h' (own b) = chunks h (own b)"
    if "b \<in> dom ent" "b \<noteq> a" for b e
  proof -
    have s: "\<And>x. x \<in> set (own b) \<Longrightarrow> h' x = h x" using assms(5) that by blast
    show "chunks h' (own b) = chunks h (own b)" by (rule seg(2) [OF s])
    have "seg h' (own b) = seg h (own b)" by (rule seg(1) [OF s])
    moreover have "own b \<noteq> [] \<Longrightarrow> ends h' (own b) = ends h (own b)" using s by (simp add: ends_def)
    ultimately show "entry_ok h' e (own b) = entry_ok h e (own b)"
      by (cases "own b = []") (simp_all add: entry_ok_def chain_def)
  qed
  show "tinv t h' (ent(a \<mapsto> e')) nw g (own(a := xs))"
  proof (rule tinvI)
    show "table_inv t" by (rule tinvD(1) [OF assms(1)])
    show "entry_inv h' nw g (own(a := xs)) b e" if "(ent(a \<mapsto> e')) b = Some e" for b e
      using tinvD(2) [OF assms(1), of b] that assms(2,3) ok(1) [of b] by (auto simp: entry_inv_def split: if_splits)
    show "set ((own(a := xs)) b) \<inter> set ((own(a := xs)) c) = {}"
      if "b \<in> dom (ent(a \<mapsto> e'))" "c \<in> dom (ent(a \<mapsto> e'))" "b \<noteq> c" for b c
      using that tinvD(3) [OF assms(1), of b c] assms(2) assms(4) [of b] assms(4) [of c] by (auto split: if_splits)
    show "vref t k \<in> dom (ent(a \<mapsto> e')) \<and> unsched g (vref t k)" if "vref t k \<noteq> 0" for k
      using tinvD(4) [OF assms(1) that] by simp
    show "fst key \<notin> dom (ent(a \<mapsto> e')) \<and> unsched g (fst key)" if "key \<in> keyrefs t" for key
      using tinvD(7) [OF assms(1) that] assms(2) by auto
  qed (use tinvD [OF assms(1)] in blast)+
  show "tmap t h' (ent(a \<mapsto> e')) (own(a := xs)) =
      (\<lambda>k. if vref t k = a \<and> a \<noteq> 0 then Some (item_of h' e' xs) else tmap t h ent own k)"
    using ok(2) tinvD(4) [OF assms(1)] by (fastforce simp: tmap_def item_of_def Let_def)
qed

text \<open>An entry no key has is deleted: its chunks are freed.\<close>

lemma entry_destroy_ok:
  assumes "hinv R K (wmem w) (went w) (wnewer w) g own" "a \<in> dom (went w)"
  shows "entry_destroy w a = Some (Inr (w\<lparr>wmem := wmem w |` (- set (own a)), went := (went w)(a := None),
     wnewer := (wnewer w)(a := None), wgc := gc_object_delete (wgc w) a\<rparr>))"
proof -
  obtain e where e: "went w a = Some e" using assms(2) by auto
  have i: "entry_inv (wmem w) (wnewer w) g own a e" by (rule hinvD(1) [OF assms(1) e])
  then show ?thesis
    using e entry_delete_ok [of "wmem w" e "own a"]
    by (subst entry_destroy.simps) (simp add: entry_inv_def eread_def fp_null_def Let_def)
qed

lemma hinv_restrict:
  assumes "hinv R K h ent nw g own" "a \<in> dom ent" "\<And>k. R k \<noteq> a"
    and g': "\<exists>tr. gc_run tr g'" "\<And>b. b \<noteq> a \<Longrightarrow> gheap g' b = gheap g b"
  shows "hinv R K (h |` (- set (own a))) (ent(a := None)) (nw(a := None)) g' own"
    and "hmap R (h |` (- set (own a))) (ent(a := None)) own = hmap R h ent own"
proof -
  have ok: "entry_ok (h |` (- set (own a))) e (own b) = entry_ok h e (own b)"
    "chunks (h |` (- set (own a))) (own b) = chunks h (own b)" if b: "b \<in> dom ent" "b \<noteq> a" for b e
  proof -
    have d: "set (own b) \<inter> set (own a) = {}" by (rule hinvD(2) [OF assms(1) b(1) assms(2) b(2)])
    then show "chunks (h |` (- set (own a))) (own b) = chunks h (own b)"
      by (auto simp: chunks_def restrict_map_def)
    have "ends (h |` (- set (own a))) (own b) = ends h (own b)" if "own b \<noteq> []"
    proof -
      have "last (own b) \<notin> set (own a)" using d that last_in_set by blast
      then show ?thesis by (simp add: ends_def)
    qed
    then show "entry_ok (h |` (- set (own a))) e (own b) = entry_ok h e (own b)"
      using chain_restrict [OF d] by (cases "own b = []") (auto simp: entry_ok_def chain_def)
  qed
  have us: "unsched g' b = unsched g b" if "b \<noteq> a" for b using g'(2) [OF that] by (simp add: unsched_def)
  show "hinv R K (h |` (- set (own a))) (ent(a := None)) (nw(a := None)) g' own"
  proof (rule hinvI)
    show "entry_inv (h |` (- set (own a))) (nw(a := None)) g' own b e" if "(ent(a := None)) b = Some e" for b e
      using hinvD(1) [OF assms(1), of b e] that ok(1) [of b] g'(2) by (auto simp: entry_inv_def split: if_splits)
    show "R k \<in> dom (ent(a := None)) \<and> unsched g' (R k)" if "R k \<noteq> 0" for k
      using hinvD(3) [OF assms(1) that] assms(3) [of k] us by auto
    show "fst key \<notin> dom (ent(a := None)) \<and> unsched g' (fst key)" if "key \<in> K" for key
      using hinvD(6) [OF assms(1) that] us assms(2) by (metis domIff fun_upd_apply)
    show "R k = R k' \<Longrightarrow> k = k'" if "R k \<noteq> 0" for k k' by (rule hinvD(4) [OF assms(1) that])
  qed (use hinvD [OF assms(1)] g'(1) in auto)
  show "hmap R (h |` (- set (own a))) (ent(a := None)) own = hmap R h ent own"
  proof
    fix k
    show "hmap R (h |` (- set (own a))) (ent(a := None)) own k = hmap R h ent own k"
      using ok(2) [of "R k"] hinvD(3) [OF assms(1), of k] assms(3) [of k] by (auto simp: hmap_def item_of_def Let_def)
  qed
qed

text \<open>The map a change of the table or of the chunks yields.\<close>

lemma tmap_bind:
  "(\<And>k'. vref t' k' = (if k' = k then a else vref t k')) \<Longrightarrow>
   tmap t' h ent own = (tmap t h ent own)(k := if a = 0 then None else Some (item_of h (the (ent a)) (own a)))"
  by (auto simp: tmap_def fun_eq_iff Let_def)

lemma tmap_new_entry:
  "tinv t h ent nw g own \<Longrightarrow> a \<notin> dom ent \<Longrightarrow> tmap t h (ent(a \<mapsto> e)) (own(a := ys)) = tmap t h ent own"
proof
  fix k assume i: "tinv t h ent nw g own" "a \<notin> dom ent"
  show "tmap t h (ent(a \<mapsto> e)) (own(a := ys)) k = tmap t h ent own k"
    using tinvD(4) [OF i(1), of k] i(2) by (auto simp: tmap_def Let_def)
qed

lemma tmap_None: "tmap t h ent own k = None \<longleftrightarrow> vref t k = 0"
  by (simp add: tmap_def Let_def)

end
