(* ===== verification/Cache_Refine.thy ===== *)
theory Cache_Refine
  imports Cache_Inv
begin

text \<open>
  The cache at rest refines a map from keys to items: every sequence of operations on it, garbage
  collection included, returns what the same sequence on the map returns, and never fails. There
  are two specifications: \<open>aspec\<close> on the map alone, which lets any set or add that needs a slot be
  refused, and \<open>cspec\<close> on the map with the slots of the table, which says when one is. The
  operations are those the sessions issue; \<open>get\<close> is composed with reading the value and computing
  its version, as \<open>text_session::get\<close> does, and receiving data allocates and fills one chunk, as
  \<open>text_session::recv_data\<close> does when all of the data is there.
\<close>

section \<open>Operations and their specification\<close>

text \<open>
  The last argument of the operations that store data lists the bytes of the rope's chunks.
\<close>

datatype cop =
    OSet env bytes u32 u32 rope "bytes list"
  | OAdd env bytes u32 u32 rope "bytes list"
  | OReplace env bytes u32 u32 rope "bytes list"
  | OAppend env bytes rope "bytes list"
  | OPrepend env bytes rope "bytes list"
  | OCas env bytes u32 u32 u64 rope "bytes list"
  | OGet env int bytes
  | ODel env bytes
  | OIncr env bytes u64
  | ODecr env bytes u64
  | OTouch env bytes u32
  | OFlushAll env int
  | OCheckpoint nat
  | OThreadStart
  | OThreadExit nat
  | OReceive addr bytes

datatype creply = RCode cache_error_t | RNumber u64 | RMiss | RValue u32 bytes u64 | RDone

definition get_value :: "env \<Rightarrow> int \<Rightarrow> world \<Rightarrow> bytes \<Rightarrow> (creply \<times> world) res" where
  "get_value v n w k =
     rbind (cache_get w k) (\<lambda>(e, w).
     if e = 0 then Inr (RMiss, w)
     else
       rbind (eread w e) (\<lambda>x.
       rbind (entry_read (v_now v) n (wmem w) x) (\<lambda>(odata, _, x).
       rbind (const_rope_hash (wmem w) odata (ucast (e_flags x))) (\<lambda>version.
       rbind (drain (wmem w) odata) (\<lambda>bs.
       Inr (RValue (e_flags x) bs version, ewrite w e x))))))"

definition code :: "(cache_error_t \<times> world) res \<Rightarrow> (creply \<times> world) res" where
  "code r = rbind r (\<lambda>(c, w). Inr (RCode c, w))"

definition number :: "(cache_error_t \<times> u64 option \<times> world) res \<Rightarrow> (creply \<times> world) res" where
  "number r = rbind r (\<lambda>(c, a, w). Inr (case a of None \<Rightarrow> RCode c | Some n \<Rightarrow> RNumber n, w))"

fun cexec :: "world \<Rightarrow> cop \<Rightarrow> (creply \<times> world) res" where
  "cexec w (OSet v k f x r cs) = code (cache_set v w k f x r)"
| "cexec w (OAdd v k f x r cs) = code (cache_add v w k f x r)"
| "cexec w (OReplace v k f x r cs) = code (cache_replace v w k f x r)"
| "cexec w (OAppend v k r cs) = code (cache_append v w k r)"
| "cexec w (OPrepend v k r cs) = code (cache_prepend v w k r)"
| "cexec w (OCas v k f x ver r cs) = code (cache_cas v w k f x ver r)"
| "cexec w (OGet v n k) = get_value v n w k"
| "cexec w (ODel v k) = code (cache_del v w k)"
| "cexec w (OIncr v k d) = number (cache_incr v w k d)"
| "cexec w (ODecr v k d) = number (cache_decr v w k d)"
| "cexec w (OTouch v k x) = code (cache_touch v w k x)"
| "cexec w (OFlushAll v delay) = Inr (RDone, cache_flush_all v w delay)"
| "cexec w (OCheckpoint c) = rbind (cache_checkpoint c w) (\<lambda>w. Inr (RDone, w))"
| "cexec w OThreadStart = rbind (cpu_init (wgc w)) (\<lambda>(_, g). Inr (RDone, w\<lparr>wgc := g\<rparr>))"
| "cexec w (OThreadExit c) = Inr (RDone, w\<lparr>wgc := cpu_exit (wgc w) c\<rparr>)"
| "cexec w (OReceive a bs) = Inr (RDone, w\<lparr>wmem := mem_alloc a bs (of_nat (length bs)) (wmem w)\<rparr>)"

text \<open>
  What the callers guarantee: a thread that passes a checkpoint is registered (one that is not, as in
  programs without worker threads, has the number 0 and may do all the rest), the addresses \<open>malloc\<close> returns are free,
  the rope's chunks belong to no entry; \<open>incr\<close> and \<open>decr\<close> are applied to numbers (anything else is
  an exception that no caller catches).
\<close>

definition fresh_object :: "world \<Rightarrow> addr \<Rightarrow> bool" where
  "fresh_object w a \<longleftrightarrow> a > 0x1000 \<and> aligned a \<and> gheap (wgc w) a = None"

definition rope_fresh :: "world \<Rightarrow> rope \<Rightarrow> bytes list \<Rightarrow> bool" where
  "rope_fresh w r cs \<longleftrightarrow>
     (\<exists>ys. rope_ok (wmem w) r ys \<and> chunks (wmem w) ys = cs \<and>
        (\<forall>a e xs. went w a = Some e \<longrightarrow> entry_ok (wmem w) e xs \<longrightarrow> set xs \<inter> set ys = {}))"

definition numeric_value :: "world \<Rightarrow> bytes \<Rightarrow> bool" where
  "numeric_value w k \<longleftrightarrow>
     (\<forall>t e xs. wtab w (entries_p (wcache w)) = Some t \<longrightarrow> went w (tfind t k) = Some e \<longrightarrow>
        entry_ok (wmem w) e xs \<longrightarrow> parse_number (contents (wmem w) xs) \<noteq> None)"

definition fresh_chunk :: "world \<Rightarrow> env \<Rightarrow> bool" where
  "fresh_chunk w v \<longleftrightarrow> v_chunk v \<noteq> 0 \<and> v_chunk v \<notin> dom (wmem w) \<and> 32 \<le> length (v_raw v)"

definition runs_on :: "world \<Rightarrow> nat \<Rightarrow> bool" where
  "runs_on w c \<longleftrightarrow> c < cpu_count (wgc w)"

fun clegal :: "world \<Rightarrow> cop \<Rightarrow> bool" where
  "clegal w (OSet v k f x r cs) \<longleftrightarrow> v_cpu v < MAX_CPUS \<and> fresh_object w (v_key v) \<and> fresh_object w (v_entry v) \<and>
     v_key v \<noteq> v_entry v \<and> rope_fresh w r cs"
| "clegal w (OAdd v k f x r cs) \<longleftrightarrow> v_cpu v < MAX_CPUS \<and> fresh_object w (v_key v) \<and> fresh_object w (v_entry v) \<and>
     v_key v \<noteq> v_entry v \<and> rope_fresh w r cs"
| "clegal w (OReplace v k f x r cs) \<longleftrightarrow> v_cpu v < MAX_CPUS \<and> fresh_object w (v_entry v) \<and> rope_fresh w r cs"
| "clegal w (OAppend v k r cs) \<longleftrightarrow> rope_fresh w r cs"
| "clegal w (OPrepend v k r cs) \<longleftrightarrow> rope_fresh w r cs"
| "clegal w (OCas v k f x ver r cs) \<longleftrightarrow> rope_fresh w r cs"
| "clegal w (OGet v n k) \<longleftrightarrow> True"
| "clegal w (ODel v k) \<longleftrightarrow> v_cpu v < MAX_CPUS"
| "clegal w (OIncr v k d) \<longleftrightarrow> fresh_chunk w v \<and> numeric_value w k"
| "clegal w (ODecr v k d) \<longleftrightarrow> fresh_chunk w v \<and> numeric_value w k"
| "clegal w (OTouch v k x) \<longleftrightarrow> True"
| "clegal w (OFlushAll v delay) \<longleftrightarrow> True"
| "clegal w (OCheckpoint c) \<longleftrightarrow> runs_on w c"
| "clegal w OThreadStart \<longleftrightarrow> cpu_count (wgc w) < MAX_CPUS"
| "clegal w (OThreadExit c) \<longleftrightarrow> runs_on w c"
| "clegal w (OReceive a bs) \<longleftrightarrow> a \<noteq> 0 \<and> a \<notin> dom (wmem w)"

definition item_version :: "item \<Rightarrow> u64" where
  "item_version i = hash_chunks (i_chunks i) (ucast (i_flags i))"

definition item_number :: "item \<Rightarrow> u64 option" where
  "item_number i = parse_number (concat (i_chunks i))"

text \<open>
  The specification on a map. Storing under a key that has no value may be refused, when the
  table has no free bucket for it; everything else is determined.
\<close>

fun aspec :: "(bytes \<Rightarrow> item option) \<Rightarrow> cop \<Rightarrow> creply \<Rightarrow> (bytes \<Rightarrow> item option) \<Rightarrow> bool" where
  "aspec m (OSet v k f x r cs) rep m' \<longleftrightarrow>
     rep = RCode stored \<and> m' = m(k \<mapsto> \<lparr>i_flags = f, i_exptime = x, i_chunks = cs\<rparr>) \<or>
     m k = None \<and> rep = RCode set_error \<and> m' = m"
| "aspec m (OAdd v k f x r cs) rep m' \<longleftrightarrow>
     m k = None \<and> rep = RCode stored \<and> m' = m(k \<mapsto> \<lparr>i_flags = f, i_exptime = x, i_chunks = cs\<rparr>) \<or>
     rep = RCode set_error \<and> m' = m"
| "aspec m (OReplace v k f x r cs) rep m' \<longleftrightarrow>
     (case m k of
        None \<Rightarrow> rep = RCode set_error \<and> m' = m
      | Some i \<Rightarrow> rep = RCode stored \<and> m' = m(k \<mapsto> \<lparr>i_flags = f, i_exptime = x, i_chunks = cs\<rparr>))"
| "aspec m (OAppend v k r cs) rep m' \<longleftrightarrow>
     (case m k of
        None \<Rightarrow> rep = RCode set_error \<and> m' = m
      | Some i \<Rightarrow> rep = RCode stored \<and> m' = m(k \<mapsto> i\<lparr>i_chunks := i_chunks i @ cs\<rparr>))"
| "aspec m (OPrepend v k r cs) rep m' \<longleftrightarrow>
     (case m k of
        None \<Rightarrow> rep = RCode set_error \<and> m' = m
      | Some i \<Rightarrow> rep = RCode stored \<and> m' = m(k \<mapsto> i\<lparr>i_chunks := cs @ i_chunks i\<rparr>))"
| "aspec m (OCas v k f x ver r cs) rep m' \<longleftrightarrow>
     (case m k of
        None \<Rightarrow> rep = RCode notfound \<and> m' = m
      | Some i \<Rightarrow>
          if ver = item_version i
          then rep = RCode stored \<and> m' = m(k \<mapsto> \<lparr>i_flags = f, i_exptime = x, i_chunks = cs\<rparr>)
          else rep = RCode cas_exists \<and> m' = m)"
| "aspec m (OGet v n k) rep m' \<longleftrightarrow>
     (case m k of
        None \<Rightarrow> rep = RMiss \<and> m' = m
      | Some i \<Rightarrow> rep = RValue (i_flags i) (concat (i_chunks i)) (item_version i) \<and> m' = m)"
| "aspec m (ODel v k) rep m' \<longleftrightarrow>
     (case m k of
        None \<Rightarrow> rep = RCode notfound \<and> m' = m
      | Some i \<Rightarrow> rep = RCode deleted \<and> m' = m(k := None))"
| "aspec m (OIncr v k d) rep m' \<longleftrightarrow>
     (case m k of
        None \<Rightarrow> rep = RCode set_error \<and> m' = m
      | Some i \<Rightarrow> (\<exists>a. item_number i = Some a \<and> rep = RNumber (of_nat (unat a + unat d)) \<and>
          m' = m(k \<mapsto> i\<lparr>i_chunks := [print_u64 (of_nat (unat a + unat d))]\<rparr>)))"
| "aspec m (ODecr v k d) rep m' \<longleftrightarrow>
     (case m k of
        None \<Rightarrow> rep = RCode set_error \<and> m' = m
      | Some i \<Rightarrow> (\<exists>a. item_number i = Some a \<and> rep = RNumber (of_nat (unat a - unat d)) \<and>
          m' = m(k \<mapsto> i\<lparr>i_chunks := [print_u64 (of_nat (unat a - unat d))]\<rparr>)))"
| "aspec m (OTouch v k x) rep m' \<longleftrightarrow>
     (case m k of
        None \<Rightarrow> rep = RCode notfound \<and> m' = m
      | Some i \<Rightarrow> rep = RCode stored \<and> m' = m(k \<mapsto> i\<lparr>i_exptime := x\<rparr>))"
| "aspec m (OFlushAll v delay) rep m' \<longleftrightarrow> rep = RDone \<and> m' = m"
| "aspec m (OCheckpoint c) rep m' \<longleftrightarrow> rep = RDone \<and> m' = m"
| "aspec m OThreadStart rep m' \<longleftrightarrow> rep = RDone \<and> m' = m"
| "aspec m (OThreadExit c) rep m' \<longleftrightarrow> rep = RDone \<and> m' = m"
| "aspec m (OReceive a bs) rep m' \<longleftrightarrow> rep = RDone \<and> m' = m"

text \<open>
  That specification leaves open when a key is refused. The full one also has the slots of the table:
  a set or add first claims a slot for its key, on the probe sequence the key has in the table, and is
  refused for want of one exactly when all slots of the sequence are taken by other keys. Keys keep
  their slots, whatever becomes of their values.
\<close>

record cache_view =
  cv_probes :: "bytes \<Rightarrow> nat list"
  cv_slots :: "bytes option list"
  cv_items :: "bytes \<Rightarrow> item option"

definition cv_claim :: "cache_view \<Rightarrow> bytes \<Rightarrow> cache_view option" where
  "cv_claim a k = map_option (\<lambda>ks. a\<lparr>cv_slots := ks\<rparr>) (claim (cv_slots a) (cv_probes a k) k)"

definition cv_put :: "cache_view \<Rightarrow> bytes \<Rightarrow> item \<Rightarrow> cache_view" where
  "cv_put a k i = a\<lparr>cv_items := (cv_items a)(k \<mapsto> i)\<rparr>"

fun cspec :: "cache_view \<Rightarrow> cop \<Rightarrow> creply \<Rightarrow> cache_view \<Rightarrow> bool" where
  "cspec a (OSet v k f x r cs) rep a' \<longleftrightarrow>
     (case cv_claim a k of
        None \<Rightarrow> rep = RCode set_error \<and> a' = a
      | Some b \<Rightarrow> rep = RCode stored \<and> a' = cv_put b k \<lparr>i_flags = f, i_exptime = x, i_chunks = cs\<rparr>)"
| "cspec a (OAdd v k f x r cs) rep a' \<longleftrightarrow>
     (case cv_claim a k of
        None \<Rightarrow> rep = RCode set_error \<and> a' = a
      | Some b \<Rightarrow>
          if cv_items a k = None then rep = RCode stored \<and> a' = cv_put b k \<lparr>i_flags = f, i_exptime = x, i_chunks = cs\<rparr>
          else rep = RCode set_error \<and> a' = b)"
| "cspec a op rep a' \<longleftrightarrow> (\<exists>m. aspec (cv_items a) op rep m \<and> a' = a\<lparr>cv_items := m\<rparr>)"

definition cview :: "bytes opentable \<Rightarrow> (bytes \<Rightarrow> item option) \<Rightarrow> cache_view" where
  "cview t m = \<lparr>cv_probes = probes_of t, cv_slots = tkeys t, cv_items = m\<rparr>"

fun claimed :: "cop \<Rightarrow> bytes option" where
  "claimed (OSet v k f x r cs) = Some k"
| "claimed (OAdd v k f x r cs) = Some k"
| "claimed _ = None"

text \<open>What an operation does to the slots of the table, and what that says about its reply.\<close>

definition slots_step :: "(bytes \<Rightarrow> item option) \<Rightarrow> cop \<Rightarrow> creply \<Rightarrow> bytes opentable \<Rightarrow> bytes opentable \<Rightarrow> bool" where
  "slots_step m op rep t t' \<longleftrightarrow> probes_of t' = probes_of t \<and>
     (case claimed op of
        None \<Rightarrow> tkeys t' = tkeys t
      | Some k \<Rightarrow>
          (case claim (tkeys t) (probes_of t k) k of
             None \<Rightarrow> tkeys t' = tkeys t \<and> rep = RCode set_error
           | Some ks \<Rightarrow> tkeys t' = ks \<and> (m k = None \<longrightarrow> rep = RCode stored)))"

lemma slots_step_cspec:
  assumes "aspec m op rep m'" "slots_step m op rep t t'"
  shows "cspec (cview t m) op rep (cview t' m')"
  using assms by (cases op) (auto simp: slots_step_def cview_def cv_claim_def cv_put_def split: option.splits)

definition refines :: "world \<Rightarrow> (bytes \<Rightarrow> item option) \<Rightarrow> cop \<Rightarrow> bool" where
  "refines w m op \<longleftrightarrow> (\<exists>r w' m'. cexec w op = Inr (r, w') \<and> aspec m op r m' \<and> crel w' m')"

abbreviation table_at :: "world \<Rightarrow> bytes opentable option" where
  "table_at w \<equiv> wtab w (entries_p (wcache w))"

definition refines_at :: "world \<Rightarrow> (bytes \<Rightarrow> item option) \<Rightarrow> cop \<Rightarrow> bool" where
  "refines_at w m op \<longleftrightarrow> (\<exists>r w' m' t t'. cexec w op = Inr (r, w') \<and> aspec m op r m' \<and> crel w' m' \<and>
     table_at w = Some t \<and> table_at w' = Some t' \<and> slots_step m op r t t')"

lemma refines_atI:
  "cexec w op = Inr (r, w') \<Longrightarrow> aspec m op r m' \<Longrightarrow> crel w' m' \<Longrightarrow> table_at w = Some t \<Longrightarrow> table_at w' = Some t' \<Longrightarrow>
   slots_step m op r t t' \<Longrightarrow> refines_at w m op"
  unfolding refines_at_def by blast

lemma refines_at_refines: "refines_at w m op \<Longrightarrow> refines w m op"
  unfolding refines_at_def refines_def by blast

section \<open>Single operations\<close>

lemma crelE:
  assumes "crel w m"
  obtains own t where "building_p (wcache w) = 0" "entries_p (wcache w) \<noteq> 0"
    "wtab w (entries_p (wcache w)) = Some t" "tinv t (wmem w) (went w) (wnewer w) (wgc w) own"
    "m = tmap t (wmem w) (went w) own"
  using assms by (auto simp: crel_def cinv_def cmap_def)

lemma crelI:
  assumes "building_p (wcache w) = 0" "entries_p (wcache w) \<noteq> 0" "wtab w (entries_p (wcache w)) = Some t"
    "tinv t (wmem w) (went w) (wnewer w) (wgc w) own" "m = tmap t (wmem w) (went w) own"
  shows "crel w m"
  using assms unfolding crel_def cinv_def cmap_def by (intro exI [of _ own]) auto

lemma rope_freshE:
  assumes "rope_fresh w r cs" "tinv t (wmem w) (went w) nw g own"
  obtains ys where "rope_ok (wmem w) r ys" "chunks (wmem w) ys = cs" "\<forall>b \<in> dom (went w). set (own b) \<inter> set ys = {}"
    "rope_size (wmem w) r = Inr (of_nat (length (concat cs)))"
proof -
  obtain ys where y: "rope_ok (wmem w) r ys" "chunks (wmem w) ys = cs"
      "\<forall>a e xs. went w a = Some e \<longrightarrow> entry_ok (wmem w) e xs \<longrightarrow> set xs \<inter> set ys = {}"
    using assms(1) by (auto simp: rope_fresh_def)
  have "set (own b) \<inter> set ys = {}" if "b \<in> dom (went w)" for b
    using that y(3) tinvD(2) [OF assms(2), of b] by (auto simp: entry_inv_def)
  moreover have "rope_size (wmem w) r = Inr (of_nat (length (concat cs)))"
    using mem_size_chain(1) [of "wmem w" "r_head r" "r_tail r" ys] y(1,2)
    by (simp add: rope_ok_def rope_size_def contents_def)
  ultimately show thesis using that y(1,2) by blast
qed

lemma cache_get_ok:
  assumes "wtab w (entries_p (wcache w)) = Some t" "entries_p (wcache w) \<noteq> 0"
    "tinv t (wmem w) (went w) (wnewer w) (wgc w) own"
  shows "\<exists>f. cache_get w k = Inr (vref t k, upd_cache w f) \<and>
     (\<forall>c. entries_p (f c) = entries_p c \<and> building_p (f c) = building_p c)"
proof (cases "vref t k = 0")
  case True
  then have "cache_get w k = Inr (0, upd_cache w (\<lambda>c. c\<lparr>gets_c := counter_incr (gets_c c), get_misses_c := counter_incr (get_misses_c c)\<rparr>))"
    using assms(1,2) tinv_tfind [OF assms(3), of k] by (simp add: cache_get_def upd_cache_def tread_def Let_def)
  then show ?thesis
    using True by (intro exI [of _ "\<lambda>c. c\<lparr>gets_c := counter_incr (gets_c c), get_misses_c := counter_incr (get_misses_c c)\<rparr>"]) simp
next
  case False
  obtain e where e: "newest (wnewer w) (vref t k) = Inr (vref t k)" "tfind t k = vref t k"
    by (rule tinv_lookup [OF assms(3) refl False])
  then have "cache_get w k = Inr (vref t k, upd_cache w (\<lambda>c. c\<lparr>gets_c := counter_incr (gets_c c)\<rparr>))"
    using assms(1,2) False by (simp add: cache_get_def upd_cache_def tread_def Let_def)
  then show ?thesis by (intro exI [of _ "\<lambda>c. c\<lparr>gets_c := counter_incr (gets_c c)\<rparr>"]) simp
qed

text \<open>An entry changed in place.\<close>

lemma modify_crel:
  assumes t: "wtab w (entries_p (wcache w)) = Some t" "entries_p (wcache w) \<noteq> 0" "building_p (wcache w) = 0"
    and i: "tinv t (wmem w) (went w) (wnewer w) (wgc w) own" and a: "vref t k = a" "a \<noteq> 0"
    and e: "entry_ok h' e' xs"
    and d: "\<And>b. b \<in> dom (went w) \<Longrightarrow> b \<noteq> a \<Longrightarrow> set (own b) \<inter> set xs = {}"
      "\<And>b x. b \<in> dom (went w) \<Longrightarrow> b \<noteq> a \<Longrightarrow> x \<in> set (own b) \<Longrightarrow> h' x = wmem w x"
    and w': "wmem w' = h'" "went w' = (went w)(a \<mapsto> e')" "wnewer w' = wnewer w" "wgc w' = wgc w" "wtab w' = wtab w"
      "entries_p (wcache w') = entries_p (wcache w)" "building_p (wcache w') = building_p (wcache w)"
  shows "crel w' ((tmap t (wmem w) (went w) own)(k \<mapsto> item_of h' e' xs))"
proof -
  have dom: "went w a \<noteq> None" using tinvD(4) [OF i, of k] a by auto
  have m: "tinv t h' ((went w)(a \<mapsto> e')) (wnewer w) (wgc w) (own(a := xs))"
    "tmap t h' ((went w)(a \<mapsto> e')) (own(a := xs)) k' =
       (if vref t k' = a \<and> a \<noteq> 0 then Some (item_of h' e' xs) else tmap t (wmem w) (went w) own k')" for k'
    using tinv_modify [OF i dom e] d by simp_all
  have k: "vref t k' = a \<longleftrightarrow> k' = k" for k'
  proof
    assume "vref t k' = a"
    then have "k = k'" by (intro tinvD(5) [OF i]) (simp_all add: a)
    then show "k' = k" ..
  qed (simp add: a)
  have "(tmap t (wmem w) (went w) own)(k \<mapsto> item_of h' e' xs) = tmap t h' ((went w)(a \<mapsto> e')) (own(a := xs))"
    using a(2) by (simp add: fun_eq_iff m(2) k)
  then show ?thesis
    using m(1) t w' by (intro crelI [where own = "own(a := xs)" and t = t]) simp_all
qed

lemma same_crel:
  assumes "crel w m" "wmem w' = wmem w" "went w' = went w" "wnewer w' = wnewer w" "wgc w' = wgc w" "wtab w' = wtab w"
    "entries_p (wcache w') = entries_p (wcache w)" "building_p (wcache w') = building_p (wcache w)"
  shows "crel w' m"
  using assms by (simp add: crel_def cinv_def cmap_def)

lemma tmap_at:
  "vref t k \<noteq> 0 \<Longrightarrow> ent (vref t k) = Some e \<Longrightarrow> tmap t h ent own k = Some (item_of h e (own (vref t k)))"
  by (simp add: tmap_def Let_def)

lemma upd_cache_simps [simp]:
  "wmem (upd_cache w f) = wmem w" "went (upd_cache w f) = went w" "wnewer (upd_cache w f) = wnewer w"
  "wgc (upd_cache w f) = wgc w" "wtab (upd_cache w f) = wtab w" "wcache (upd_cache w f) = f (wcache w)"
  by (simp_all add: upd_cache_def)

lemma ewrite_simps [simp]:
  "wmem (ewrite w a e) = wmem w" "went (ewrite w a e) = (went w)(a \<mapsto> e)" "wnewer (ewrite w a e) = wnewer w"
  "wgc (ewrite w a e) = wgc w" "wtab (ewrite w a e) = wtab w" "wcache (ewrite w a e) = wcache w"
  by (simp_all add: ewrite_def)

lemma twrite_simps [simp]:
  "wmem (twrite w a t) = wmem w" "went (twrite w a t) = went w" "wnewer (twrite w a t) = wnewer w"
  "wgc (twrite w a t) = wgc w" "wtab (twrite w a t) = (wtab w)(a \<mapsto> t)" "wcache (twrite w a t) = wcache w"
  by (simp_all add: twrite_def)

lemma eread_Some: "went w a = Some e \<Longrightarrow> a \<noteq> 0 \<Longrightarrow> eread w a = Inr e"
  by (simp add: eread_def)

lemma tread_Some: "wtab w a = Some t \<Longrightarrow> a \<noteq> 0 \<Longrightarrow> tread w a = Inr t"
  by (simp add: tread_def)

text \<open>The key is bound to the well-formed entry at address \<open>a\<close>.\<close>

definition holds_entry :: "world \<Rightarrow> (bytes \<Rightarrow> item option) \<Rightarrow> bytes \<Rightarrow> bytes opentable \<Rightarrow> (addr \<Rightarrow> addr list) \<Rightarrow> addr \<Rightarrow> entry \<Rightarrow> bool" where
  "holds_entry w m k t own a e \<longleftrightarrow>
     a \<noteq> 0 \<and> went w a = Some e \<and> entry_ok (wmem w) e (own a) \<and> m k = Some (item_of (wmem w) e (own a)) \<and>
     m = tmap t (wmem w) (went w) own \<and> vref t k = a \<and> wtab w (entries_p (wcache w)) = Some t \<and>
     entries_p (wcache w) \<noteq> 0 \<and> building_p (wcache w) = 0 \<and> tinv t (wmem w) (went w) (wnewer w) (wgc w) own"

lemma holds_entryD:
  assumes "holds_entry w m k t own a e"
  shows "a \<noteq> 0" "went w a = Some e" "entry_ok (wmem w) e (own a)" "m k = Some (item_of (wmem w) e (own a))"
    "tinv t (wmem w) (went w) (wnewer w) (wgc w) own" "eread w a = Inr e"
    "wtab w (entries_p (wcache w)) = Some t" "entries_p (wcache w) \<noteq> 0" "tfind t k = a"
    "\<forall>b \<in> dom (went w). b \<noteq> a \<longrightarrow> set (own b) \<inter> set (own a) = {}"
  using assms tinvD(3) [of t "wmem w" "went w" "wnewer w" "wgc w" own _ a]
  by (auto simp: holds_entry_def eread_Some tinv_tfind)

text \<open>
  Changing the entry of a key in place changes the item of that key and nothing else, when the
  new chunks belong to no other entry and the chunks of the other entries are untouched.
\<close>

lemma update_hit:
  assumes h: "holds_entry w m k t own a e" and e: "entry_ok h' e' xs"
    and d: "\<forall>b \<in> dom (went w). b \<noteq> a \<longrightarrow> set (own b) \<inter> set xs = {} \<and> (\<forall>x \<in> set (own b). h' x = wmem w x)"
    and w': "wmem w' = h'" "went w' = (went w)(a \<mapsto> e')" "wnewer w' = wnewer w" "wgc w' = wgc w" "wtab w' = wtab w"
      "entries_p (wcache w') = entries_p (wcache w)" "building_p (wcache w') = building_p (wcache w)"
  shows "crel w' (m(k \<mapsto> item_of h' e' xs))"
proof -
  have t: "wtab w (entries_p (wcache w)) = Some t" "entries_p (wcache w) \<noteq> 0" "building_p (wcache w) = 0"
      "tinv t (wmem w) (went w) (wnewer w) (wgc w) own" "vref t k = a" "a \<noteq> 0" and m: "m = tmap t (wmem w) (went w) own"
    using h by (simp_all add: holds_entry_def)
  show ?thesis unfolding m by (rule modify_crel [OF t e _ _ w']) (use d in blast)+
qed

text \<open>An operation that finds its entry through \<open>get\<close>: a miss, or a hit.\<close>

lemma get_cases:
  assumes "crel w m"
  obtains (miss) f where "cache_get w k = Inr (0, upd_cache w f)" "m k = None" "crel (upd_cache w f) m"
  | (hit) f t own a e where "cache_get w k = Inr (a, upd_cache w f)" "holds_entry w m k t own a e"
      "entries_p (f (wcache w)) = entries_p (wcache w)" "building_p (f (wcache w)) = building_p (wcache w)"
proof -
  obtain own t where c: "building_p (wcache w) = 0" "entries_p (wcache w) \<noteq> 0"
      "wtab w (entries_p (wcache w)) = Some t" "tinv t (wmem w) (went w) (wnewer w) (wgc w) own"
      "m = tmap t (wmem w) (went w) own" by (rule crelE [OF assms])
  obtain f where f: "cache_get w k = Inr (vref t k, upd_cache w f)"
      "\<forall>c. entries_p (f c) = entries_p c \<and> building_p (f c) = building_p c"
    using cache_get_ok [OF c(3,2,4)] by blast
  show thesis
  proof (cases "vref t k = 0")
    case True
    then show thesis
      using miss [of f] f c(5) same_crel [OF assms, of "upd_cache w f"] by (simp add: tmap_None)
  next
    case False
    obtain e where "went w (vref t k) = Some e" "entry_ok (wmem w) e (own (vref t k))"
      by (rule tinv_lookup [OF c(4) refl False])
    then show thesis
      using hit [of "vref t k" f t own e] f c False tmap_at [OF False] by (simp add: holds_entry_def)
  qed
qed

lemma get_refines:
  assumes "crel w m"
  shows "refines w m (OGet v n k)"
proof (rule get_cases [OF assms, of k])
  fix f assume "cache_get w k = Inr (0, upd_cache w f)" "m k = None" "crel (upd_cache w f) m"
  then show ?thesis by (simp add: refines_def get_value_def)
next
  fix f t own a e
  assume g: "cache_get w k = Inr (a, upd_cache w f)" and h: "holds_entry w m k t own a e"
    and f: "entries_p (f (wcache w)) = entries_p (wcache w)" "building_p (f (wcache w)) = building_p (wcache w)"
  note H = holds_entryD [OF h]
  let ?r = "\<lparr>r_head = e_head e, r_tail = e_tail e\<rparr>"
  define e' where "e' = (if n mod 8 = 0 then e\<lparr>e_atime := v_now v\<rparr> else e)"
  have rd: "entry_read (v_now v) n (wmem w) e = Inr (?r, n + 1, e')"
    using entry_read_ok [OF H(3)] by (simp add: e'_def)
  have ch: "chain (wmem w) (r_head ?r) (r_tail ?r) (own a)" using H(3) by (simp add: entry_ok_def)
  have e': "e_flags e' = e_flags e" "entry_ok (wmem w) e' (own a)" "item_of (wmem w) e' (own a) = item_of (wmem w) e (own a)"
    using H(3) by (simp_all add: e'_def entry_ok_def item_of_def)
  have "get_value v n w k = Inr (RValue (e_flags e) (contents (wmem w) (own a))
      (hash_chunks (chunks (wmem w) (own a)) (ucast (e_flags e))), ewrite (upd_cache w f) a e')"
    using g H(1,2) rd drain_chain [OF ch] const_rope_hash_chain [OF ch] e'(1)
    by (simp add: get_value_def eread_Some)
  moreover have "crel (ewrite (upd_cache w f) a e') (m(k \<mapsto> item_of (wmem w) e' (own a)))"
    by (rule update_hit [OF h e'(2)]) (use H(10) f in auto)
  moreover have "m(k \<mapsto> item_of (wmem w) e' (own a)) = m" using H(4) e'(3) by auto
  ultimately show ?thesis using H(4) by (simp add: refines_def item_of_def item_version_def contents_def)
qed

lemma touch_refines:
  assumes "crel w m"
  shows "refines w m (OTouch v k x)"
proof -
  let ?w = "upd_cache w (\<lambda>c. c\<lparr>touches_c := counter_incr (touches_c c)\<rparr>)"
  have r: "crel ?w m" by (rule same_crel [OF assms]) simp_all
  show ?thesis
  proof (rule get_cases [OF r, of k])
    fix f assume "cache_get ?w k = Inr (0, upd_cache ?w f)" "m k = None" "crel (upd_cache ?w f) m"
    then show ?thesis by (simp add: refines_def cache_touch_def code_def Let_def)
  next
    fix f t own a e
    assume g: "cache_get ?w k = Inr (a, upd_cache ?w f)" and h: "holds_entry ?w m k t own a e"
      and f: "entries_p (f (wcache ?w)) = entries_p (wcache ?w)" "building_p (f (wcache ?w)) = building_p (wcache ?w)"
    note H = holds_entryD [OF h]
    let ?e = "entry_touch (v_now v) e x"
    have ok: "entry_ok (wmem ?w) ?e (own a)" using H(3) by (simp add: entry_ok_def entry_touch_def)
    have "crel (ewrite (upd_cache ?w f) a ?e) (m(k \<mapsto> item_of (wmem ?w) ?e (own a)))"
      by (rule update_hit [OF h ok]) (use H(10) f in auto)
    moreover have "cexec w (OTouch v k x) = Inr (RCode stored, ewrite (upd_cache ?w f) a ?e)"
      using g H(1,2) by (simp add: cache_touch_def code_def eread_Some Let_def)
    ultimately show ?thesis using H(4) by (auto simp: refines_def item_of_def entry_touch_def)
  qed
qed

lemma cas_refines:
  assumes "crel w m" "rope_fresh w r cs"
  shows "refines w m (OCas v k fl x ver r cs)"
proof (rule get_cases [OF assms(1), of k])
  fix f assume "cache_get w k = Inr (0, upd_cache w f)" "m k = None" "crel (upd_cache w f) m"
  then show ?thesis by (simp add: refines_def cache_cas_def code_def)
next
  fix f t own a e
  assume g: "cache_get w k = Inr (a, upd_cache w f)" and h: "holds_entry w m k t own a e"
    and f: "entries_p (f (wcache w)) = entries_p (wcache w)" "building_p (f (wcache w)) = building_p (wcache w)"
  note H = holds_entryD [OF h]
  obtain ys where y: "rope_ok (wmem w) r ys" "chunks (wmem w) ys = cs" "\<forall>b \<in> dom (went w). set (own b) \<inter> set ys = {}"
    by (rule rope_freshE [OF assms(2) H(5)])
  have ver: "item_version (item_of (wmem w) e (own a)) = hash_chunks (chunks (wmem w) (own a)) (ucast (e_flags e))"
    by (simp add: item_version_def item_of_def)
  note cas = entry_cas_ok [OF H(3), of "v_now v" fl x ver r]
  show ?thesis
  proof (cases "ver = item_version (item_of (wmem w) e (own a))")
    case True
    let ?e = "e\<lparr>e_head := r_head r, e_tail := r_tail r, e_flags := fl, e_exptime := x, e_mtime := v_now v\<rparr>"
    have ok: "entry_ok (wmem w) ?e ys" using H(3) y(1) by (simp add: entry_ok_def rope_ok_def)
    have "crel (ewrite (upd_cache w f) a ?e) (m(k \<mapsto> item_of (wmem w) ?e ys))"
      by (rule update_hit [OF h ok]) (use y(3) f in auto)
    moreover have "cexec w (OCas v k fl x ver r cs) = Inr (RCode stored, ewrite (upd_cache w f) a ?e)"
      using g H(1,2) cas True ver by (simp add: cache_cas_def code_def eread_Some)
    ultimately show ?thesis using H(4) True y(2) by (auto simp: refines_def item_of_def)
  next
    case False
    have "crel (ewrite (upd_cache w f) a e) (m(k \<mapsto> item_of (wmem w) e (own a)))"
      by (rule update_hit [OF h H(3)]) (use H(10) f in auto)
    moreover have "m(k \<mapsto> item_of (wmem w) e (own a)) = m" using H(4) by auto
    moreover have "cexec w (OCas v k fl x ver r cs) = Inr (RCode cas_exists, ewrite (upd_cache w f) a e)"
      using g H(1,2) cas False ver by (simp add: cache_cas_def code_def eread_Some)
    ultimately show ?thesis using H(4) False by (simp add: refines_def)
  qed
qed

lemma item_of_chunks:
  "item_of h' e' zs = (item_of h e xs)\<lparr>i_chunks := chunks h' zs\<rparr>" if "e_flags e' = e_flags e" "e_exptime e' = e_exptime e"
  using that by (simp add: item_of_def)

text \<open>\<open>append\<close> looks at the table itself; at rest this finds the same entry as \<open>get\<close>.\<close>

lemma append_refines:
  assumes "crel w m" "rope_fresh w r cs"
  shows "refines w m (OAppend v k r cs)"
proof (rule get_cases [OF assms(1), of k])
  fix f assume g: "cache_get w k = Inr (0, upd_cache w f)" "m k = None"
  obtain own t where c: "entries_p (wcache w) \<noteq> 0" "wtab w (entries_p (wcache w)) = Some t"
      "tinv t (wmem w) (went w) (wnewer w) (wgc w) own" "m = tmap t (wmem w) (went w) own" by (rule crelE [OF assms(1)])
  have "tfind t k = 0" using g(2) c(4) tinv_tfind [OF c(3), of k] by (simp add: tmap_None)
  then show ?thesis using c(1,2) g(2) assms(1) by (simp add: refines_def cache_append_def code_def tread_Some)
next
  fix f t own a e
  assume h: "holds_entry w m k t own a e"
  note H = holds_entryD [OF h]
  obtain ys where y: "rope_ok (wmem w) r ys" "chunks (wmem w) ys = cs" "\<forall>b \<in> dom (went w). set (own b) \<inter> set ys = {}"
      "rope_size (wmem w) r = Inr (of_nat (length (concat cs)))"
    by (rule rope_freshE [OF assms(2) H(5)])
  have d: "set (own a) \<inter> set ys = {}" using y(3) H(2) by auto
  obtain c where c: "entry_append (v_now v) (wmem w) e r = Inr ((wmem w)(e_tail e \<mapsto> c\<lparr>m_next := r_head r\<rparr>), e\<lparr>e_tail := r_tail r, e_mtime := v_now v\<rparr>)"
      "entry_ok ((wmem w)(e_tail e \<mapsto> c\<lparr>m_next := r_head r\<rparr>)) (e\<lparr>e_tail := r_tail r, e_mtime := v_now v\<rparr>) (own a @ ys)"
      "chunks ((wmem w)(e_tail e \<mapsto> c\<lparr>m_next := r_head r\<rparr>)) (own a @ ys) = chunks (wmem w) (own a) @ chunks (wmem w) ys"
    by (rule entry_append_ok [OF H(3) y(1) d, of "v_now v"])
  let ?h = "(wmem w)(e_tail e \<mapsto> c\<lparr>m_next := r_head r\<rparr>)" and ?e = "e\<lparr>e_tail := r_tail r, e_mtime := v_now v\<rparr>"
  let ?w = "upd_cache w (\<lambda>c. c\<lparr>bytes_c := counter_add (bytes_c c) (of_nat (length (concat cs)))\<rparr>)"
  have tl: "e_tail e \<in> set (own a)" using chain_addrs [of "wmem w" "e_head e" "e_tail e" "own a"] H(3) by (simp add: entry_ok_def)
  have "crel (ewrite (?w\<lparr>wmem := ?h\<rparr>) a ?e) (m(k \<mapsto> item_of ?h ?e (own a @ ys)))"
    by (rule update_hit [OF h c(2)]) (use y(3) H(10) tl in auto)
  moreover have "cexec w (OAppend v k r cs) = Inr (RCode stored, ewrite (?w\<lparr>wmem := ?h\<rparr>) a ?e)"
    using H(1,2,7-9) y(4) c(1) by (simp add: cache_append_def code_def eread_Some tread_Some Let_def)
  moreover have "item_of ?h ?e (own a @ ys) = (item_of (wmem w) e (own a))\<lparr>i_chunks := chunks (wmem w) (own a) @ cs\<rparr>"
    by (subst item_of_chunks [of _ e _ _ "wmem w" "own a"]) (simp_all only: c(3) y(2), simp_all)
  ultimately show ?thesis using H(4) by (auto simp: refines_def item_of_def)
qed

lemma prepend_refines:
  assumes "crel w m" "rope_fresh w r cs"
  shows "refines w m (OPrepend v k r cs)"
proof (rule get_cases [OF assms(1), of k])
  fix f assume "cache_get w k = Inr (0, upd_cache w f)" "m k = None" "crel (upd_cache w f) m"
  then show ?thesis by (simp add: refines_def cache_prepend_def code_def)
next
  fix f t own a e
  assume g: "cache_get w k = Inr (a, upd_cache w f)" and h: "holds_entry w m k t own a e"
    and f: "entries_p (f (wcache w)) = entries_p (wcache w)" "building_p (f (wcache w)) = building_p (wcache w)"
  note H = holds_entryD [OF h]
  obtain ys where y: "rope_ok (wmem w) r ys" "chunks (wmem w) ys = cs" "\<forall>b \<in> dom (went w). set (own b) \<inter> set ys = {}"
      "rope_size (wmem w) r = Inr (of_nat (length (concat cs)))"
    by (rule rope_freshE [OF assms(2) H(5)])
  have d: "set (own a) \<inter> set ys = {}" using y(3) H(2) by auto
  obtain c where c: "entry_prepend (v_now v) (wmem w) e r = Inr ((wmem w)(r_tail r \<mapsto> c\<lparr>m_next := e_head e\<rparr>), e\<lparr>e_head := r_head r, e_mtime := v_now v\<rparr>)"
      "entry_ok ((wmem w)(r_tail r \<mapsto> c\<lparr>m_next := e_head e\<rparr>)) (e\<lparr>e_head := r_head r, e_mtime := v_now v\<rparr>) (ys @ own a)"
      "chunks ((wmem w)(r_tail r \<mapsto> c\<lparr>m_next := e_head e\<rparr>)) (ys @ own a) = chunks (wmem w) ys @ chunks (wmem w) (own a)"
    by (rule entry_prepend_ok [OF H(3) y(1) d, of "v_now v"])
  let ?h = "(wmem w)(r_tail r \<mapsto> c\<lparr>m_next := e_head e\<rparr>)" and ?e = "e\<lparr>e_head := r_head r, e_mtime := v_now v\<rparr>"
  let ?w = "upd_cache (upd_cache w f) (\<lambda>c. c\<lparr>bytes_c := counter_add (bytes_c c) (of_nat (length (concat cs)))\<rparr>)"
  have tl: "r_tail r \<in> set ys" using chain_addrs [of "wmem w" "r_head r" "r_tail r" ys] y(1) by (simp add: rope_ok_def)
  have "crel (ewrite (?w\<lparr>wmem := ?h\<rparr>) a ?e) (m(k \<mapsto> item_of ?h ?e (ys @ own a)))"
    by (rule update_hit [OF h c(2)]) (use y(3) H(10) tl f in auto)
  moreover have "cexec w (OPrepend v k r cs) = Inr (RCode stored, ewrite (?w\<lparr>wmem := ?h\<rparr>) a ?e)"
    using g H(1,2) y(4) c(1) by (simp add: cache_prepend_def code_def eread_Some Let_def)
  moreover have "item_of ?h ?e (ys @ own a) = (item_of (wmem w) e (own a))\<lparr>i_chunks := cs @ chunks (wmem w) (own a)\<rparr>"
    by (subst item_of_chunks [of _ e _ _ "wmem w" "own a"]) (simp_all only: c(3) y(2), simp_all)
  ultimately show ?thesis using H(4) by (auto simp: refines_def item_of_def)
qed

text \<open>\<open>incr\<close> and \<open>decr\<close> store the printed number in a fresh chunk.\<close>

lemma number_crel:
  assumes h: "holds_entry w m k t own a e" and s: "number_stored (wmem w) e (own a) b n h' e'" and b: "b \<notin> dom (wmem w)"
    and w': "wmem w' = h'" "went w' = (went w)(a \<mapsto> e')" "wnewer w' = wnewer w" "wgc w' = wgc w" "wtab w' = wtab w"
      "entries_p (wcache w') = entries_p (wcache w)" "building_p (wcache w') = building_p (wcache w)"
  shows "crel w' (m(k \<mapsto> (item_of (wmem w) e (own a))\<lparr>i_chunks := [print_u64 n]\<rparr>))"
proof -
  note H = holds_entryD [OF h]
  have n: "entry_ok h' e' [b]" "contents h' [b] = print_u64 n" "e_flags e' = e_flags e" "e_exptime e' = e_exptime e"
      "\<forall>x. x \<noteq> b \<longrightarrow> h' x = (if x \<in> set (own a) then None else wmem w x)"
    using s by (auto simp: number_stored_def)
  have "set (own c) \<inter> set [b] = {} \<and> (\<forall>x \<in> set (own c). h' x = wmem w x)" if c: "c \<in> dom (went w)" "c \<noteq> a" for c
  proof -
    obtain e2 where "went w c = Some e2" using c(1) by auto
    then have "chain (wmem w) (e_head e2) (e_tail e2) (own c)" using tinvD(2) [OF H(5)] by (simp add: entry_inv_def entry_ok_def)
    then have bc: "b \<notin> set (own c)" using chain_addrs b by blast
    moreover have "set (own c) \<inter> set (own a) = {}" using H(10) c by blast
    ultimately have "x \<in> set (own c) \<Longrightarrow> x \<noteq> b \<and> x \<notin> set (own a)" for x by blast
    then show ?thesis using n(5) bc by simp
  qed
  then have "crel w' (m(k \<mapsto> item_of h' e' [b]))" by (intro update_hit [OF h n(1) _ w']) blast
  moreover have "item_of h' e' [b] = (item_of (wmem w) e (own a))\<lparr>i_chunks := [print_u64 n]\<rparr>"
    using n(2,3,4) by (simp add: item_of_def chunks_def)
  ultimately show ?thesis by simp
qed

lemma incr_refines:
  assumes "crel w m" "fresh_chunk w v" "numeric_value w k"
  shows "refines w m (OIncr v k d)"
proof (rule get_cases [OF assms(1), of k])
  fix f assume "cache_get w k = Inr (0, upd_cache w f)" "m k = None" "crel (upd_cache w f) m"
  then show ?thesis by (simp add: refines_def cache_incr_def number_def)
next
  fix f t own a e
  assume g: "cache_get w k = Inr (a, upd_cache w f)" and h: "holds_entry w m k t own a e"
    and f: "entries_p (f (wcache w)) = entries_p (wcache w)" "building_p (f (wcache w)) = building_p (wcache w)"
  note H = holds_entryD [OF h]
  obtain n where n: "parse_number (contents (wmem w) (own a)) = Some n"
    using assms(3) H(2,3,7,9) unfolding numeric_value_def by fastforce
  obtain h' e' where r: "entry_incr (v_chunk v) (v_raw v) (v_now v) (wmem w) e d = Inr (of_nat (unat n + unat d), h', e')"
      "number_stored (wmem w) e (own a) (v_chunk v) (of_nat (unat n + unat d)) h' e'"
    using incr_decr_stores [OF H(3) _ _ _ n, of "v_chunk v" "v_raw v" "v_now v" d] assms(2) unfolding fresh_chunk_def by blast
  let ?w = "ewrite ((upd_cache w f)\<lparr>wmem := h'\<rparr>) a e'"
  have "crel ?w (m(k \<mapsto> (item_of (wmem w) e (own a))\<lparr>i_chunks := [print_u64 (of_nat (unat n + unat d))]\<rparr>))"
    by (rule number_crel [OF h r(2)]) (use assms(2) f in \<open>auto simp: fresh_chunk_def\<close>)
  moreover have "cexec w (OIncr v k d) = Inr (RNumber (of_nat (unat n + unat d)), ?w)"
    using g H(1,2) r(1) by (simp add: cache_incr_def number_def eread_Some)
  moreover have "item_number (item_of (wmem w) e (own a)) = Some n"
    using n by (simp add: item_number_def item_of_def contents_def)
  ultimately show ?thesis using H(4) unfolding refines_def aspec.simps by auto
qed

lemma decr_refines:
  assumes "crel w m" "fresh_chunk w v" "numeric_value w k"
  shows "refines w m (ODecr v k d)"
proof (rule get_cases [OF assms(1), of k])
  fix f assume "cache_get w k = Inr (0, upd_cache w f)" "m k = None" "crel (upd_cache w f) m"
  then show ?thesis by (simp add: refines_def cache_decr_def number_def)
next
  fix f t own a e
  assume g: "cache_get w k = Inr (a, upd_cache w f)" and h: "holds_entry w m k t own a e"
    and f: "entries_p (f (wcache w)) = entries_p (wcache w)" "building_p (f (wcache w)) = building_p (wcache w)"
  note H = holds_entryD [OF h]
  obtain n where n: "parse_number (contents (wmem w) (own a)) = Some n"
    using assms(3) H(2,3,7,9) unfolding numeric_value_def by fastforce
  obtain h' e' where r: "entry_decr (v_chunk v) (v_raw v) (v_now v) (wmem w) e d = Inr (of_nat (unat n - unat d), h', e')"
      "number_stored (wmem w) e (own a) (v_chunk v) (of_nat (unat n - unat d)) h' e'"
    using incr_decr_stores [OF H(3) _ _ _ n, of "v_chunk v" "v_raw v" "v_now v" d] assms(2) unfolding fresh_chunk_def by blast
  let ?w = "ewrite ((upd_cache w f)\<lparr>wmem := h'\<rparr>) a e'"
  have "crel ?w (m(k \<mapsto> (item_of (wmem w) e (own a))\<lparr>i_chunks := [print_u64 (of_nat (unat n - unat d))]\<rparr>))"
    by (rule number_crel [OF h r(2)]) (use assms(2) f in \<open>auto simp: fresh_chunk_def\<close>)
  moreover have "cexec w (ODecr v k d) = Inr (RNumber (of_nat (unat n - unat d)), ?w)"
    using g H(1,2) r(1) by (simp add: cache_decr_def number_def eread_Some)
  moreover have "item_number (item_of (wmem w) e (own a)) = Some n"
    using n by (simp add: item_number_def item_of_def contents_def)
  ultimately show ?thesis using H(4) unfolding refines_def aspec.simps by auto
qed

section \<open>Operations on the table\<close>

lemma entry_alloc_simps [simp]:
  "wmem (entry_alloc w a f x r now) = wmem w" "wtab (entry_alloc w a f x r now) = wtab w"
  "wcache (entry_alloc w a f x r now) = wcache w" "wnewer (entry_alloc w a f x r now) = mv_new (wnewer w) a"
  "went (entry_alloc w a f x r now) = (went w)(a \<mapsto> entry_new f x r now)"
  "wgc (entry_alloc w a f x r now) = gc_object_new (wgc w) a"
  by (simp_all add: entry_alloc_def)

lemma drop_key_simps [simp]:
  "wmem (drop_key w k c) = wmem w" "went (drop_key w k c) = went w" "wnewer (drop_key w k c) = wnewer w"
  "wtab (drop_key w k c) = wtab w" "wcache (drop_key w k c) = wcache w"
  by (simp_all add: drop_key_def cache_key_delete_def)

lemma tinv_drop_key:
  "tinv t h ent nw (wgc w) own \<Longrightarrow> fst k \<notin> dom ent \<Longrightarrow> unsched (wgc w) (fst k) \<Longrightarrow>
   (map_option fst c \<noteq> Some (fst k) \<Longrightarrow> fst k \<notin> fst ` keyrefs t) \<Longrightarrow>
   tinv t h ent nw (wgc (drop_key w k c)) own"
  using tinv_delete_key [of t h ent nw "wgc w" own "fst k"] by (simp add: drop_key_def cache_key_delete_def)

text \<open>A table that no longer has the old entry of a key: the entry is released.\<close>

lemma release_old_ok:
  assumes i: "tinv t (wmem w) (went w) (wnewer w) (wgc w) own" and c: "c < MAX_CPUS"
    and a: "a = 0 \<or> a \<in> dom (went w) \<and> unsched (wgc w) a \<and> (\<forall>k. vref t k \<noteq> a)"
  obtains w' where "release_entries c w (unshared a) = Inr w'" "tinv t (wmem w) (went w) (wnewer w) (wgc w') own"
    "wmem w' = wmem w" "went w' = went w" "wnewer w' = wnewer w" "wtab w' = wtab w"
    "entries_p (wcache w') = entries_p (wcache w)" "building_p (wcache w') = building_p (wcache w)"
    "\<forall>b. b \<noteq> a \<longrightarrow> unsched (wgc w') b = unsched (wgc w) b"
proof (cases "a = 0")
  case True
  then show thesis using that [of w] i by (simp add: unshared_def)
next
  case False
  then have a: "a \<in> dom (went w)" "unsched (wgc w) a" "\<And>k. vref t k \<noteq> a" using assms(3) by auto
  have "aligned a" using a(1) tinvD(2) [OF i, of a] by (auto simp: entry_inv_def)
  then have u: "unshared a = [a]" using False by (simp add: unshared_def)
  obtain g where g: "entry_release c w a =
      Inr ((upd_cache w (\<lambda>x. x\<lparr>bytes_c := bytes_c x - of_nat (length (contents (wmem w) (own a)))\<rparr>))\<lparr>wgc := g\<rparr>)"
      "tinv t (wmem w) (went w) (wnewer w) g own" "\<And>b. b \<noteq> a \<Longrightarrow> unsched g b = unsched (wgc w) b"
    by (rule entry_release_ok [OF tinv_hinv [OF i] a c]) (use hinv_tinv [OF tinvD(1) [OF i]] in simp)
  show thesis by (rule that [of "(upd_cache w (\<lambda>x. x\<lparr>bytes_c := bytes_c x - of_nat (length (contents (wmem w) (own a)))\<rparr>))\<lparr>wgc := g\<rparr>"])
      (use g u in simp_all)
qed

text \<open>The key and the entry an update allocates before it touches the table.\<close>

lemma fresh_entry:
  assumes "tinv t (wmem w) (went w) (wnewer w) (wgc w) own" "fresh_object w e"
  shows "e \<noteq> 0" "aligned e" "\<forall>k. vref t k \<noteq> e" "e \<notin> dom (went w)"
proof -
  show n: "e \<notin> dom (went w)" using tinvD(2) [OF assms(1), of e] assms(2) by (auto simp: entry_inv_def fresh_object_def)
  show "e \<noteq> 0" "aligned e" using assms(2) by (auto simp: fresh_object_def)
  then show "\<forall>k. vref t k \<noteq> e" using tinvD(4) [OF assms(1)] n by metis
qed

lemma alloc_ok:
  fixes f x :: u32 and now :: int
  assumes i: "tinv t (wmem w) (went w) (wnewer w) (wgc w) own" and e: "fresh_object w e" and r: "rope_ok (wmem w) r ys"
    "\<forall>b \<in> dom (went w). set (own b) \<inter> set ys = {}"
  defines "w' \<equiv> entry_alloc w e f x r now" and "own' \<equiv> own(e := ys)"
  shows "tinv t (wmem w') (went w') (wnewer w') (wgc w') own'" "e \<in> dom (went w')" "unsched (wgc w') e"
    "tmap t (wmem w') (went w') own' = tmap t (wmem w) (went w) own"
    "item_of (wmem w') (the (went w' e)) (own' e) = \<lparr>i_flags = f, i_exptime = x, i_chunks = chunks (wmem w) ys\<rparr>"
proof -
  have f: "e > 0x1000" "aligned e" "gheap (wgc w) e = None" using e by (auto simp: fresh_object_def)
  have d: "\<And>b. b \<in> dom (went w) \<Longrightarrow> set (own b) \<inter> set ys = {}" using r(2) by blast
  show "tinv t (wmem w') (went w') (wnewer w') (wgc w') own'"
    using tinv_new_entry(1) [OF i f r(1) d] by (simp add: w'_def own'_def)
  show "e \<in> dom (went w')" "unsched (wgc w') e" by (auto simp: w'_def)
  show "tmap t (wmem w') (went w') own' = tmap t (wmem w) (went w) own"
    using tmap_new_entry [OF i fresh_entry(4) [OF i e]] by (simp add: w'_def own'_def)
  show "item_of (wmem w') (the (went w' e)) (own' e) = \<lparr>i_flags = f, i_exptime = x, i_chunks = chunks (wmem w) ys\<rparr>"
    by (simp add: w'_def own'_def item_of_def entry_new_def)
qed

text \<open>A refused update deletes its entry, and the chunks of the rope with it.\<close>

lemma refused_ok:
  assumes i: "tinv t (wmem w) (went w) (wnewer w) (wgc w) own" and e: "e \<in> dom (went w)" "\<forall>k. vref t k \<noteq> e" "unsched (wgc w) e"
  obtains w' where "outcome (entry_destroy w e) = Inr w'" "tinv t (wmem w') (went w') (wnewer w') (wgc w') own"
    "tmap t (wmem w') (went w') own = tmap t (wmem w) (went w) own" "wtab w' = wtab w" "wcache w' = wcache w"
    "wgc w' = gc_object_delete (wgc w) e" "went w' = (went w)(e := None)"
proof -
  have g: "\<exists>tr. gc_run tr (gc_object_delete (wgc w) e)" using tinvD(6) [OF i] gc_delete_run e(3) by blast
  have k: "\<And>k. vref t k \<noteq> e" using e(2) by blast
  show thesis
    by (rule that [of "w\<lparr>wmem := wmem w |` (- set (own e)), went := (went w)(e := None),
          wnewer := (wnewer w)(e := None), wgc := gc_object_delete (wgc w) e\<rparr>"])
       (use entry_destroy_ok [OF tinv_hinv [OF i] e(1)] hinv_restrict [OF tinv_hinv [OF i] e(1) k g] tinvD(1) [OF i]
          in \<open>simp_all add: tinv_def tmap_hmap\<close>)
qed

lemma del_refines:
  assumes "crel w m" "v_cpu v < MAX_CPUS"
  shows "refines_at w m (ODel v k)"
proof -
  obtain own t where c: "building_p (wcache w) = 0" "entries_p (wcache w) \<noteq> 0"
      "wtab w (entries_p (wcache w)) = Some t" "tinv t (wmem w) (went w) (wnewer w) (wgc w) own"
      "m = tmap t (wmem w) (went w) own" by (rule crelE [OF assms(1)])
  obtain ok t' rel where r: "tremove t k = (ok, t', rel)" by (cases "tremove t k")
  note R = tremove_ok [OF tinvD(1) [OF c(4)] r]
  let ?w = "twrite w (entries_p (wcache w)) t'"
  have i: "tinv t' (wmem ?w) (went ?w) (wnewer ?w) (wgc ?w) own"
    using tinv_bind [OF c(4) R(1), of k 0 "(0, k)" None] R(4) keys_after_None [OF keyrefs_remove [OF r]] by simp
  have old: "vref t k = 0 \<or> vref t k \<in> dom (went ?w) \<and> unsched (wgc ?w) (vref t k) \<and> (\<forall>j. vref t' j \<noteq> vref t k)"
  proof (cases "vref t k = 0")
    case False
    have "vref t' j \<noteq> vref t k" for j unfolding R(4) using False tinvD(5) [OF c(4), of k j] by metis
    then show ?thesis using tinvD(4) [OF c(4) False] by simp
  qed simp
  obtain w' where w': "release_entries (v_cpu v) ?w (unshared (vref t k)) = Inr w'" "tinv t' (wmem ?w) (went ?w) (wnewer ?w) (wgc w') own"
      "wmem w' = wmem ?w" "went w' = went ?w" "wnewer w' = wnewer ?w" "wtab w' = wtab ?w"
      "entries_p (wcache w') = entries_p (wcache ?w)" "building_p (wcache w') = building_p (wcache ?w)"
    using release_old_ok [OF i _ old, of "v_cpu v"] assms(2) by (auto simp: runs_on_def)
  have "crel w' (m(k := None))"
    by (rule crelI [where t = t' and own = own])
       (use w' c tmap_bind [of t' k 0 t, OF R(4)] in \<open>simp_all\<close>)
  moreover have "m k = None \<longleftrightarrow> \<not> ok" unfolding c(5) using R(3) by (simp add: tmap_None)
  moreover have "cexec w (ODel v k) = Inr (RCode (if ok then deleted else notfound), w')"
    using c(1-3) r w'(1) R(6) by (simp add: cache_del_def is_building_def tread_Some code_def Let_def)
  moreover have "slots_step m (ODel v k) (RCode (if ok then deleted else notfound)) t t'"
    using tkeys_remove [OF r] probes_of_config [OF R(2)] by (simp add: slots_step_def)
  moreover have "table_at w' = Some t'" using w'(6,7) by simp
  ultimately show ?thesis using c(3)
    by (intro refines_atI [where w' = w' and t = t and t' = t' and r = "RCode (if ok then deleted else notfound)" and m' = "m(k := None)"])
       (auto simp: fun_upd_idem split: option.split)
qed

lemma replace_refines:
  assumes "crel w m" "clegal w (OReplace v k f x r cs)"
  shows "refines_at w m (OReplace v k f x r cs)"
proof -
  obtain own t where c: "building_p (wcache w) = 0" "entries_p (wcache w) \<noteq> 0"
      "wtab w (entries_p (wcache w)) = Some t" "tinv t (wmem w) (went w) (wnewer w) (wgc w) own"
      "m = tmap t (wmem w) (went w) own" by (rule crelE [OF assms(1)])
  obtain ys where y: "rope_ok (wmem w) r ys" "chunks (wmem w) ys = cs" "\<forall>b \<in> dom (went w). set (own b) \<inter> set ys = {}"
      "rope_size (wmem w) r = Inr (of_nat (length (concat cs)))"
    using rope_freshE [OF _ c(4)] assms(2) by (metis clegal.simps(3))
  let ?e = "v_entry v" and ?w0 = "upd_cache w (\<lambda>c. c\<lparr>sets_c := counter_incr (sets_c c)\<rparr>)"
  let ?w1 = "entry_alloc ?w0 ?e f x r (v_now v)" and ?own = "own(?e := ys)"
  have "tinv t (wmem ?w0) (went ?w0) (wnewer ?w0) (wgc ?w0) own" "fresh_object ?w0 ?e" "rope_ok (wmem ?w0) r ys"
      "\<forall>b \<in> dom (went ?w0). set (own b) \<inter> set ys = {}" "v_cpu v < MAX_CPUS"
    using c(4) assms(2) y(1,3) by (simp_all add: fresh_object_def runs_on_def)
  note F = fresh_entry [OF this(1,2)] and A = alloc_ok [OF this(1-4), where f = f and x = x and now = "v_now v"] and cpu = this(5)
  obtain ok t' rel where tr: "treplace t k ?e = (ok, t', rel)" by (cases "treplace t k ?e")
  note R = treplace_ok [OF tinvD(1) [OF c(4)] F(2,1) tr]
  let ?w2 = "twrite ?w1 (entries_p (wcache w)) t'"
  have mk: "m k = None \<longleftrightarrow> \<not> ok" unfolding c(5) using R(3) by (simp add: tmap_None)
  have sl: "slots_step m (OReplace v k f x r cs) rep t t'" for rep
    using tkeys_replace [OF F(1) tr] probes_of_config [OF R(2)] by (simp add: slots_step_def)
  show ?thesis
  proof (cases ok)
    case True
    then have b: "vref t' j = (if j = k then ?e else vref t j)" for j using R(4) by simp
    have i: "tinv t' (wmem ?w2) (went ?w2) (wnewer ?w2) (wgc ?w2) ?own"
      using tinv_bind [OF A(1) R(1) b _ keys_after_None [OF keyrefs_replace [OF _ tr F(1)]], of "(0, k)"] tinvD(1) [OF c(4)] A(2,3) F(3)
      by simp
    have o: "vref t k \<noteq> 0" using True R(3) by simp
    have "vref t' j \<noteq> vref t k" for j unfolding b using o tinvD(5) [OF c(4), of k j] F(3) by metis
    then have old: "vref t k = 0 \<or> vref t k \<in> dom (went ?w2) \<and> unsched (wgc ?w2) (vref t k) \<and> (\<forall>j. vref t' j \<noteq> vref t k)"
      using tinvD(4) [OF A(1) o] by simp
    obtain w3 where w3: "release_entries (v_cpu v) ?w2 (unshared (vref t k)) = Inr w3" "tinv t' (wmem ?w2) (went ?w2) (wnewer ?w2) (wgc w3) ?own"
        "wmem w3 = wmem ?w2" "went w3 = went ?w2" "wnewer w3 = wnewer ?w2" "wtab w3 = wtab ?w2"
        "entries_p (wcache w3) = entries_p (wcache ?w2)" "building_p (wcache w3) = building_p (wcache ?w2)"
      using release_old_ok [OF i _ old, of "v_cpu v"] cpu by auto
    let ?w4 = "upd_cache w3 (\<lambda>c. c\<lparr>bytes_c := counter_add (bytes_c c) (of_nat (length (concat cs)))\<rparr>)"
    have "crel ?w4 (m(k \<mapsto> \<lparr>i_flags = f, i_exptime = x, i_chunks = cs\<rparr>))"
      by (rule crelI [where t = t' and own = ?own])
         (use w3 c tmap_bind [of t' k ?e t, OF b] F(1) A(4,5) y(2) in \<open>simp_all\<close>)
    moreover have "cexec w (OReplace v k f x r cs) = Inr (RCode stored, ?w4)"
      using c(1-3) tr w3(1,3) R(6) True y(4)
      by (simp add: cache_replace_def replace_body_def is_building_def tread_Some code_def Let_def)
    moreover have "table_at ?w4 = Some t'" using w3(6,7) by simp
    ultimately show ?thesis using mk True c(3) sl
      by (intro refines_atI [where w' = ?w4 and t = t and t' = t' and r = "RCode stored" and m' = "m(k \<mapsto> \<lparr>i_flags = f, i_exptime = x, i_chunks = cs\<rparr>)"]) (auto split: option.split)
  next
    case False
    then have b: "t' = t" "rel = []"
      using tr R(3,6) by (auto simp: treplace_def replace_value_def vref_def unshared_def fp_null_def Let_def split: option.splits if_splits)
    have i: "tinv t (wmem ?w2) (went ?w2) (wnewer ?w2) (wgc ?w2) ?own" using A(1) by simp
    have u: "?e \<in> dom (went ?w2)" "\<forall>k. vref t k \<noteq> ?e" "unsched (wgc ?w2) ?e" using F(3) by simp_all
    obtain w3 where w3: "outcome (entry_destroy ?w2 ?e) = Inr w3" "tinv t (wmem w3) (went w3) (wnewer w3) (wgc w3) ?own"
        "tmap t (wmem w3) (went w3) ?own = tmap t (wmem ?w2) (went ?w2) ?own" "wtab w3 = wtab ?w2" "wcache w3 = wcache ?w2"
      by (rule refused_ok [OF i u])
    have "crel w3 m"
      by (rule crelI [where t = t and own = ?own]) (use w3 c A(4) b in \<open>simp_all\<close>)
    moreover have "cexec w (OReplace v k f x r cs) = Inr (RCode set_error, w3)"
      using c(1-3) tr w3(1) b False
      by (simp add: cache_replace_def replace_body_def is_building_def tread_Some code_def Let_def)
    moreover have "table_at w3 = Some t'" using w3(4,5) by simp
    ultimately show ?thesis using mk False c(3) sl
      by (intro refines_atI [where w' = w3 and t = t and t' = t' and r = "RCode set_error" and m' = m]) simp_all
  qed
qed

text \<open>The state in which \<open>set\<close> and \<open>add\<close> reach the table.\<close>

definition prepared :: "env \<Rightarrow> world \<Rightarrow> u32 \<Rightarrow> u32 \<Rightarrow> rope \<Rightarrow> world" where
  "prepared v w f x r =
     (let w = upd_cache w (\<lambda>c. c\<lparr>sets_c := counter_incr (sets_c c)\<rparr>) in
      entry_alloc (w\<lparr>wgc := gc_object_new (wgc w) (v_key v)\<rparr>) (v_entry v) f x r (v_now v))"

lemma prepared_ok:
  assumes c: "tinv t (wmem w) (went w) (wnewer w) (wgc w) own" and l: "clegal w (OSet v k f x r cs)"
  obtains own' where
    "tinv t (wmem (prepared v w f x r)) (went (prepared v w f x r)) (wnewer (prepared v w f x r)) (wgc (prepared v w f x r)) own'"
    "v_entry v \<in> dom (went (prepared v w f x r))" "unsched (wgc (prepared v w f x r)) (v_entry v)"
    "tmap t (wmem (prepared v w f x r)) (went (prepared v w f x r)) own' = tmap t (wmem w) (went w) own"
    "item_of (wmem (prepared v w f x r)) (the (went (prepared v w f x r) (v_entry v))) (own' (v_entry v)) =
       \<lparr>i_flags = f, i_exptime = x, i_chunks = cs\<rparr>"
    "\<forall>k. vref t k \<noteq> v_entry v" "v_entry v \<noteq> 0" "aligned (v_entry v)"
    "v_key v \<notin> dom (went (prepared v w f x r))" "unsched (wgc (prepared v w f x r)) (v_key v)"
    "rope_size (wmem (prepared v w f x r)) r = Inr (of_nat (length (concat cs)))"
    "v_cpu v < MAX_CPUS" "wtab (prepared v w f x r) = wtab w"
    "entries_p (wcache (prepared v w f x r)) = entries_p (wcache w)" "building_p (wcache (prepared v w f x r)) = building_p (wcache w)"
proof -
  obtain ys where y: "rope_ok (wmem w) r ys" "chunks (wmem w) ys = cs" "\<forall>b \<in> dom (went w). set (own b) \<inter> set ys = {}"
      "rope_size (wmem w) r = Inr (of_nat (length (concat cs)))"
    using rope_freshE [OF _ c] l by (metis clegal.simps(1))
  have k: "v_key v > 0x1000" "gheap (wgc w) (v_key v) = None" "v_key v \<noteq> v_entry v" "fresh_object w (v_entry v)"
      "v_cpu v < MAX_CPUS" using l by (auto simp: fresh_object_def runs_on_def)
  define w1 where "w1 = (upd_cache w (\<lambda>c. c\<lparr>sets_c := counter_incr (sets_c c)\<rparr>))\<lparr>wgc := gc_object_new (wgc w) (v_key v)\<rparr>"
  have p: "prepared v w f x r = entry_alloc w1 (v_entry v) f x r (v_now v)" by (simp add: prepared_def w1_def Let_def)
  have i1: "tinv t (wmem w1) (went w1) (wnewer w1) (wgc w1) own" using tinv_new_key [OF c k(1,2)] by (simp add: w1_def)
  have "fresh_object w1 (v_entry v)" "rope_ok (wmem w1) r ys" "\<forall>b \<in> dom (went w1). set (own b) \<inter> set ys = {}"
    using k(3,4) y(1,3) by (simp_all add: w1_def fresh_object_def)
  note F = fresh_entry [OF i1 this(1)] and A = alloc_ok [OF i1 this, where f = f and x = x and now = "v_now v"]
  have "v_key v \<notin> dom (went w)" using tinvD(2) [OF c, of "v_key v"] k(2) by (auto simp: entry_inv_def)
  then show thesis
    using that [of "own(v_entry v := ys)"] A F y(2,4) k(3,5) unfolding p by (simp add: w1_def)
qed

lemma old_entry_ok:
  assumes i: "tinv t h ent nw g own" and b: "\<And>j. vref t' j = (if j = k then e else vref t j)" and e: "\<forall>k. vref t k \<noteq> e"
  shows "vref t k = 0 \<or> vref t k \<in> dom ent \<and> unsched g (vref t k) \<and> (\<forall>j. vref t' j \<noteq> vref t k)"
proof (cases "vref t k = 0")
  case False
  then have "vref t' j \<noteq> vref t k" for j unfolding b using tinvD(5) [OF i, of k j] e by metis
  then show ?thesis using tinvD(4) [OF i False] by simp
qed simp

lemma set_refines:
  assumes "crel w m" "clegal w (OSet v k f x r cs)"
  shows "refines_at w m (OSet v k f x r cs)"
proof -
  obtain own t where c: "building_p (wcache w) = 0" "entries_p (wcache w) \<noteq> 0"
      "wtab w (entries_p (wcache w)) = Some t" "tinv t (wmem w) (went w) (wnewer w) (wgc w) own"
      "m = tmap t (wmem w) (went w) own" by (rule crelE [OF assms(1)])
  let ?w1 = "prepared v w f x r" and ?e = "v_entry v" and ?key = "(v_key v, k)"
  obtain own' where P: "tinv t (wmem ?w1) (went ?w1) (wnewer ?w1) (wgc ?w1) own'" "?e \<in> dom (went ?w1)" "unsched (wgc ?w1) ?e"
      "tmap t (wmem ?w1) (went ?w1) own' = tmap t (wmem w) (went w) own"
      "item_of (wmem ?w1) (the (went ?w1 ?e)) (own' ?e) = \<lparr>i_flags = f, i_exptime = x, i_chunks = cs\<rparr>"
      "\<forall>k. vref t k \<noteq> ?e" "?e \<noteq> 0" "aligned ?e" "v_key v \<notin> dom (went ?w1)" "unsched (wgc ?w1) (v_key v)"
      "rope_size (wmem ?w1) r = Inr (of_nat (length (concat cs)))" "v_cpu v < MAX_CPUS" "wtab ?w1 = wtab w"
      "entries_p (wcache ?w1) = entries_p (wcache w)" "building_p (wcache ?w1) = building_p (wcache w)"
    by (rule prepared_ok [OF c(4) assms(2)])
  have vr: "valid_ref (fp_ptr ?e)" by (rule valid_ref_ptr [OF P(8,7)])
  obtain cur t' rel where s: "set_impl t ?key (fp_ptr ?e) = (cur, t', rel)" by (cases "set_impl t ?key (fp_ptr ?e)") auto
  let ?w2 = "twrite ?w1 (entries_p (wcache w)) t'"
  have nk: "fst ?key \<notin> fst ` keyrefs t" using new_key_address [OF c(4)] assms(2) by (simp add: fresh_object_def)
  then have kf: "key_fresh t (went ?w1) (wgc ?w1) ?key" using P(9,10) by (simp add: key_fresh_def)
  have ka: "keys_after t t' ?key cur"
    using keyrefs_set [OF tinvD(1) [OF c(4)] s] valid_ref_nonzero [OF vr] by (simp add: keys_after_def)
  have body: "set_body v ?w1 ?key ?e = rbind (release_entries (v_cpu v) ?w2 rel) (\<lambda>w. Inr (cur, w))"
    using s c(1-3) P(13-15) by (simp add: set_body_def is_building_def tread_Some tset_def Let_def)
  have ex: "cexec w (OSet v k f x r cs) = code (rbind (set_body v ?w1 ?key ?e) (\<lambda>(cur_key, w).
      if cur_key = None then rbind (outcome (entry_destroy w ?e)) (\<lambda>w. Inr (set_error, drop_key w ?key cur_key))
      else rbind (rope_size (wmem w) r) (\<lambda>n. let w = upd_cache w (\<lambda>c. c\<lparr>bytes_c := counter_add (bytes_c c) n\<rparr>) in
        Inr (stored, drop_key w ?key cur_key))))"
    by (simp add: cache_set_def prepared_def cache_key_alloc_def Let_def)
  note cl = set_impl_claim [OF tinvD(1) [OF c(4)] vr s]
  show ?thesis
  proof (cases cur)
    case (Some kr)
    note S = set_impl_ok [OF tinvD(1) [OF c(4)] vr s [unfolded Some]]
    have b: "vref t' j = (if j = k then ?e else vref t j)" for j using S(3) by (simp add: fp_ptr_def)
    have i: "tinv t' (wmem ?w2) (went ?w2) (wnewer ?w2) (wgc ?w2) own'"
      using tinv_bind [OF P(1) S(1) b _ ka] P(2,3,6) kf by simp
    have old: "vref t k = 0 \<or> vref t k \<in> dom (went ?w2) \<and> unsched (wgc ?w2) (vref t k) \<and> (\<forall>j. vref t' j \<noteq> vref t k)"
      using old_entry_ok [OF P(1) b P(6)] by simp
    have cpu: "v_cpu v < MAX_CPUS" using P(12) by simp
    obtain w3 where w3: "release_entries (v_cpu v) ?w2 (unshared (vref t k)) = Inr w3" "tinv t' (wmem ?w2) (went ?w2) (wnewer ?w2) (wgc w3) own'"
        "wmem w3 = wmem ?w2" "went w3 = went ?w2" "wnewer w3 = wnewer ?w2" "wtab w3 = wtab ?w2"
        "entries_p (wcache w3) = entries_p (wcache ?w2)" "building_p (wcache w3) = building_p (wcache ?w2)"
        "\<forall>b. b \<noteq> vref t k \<longrightarrow> unsched (wgc w3) b = unsched (wgc ?w2) b"
      by (rule release_old_ok [OF i cpu old])
    let ?w4 = "upd_cache w3 (\<lambda>c. c\<lparr>bytes_c := counter_add (bytes_c c) (of_nat (length (concat cs)))\<rparr>)"
    let ?w5 = "drop_key ?w4 ?key (Some kr)"
    have "v_key v \<noteq> 0" using assms(2) by (auto simp: fresh_object_def)
    then have "v_key v \<noteq> vref t k" using P(9) old by auto
    then have "unsched (wgc ?w4) (v_key v)" using w3(9) P(10) by simp
    then have "tinv t' (wmem ?w5) (went ?w5) (wnewer ?w5) (wgc ?w5) own'"
      using tinv_drop_key [of t' "wmem ?w2" "went ?w2" "wnewer ?w2" ?w4 own' ?key "Some kr"] w3(2-5) P(9) key_not_added [OF ka nk] Some by simp
    then have "crel ?w5 (m(k \<mapsto> \<lparr>i_flags = f, i_exptime = x, i_chunks = cs\<rparr>))"
      by (rule crelI [where t = t' and own = own', rotated 3])
         (use w3 c P tmap_bind [of t' k ?e t, OF b] in \<open>simp_all\<close>)
    moreover have "cexec w (OSet v k f x r cs) = Inr (RCode stored, ?w5)"
      using w3(1,3) S(6) P(11) Some unfolding ex body by (simp add: code_def Let_def)
    moreover have "slots_step m (OSet v k f x r cs) (RCode stored) t t'"
      using cl Some probes_of_config [OF S(2)] by (simp add: slots_step_def)
    moreover have "table_at ?w5 = Some t'" using w3(6,7) P(14) by simp
    ultimately show ?thesis using c(3)
      by (intro refines_atI [where w' = ?w5 and t = t and t' = t' and r = "RCode stored" and m' = "m(k \<mapsto> \<lparr>i_flags = f, i_exptime = x, i_chunks = cs\<rparr>)"]) simp_all
  next
    case None
    note S = set_impl_full [OF tinvD(1) [OF c(4)] s [unfolded None]]
    have i: "tinv t (wmem ?w2) (went ?w2) (wnewer ?w2) (wgc ?w2) own'" using P(1) by simp
    have u: "?e \<in> dom (went ?w2)" "\<forall>k. vref t k \<noteq> ?e" "unsched (wgc ?w2) ?e" using P(2,3,6) by simp_all
    obtain w3 where w3: "outcome (entry_destroy ?w2 ?e) = Inr w3" "tinv t (wmem w3) (went w3) (wnewer w3) (wgc w3) own'"
        "tmap t (wmem w3) (went w3) own' = tmap t (wmem ?w2) (went ?w2) own'" "wtab w3 = wtab ?w2" "wcache w3 = wcache ?w2"
        "wgc w3 = gc_object_delete (wgc ?w2) ?e" "went w3 = (went ?w2)(?e := None)"
      by (rule refused_ok [OF i u])
    let ?w4 = "drop_key w3 ?key None"
    have "v_key v \<noteq> ?e" using P(2,9) by auto
    then have "tinv t (wmem ?w4) (went ?w4) (wnewer ?w4) (wgc ?w4) own'"
      using tinv_drop_key [OF w3(2), of ?key] w3(6,7) P(9,10) nk by auto
    then have "crel ?w4 m"
      by (rule crelI [where t = t and own = own', rotated 3]) (use w3 c P S(1) in \<open>simp_all\<close>)
    moreover have "m k = None" using vref_absent [OF tinvD(1) [OF c(4)]] S(3) unfolding c(5) by (simp add: tmap_None)
    moreover have "cexec w (OSet v k f x r cs) = Inr (RCode set_error, ?w4)"
      using w3(1) S(2) None unfolding ex body by (simp add: code_def)
    moreover have "slots_step m (OSet v k f x r cs) (RCode set_error) t t'"
      using cl None S(1) by (simp add: slots_step_def)
    moreover have "table_at ?w4 = Some t'" using w3(4,5) P(14) by simp
    ultimately show ?thesis using c(3)
      by (intro refines_atI [where w' = ?w4 and t = t and t' = t' and r = "RCode set_error" and m' = m]) simp_all
  qed
qed

lemma add_refines:
  assumes "crel w m" "clegal w (OAdd v k f x r cs)"
  shows "refines_at w m (OAdd v k f x r cs)"
proof -
  obtain own t where c: "building_p (wcache w) = 0" "entries_p (wcache w) \<noteq> 0"
      "wtab w (entries_p (wcache w)) = Some t" "tinv t (wmem w) (went w) (wnewer w) (wgc w) own"
      "m = tmap t (wmem w) (went w) own" by (rule crelE [OF assms(1)])
  have l: "clegal w (OSet v k f x r cs)" using assms(2) by simp
  let ?w1 = "prepared v w f x r" and ?e = "v_entry v" and ?key = "(v_key v, k)"
  obtain own' where P: "tinv t (wmem ?w1) (went ?w1) (wnewer ?w1) (wgc ?w1) own'" "?e \<in> dom (went ?w1)" "unsched (wgc ?w1) ?e"
      "tmap t (wmem ?w1) (went ?w1) own' = tmap t (wmem w) (went w) own"
      "item_of (wmem ?w1) (the (went ?w1 ?e)) (own' ?e) = \<lparr>i_flags = f, i_exptime = x, i_chunks = cs\<rparr>"
      "\<forall>k. vref t k \<noteq> ?e" "?e \<noteq> 0" "aligned ?e" "v_key v \<notin> dom (went ?w1)" "unsched (wgc ?w1) (v_key v)"
      "rope_size (wmem ?w1) r = Inr (of_nat (length (concat cs)))" "v_cpu v < MAX_CPUS" "wtab ?w1 = wtab w"
      "entries_p (wcache ?w1) = entries_p (wcache w)" "building_p (wcache ?w1) = building_p (wcache w)"
    by (rule prepared_ok [OF c(4) l])
  have vr: "valid_ref (fp_ptr ?e)" by (rule valid_ref_ptr [OF P(8,7)])
  obtain ok cur cv t' rel where s: "add_impl t ?key (fp_ptr ?e) = (ok, cur, cv, t', rel)"
    by (cases "add_impl t ?key (fp_ptr ?e)") auto
  let ?w2 = "twrite ?w1 (entries_p (wcache w)) t'"
  have S: "table_inv t'" "rel = []" "ok \<Longrightarrow> vref t k = 0" "vref t' j = (if j = k \<and> ok then ?e else vref t j)" for j
  proof -
    show "table_inv t'" "rel = []" "ok \<Longrightarrow> vref t k = 0" "vref t' j = (if j = k \<and> ok then ?e else vref t j)" for j
      using add_impl_ok [OF tinvD(1) [OF c(4)] vr, of ?key ok _ cv t' rel] add_impl_full [OF tinvD(1) [OF c(4)], of ?key "fp_ptr ?e" ok cv t' rel]
        s tinvD(1) [OF c(4)] by (cases cur; simp add: fp_ptr_def)+
  qed
  have nk: "fst ?key \<notin> fst ` keyrefs t" using new_key_address [OF c(4)] assms(2) by (simp add: fresh_object_def)
  then have kf: "key_fresh t (went ?w1) (wgc ?w1) ?key" using P(9,10) by (simp add: key_fresh_def)
  have ka: "keys_after t t' ?key cur"
    using keyrefs_add [OF tinvD(1) [OF c(4)] s] valid_ref_nonzero [OF vr] by (simp add: keys_after_def)
  have body: "add_body v ?w1 ?key ?e = Inr (ok, cur, ?w2)"
    using s c(1-3) P(13-15) S(2) by (simp add: add_body_def is_building_def tread_Some tadd_def Let_def)
  have ex: "cexec w (OAdd v k f x r cs) = code (rbind (add_body v ?w1 ?key ?e) (\<lambda>(success, cur_key, w).
      if \<not> success then rbind (outcome (entry_destroy w ?e)) (\<lambda>w. Inr (set_error, drop_key w ?key cur_key))
      else rbind (rope_size (wmem w) r) (\<lambda>n. let w = upd_cache w (\<lambda>c. c\<lparr>bytes_c := counter_add (bytes_c c) n\<rparr>) in
        Inr (stored, drop_key w ?key cur_key))))"
    by (simp add: cache_add_def prepared_def cache_key_alloc_def Let_def)
  note cl = add_impl_claim [OF tinvD(1) [OF c(4)] vr s]
  have pr: "probes_of t' = probes_of t"
    using add_impl_ok(2) [OF tinvD(1) [OF c(4)] vr, of ?key ok _ cv t' rel] add_impl_full(1) [OF tinvD(1) [OF c(4)], of ?key "fp_ptr ?e" ok cv t' rel]
      s probes_of_config [of t t'] by (cases cur) auto
  have no: "ok" if "m k = None" "cur \<noteq> None"
    using that s add_impl_ok(3) [OF tinvD(1) [OF c(4)] vr, of ?key ok _ cv t' rel] unfolding c(5) by (auto simp: tmap_None)
  have no': "cur \<noteq> None" if ok
    using that s add_impl_full(2) [OF tinvD(1) [OF c(4)], of ?key "fp_ptr ?e" ok cv t' rel] by (cases cur) auto
  have sl: "slots_step m (OAdd v k f x r cs) (RCode (if ok then stored else set_error)) t t'"
    using cl pr no no' s add_impl_full(1) [OF tinvD(1) [OF c(4)], of ?key "fp_ptr ?e" ok cv t' rel]
    by (cases cur) (auto simp: slots_step_def)
  show ?thesis
  proof (cases ok)
    case True
    then have b: "vref t' j = (if j = k then ?e else vref t j)" for j using S(4) by simp
    let ?w4 = "upd_cache ?w2 (\<lambda>c. c\<lparr>bytes_c := counter_add (bytes_c c) (of_nat (length (concat cs)))\<rparr>)"
    let ?w5 = "drop_key ?w4 ?key cur"
    have "tinv t' (wmem ?w4) (went ?w4) (wnewer ?w4) (wgc ?w4) own'"
      using tinv_bind [OF P(1) S(1) b _ ka] P(2,3,6) kf by simp
    then have "tinv t' (wmem ?w5) (went ?w5) (wnewer ?w5) (wgc ?w5) own'"
      using tinv_drop_key [of t' "wmem ?w4" "went ?w4" "wnewer ?w4" ?w4 own' ?key cur] P(9,10) key_not_added [OF ka nk] by simp
    then have "crel ?w5 (m(k \<mapsto> \<lparr>i_flags = f, i_exptime = x, i_chunks = cs\<rparr>))"
      by (rule crelI [where t = t' and own = own', rotated 3])
         (use c P tmap_bind [of t' k ?e t, OF b] in \<open>simp_all\<close>)
    moreover have "m k = None" using S(3) True unfolding c(5) by (simp add: tmap_None)
    moreover have "cexec w (OAdd v k f x r cs) = Inr (RCode stored, ?w5)"
      using P(11) True unfolding ex body by (simp add: code_def Let_def)
    moreover have "table_at ?w5 = Some t'" using P(14) by simp
    ultimately show ?thesis using c(3) sl True
      by (intro refines_atI [where w' = ?w5 and t = t and t' = t' and r = "RCode stored" and m' = "m(k \<mapsto> \<lparr>i_flags = f, i_exptime = x, i_chunks = cs\<rparr>)"]) simp_all
  next
    case False
    then have b: "vref t' = vref t" using S(4) by auto
    have i: "tinv t' (wmem ?w2) (went ?w2) (wnewer ?w2) (wgc ?w2) own'" using tinv_keys [OF P(1) S(1) b ka] kf by simp
    have u: "?e \<in> dom (went ?w2)" "\<forall>k. vref t' k \<noteq> ?e" "unsched (wgc ?w2) ?e" using P(2,3,6) b by simp_all
    obtain w3 where w3: "outcome (entry_destroy ?w2 ?e) = Inr w3" "tinv t' (wmem w3) (went w3) (wnewer w3) (wgc w3) own'"
        "tmap t' (wmem w3) (went w3) own' = tmap t' (wmem ?w2) (went ?w2) own'" "wtab w3 = wtab ?w2" "wcache w3 = wcache ?w2"
        "wgc w3 = gc_object_delete (wgc ?w2) ?e" "went w3 = (went ?w2)(?e := None)"
      by (rule refused_ok [OF i u])
    let ?w4 = "drop_key w3 ?key cur"
    have "v_key v \<noteq> ?e" using P(2,9) by auto
    then have "tinv t' (wmem ?w4) (went ?w4) (wnewer ?w4) (wgc ?w4) own'"
      using tinv_drop_key [OF w3(2), of ?key cur] key_not_added [OF ka nk] w3(6,7) P(9,10) by auto
    moreover have "tmap t' h ent own' = tmap t h ent own'" for h ent using b by (simp add: tmap_def fun_eq_iff)
    ultimately have "crel ?w4 m"
      by (intro crelI [where t = t' and own = own' and w = ?w4]) (use w3 c P in \<open>simp_all\<close>)
    moreover have "cexec w (OAdd v k f x r cs) = Inr (RCode set_error, ?w4)"
      using w3(1) False unfolding ex body by (simp add: code_def)
    moreover have "table_at ?w4 = Some t'" using w3(4,5) P(14) by simp
    ultimately show ?thesis using c(3) sl False
      by (intro refines_atI [where w' = ?w4 and t = t and t' = t' and r = "RCode set_error" and m' = m]) simp_all
  qed
qed

section \<open>Threads, memory and garbage collection\<close>

lemma hinv_gc:
  assumes "hinv R K h ent nw g own" "\<exists>tr. gc_run tr g'"
    "\<forall>a \<in> dom ent. gheap g' a \<noteq> None" "\<forall>a. unsched g a \<longrightarrow> unsched g' a"
  shows "hinv R K h ent nw g' own"
proof (rule hinvI)
  show "entry_inv h nw g' own a e" if "ent a = Some e" for a e
    using hinvD(1) [OF assms(1) that] assms(3) that by (auto simp: entry_inv_def)
  show "R k \<in> dom ent \<and> unsched g' (R k)" if "R k \<noteq> 0" for k
    using hinvD(3) [OF assms(1) that] assms(4) by blast
  show "fst key \<notin> dom ent \<and> unsched g' (fst key)" if "key \<in> K" for key
    using hinvD(6) [OF assms(1) that] assms(4) by blast
qed (use hinvD [OF assms(1)] assms(2) in blast)+

lemma crel_gc:
  assumes "crel w m" "\<exists>tr. gc_run tr g'" "gheap g' = gheap (wgc w)"
  shows "crel (w\<lparr>wgc := g'\<rparr>) m"
proof -
  obtain own t where c: "building_p (wcache w) = 0" "entries_p (wcache w) \<noteq> 0"
      "wtab w (entries_p (wcache w)) = Some t" "tinv t (wmem w) (went w) (wnewer w) (wgc w) own"
      "m = tmap t (wmem w) (went w) own" by (rule crelE [OF assms(1)])
  have "tinv t (wmem w) (went w) (wnewer w) g' own"
    using hinv_gc [OF tinv_hinv [OF c(4)] assms(2)] tinvD(1,2) [OF c(4)] assms(3) by (auto simp: tinv_def unsched_def entry_inv_def)
  then show ?thesis using c by (intro crelI [where t = t and own = own]) simp_all
qed

lemma thread_refines:
  assumes "crel w m"
  shows "clegal w OThreadStart \<Longrightarrow> refines w m OThreadStart" "clegal w (OThreadExit c) \<Longrightarrow> refines w m (OThreadExit c)"
proof -
  obtain tr where tr: "gc_run tr (wgc w)" by (rule crelE [OF assms]) (use tinvD(6) in blast)
  show "refines w m OThreadStart" if l: "clegal w OThreadStart"
  proof -
    obtain ds g where g: "gc_exec (wgc w) EvInit = Inr (ds, g)" "gc_run (EvInit # tr) g"
      using gc_progress [OF tr, of EvInit] l by auto
    then have i: "cpu_init (wgc w) = Inr (cpu_count (wgc w), g)" "gheap g = gheap (wgc w)"
      using l by (auto simp: cpu_init_def Let_def)
    then have "crel (w\<lparr>wgc := g\<rparr>) m" using crel_gc [OF assms] g(2) by blast
    then show ?thesis using i(1) by (simp add: refines_def)
  qed
  show "refines w m (OThreadExit c)" if l: "clegal w (OThreadExit c)"
  proof -
    have "gc_run (EvExit c # tr) (cpu_exit (wgc w) c)"
      by (rule gc_run_step [OF tr]) (use l in \<open>simp_all add: runs_on_def\<close>)
    moreover have "gheap (cpu_exit (wgc w) c) = gheap (wgc w)" by (simp add: cpu_exit_def)
    ultimately have "crel (w\<lparr>wgc := cpu_exit (wgc w) c\<rparr>) m" using crel_gc [OF assms] by blast
    then show ?thesis by (simp add: refines_def)
  qed
qed

lemma receive_refines:
  assumes "crel w m" "clegal w (OReceive a bs)"
  shows "refines w m (OReceive a bs)"
proof -
  obtain own t where c: "building_p (wcache w) = 0" "entries_p (wcache w) \<noteq> 0"
      "wtab w (entries_p (wcache w)) = Some t" "tinv t (wmem w) (went w) (wnewer w) (wgc w) own"
      "m = tmap t (wmem w) (went w) own" by (rule crelE [OF assms(1)])
  let ?h = "mem_alloc a bs (of_nat (length bs)) (wmem w)"
  obtain x where h: "?h = (wmem w)(a \<mapsto> x)" by (simp add: mem_alloc_def)
  have fr: "a \<notin> set (own b)" "entry_ok ?h e (own b) = entry_ok (wmem w) e (own b)" if "went w b = Some e" for b e
  proof -
    have ch: "chain (wmem w) (e_head e) (e_tail e) (own b)"
      using tinvD(2) [OF c(4) that] by (simp add: entry_inv_def entry_ok_def)
    then show n: "a \<notin> set (own b)" using chain_addrs [OF ch] assms(2) by auto
    have "last (own b) \<noteq> a" using n ch chain_addrs [OF ch] by (auto simp: chain_def)
    then show "entry_ok ?h e (own b) = entry_ok (wmem w) e (own b)" using n unfolding h by (auto simp: entry_ok_def)
  qed
  have i: "tinv t ?h (went w) (wnewer w) (wgc w) own"
  proof (rule tinvI)
    show "entry_inv ?h (wnewer w) (wgc w) own b e" if "went w b = Some e" for b e
      using tinvD(2) [OF c(4) that] fr(2) [OF that] by (simp add: entry_inv_def)
  qed (use tinvD [OF c(4)] in blast)+
  have "tmap t ?h (went w) own k = m k" for k
  proof (cases "vref t k = 0")
    case False
    then obtain e where "went w (vref t k) = Some e" using tinvD(4) [OF c(4)] by blast
    then have "chunks ?h (own (vref t k)) = chunks (wmem w) (own (vref t k))" using fr(1) unfolding h by (intro chunks_upd)
    then show ?thesis using c(5) by (simp add: tmap_def item_of_def Let_def)
  qed (simp add: c(5) tmap_def)
  then have "tmap t ?h (went w) own = m" by (simp add: fun_eq_iff)
  then have "crel (w\<lparr>wmem := ?h\<rparr>) m" using c(1-3) i by (intro crelI [where t = t and own = own]) simp_all
  then show ?thesis by (simp add: refines_def)
qed

lemma gc_finalize_ok:
  assumes "hinv R K (wmem w) (went w) (wnewer w) g own" "\<forall>d \<in> set ds. gheap (wgc w) d = None \<and> (\<forall>k. R k \<noteq> d)"
  obtains w' where "gc_finalize w ds = Inr w'" "hinv R K (wmem w') (went w') (wnewer w') g own"
    "hmap R (wmem w') (went w') own = hmap R (wmem w) (went w) own" "wgc w' = wgc w" "wtab w' = wtab w" "wcache w' = wcache w"
    "went w' = went w |` (- set ds)"
proof -
  have "\<exists>w'. gc_finalize w ds = Inr w' \<and> hinv R K (wmem w') (went w') (wnewer w') g own \<and>
    hmap R (wmem w') (went w') own = hmap R (wmem w) (went w) own \<and> wgc w' = wgc w \<and> wtab w' = wtab w \<and> wcache w' = wcache w \<and>
    went w' = went w |` (- set ds)"
    using assms
  proof (induction ds arbitrary: w)
    case (Cons d ds)
    show ?case
    proof (cases "went w d")
      case None
      moreover from None have "went w |` (- set (d # ds)) = went w |` (- set ds)" by (auto simp: restrict_map_def fun_eq_iff)
      ultimately show ?thesis using Cons.IH [of w] Cons.prems by auto
    next
      case (Some e)
      let ?w = "w\<lparr>wmem := wmem w |` (- set (own d)), went := (went w)(d := None), wnewer := (wnewer w)(d := None)\<rparr>"
      have "gc_object_delete (wgc w) d = wgc w" using Cons.prems(2) by (simp add: gc_object_delete_def fun_upd_idem)
      then have d: "entry_destroy w d = Some (Inr ?w)" using entry_destroy_ok [OF Cons.prems(1), of d] domI [of "went w" d e] Some by simp
      have i: "hinv R K (wmem ?w) (went ?w) (wnewer ?w) g own" "hmap R (wmem ?w) (went ?w) own = hmap R (wmem w) (went w) own"
        using hinv_restrict [OF Cons.prems(1), of d g] Some Cons.prems(2) hinvD(5) [OF Cons.prems(1)] by auto
      have "\<forall>d \<in> set ds. gheap (wgc ?w) d = None \<and> (\<forall>k. R k \<noteq> d)" using Cons.prems(2) by simp
      from Cons.IH [OF i(1) this] obtain w' where w': "gc_finalize ?w ds = Inr w'" "hinv R K (wmem w') (went w') (wnewer w') g own"
          "hmap R (wmem w') (went w') own = hmap R (wmem ?w) (went ?w) own" "wgc w' = wgc ?w" "wtab w' = wtab ?w"
          "wcache w' = wcache ?w" "went w' = went ?w |` (- set ds)" by blast
      have "gc_finalize w (d # ds) = Inr w'" using d Some w'(1) by simp
      moreover have "went w' = went w |` (- set (d # ds))" using w'(7) by (auto simp: restrict_map_def fun_eq_iff)
      ultimately show ?thesis using w'(2-6) i(2) by simp
    qed
  qed (simp add: restrict_map_def)
  then show thesis using that by blast
qed

text \<open>What a checkpoint, alone or within a flush, does to the objects and then to the entries.\<close>

definition gc_kept :: "gc_state \<Rightarrow> addr list \<Rightarrow> gc_state \<Rightarrow> bool" where
  "gc_kept g ds g' \<longleftrightarrow> (\<forall>d \<in> set ds. (\<exists>x. gheap g d = Some x \<and> g_scheduled x \<and> d > 0x1000) \<and> gheap g' d = None) \<and>
     (\<forall>x. x \<notin> set ds \<longrightarrow> gheap g x \<noteq> None \<longrightarrow> gheap g' x \<noteq> None) \<and>
     (\<forall>x y. gheap g' x = Some y \<longrightarrow> (\<exists>z. gheap g x = Some z \<and> kept z y))"

lemma checkpoint_kept:
  assumes "gc_run tr g" "c < cpu_count g"
  obtains ds g' where "gc_checkpoint g c = Inr (ds, g')" "gc_run (EvCheckpoint c # tr) g'" "gc_kept g ds g'"
    "cpu_mask g' = cpu_mask g" "cpu_count g' = cpu_count g" "flushes g' = flushes g"
proof -
  obtain ds g' where g: "gc_checkpoint g c = Inr (ds, g')" "safe_deletes g (EvCheckpoint c # tr) ds g'"
      "\<forall>x. x \<notin> set ds \<longrightarrow> gheap g x \<noteq> None \<longrightarrow> gheap g' x \<noteq> None"
      "\<forall>x y. gheap g' x = Some y \<longrightarrow> (\<exists>z. gheap g x = Some z \<and> kept z y)"
      "cpu_mask g' = cpu_mask g" "cpu_count g' = cpu_count g" "flushes g' = flushes g"
    by (rule gc_checkpoint_ok [OF gc_run_inv [OF assms(1)] assms(2)])
  have "gc_run (EvCheckpoint c # tr) g'" by (rule gc_run_step [OF assms(1)]) (use g(1) assms(2) in simp_all)
  moreover have "gc_kept g ds g'"
    using g(2-4) gc_run_inv [OF assms(1)] unfolding gc_kept_def safe_deletes_def gc_inv_def by blast
  ultimately show thesis using that g by blast
qed

lemma finalize_kept:
  assumes i: "hinv R K (wmem w) (went w) (wnewer w) (wgc w) own" and g: "gc_kept (wgc w) ds g" "\<exists>tr. gc_run tr g"
  obtains w' where "gc_finalize (w\<lparr>wgc := g\<rparr>) ds = Inr w'" "hinv R K (wmem w') (went w') (wnewer w') (wgc w') own"
    "hmap R (wmem w') (went w') own = hmap R (wmem w) (went w) own" "wgc w' = g" "wtab w' = wtab w" "wcache w' = wcache w"
    "went w' = went w |` (- set ds)"
proof -
  have ds: "\<forall>d \<in> set ds. gheap g d = None \<and> (\<forall>k. R k \<noteq> d)"
  proof (intro ballI conjI allI)
    fix d k assume "d \<in> set ds"
    then obtain x where x: "gheap (wgc w) d = Some x" "g_scheduled x" "gheap g d = None" "d > 0x1000" using g(1) by (auto simp: gc_kept_def)
    show "gheap g d = None" by (rule x(3))
    have "d \<noteq> 0" using x(4) by auto
    then show "R k \<noteq> d" using hinvD(3) [OF i, of k] x(1,2) by (auto simp: unsched_def)
  qed
  let ?w = "w\<lparr>wgc := g\<rparr>"
  have C': "hinv R K (wmem ?w) (went ?w) (wnewer ?w) (wgc w) own" "\<forall>d \<in> set ds. gheap (wgc ?w) d = None \<and> (\<forall>k. R k \<noteq> d)"
    using i ds by simp_all
  obtain w' where w': "gc_finalize ?w ds = Inr w'" "hinv R K (wmem w') (went w') (wnewer w') (wgc w) own"
      "hmap R (wmem w') (went w') own = hmap R (wmem ?w) (went ?w) own" "wgc w' = wgc ?w" "wtab w' = wtab ?w" "wcache w' = wcache ?w"
      "went w' = went ?w |` (- set ds)"
    by (rule gc_finalize_ok [OF C'])
  have us: "unsched g a" if u: "unsched (wgc w) a" for a
  proof -
    obtain z where z: "gheap (wgc w) a = Some z" "\<not> g_scheduled z" using u by (auto simp: unsched_def split: option.splits)
    then have "a \<notin> set ds" "gheap (wgc w) a \<noteq> None" using g(1) by (auto simp: gc_kept_def)
    then have "gheap g a \<noteq> None" using g(1) by (auto simp: gc_kept_def)
    then obtain y x where "gheap g a = Some y" "gheap (wgc w) a = Some x" "kept x y" using g(1) unfolding gc_kept_def by blast
    then show ?thesis using u by (simp add: unsched_def kept_def)
  qed
  have "gheap g a \<noteq> None" if a: "a \<in> dom (went w')" for a
  proof -
    have "gheap (wgc w) a \<noteq> None" using a hinvD(1) [OF w'(2), of a] by (auto simp: entry_inv_def)
    then show ?thesis using g(1) a w'(7) by (auto simp: gc_kept_def)
  qed
  then have "hinv R K (wmem w') (went w') (wnewer w') (wgc w') own" using hinv_gc [OF w'(2) g(2)] us w'(4) by simp
  then show thesis using that w' by simp
qed

lemma checkpoint_refines:
  assumes "crel w m" "clegal w (OCheckpoint c)"
  shows "refines_at w m (OCheckpoint c)"
proof -
  obtain own t where C: "building_p (wcache w) = 0" "entries_p (wcache w) \<noteq> 0"
      "wtab w (entries_p (wcache w)) = Some t" "tinv t (wmem w) (went w) (wnewer w) (wgc w) own"
      "m = tmap t (wmem w) (went w) own" by (rule crelE [OF assms(1)])
  obtain tr where tr: "gc_run tr (wgc w)" using tinvD(6) [OF C(4)] by blast
  obtain ds g where g: "gc_checkpoint (wgc w) c = Inr (ds, g)" "gc_run (EvCheckpoint c # tr) g" "gc_kept (wgc w) ds g"
    by (rule checkpoint_kept [OF tr, of c]) (use assms(2) in \<open>simp add: runs_on_def\<close>)
  have h: "hinv (vref t) (keyrefs t) (wmem w) (went w) (wnewer w) (wgc w) own" using C(4) by (simp add: tinv_def)
  obtain w' where w': "gc_finalize (w\<lparr>wgc := g\<rparr>) ds = Inr w'" "hinv (vref t) (keyrefs t) (wmem w') (went w') (wnewer w') (wgc w') own"
      "hmap (vref t) (wmem w') (went w') own = hmap (vref t) (wmem w) (went w) own" "wtab w' = wtab w" "wcache w' = wcache w"
    using finalize_kept [OF h g(3)] g(2) by blast
  have "crel w' m"
    by (rule crelI [where t = t and own = own]) (use w' C in \<open>simp_all add: tinv_def tmap_hmap\<close>)
  moreover have "cexec w (OCheckpoint c) = Inr (RDone, w')" using g(1) w'(1) by (simp add: cache_checkpoint_def)
  ultimately show ?thesis using C(3) w'(4,5)
    by (intro refines_atI [where w' = w' and t = t and t' = t and r = RDone and m' = m]) (simp_all add: slots_step_def)
qed

section \<open>Sequences of operations\<close>

text \<open>Operations that leave the table as it is.\<close>

fun in_place :: "cop \<Rightarrow> bool" where
  "in_place (OAppend v k r cs) = True"
| "in_place (OPrepend v k r cs) = True"
| "in_place (OCas v k f x ver r cs) = True"
| "in_place (OGet v n k) = True"
| "in_place (OIncr v k d) = True"
| "in_place (ODecr v k d) = True"
| "in_place (OTouch v k x) = True"
| "in_place (OFlushAll v delay) = True"
| "in_place OThreadStart = True"
| "in_place (OThreadExit c) = True"
| "in_place (OReceive a bs) = True"
| "in_place _ = False"

lemma get_frame:
  "cache_get w k = Inr (e, w') \<Longrightarrow> wtab w' = wtab w \<and> entries_p (wcache w') = entries_p (wcache w)"
  by (auto simp: cache_get_def rbind_Inr_iff Let_def split: if_splits)

lemma in_place_frame:
  "in_place op \<Longrightarrow> cexec w op = Inr (r, w') \<Longrightarrow> wtab w' = wtab w \<and> entries_p (wcache w') = entries_p (wcache w)"
  by (cases op)
     (auto simp: cache_append_def cache_prepend_def cache_cas_def get_value_def cache_incr_def cache_decr_def cache_flush_all_def
        cache_touch_def rbind_Inr_iff code_def number_def Let_def split: if_splits prod.splits dest!: get_frame)

lemma in_place_refines_at:
  assumes "in_place op" "crel w m" "refines w m op"
  shows "refines_at w m op"
proof -
  obtain r w' m' where r: "cexec w op = Inr (r, w')" "aspec m op r m'" "crel w' m'" using assms(3) by (auto simp: refines_def)
  obtain t where t: "table_at w = Some t" by (rule crelE [OF assms(2)])
  have "claimed op = None" using assms(1) by (cases op) simp_all
  then show ?thesis
    using r t in_place_frame [OF assms(1) r(1)] by (intro refines_atI [OF r t]) (auto simp: slots_step_def)
qed

lemma flush_all_refines:
  assumes "crel w m"
  shows "refines w m (OFlushAll v delay)"
proof -
  have "crel (cache_flush_all v w delay) m" by (rule same_crel [OF assms]) (simp_all add: cache_flush_all_def)
  then show ?thesis by (simp add: refines_def)
qed

lemma cexec_refines_at:
  assumes "crel w m" "clegal w op"
  shows "refines_at w m op"
proof (cases "in_place op")
  case True
  then have "refines w m op" using assms
    by (cases op) (simp_all only: append_refines prepend_refines cas_refines get_refines incr_refines decr_refines
      touch_refines thread_refines receive_refines flush_all_refines clegal.simps(4,5,6,9,10) in_place.simps)
  then show ?thesis by (rule in_place_refines_at [OF True assms(1)])
next
  case False
  then show ?thesis using assms
    by (cases op) (simp_all only: set_refines add_refines replace_refines del_refines checkpoint_refines clegal.simps(8)
      in_place.simps not_True_eq_False)
qed

lemma cexec_refines: "crel w m \<Longrightarrow> clegal w op \<Longrightarrow> refines w m op"
  by (rule refines_at_refines [OF cexec_refines_at])

interpretation cache: res_simulation cexec crel clegal aspec
  by unfold_locales (use cexec_refines in \<open>auto simp: refines_def\<close>)

text \<open>The same with the slots: the state of the full specification is the view of the table in use.\<close>

definition vrel :: "world \<Rightarrow> cache_view \<Rightarrow> bool" where
  "vrel w a \<longleftrightarrow> crel w (cv_items a) \<and> (\<exists>t. table_at w = Some t \<and> a = cview t (cv_items a))"

lemma vrelI: "crel w m \<Longrightarrow> table_at w = Some t \<Longrightarrow> vrel w (cview t m)"
  by (simp add: vrel_def cview_def)

interpretation viewed: res_simulation cexec vrel clegal cspec
proof
  fix w a op assume v: "vrel w a" and l: "clegal w op"
  obtain t where t: "crel w (cv_items a)" "table_at w = Some t" "a = cview t (cv_items a)" using v by (auto simp: vrel_def)
  obtain r w' m' t' where r: "cexec w op = Inr (r, w')" "aspec (cv_items a) op r m'" "crel w' m'" "table_at w' = Some t'"
      "slots_step (cv_items a) op r t t'"
    using cexec_refines_at [OF t(1) l] t(2) unfolding refines_at_def by auto
  have "cspec a op r (cview t' m')" using slots_step_cspec [OF r(2,5)] t(3) by simp
  then show "\<exists>r w' a'. cexec w op = Inr (r, w') \<and> cspec a op r a' \<and> vrel w' a'" using r(1) vrelI [OF r(3,4)] by blast
qed

lemma new_cache_crel:
  assumes "t \<noteq> 0" "lg2 < 31"
  shows "crel (cache_new maxb t lg2) (\<lambda>_. None)"
proof -
  note n = opentable_new_inv [OF assms(2), of key_eq key_hash, OF key_eq_iff]
  have "tinv (new_table lg2) Map.empty Map.empty Map.empty gc_initial (\<lambda>_. [])"
    by (rule tinvI) (use n gc_run_init has_key_keyrefs [OF n(1)] in \<open>auto simp: new_table_def inj_on_def\<close>)
  moreover have "tmap (new_table lg2) Map.empty Map.empty (\<lambda>_. []) = (\<lambda>_. None)"
    using n(3) by (simp add: tmap_def new_table_def fun_eq_iff)
  ultimately show ?thesis
    using assms(1) by (intro crelI [where t = "new_table lg2" and own = "\<lambda>_. []"]) (simp_all add: cache_new_def)
qed

lemma new_cache_vrel:
  assumes "t \<noteq> 0" "lg2 < 31"
  shows "vrel (cache_new maxb t lg2) (cview (new_table lg2) (\<lambda>_. None))"
  by (rule vrelI [OF new_cache_crel [OF assms]]) (simp add: cache_new_def)

section \<open>Properties\<close>

text \<open>
  C1: A new cache (of less than $2^{31}$ buckets) refines a map with slots. Every legal sequence of operations on it (set, add, replace,
  append, prepend, cas, get, delete, incr, decr, touch, flush_all, threads starting, ending and
  passing checkpoints at which entries are deleted, data arriving) runs to its end without a crash, a
  failed assertion or an endless loop. Legal means that \<open>malloc\<close> returns fresh memory, an operation that
  stores gets data that was received and not used yet, \<open>incr\<close> and \<open>decr\<close> are applied to no value that
  is not a number (they throw), at most 32 threads start, and a thread that passes a checkpoint or ends
  is one that started. The replies are those of the same sequence on a map from keys to items, beside
  which the specification keeps the slots of the table that keys have claimed.
  A set or an add is refused for want of room exactly when every slot on the probe sequence of its key
  is taken by another key; nothing else about replies or about the map is left open.
\<close>

theorem cache_refines_map:
  assumes "t \<noteq> 0" and "lg2 < 31" and "legal_run cexec clegal (cache_new maxb t lg2) ops"
  shows "\<exists>rs w' a'. run_res cexec (cache_new maxb t lg2) ops = Inr (rs, w') \<and>
     spec_run cspec (cview (new_table lg2) (\<lambda>_. None)) ops rs a' \<and> vrel w' a'"
  by (rule viewed.run_refines [OF new_cache_vrel [OF assms(1,2)] assms(3)])

definition demo_env :: env where
  "demo_env = \<lparr>v_cpu = 0, v_now = 100, v_key = 0x2000, v_entry = 0x3000, v_chunk = 0x80, v_raw = []\<rparr>"

definition demo_cops :: "cop list" where
  "demo_cops = [OThreadStart, OReceive 0x40 ''42'', OSet demo_env ''k'' 7 0 \<lparr>r_head = 0x40, r_tail = 0x40\<rparr> [''42''],
     OGet demo_env 0 ''k'']"

lemma demo_cops_legal: "legal_run cexec clegal (cache_new 1000 0x1000 lg2) demo_cops"
proof -
  let ?g = "gc_initial\<lparr>cpu_count := 1, cpu_mask := 1\<rparr>" and ?h = "mem_alloc 0x40 ''42'' 2 Map.empty"
  let ?init = "cache_new 1000 0x1000 lg2"
  let ?w = "?init\<lparr>wgc := ?g, wmem := ?h\<rparr>"
  have "cpu_init gc_initial = Inr (0, ?g)" by (simp add: gc_initial_def cpu_init_def MAX_CPUS_def Let_def)
  then have s: "cexec ?init OThreadStart = Inr (RDone, ?init\<lparr>wgc := ?g\<rparr>)" by (simp add: cache_new_def)
  have r: "cexec (?init\<lparr>wgc := ?g\<rparr>) (OReceive 0x40 ''42'') = Inr (RDone, ?w)" by (simp add: cache_new_def)
  have f: "rope_fresh ?w \<lparr>r_head = 0x40, r_tail = 0x40\<rparr> [''42'']"
    unfolding rope_fresh_def
    by (rule exI [of _ "[0x40]"])
       (simp add: cache_new_def rope_ok_def chain_def ends_def chunks_def chunk_def chunk_ok_def mem_alloc_def)
  have l: "clegal ?w (OSet demo_env ''k'' 7 0 \<lparr>r_head = 0x40, r_tail = 0x40\<rparr> [''42''])"
    using f by (simp add: cache_new_def gc_initial_def demo_env_def runs_on_def fresh_object_def aligned_def flag_mask_15)
  have "clegal ?init OThreadStart" "clegal (?init\<lparr>wgc := ?g\<rparr>) (OReceive 0x40 ''42'')"
    by (simp_all add: cache_new_def gc_initial_def MAX_CPUS_def)
  then show ?thesis
    using s r l by (simp add: demo_cops_def split: sum.splits del: cexec.simps)
qed

theorem cache_refines_map_witness:
  "\<exists>rs w' a'. run_res cexec (cache_new 1000 0x1000 20) demo_cops = Inr (rs, w') \<and>
     spec_run cspec (cview (new_table 20) (\<lambda>_. None)) demo_cops rs a' \<and> vrel w' a'"
  by (rule cache_refines_map [OF _ _ demo_cops_legal]) simp_all

end
