(* ===== verification/Collect.thy ===== *)
theory Collect
  imports Cache_Refine "HOL-Library.Log_Nat"
begin

text \<open>
  \<open>cache::collect\<close>: the service thread builds a new table from the live entries of the old one,
  publishes it, and takes over or releases what the old table holds. It waits twice in \<open>gc_flush\<close>;
  what other threads do then is an argument. The eviction threshold is computed in floating point.
\<close>

section \<open>Doubles\<close>

text \<open>
  Rounding to the nearest double, ties to even, for numbers in the normal range. All values here
  are 0 or between $2^{-64}$ and $2^{64}$ in size, so nothing overflows or gets subnormal.
\<close>

definition pow2 :: "int \<Rightarrow> rat" where
  "pow2 e = (if 0 \<le> e then 2 ^ nat e else 1 / 2 ^ nat (- e))"

definition exponent :: "rat \<Rightarrow> int" where
  "exponent x =
     (let (a, b) = quotient_of \<bar>x\<bar>; e = bitlen a - bitlen b in
      if \<bar>x\<bar> < pow2 e then e - 1 else e)"

definition round_even :: "rat \<Rightarrow> int" where
  "round_even x =
     (let r = \<lfloor>x\<rfloor>; d = x - of_int r in
      if d < 1 / 2 then r else if d > 1 / 2 then r + 1 else if even r then r else r + 1)"

definition dbl :: "rat \<Rightarrow> rat" where
  "dbl x = (if x = 0 then 0 else let u = pow2 (exponent x - 52) in of_int (round_even (x / u)) * u)"

section \<open>The threshold\<close>

definition usage_grow_threshold :: rat where
  "usage_grow_threshold = dbl (3 / 4)"

definition reserve_percentage :: rat where
  "reserve_percentage = dbl (1 / 10)"

definition sample_size :: nat where
  "sample_size = 8192"

text \<open>\<open>None\<close> is an infinite ratio, of an empty cache; a cache with no memory at all is \<open>Inl\<close>.\<close>

definition fill_ratio :: "u64 \<Rightarrow> u64 \<Rightarrow> rat option res" where
  "fill_ratio maxb bytes =
     (let budget = dbl (dbl (of_nat (unat maxb)) * dbl (1 - reserve_percentage)) in
      if bytes = 0 then (if maxb = 0 then Inl AssertFailed else Inr None)
      else Inr (Some (dbl (budget / dbl (of_int (sint bytes))))))"

fun samples :: "world \<Rightarrow> (bytes keyref \<times> addr) list \<Rightarrow> int list res" where
  "samples w [] = Inr []"
| "samples w ((k, c) # is) = rbind (eread w c) (\<lambda>e. rbind (samples w is) (\<lambda>s. Inr (max (e_atime e) (e_mtime e) # s)))"

text \<open>\<open>nth_element\<close> puts the element of rank \<open>k\<close> at position \<open>k\<close>.\<close>

definition get_atime_cutoff :: "world \<Rightarrow> bytes opentable \<Rightarrow> int res" where
  "get_atime_cutoff w t =
     rbind (fill_ratio (max_bytes (wcache w)) (bytes_c (wcache w))) (\<lambda>p. case p of
       None \<Rightarrow> Inr 0
     | Some p \<Rightarrow>
         if p \<ge> 1 then Inr 0
         else
           rbind (samples w (take sample_size (citems_from t 0))) (\<lambda>s.
           let j = length s; q = dbl (dbl (of_nat j) * dbl (1 - p)); k = (if 0 \<le> q then \<lfloor>q\<rfloor> else \<lceil>q\<rceil>) in
           rbind (require (k \<ge> 0) AssertFailed) (\<lambda>_.
           rbind (require (k < int j) AssertFailed) (\<lambda>_.
           Inr (sort s ! nat k)))))"

definition entry_is_live :: "world \<Rightarrow> addr \<Rightarrow> int \<Rightarrow> int \<Rightarrow> bool res" where
  "entry_is_live w e cutoff now =
     rbind (newest (wnewer w) e) (\<lambda>a.
     rbind (eread w a) (\<lambda>c.
     Inr (if e_mtime c < flushed (wcache w) then False
          else if e_mtime c < cutoff \<and> e_atime c < cutoff then False
          else if e_exptime c \<noteq> 0 \<and> int (unat (e_exptime c)) < now then False
          else True)))"

section \<open>The three steps\<close>

text \<open>\<open>a\<close> is the address of the new table.\<close>

definition collect_begin :: "addr \<Rightarrow> world \<Rightarrow> (addr \<times> world) res" where
  "collect_begin a w =
     (let old = entries_p (wcache w) in
      rbind (tread w old) (\<lambda>t.
      let lg = (if dbl (of_nat (unat (usage_count t))) \<ge> dbl (of_nat (unat (tsize t)) * usage_grow_threshold)
                then lg2size t + 1 else lg2size t) in
      Inr (old, upd_cache (twrite w a (new_table lg)) (\<lambda>c. c\<lparr>building_p := a\<rparr>))))"

fun copy_live :: "env \<Rightarrow> addr \<Rightarrow> int \<Rightarrow> int \<Rightarrow> world \<Rightarrow> (bytes keyref \<times> addr) list \<Rightarrow> world res" where
  "copy_live v building cutoff now w [] = Inr w"
| "copy_live v building cutoff now w ((k, c) # is) =
     rbind (if c = 0 then Inr False else entry_is_live w c cutoff now) (\<lambda>live.
     if live then
       rbind (tread w building) (\<lambda>tb.
       rbind (add_shared tb k c) (\<lambda>(_, _, _, tb, rel).
       rbind (release_entries (v_cpu v) (twrite w building tb) rel) (\<lambda>w.
       copy_live v building cutoff now w is)))
     else copy_live v building cutoff now w is)"

definition collect_copy :: "env \<Rightarrow> addr \<Rightarrow> addr \<Rightarrow> world \<Rightarrow> world res" where
  "collect_copy v old building w =
     rbind (tread w old) (\<lambda>t.
     let now = v_now v in
     rbind (get_atime_cutoff w t) (\<lambda>cutoff.
     rbind (copy_live v building cutoff now w (citems_from t 0)) (\<lambda>w.
     Inr (upd_cache w (\<lambda>c. c\<lparr>entries_p := building, building_p := 0\<rparr>)))))"

text \<open>The loop over the buckets of the old table; it empties those it has visited.\<close>

fun take_over :: "env \<Rightarrow> addr \<Rightarrow> addr \<Rightarrow> world \<Rightarrow> nat list \<Rightarrow> world res" where
  "take_over v old building w [] = Inr w"
| "take_over v old building w (i # is) =
     rbind (tread w old) (\<lambda>t.
     case bkt_k (bucket t i) of
       None \<Rightarrow> take_over v old building w is
     | Some k \<Rightarrow>
         rbind (tread w building) (\<lambda>tb.
         rbind (exclusive tb k (get_ptr (bkt_v (bucket t i)))) (\<lambda>(tb, krel, vrel).
         rbind (release_keys (v_cpu v) (twrite w building tb) krel) (\<lambda>w.
         rbind (release_entries (v_cpu v) w vrel) (\<lambda>w.
         rbind (tread w old) (\<lambda>t.
         take_over v old building (twrite w old (reset_bucket t i)) is))))))"

text \<open>\<open>delete old\<close>: the destructor of every bucket deletes the key and the value it still has.\<close>

fun delete_buckets :: "world \<Rightarrow> bytes bucket_t list \<Rightarrow> world res" where
  "delete_buckets w [] = Inr w"
| "delete_buckets w (b # bs) =
     (let w = (case bkt_k b of None \<Rightarrow> w | Some k \<Rightarrow> cache_key_delete w k) in
      rbind (outcome (entry_destroy w (get_ptr (bkt_v b)))) (\<lambda>w. delete_buckets w bs))"

definition delete_table :: "addr \<Rightarrow> world \<Rightarrow> world res" where
  "delete_table a w =
     rbind (tread w a) (\<lambda>t.
     rbind (delete_buckets w (table t)) (\<lambda>w. Inr (w\<lparr>wtab := (wtab w)(a := None)\<rparr>)))"

definition collect_finish :: "env \<Rightarrow> addr \<Rightarrow> addr \<Rightarrow> world \<Rightarrow> world res" where
  "collect_finish v old building w =
     rbind (tread w old) (\<lambda>t.
     rbind (take_over v old building w [0..<length (table t)]) (\<lambda>w.
     delete_table old w))"

definition cache_delete :: "world \<Rightarrow> world res" where
  "cache_delete w = delete_table (entries_p (wcache w)) w"

text \<open>
  While the collecting thread waits in \<open>gc_flush\<close>, other threads run operations and pass checkpoints:
  \<open>ops\<close>, in this order. The waiter lives at stack address \<open>s\<close>. When not every registered thread passes
  a checkpoint, the flush does not return.
\<close>

definition flush_enter :: "env \<Rightarrow> addr \<Rightarrow> world \<Rightarrow> world res" where
  "flush_enter v s w = rbind (flush_begin (wgc w) (v_cpu v) s) (\<lambda>(ds, g). gc_finalize (w\<lparr>wgc := g\<rparr>) ds)"

definition flush_leave :: "addr \<Rightarrow> world \<Rightarrow> world res" where
  "flush_leave s w =
     rbind (require (flush_ready (wgc w) s) Diverges) (\<lambda>_.
     rbind (flush_end (wgc w) s) (\<lambda>g. Inr (w\<lparr>wgc := g\<rparr>)))"

definition collect_flush :: "env \<Rightarrow> addr \<Rightarrow> cop list \<Rightarrow> world \<Rightarrow> (creply list \<times> world) res" where
  "collect_flush v s ops w =
     rbind (flush_enter v s w) (\<lambda>w.
     rbind (run_res cexec w ops) (\<lambda>(rs, w).
     rbind (flush_leave s w) (\<lambda>w. Inr (rs, w))))"

text \<open>
  The part up to the first flush, the part after it, and the whole, with the replies the other threads
  got; the first part also yields the address of the old table.
\<close>

definition collect_first :: "env \<Rightarrow> addr \<Rightarrow> addr \<Rightarrow> cop list \<Rightarrow> world \<Rightarrow> (addr \<times> creply list \<times> world) res" where
  "collect_first v s a ops w =
     rbind (collect_begin a w) (\<lambda>(old, w).
     rbind (collect_flush v s ops w) (\<lambda>(rs, w). Inr (old, rs, w)))"

definition collect_rest :: "env \<Rightarrow> addr \<Rightarrow> addr \<Rightarrow> addr \<Rightarrow> cop list \<Rightarrow> world \<Rightarrow> (creply list \<times> world) res" where
  "collect_rest v s old a ops w =
     rbind (collect_copy v old a w) (\<lambda>w.
     rbind (collect_flush v s ops w) (\<lambda>(rs, w).
     rbind (collect_finish v old a w) (\<lambda>w. Inr (rs, w))))"

definition collect :: "env \<Rightarrow> addr \<Rightarrow> addr \<Rightarrow> cop list \<Rightarrow> cop list \<Rightarrow> world \<Rightarrow> (creply list \<times> world) res" where
  "collect v s a ops1 ops2 w =
     rbind (collect_first v s a ops1 w) (\<lambda>(old, rs1, w).
     rbind (collect_rest v s old a ops2 w) (\<lambda>(rs2, w). Inr (rs1 @ rs2, w)))"

end
