(* ===== verification/Collect_Refine.thy ===== *)
theory Collect_Refine
  imports Collect Cache_Refine
begin

text \<open>
  What \<open>collect\<close> does to a cache at rest. The invariant of the heap is kept by a flush, so it can be
  followed through the phases: the new table gets the live keys, with shared references to the
  entries of the old one; then it takes the references over, and what it lacks is released.
\<close>

section \<open>Flushes\<close>

text \<open>What a flush leaves as it was.\<close>

definition undisturbed :: "(bytes \<Rightarrow> addr) \<Rightarrow> (addr \<Rightarrow> addr list) \<Rightarrow> world \<Rightarrow> world \<Rightarrow> bool" where
  "undisturbed R own w w' \<longleftrightarrow>
     hmap R (wmem w') (went w') own = hmap R (wmem w) (went w) own \<and> (\<forall>k. R k \<noteq> 0 \<longrightarrow> went w' (R k) = went w (R k)) \<and>
     wtab w' = wtab w \<and> wcache w' = wcache w \<and> cpu_mask (wgc w') = cpu_mask (wgc w) \<and> cpu_count (wgc w') = cpu_count (wgc w)"

lemma undisturbed_refl: "undisturbed R own w w"
  by (simp add: undisturbed_def)

lemma undisturbed_trans: "undisturbed R own w w' \<Longrightarrow> undisturbed R own w' w'' \<Longrightarrow> undisturbed R own w w''"
  by (simp add: undisturbed_def)

abbreviation heap_ok :: "(bytes \<Rightarrow> addr) \<Rightarrow> bytes keyref set \<Rightarrow> (addr \<Rightarrow> addr list) \<Rightarrow> world \<Rightarrow> bool" where
  "heap_ok R K own w \<equiv> hinv R K (wmem w) (went w) (wnewer w) (wgc w) own"

lemma finalize_undisturbed:
  assumes i: "heap_ok R K own w" and g: "gc_kept (wgc w) ds g" "\<exists>tr. gc_run tr g"
    and c: "cpu_mask g = cpu_mask (wgc w)" "cpu_count g = cpu_count (wgc w)"
  obtains w' where "gc_finalize (w\<lparr>wgc := g\<rparr>) ds = Inr w'" "heap_ok R K own w'" "undisturbed R own w w'" "wgc w' = g"
proof -
  obtain w' where w': "gc_finalize (w\<lparr>wgc := g\<rparr>) ds = Inr w'" "heap_ok R K own w'"
      "hmap R (wmem w') (went w') own = hmap R (wmem w) (went w) own" "wgc w' = g" "wtab w' = wtab w" "wcache w' = wcache w"
      "went w' = went w |` (- set ds)"
    by (rule finalize_kept [OF i g])
  have "went w' (R k) = went w (R k)" if "R k \<noteq> 0" for k
    using hinvD(3) [OF w'(2) that] w'(7) by (auto simp: restrict_map_def split: if_splits)
  then show thesis using that w' c by (auto simp: undisturbed_def)
qed

text \<open>A waiter that has seen the threads \<open>C\<close>.\<close>

definition waiting :: "addr \<Rightarrow> nat set \<Rightarrow> gc_state \<Rightarrow> bool" where
  "waiting s C g \<longleftrightarrow> flushes g = s \<and> s \<noteq> 0 \<and> (\<exists>x. wheap g s = Some x \<and> w_next x = 0 \<and> (\<forall>c \<in> C. c < 64 \<longrightarrow> bit (w_seen x) c))"

lemma waiting_checkpoint:
  assumes "gc_run tr g" "c < cpu_count g" "gc_checkpoint g c = Inr (ds, g')" "waiting s C g"
  shows "waiting s (insert c C) g'"
proof -
  obtain x where x: "flushes g = s" "s \<noteq> 0" "wheap g s = Some x" "w_next x = 0" "\<forall>c \<in> C. c < 64 \<longrightarrow> bit (w_seen x) c"
    using assms(4) by (auto simp: waiting_def)
  note W = gc_checkpoint_waiter [OF gc_run_inv [OF assms(1)] assms(2,3) x(1-4)]
  show ?thesis using W x(2,4,5)
    by (auto simp: waiting_def bit_or_iff bit_push_bit_iff bit_1_iff simp del: push_bit_of_1)
qed

lemma run_checkpoints:
  assumes "heap_ok R K own w" "\<forall>c \<in> set cs. c < cpu_count (wgc w)" "waiting s C (wgc w)"
  obtains w' where "run_res cexec w (map OCheckpoint cs) = Inr (map (\<lambda>_. RDone) cs, w')" "heap_ok R K own w'" "undisturbed R own w w'"
    "waiting s (C \<union> set cs) (wgc w')"
proof -
  have "\<exists>w'. run_res cexec w (map OCheckpoint cs) = Inr (map (\<lambda>_. RDone) cs, w') \<and> heap_ok R K own w' \<and> undisturbed R own w w' \<and> waiting s (C \<union> set cs) (wgc w')"
    using assms
  proof (induction cs arbitrary: w C)
    case (Cons c cs)
    obtain tr where tr: "gc_run tr (wgc w)" using hinvD(5) [OF Cons.prems(1)] by blast
    have c: "c < cpu_count (wgc w)" using Cons.prems(2) by simp
    obtain ds g where g: "gc_checkpoint (wgc w) c = Inr (ds, g)" "gc_run (EvCheckpoint c # tr) g" "gc_kept (wgc w) ds g"
        "cpu_mask g = cpu_mask (wgc w)" "cpu_count g = cpu_count (wgc w)"
      by (rule checkpoint_kept [OF tr c])
    obtain w1 where w1: "gc_finalize (w\<lparr>wgc := g\<rparr>) ds = Inr w1" "heap_ok R K own w1" "undisturbed R own w w1" "wgc w1 = g"
      using finalize_undisturbed [OF Cons.prems(1) g(3) _ g(4,5)] g(2) by blast
    have "waiting s (insert c C) (wgc w1)" unfolding w1(4) by (rule waiting_checkpoint [OF tr c g(1) Cons.prems(3)])
    then obtain w' where "run_res cexec w1 (map OCheckpoint cs) = Inr (map (\<lambda>_. RDone) cs, w')" "heap_ok R K own w'" "undisturbed R own w1 w'"
        "waiting s (insert c C \<union> set cs) (wgc w')"
      using Cons.IH [OF w1(2), of "insert c C"] Cons.prems(2) g(5) w1(4) by auto
    moreover have "cache_checkpoint c w = Inr w1" using g(1) w1(1) by (simp add: cache_checkpoint_def)
    ultimately show ?case using undisturbed_trans [OF w1(3)] by auto
  qed (simp add: undisturbed_refl)
  then show thesis using that by blast
qed

text \<open>Every registered thread is the flushing one or passes a checkpoint while it waits.\<close>

definition all_pass :: "gc_state \<Rightarrow> nat \<Rightarrow> nat list \<Rightarrow> bool" where
  "all_pass g cpu cs \<longleftrightarrow> cpu < cpu_count g \<and> (\<forall>c \<in> set cs. c < cpu_count g) \<and>
     (\<forall>b. bit (cpu_mask g) b \<longrightarrow> b \<in> insert cpu (set cs))"

lemma flush_begin_kept:
  assumes "gc_run tr g" "cpu < cpu_count g" "flushes g = 0" "s \<noteq> 0"
  obtains ds g' where "flush_begin g cpu s = Inr (ds, g')" "\<exists>tr. gc_run tr g'" "gc_kept g ds g'" "waiting s {cpu} g'"
    "cpu_mask g' = cpu_mask g" "cpu_count g' = cpu_count g"
proof -
  obtain ds g1 where g: "gc_checkpoint g cpu = Inr (ds, g1)" "gc_kept g ds g1"
      "cpu_mask g1 = cpu_mask g" "cpu_count g1 = cpu_count g" "flushes g1 = flushes g"
    by (rule checkpoint_kept [OF assms(1,2)])
  let ?x = "\<lparr>w_seen = push_bit cpu 1, w_id = cpu, w_next = 0\<rparr>"
  define g0 where "g0 = (wwrite g1 s \<lparr>w_seen = 0, w_id = cpu, w_next = 0\<rparr>)\<lparr>flushes := s\<rparr>"
  let ?g = "g1\<lparr>wheap := (wheap g1)(s \<mapsto> ?x), flushes := s\<rparr>"
  have "waiter_checkpoint g0 s cpu = Some (Inr ?g)"
    using assms(4) by (subst waiter_checkpoint.simps) (simp add: g0_def wread_def wwrite_def Let_def del: push_bit_of_1)
  then have "checkpoint_locked g0 cpu = Inr ?g" using assms(4) by (simp add: checkpoint_locked_def) (simp add: g0_def assms(4))
  then have f: "flush_begin g cpu s = Inr (ds, ?g)"
    using g(1,5) assms(3) by (simp add: flush_begin_def wwrite_def Let_def g0_def del: push_bit_of_1)
  have "gc_run (EvFlushBegin cpu s # tr) ?g"
    by (rule gc_run_step [OF assms(1)]) (use f assms in \<open>simp_all del: push_bit_of_1\<close>)
  moreover have "gc_kept g ds ?g" using g(2) by (simp add: gc_kept_def)
  moreover have "waiting s {cpu} ?g"
    using assms(4) by (simp add: waiting_def bit_push_bit_iff bit_1_iff del: push_bit_of_1)
  ultimately show thesis using that [OF f] g(3,4) by (auto simp del: push_bit_of_1)
qed

lemma bit_64: "bit (w :: u64) b \<Longrightarrow> b < 64"
  using bit_imp_le_length [of w b] by simp

lemma flush_enter_ok:
  assumes i: "heap_ok R K own w" and p: "v_cpu v < cpu_count (wgc w)" "flushes (wgc w) = 0" "s \<noteq> 0"
  obtains w' where "flush_enter v s w = Inr w'" "heap_ok R K own w'" "undisturbed R own w w'" "waiting s {v_cpu v} (wgc w')"
proof -
  obtain tr where tr: "gc_run tr (wgc w)" using hinvD(5) [OF i] by blast
  obtain ds g where g: "flush_begin (wgc w) (v_cpu v) s = Inr (ds, g)" "\<exists>tr. gc_run tr g" "gc_kept (wgc w) ds g" "waiting s {v_cpu v} g"
      "cpu_mask g = cpu_mask (wgc w)" "cpu_count g = cpu_count (wgc w)"
    by (rule flush_begin_kept [OF tr p])
  obtain w1 where w1: "gc_finalize (w\<lparr>wgc := g\<rparr>) ds = Inr w1" "heap_ok R K own w1" "undisturbed R own w w1" "wgc w1 = g"
    by (rule finalize_undisturbed [OF i g(3,2,5,6)])
  then show thesis using that [of w1] g(1,4) by (simp add: flush_enter_def)
qed

lemma flush_leave_ok:
  assumes i: "heap_ok R K own w" and p: "waiting s C (wgc w)" "\<And>b. bit (cpu_mask (wgc w)) b \<Longrightarrow> b \<in> C"
  obtains g where "flush_leave s w = Inr (w\<lparr>wgc := g\<rparr>)" "heap_ok R K own (w\<lparr>wgc := g\<rparr>)" "undisturbed R own w (w\<lparr>wgc := g\<rparr>)" "flushes g = 0"
proof -
  obtain x where x: "flushes (wgc w) = s" "s \<noteq> 0" "wheap (wgc w) s = Some x" "w_next x = 0" "\<forall>c \<in> C. c < 64 \<longrightarrow> bit (w_seen x) c"
    using p(1) by (auto simp: waiting_def)
  have "bit (cpu_mask (wgc w)) b \<longrightarrow> bit (w_seen x) b" for b
    using p(2) [of b] x(5) bit_64 [of "cpu_mask (wgc w)" b] by blast
  then have ready: "flush_ready (wgc w) s" using x(3) by (simp add: flush_ready_def cpu_seen_all_iff)
  let ?g = "(wgc w)\<lparr>flushes := 0, wheap := (wheap (wgc w))(s := None)\<rparr>"
  have e: "flush_end (wgc w) s = Inr ?g" using x(2-4) by (simp add: flush_end_def wread_def)
  obtain tr where tr: "gc_run tr (wgc w)" using hinvD(5) [OF i] by blast
  have "gc_run (EvFlushEnd s # tr) ?g" by (rule gc_run_step [OF tr]) (use e x(1,2) ready in simp_all)
  then have "heap_ok R K own (w\<lparr>wgc := ?g\<rparr>)"
    using hinv_gc [OF i, of ?g] hinvD(1) [OF i] by (auto simp: unsched_def entry_inv_def)
  moreover have "undisturbed R own w (w\<lparr>wgc := ?g\<rparr>)" by (simp add: undisturbed_def)
  moreover have "flush_leave s w = Inr (w\<lparr>wgc := ?g\<rparr>)" using ready e by (simp add: flush_leave_def)
  ultimately show thesis using that by simp
qed

text \<open>A flush during which the other threads only pass checkpoints.\<close>

lemma collect_flush_ok:
  assumes i: "heap_ok R K own w" and p: "all_pass (wgc w) (v_cpu v) cs" "flushes (wgc w) = 0" "s \<noteq> 0"
  obtains w' where "collect_flush v s (map OCheckpoint cs) w = Inr (map (\<lambda>_. RDone) cs, w')" "heap_ok R K own w'" "undisturbed R own w w'"
proof -
  have cpu: "v_cpu v < cpu_count (wgc w)" using p(1) by (simp add: all_pass_def)
  obtain w1 where w1: "flush_enter v s w = Inr w1" "heap_ok R K own w1" "undisturbed R own w w1" "waiting s {v_cpu v} (wgc w1)"
    by (rule flush_enter_ok [OF i cpu p(2,3)])
  have "\<forall>c \<in> set cs. c < cpu_count (wgc w1)" using p(1) w1(3) by (simp add: all_pass_def undisturbed_def)
  then obtain w2 where w2: "run_res cexec w1 (map OCheckpoint cs) = Inr (map (\<lambda>_. RDone) cs, w2)" "heap_ok R K own w2"
      "undisturbed R own w1 w2" "waiting s ({v_cpu v} \<union> set cs) (wgc w2)"
    using run_checkpoints [OF w1(2) _ w1(4)] by blast
  have u: "undisturbed R own w w2" by (rule undisturbed_trans [OF w1(3) w2(3)])
  have "bit (cpu_mask (wgc w2)) b \<Longrightarrow> b \<in> {v_cpu v} \<union> set cs" for b
    using p(1) u by (simp add: all_pass_def undisturbed_def)
  then obtain g where g: "flush_leave s w2 = Inr (w2\<lparr>wgc := g\<rparr>)" "heap_ok R K own (w2\<lparr>wgc := g\<rparr>)" "undisturbed R own w2 (w2\<lparr>wgc := g\<rparr>)"
    using flush_leave_ok [OF w2(2,4)] by blast
  show thesis
    by (rule that [OF _ g(2) undisturbed_trans [OF u g(3)]]) (use w1(1) w2(1) g(1) in \<open>simp add: collect_flush_def\<close>)
qed

section \<open>Copying\<close>

text \<open>
  The table that is built takes over from the old one, \<open>t\<close>. For the names in \<open>V\<close> it has done so: a key
  it has refers to its entry alone, any other is gone. The references of all other keys it has are shared.
\<close>

definition taking :: "bytes opentable \<Rightarrow> bytes opentable \<Rightarrow> bytes set \<Rightarrow> bool" where
  "taking t tb V \<longleftrightarrow> table_inv tb \<and> keyrefs tb \<subseteq> keyrefs t \<and>
     (\<forall>k. vref tb k = (if \<not> has_key tb k then 0 else if k \<in> V then vref t k else tagged (vref t k) True))"

text \<open>Whether \<open>collect\<close> keeps the entry at \<open>c\<close>.\<close>

definition is_live :: "world \<Rightarrow> int \<Rightarrow> int \<Rightarrow> addr \<Rightarrow> bool" where
  "is_live w cutoff now c \<longleftrightarrow>
     (let e = the (went w c) in
      \<not> e_mtime e < flushed (wcache w) \<and> \<not> (e_mtime e < cutoff \<and> e_atime e < cutoff) \<and>
      \<not> (e_exptime e \<noteq> 0 \<and> int (unat (e_exptime e)) < now))"

lemma newest_ok: "nw a = Some fp_null \<Longrightarrow> a \<noteq> 0 \<Longrightarrow> aligned a \<Longrightarrow> newest nw a = Inr a"
proof -
  assume "nw a = Some fp_null" "a \<noteq> 0" "aligned a"
  then have "versions nw a [a] False" by (simp add: versions_def fp_null_def)
  then show ?thesis using newest_versions [of nw a "[a]" False] by (simp add: current_def)
qed

lemma hinv_entry:
  assumes "hinv R K h ent nw g own" "R k \<noteq> 0"
  obtains e where "ent (R k) = Some e" "aligned (R k)" "newest nw (R k) = Inr (R k)" "unsched g (R k)"
proof -
  obtain e where e: "ent (R k) = Some e" "unsched g (R k)" using hinvD(3) [OF assms] by auto
  have i: "entry_inv h nw g own (R k) e" by (rule hinvD(1) [OF assms(1) e(1)])
  then show thesis using that [OF e(1) _ _ e(2)] newest_ok [of nw "R k"] assms(2) by (simp add: entry_inv_def)
qed

lemma entry_is_live_ok:
  assumes "heap_ok R K own w" "R k \<noteq> 0"
  shows "entry_is_live w (R k) cutoff now = Inr (is_live w cutoff now (R k))"
proof -
  obtain e where "went w (R k) = Some e" "newest (wnewer w) (R k) = Inr (R k)" by (rule hinv_entry [OF assms])
  then show ?thesis using assms(2) by (simp add: entry_is_live_def eread_def is_live_def Let_def)
qed

lemma taking_add:
  assumes k: "taking t tb {}" "key \<in> keyrefs t" "c = vref t (snd key)" "c \<noteq> 0" "aligned c"
    and a: "add_impl tb key (tagged c True) = (ok, cur, cv, tb', rel)"
  shows "taking t tb' {}" "same_config tb tb'" "rel = []" "\<And>k. has_key tb k \<Longrightarrow> has_key tb' k"
    "\<And>k. has_key tb' k \<Longrightarrow> has_key tb k \<or> k = snd key" "has_key tb' (snd key) \<or> no_room tb' (snd key)"
proof -
  have inv: "table_inv tb" and kr: "keyrefs tb \<subseteq> keyrefs t"
    and vr: "\<And>k. vref tb k = (if \<not> has_key tb k then 0 else tagged (vref t k) True)"
    using k(1) by (simp_all add: taking_def)
  have v: "valid_ref (tagged c True)" "tagged c True \<noteq> 0" using valid_ref_tagged [OF k(5,4)] valid_ref_nonzero by blast+
  have kr': "keyrefs tb' \<subseteq> keyrefs t" using keyrefs_add [OF inv a v(2)] kr k(2) by auto
  have "taking t tb' {} \<and> same_config tb tb' \<and> rel = [] \<and> (\<forall>k. has_key tb k \<longrightarrow> has_key tb' k) \<and>
    (\<forall>k. has_key tb' k \<longrightarrow> has_key tb k \<or> k = snd key) \<and> (has_key tb' (snd key) \<or> no_room tb' (snd key))"
  proof (cases cur)
    case None
    then show ?thesis using add_impl_full [OF inv a [unfolded None]] tkeys_add(2) [OF inv a v(2)] k(1) by auto
  next
    case (Some cu)
    note A = add_impl_ok [OF inv v(1) a [unfolded Some]]
    have "vref tb' j = (if \<not> has_key tb' j then 0 else tagged (vref t j) True)" for j
      using A(3) unfolding A(5,6) vr using v(2) k(3) by auto
    then show ?thesis using A kr' by (auto simp: taking_def)
  qed
  then show "taking t tb' {}" "same_config tb tb'" "rel = []" "\<And>k. has_key tb k \<Longrightarrow> has_key tb' k"
    "\<And>k. has_key tb' k \<Longrightarrow> has_key tb k \<or> k = snd key" "has_key tb' (snd key) \<or> no_room tb' (snd key)" by blast+
qed

text \<open>What the loop over the old table makes of the new one.\<close>

definition copied :: "bytes opentable \<Rightarrow> bytes opentable \<Rightarrow> bytes set \<Rightarrow> bytes opentable \<Rightarrow> bool" where
  "copied t tb L tb' \<longleftrightarrow> taking t tb' {} \<and> same_config tb tb' \<and> (\<forall>k. has_key tb k \<longrightarrow> has_key tb' k) \<and>
     (\<forall>k. has_key tb' k \<longrightarrow> has_key tb k \<or> k \<in> L) \<and> (\<forall>k \<in> L. has_key tb' k \<or> no_room tb' k) \<and>
     (\<forall>j. tkeys tb ! j \<noteq> None \<longrightarrow> tkeys tb' ! j \<noteq> None)"

lemma twrite_twrite [simp]: "twrite (twrite w a t) a t' = twrite w a t'"
  by (simp add: twrite_def)

lemma twrite_idem: "wtab w a = Some t \<Longrightarrow> twrite w a t = w"
  by (simp add: twrite_def fun_upd_idem)

lemma is_live_twrite [simp]: "is_live (twrite w a t) = is_live w"
  by (simp add: is_live_def fun_eq_iff twrite_def)

definition live_names :: "world \<Rightarrow> int \<Rightarrow> int \<Rightarrow> (bytes keyref \<times> addr) list \<Rightarrow> bytes set" where
  "live_names w cutoff now is = (\<lambda>(key, c). snd key) ` {x \<in> set is. snd x \<noteq> 0 \<and> is_live w cutoff now (snd x)}"

lemma live_names_Nil [simp]: "live_names w cutoff now [] = {}"
  by (simp add: live_names_def)

lemma live_names_Cons:
  "live_names w cutoff now ((key, c) # is) =
     (if c \<noteq> 0 \<and> is_live w cutoff now c then insert (snd key) (live_names w cutoff now is) else live_names w cutoff now is)"
  by (auto simp: live_names_def)

lemma live_names_twrite [simp]: "live_names (twrite w a t) = live_names w"
  by (simp add: live_names_def fun_eq_iff)

lemma copy_live_ok:
  assumes "heap_ok (vref t) K own w" "wtab w a = Some tb" "a \<noteq> 0" "taking t tb {}"
    "\<forall>(key, c) \<in> set is. key \<in> keyrefs t \<and> c = vref t (snd key)"
  obtains tb' where "copy_live v a cutoff now w is = Inr (twrite w a tb')"
    "copied t tb (live_names w cutoff now is) tb'"
proof -
  have "\<exists>tb'. copy_live v a cutoff now w is = Inr (twrite w a tb') \<and>
    copied t tb (live_names w cutoff now is) tb'"
    using assms(1,2,4,5)
  proof (induction "is" arbitrary: w tb)
    case Nil
    then show ?case using twrite_idem by (auto simp: copied_def intro!: exI [of _ tb])
  next
    case (Cons kc "is")
    obtain key c where kc: "kc = (key, c)" by (cases kc)
    have c: "key \<in> keyrefs t" "c = vref t (snd key)" using Cons.prems(4) unfolding kc by fastforce+
    have li: "c \<noteq> 0 \<Longrightarrow> entry_is_live w c cutoff now = Inr (is_live w cutoff now c)"
      using entry_is_live_ok [OF Cons.prems(1), of "snd key"] c(2) by simp
    show ?case
    proof (cases "c \<noteq> 0 \<and> is_live w cutoff now c")
      case False
      obtain tb' where "copy_live v a cutoff now w is = Inr (twrite w a tb')"
          "copied t tb (live_names w cutoff now is) tb'"
        using Cons.IH [OF Cons.prems(1-3)] Cons.prems(4) by auto
      moreover have "live_names w cutoff now (kc # is) = live_names w cutoff now is" using False by (auto simp: kc live_names_Cons)
      ultimately show ?thesis using li False by (auto simp: kc)
    next
      case True
      have al: "aligned c" using hinv_entry [OF Cons.prems(1), of "snd key"] c(2) True by metis
      obtain ok cur cv tb1 rel where ai: "add_impl tb key (tagged c True) = (ok, cur, cv, tb1, rel)"
        by (cases "add_impl tb key (tagged c True)") auto
      note A = taking_add [OF Cons.prems(3) c conjunct1 [OF True] al ai]
      let ?w = "twrite w a tb1"
      have "heap_ok (vref t) K own ?w" "wtab ?w a = Some tb1" using Cons.prems(1) by simp_all
      from Cons.IH [OF this A(1)] obtain tb' where tb': "copy_live v a cutoff now ?w is = Inr (twrite w a tb')"
          "copied t tb1 (live_names w cutoff now is) tb'"
        using Cons.prems(4) by auto
      have "copy_live v a cutoff now w (kc # is) = Inr (twrite w a tb')"
        using li True Cons.prems(2) assms(3) A(3) tb'(1) by (simp add: kc tread_Some add_shared_def ai)
      moreover have "tkeys tb ! j \<noteq> None \<Longrightarrow> tkeys tb1 ! j \<noteq> None" for j
        using tkeys_add(1) [OF _ ai, of j] Cons.prems(3) valid_ref_nonzero [OF valid_ref_tagged [OF al conjunct1 [OF True]]] by (simp add: taking_def)
      moreover have "live_names w cutoff now (kc # is) = insert (snd key) (live_names w cutoff now is)"
        using True by (simp add: kc live_names_Cons)
      ultimately show ?thesis
        using tb'(2) A(2,4-6) no_room_mono [of tb1 "snd key" tb'] same_config_trans [OF A(2)]
        by (intro exI [of _ tb']) (simp add: copied_def, blast)
    qed
  qed
  then show thesis using that by blast
qed

section \<open>Taking over\<close>

text \<open>
  What the loop over the old table leaves when it has visited the names \<open>V\<close>: the entries and key
  objects of the visited names that the new table lacks are released.
\<close>

definition rest :: "bytes opentable \<Rightarrow> bytes opentable \<Rightarrow> bytes set \<Rightarrow> bytes \<Rightarrow> addr" where
  "rest t tb V k = (if k \<in> V \<and> \<not> has_key tb k then 0 else vref t k)"

definition rest_keys :: "bytes opentable \<Rightarrow> bytes opentable \<Rightarrow> bytes set \<Rightarrow> bytes keyref set" where
  "rest_keys t tb V = {key \<in> keyrefs t. snd key \<in> V \<longrightarrow> has_key tb (snd key)}"

text \<open>Releasing changes the byte count and the collector only.\<close>

definition released :: "world \<Rightarrow> world \<Rightarrow> bool" where
  "released w w' \<longleftrightarrow> wmem w' = wmem w \<and> went w' = went w \<and> wnewer w' = wnewer w \<and> wtab w' = wtab w \<and>
     (wcache w')\<lparr>bytes_c := 0\<rparr> = (wcache w)\<lparr>bytes_c := 0\<rparr> \<and> cpu_count (wgc w') = cpu_count (wgc w)"

lemma heap_cpus:
  assumes "heap_ok R K own w" "c < cpu_count (wgc w)"
  shows "c < MAX_CPUS"
proof -
  obtain tr where "gc_inv tr (wgc w)" using hinvD(5) [OF assms(1)] gc_run_inv by blast
  then show ?thesis using assms(2) by (simp add: gc_inv_def MAX_CPUS_def)
qed

lemma key_release_ok:
  assumes "heap_ok R K own w" "key \<in> K" "c < cpu_count (wgc w)"
  obtains w' where "key_release c w key = Inr w'" "heap_ok R (K - {key}) own w'" "released w w'"
    "\<And>b. b \<noteq> fst key \<Longrightarrow> unsched (wgc w') b = unsched (wgc w) b"
proof -
  obtain tr where tr: "gc_run tr (wgc w)" using hinvD(5) [OF assms(1)] by blast
  have k: "fst key \<notin> dom (went w)" "unsched (wgc w) (fst key)" using hinvD(6) [OF assms(1,2)] by simp_all
  obtain g where g: "gc_free (wgc w) c (fst key) = Inr g" "gc_run (EvFree c (fst key) # tr) g" "cpu_count g = cpu_count (wgc w)"
      "\<And>b. gheap g b = None \<longleftrightarrow> gheap (wgc w) b = None" "\<And>b. b \<noteq> fst key \<Longrightarrow> unsched g b = unsched (wgc w) b"
    using gc_free_run [OF tr k(2) heap_cpus [OF assms(1,3)]] by blast
  have "hinv R (K - {key}) (wmem w) (went w) (wnewer w) g own"
  proof (rule hinvI)
    show "entry_inv (wmem w) (wnewer w) g own b e" if "went w b = Some e" for b e
      using hinvD(1) [OF assms(1) that] g(4) by (simp add: entry_inv_def)
    show "R k \<in> dom (went w) \<and> unsched g (R k)" if "R k \<noteq> 0" for k
      using hinvD(3) [OF assms(1) that] g(5) k(1) by metis
    show "fst j \<notin> dom (went w) \<and> unsched g (fst j)" if "j \<in> K - {key}" for j
      using that hinvD(6) [OF assms(1), of j] g(5) [of "fst j"] inj_onD [OF hinvD(7) [OF assms(1)], of j key] assms(2) by auto
    show "R k = R k' \<Longrightarrow> k = k'" if "R k \<noteq> 0" for k k' by (rule hinvD(4) [OF assms(1) that])
    show "inj_on fst (K - {key})" by (rule inj_on_subset [OF hinvD(7) [OF assms(1)]]) blast
  qed (use hinvD [OF assms(1)] g(2) in blast)+
  then show thesis using that [of "w\<lparr>wgc := g\<rparr>"] g(1,3,5) by (simp add: key_release_def released_def)
qed

lemma released_trans: "released w w' \<Longrightarrow> released w' w'' \<Longrightarrow> released w w''"
  by (auto simp: released_def)

lemma hinv_unbind:
  assumes "hinv R K h ent nw g own" "\<And>k'. R' k' = (if k' = k then 0 else R k')"
  shows "hinv R' K h ent nw g own"
  by (rule hinv_bind [OF assms(1), of _ k 0]) (simp_all add: assms(2))

text \<open>The key and the entry of one name are released.\<close>

lemma release_both_ok:
  assumes i: "heap_ok R K own w" and k: "key \<in> K" "c = R (snd key)" "c \<noteq> 0" and cpu: "cpu < cpu_count (wgc w)"
  obtains w1 w2 where "release_keys cpu w [key] = Inr w1" "release_entries cpu w1 [c] = Inr w2"
    "heap_ok (R(snd key := 0)) (K - {key}) own w2" "released w w2"
proof -
  have d: "c \<in> dom (went w)" "unsched (wgc w) c" using hinvD(3) [OF i, of "snd key"] k(2,3) by simp_all
  have f: "fst key \<notin> dom (went w)" using hinvD(6) [OF i k(1)] by simp
  obtain w1 where w1: "key_release cpu w key = Inr w1" "heap_ok R (K - {key}) own w1" "released w w1"
      "\<And>b. b \<noteq> fst key \<Longrightarrow> unsched (wgc w1) b = unsched (wgc w) b"
    using key_release_ok [OF i k(1) cpu] by blast
  have i1: "heap_ok (R(snd key := 0)) (K - {key}) own w1" by (rule hinv_unbind [OF w1(2)]) simp
  have u: "unsched (wgc w1) c" using w1(4) [of c] d f by metis
  have n: "(R(snd key := 0)) j \<noteq> c" for j
    using hinvD(4) [OF i, of "snd key" j] unfolding k(2) [symmetric] using k(3) by (cases "j = snd key") auto
  have d1: "c \<in> dom (went w1)" "cpu < cpu_count (wgc w1)" using w1(3) d(1) cpu by (simp_all add: released_def)
  have "\<exists>w2. entry_release cpu w1 c = Inr w2 \<and> heap_ok (R(snd key := 0)) (K - {key}) own w2 \<and> released w1 w2"
    by (rule entry_release_ok [OF i1 d1(1) u n heap_cpus [OF w1(2) d1(2)]]) (simp add: released_def fun_upd_def)
  then obtain w2 where "entry_release cpu w1 c = Inr w2" "heap_ok (R(snd key := 0)) (K - {key}) own w2" "released w1 w2"
    by blast
  then show thesis using that [of w1 w2] w1(1) released_trans [OF w1(3)] by simp
qed

text \<open>One bucket of the old table.\<close>

lemma exclusive_props:
  assumes "table_inv t" "aligned v"
  shows "\<exists>t' krel vrel. exclusive t k v = Inr (t', krel, vrel) \<and> table_inv t' \<and> same_config t t' \<and>
    (\<forall>j. has_key t' j \<longleftrightarrow> has_key t j) \<and>
    (\<forall>j. vref t' j = (if j = snd k \<and> v \<noteq> 0 \<and> vref t j = tagged v True then v else vref t j)) \<and>
    vrel = (if \<not> has_key t (snd k) \<or> v \<noteq> 0 \<and> vref t (snd k) \<noteq> tagged v True then [v] else [])"
  by (rule exclusive_total [OF assms, of k], intro exI conjI allI, assumption, simp_all)

lemma bucket_vref:
  assumes "table_inv t" "i < 2 ^ lg2size t" "bkt_k (bucket t i) = Some key"
  shows "vref t (snd key) = bkt_v (bucket t i)" "key \<in> keyrefs t"
  using assms nth_tkeys [OF assms(1,2)] by (auto intro!: vref_bucket simp: find_bucket_iff keyrefs_bucket)

lemma take_over_step:
  assumes t: "table_inv t" "key \<in> keyrefs t" "c = vref t (snd key)" "c \<noteq> 0" "snd key \<notin> V"
    and tk: "taking t tb V" and i: "heap_ok (rest t tb V) (rest_keys t tb V) own w" and cpu: "cpu < cpu_count (wgc w)"
  obtains tb' krel vrel w1 w2 where "exclusive tb key c = Inr (tb', krel, vrel)" "taking t tb' (insert (snd key) V)"
    "tkeys tb' = tkeys tb" "same_config tb tb'"
    "release_keys cpu (twrite w a tb') krel = Inr w1" "release_entries cpu w1 vrel = Inr w2"
    "heap_ok (rest t tb' (insert (snd key) V)) (rest_keys t tb' (insert (snd key) V)) own w2" "released (twrite w a tb') w2"
proof -
  have inv: "table_inv tb" and kr: "keyrefs tb \<subseteq> keyrefs t"
    and vr: "\<And>k. vref tb k = (if \<not> has_key tb k then 0 else if k \<in> V then vref t k else tagged (vref t k) True)"
    using tk by (simp_all add: taking_def)
  have r: "rest t tb V (snd key) = c" using t(3,5) by (simp add: rest_def)
  have al: "aligned c" using hinv_entry [OF i, of "snd key"] r t(4) by metis
  obtain tb' krel vrel where e: "exclusive tb key c = Inr (tb', krel, vrel)" "table_inv tb'" "same_config tb tb'"
      "\<And>k. has_key tb' k \<longleftrightarrow> has_key tb k"
      "\<And>k. vref tb' k = (if k = snd key \<and> c \<noteq> 0 \<and> vref tb k = tagged c True then c else vref tb k)"
      "vrel = (if \<not> has_key tb (snd key) \<or> c \<noteq> 0 \<and> vref tb (snd key) \<noteq> tagged c True then [c] else [])"
    using exclusive_props [OF inv al, of key] by blast
  note own = exclusive_own_key [OF inv e(1)]
  have tk': "taking t tb' (insert (snd key) V)"
    using e(2) kr keyrefs_exclusive [OF e(1)] t(3-5) vr valid_ref_nonzero [OF valid_ref_tagged [OF al t(4), of True]]
    by (auto simp: taking_def e(4,5))
  have rk: "rest t tb' V = rest t tb V" "rest_keys t tb' V = rest_keys t tb V" for V
    by (simp_all add: rest_def rest_keys_def e(4) fun_eq_iff)
  have i': "heap_ok (rest t tb V) (rest_keys t tb V) own (twrite w a tb')" using i by simp
  show thesis
  proof (cases "has_key tb (snd key)")
    case True
    then obtain b where "(b, snd key) \<in> keyrefs tb" using has_key_keyrefs [OF inv] by blast
    then have "key \<in> keyrefs tb" using keyrefs_unique [OF t(1), of b "snd key" "fst key"] kr t(2) by auto
    then have "krel = []" by (rule own(1))
    moreover have "vrel = []" using e(6) True vr t(3,5) by simp
    moreover have "rest t tb (insert (snd key) V) = rest t tb V" "rest_keys t tb (insert (snd key) V) = rest_keys t tb V"
      using True by (auto simp: rest_def rest_keys_def)
    ultimately show thesis
      using i' by (intro that [OF e(1) tk' own(3,4), of "twrite w a tb'" "twrite w a tb'"]) (auto simp: rk released_def)
  next
    case False
    have kv: "krel = [key]" "vrel = [c]" using own(2) False by simp_all
    have K: "key \<in> rest_keys t tb V" using t(2,5) by (simp add: rest_keys_def)
    have u: "j \<in> keyrefs t \<Longrightarrow> snd j = snd key \<Longrightarrow> j = key" for j
      using keyrefs_unique [OF t(1), of "fst j" "snd key" "fst key"] t(2) by (metis prod.collapse)
    have "rest t tb (insert (snd key) V) = (rest t tb V)(snd key := 0)" using False by (auto simp: rest_def)
    moreover have "rest_keys t tb (insert (snd key) V) = rest_keys t tb V - {key}"
      unfolding rest_keys_def using False u by blast
    moreover have cpu': "cpu < cpu_count (wgc (twrite w a tb'))" using cpu by simp
    ultimately show thesis
      using release_both_ok [OF i' K r [symmetric] t(4) cpu'] that [OF e(1) tk' own(3,4)] unfolding kv rk by metis
  qed
qed

text \<open>The names in the buckets \<open>is\<close>.\<close>

definition names_at :: "bytes opentable \<Rightarrow> nat list \<Rightarrow> bytes set" where
  "names_at t is = {snd key | key i. i \<in> set is \<and> bkt_k (bucket t i) = Some key}"

lemma names_at_Cons:
  "names_at t (i # is) = (case bkt_k (bucket t i) of None \<Rightarrow> names_at t is | Some key \<Rightarrow> insert (snd key) (names_at t is))"
  by (auto simp: names_at_def split: option.splits)

lemma empty_key_empty_bucket:
  assumes "table_inv t" "i < 2 ^ lg2size t" "bkt_k (bucket t i) = None"
  shows "bucket t i = empty_bucket"
  using table_invD(9) [OF assms(1,2)] assms(3) by (cases "bucket t i") (simp add: bucket_ok_def empty_bucket_def fp_null_def)

lemma bucket_reset: "i < length (table t) \<Longrightarrow> bucket (reset_bucket t i) j = (if j = i then empty_bucket else bucket t j)"
  by (auto simp: reset_bucket_def upd_bucket_def bucket_def)

lemma length_reset [simp]: "length (table (reset_bucket t i)) = length (table t)"
  by (simp add: reset_bucket_def upd_bucket_def)

text \<open>The tables after the loop, with their new contents \<open>to\<close> and \<open>tb\<close>.\<close>

definition moved :: "addr \<Rightarrow> addr \<Rightarrow> bytes opentable \<Rightarrow> bytes opentable \<Rightarrow> world \<Rightarrow> world \<Rightarrow> bool" where
  "moved old a to tb w w' \<longleftrightarrow> released (w\<lparr>wtab := (wtab w)(old \<mapsto> to, a \<mapsto> tb)\<rparr>) w'"

lemma moved_simps:
  assumes "moved old a to tb w w'"
  shows "wmem w' = wmem w" "went w' = went w" "wnewer w' = wnewer w" "wtab w' = (wtab w)(old \<mapsto> to, a \<mapsto> tb)"
    "(wcache w')\<lparr>bytes_c := 0\<rparr> = (wcache w)\<lparr>bytes_c := 0\<rparr>" "cpu_count (wgc w') = cpu_count (wgc w)"
  using assms by (simp_all add: moved_def released_def)

lemma moved_step:
  assumes "released (twrite w a tb) w1" "moved old a to' tb' (twrite w1 old to) w'" "old \<noteq> a"
  shows "moved old a to' tb' w w'"
  using assms by (simp add: moved_def released_def fun_upd_twist)

lemma take_over_ok:
  assumes t: "table_inv t" and a: "old \<noteq> a" "old \<noteq> 0" "a \<noteq> 0"
    and w: "wtab w old = Some to" "wtab w a = Some tb" "taking t tb V"
      "heap_ok (rest t tb V) (rest_keys t tb V) own w" "v_cpu v < cpu_count (wgc w)"
    and "is": "distinct is" "length (table to) = 2 ^ lg2size t"
      "\<forall>i \<in> set is. i < 2 ^ lg2size t \<and> bucket to i = bucket t i" "V \<inter> names_at t is = {}"
      "\<forall>k \<in> names_at t is. vref t k \<noteq> 0"
  shows "\<exists>to' tb' w'. take_over v old a w is = Inr w' \<and> moved old a to' tb' w w' \<and>
    length (table to') = 2 ^ lg2size t \<and> (\<forall>j. bucket to' j = (if j \<in> set is then empty_bucket else bucket to j)) \<and>
    taking t tb' (V \<union> names_at t is) \<and> tkeys tb' = tkeys tb \<and> same_config tb tb' \<and>
    heap_ok (rest t tb' (V \<union> names_at t is)) (rest_keys t tb' (V \<union> names_at t is)) own w'"
  using w "is"
proof (induction "is" arbitrary: w to tb V)
  case Nil
  have "w\<lparr>wtab := (wtab w)(old \<mapsto> to, a \<mapsto> tb)\<rparr> = w" using Nil.prems(1,2) by (simp add: fun_upd_idem)
  then have "moved old a to tb w w" by (simp add: moved_def released_def)
  then show ?case using Nil.prems by (intro exI [of _ to] exI [of _ tb] exI [of _ w]) (simp add: names_at_def)
next
  case (Cons i "is")
  have bi: "i < 2 ^ lg2size t" "bucket to i = bucket t i" "i \<notin> set is" using Cons.prems(6,8) by simp_all
  have ro: "tread w old = Inr to" using Cons.prems(1) a(2) by (simp add: tread_Some)
  show ?case
  proof (cases "bkt_k (bucket t i)")
    case None
    have e: "bucket to i = empty_bucket" using bi(2) empty_key_empty_bucket [OF t bi(1) None] by simp
    have n: "names_at t (i # is) = names_at t is" using None by (simp add: names_at_Cons)
    have "take_over v old a w (i # is) = take_over v old a w is" using None bi(2) ro by simp
    moreover obtain to' tb' w' where "take_over v old a w is = Inr w'" "moved old a to' tb' w w'"
        "length (table to') = 2 ^ lg2size t" "\<forall>j. bucket to' j = (if j \<in> set is then empty_bucket else bucket to j)"
        "taking t tb' (V \<union> names_at t is)" "tkeys tb' = tkeys tb" "same_config tb tb'"
        "heap_ok (rest t tb' (V \<union> names_at t is)) (rest_keys t tb' (V \<union> names_at t is)) own w'"
      using Cons.IH [OF Cons.prems(1-5)] Cons.prems(6-10) n by auto
    ultimately show ?thesis unfolding n using e by (intro exI [of _ to'] exI [of _ tb'] exI [of _ w']) auto
  next
    case (Some key)
    note K = bucket_vref [OF t bi(1) Some]
    let ?c = "vref t (snd key)"
    have n: "names_at t (i # is) = insert (snd key) (names_at t is)" using Some by (simp add: names_at_Cons)
    have c: "?c \<noteq> 0" using Cons.prems(10) n by simp
    have kV: "snd key \<notin> V" using Cons.prems(9) n by auto
    have "rest t tb V (snd key) = ?c" using kV by (simp add: rest_def)
    then have al: "aligned ?c" using hinv_entry [OF Cons.prems(4), of "snd key"] c by metis
    obtain tb1 krel vrel w1 w2 where S: "exclusive tb key ?c = Inr (tb1, krel, vrel)" "taking t tb1 (insert (snd key) V)"
        "tkeys tb1 = tkeys tb" "same_config tb tb1"
        "release_keys (v_cpu v) (twrite w a tb1) krel = Inr w1" "release_entries (v_cpu v) w1 vrel = Inr w2"
        "heap_ok (rest t tb1 (insert (snd key) V)) (rest_keys t tb1 (insert (snd key) V)) own w2" "released (twrite w a tb1) w2"
      by (rule take_over_step [OF t K(2) refl c kV Cons.prems(3-5), where a = a])
    let ?w = "twrite w2 old (reset_bucket to i)"
    have tab: "wtab w2 = (wtab w)(a \<mapsto> tb1)" "cpu_count (wgc w2) = cpu_count (wgc w)" using S(8) by (simp_all add: released_def)
    have ro2: "tread w2 old = Inr to" using tab(1) Cons.prems(1) a(1,2) by (simp add: tread_Some)
    have step: "take_over v old a w (i # is) = take_over v old a ?w is"
      using Some bi(2) ro K(1) al Cons.prems(2) a(3) S(1,5,6) ro2 by (simp add: tread_Some)
    have len: "i < length (table to)" using bi(1) Cons.prems(7) by simp
    have dis: "insert (snd key) V \<inter> names_at t is = {}"
    proof -
      have "snd key \<notin> names_at t is"
      proof
        assume "snd key \<in> names_at t is"
        then obtain j key' where j: "j \<in> set is" "bkt_k (bucket t j) = Some key'" "snd key' = snd key" by (auto simp: names_at_def)
        then have "j < 2 ^ lg2size t" using Cons.prems(8) by auto
        then have "find_bucket t (snd key) = Some j" "find_bucket t (snd key) = Some i"
          using j Some bi(1) nth_tkeys [OF t] by (simp_all add: find_bucket_iff [OF t])
        then show False using j(1) bi(3) by simp
      qed
      then show ?thesis using Cons.prems(9) n by auto
    qed
    have "\<exists>to' tb' w'. take_over v old a ?w is = Inr w' \<and> moved old a to' tb' ?w w' \<and>
      length (table to') = 2 ^ lg2size t \<and> (\<forall>j. bucket to' j = (if j \<in> set is then empty_bucket else bucket (reset_bucket to i) j)) \<and>
      taking t tb' (insert (snd key) V \<union> names_at t is) \<and> tkeys tb' = tkeys tb1 \<and> same_config tb1 tb' \<and>
      heap_ok (rest t tb' (insert (snd key) V \<union> names_at t is)) (rest_keys t tb' (insert (snd key) V \<union> names_at t is)) own w'"
    proof (rule Cons.IH [OF _ _ S(2)])
      show "\<forall>j \<in> set is. j < 2 ^ lg2size t \<and> bucket (reset_bucket to i) j = bucket t j"
        using Cons.prems(8) bi(3) by (auto simp: bucket_reset [OF len])
    qed (use tab a(1) S(7) Cons.prems(5-7,10) dis n in simp_all)
    then obtain to' tb' w' where "take_over v old a ?w is = Inr w'" and m: "moved old a to' tb' ?w w'"
      and r: "length (table to') = 2 ^ lg2size t" "\<forall>j. bucket to' j = (if j \<in> set is then empty_bucket else bucket (reset_bucket to i) j)"
        "taking t tb' (insert (snd key) V \<union> names_at t is)" "tkeys tb' = tkeys tb1" "same_config tb1 tb'"
        "heap_ok (rest t tb' (insert (snd key) V \<union> names_at t is)) (rest_keys t tb' (insert (snd key) V \<union> names_at t is)) own w'"
      by blast
    then show ?thesis unfolding n step
      using S(3) same_config_trans [OF S(4) r(5)] moved_step [OF S(8) m a(1)]
      by (intro exI [of _ to'] exI [of _ tb'] exI [of _ w']) (auto simp: bucket_reset [OF len])
  qed
qed

text \<open>When every bucket has been visited, the new table owns what is left.\<close>

lemma taken_all:
  assumes "table_inv t" "taking t tb V" "\<forall>k. has_key t k \<longrightarrow> k \<in> V"
  shows "rest t tb V = vref tb" "rest_keys t tb V = keyrefs tb"
    "vref tb k = (if has_key tb k then vref t k else 0)"
proof -
  have inv: "table_inv tb" and kr: "keyrefs tb \<subseteq> keyrefs t"
    and vr: "\<And>k. vref tb k = (if \<not> has_key tb k then 0 else if k \<in> V then vref t k else tagged (vref t k) True)"
    using assms(2) by (simp_all add: taking_def)
  have sub: "has_key t k" if "has_key tb k" for k using that kr by (auto simp: has_key_keyrefs inv assms(1))
  show v: "vref tb k = (if has_key tb k then vref t k else 0)" for k using vr [of k] sub [of k] assms(3) by auto
  show "rest t tb V = vref tb" using assms(3) vref_absent [OF assms(1)] by (auto simp: rest_def v fun_eq_iff)
  show "rest_keys t tb V = keyrefs tb"
  proof (intro set_eqI iffI)
    fix key assume k: "key \<in> rest_keys t tb V"
    then have kt: "(fst key, snd key) \<in> keyrefs t" by (simp add: rest_keys_def)
    then have "has_key t (snd key)" using has_key_keyrefs [OF assms(1)] by blast
    then have "has_key tb (snd key)" using k assms(3) by (simp add: rest_keys_def)
    then obtain b where "(b, snd key) \<in> keyrefs tb" using has_key_keyrefs [OF inv] by blast
    then show "key \<in> keyrefs tb" using keyrefs_unique [OF assms(1) kt, of b] kr by (metis prod.collapse subsetD)
  next
    fix key assume k: "key \<in> keyrefs tb"
    then have "has_key tb (snd key)" using has_key_keyrefs [OF inv] by (metis prod.collapse)
    then show "key \<in> rest_keys t tb V" using k kr by (auto simp: rest_keys_def)
  qed
qed

section \<open>The old table\<close>

lemma delete_buckets_empty: "set bs \<subseteq> {empty_bucket} \<Longrightarrow> delete_buckets w bs = Inr w"
proof (induction bs)
  case (Cons b bs)
  then show ?case by (simp add: empty_bucket_def fp_null_def entry_destroy.simps)
qed simp

lemma delete_table_empty:
  assumes "wtab w a = Some t" "a \<noteq> 0" "\<forall>i < length (table t). bucket t i = empty_bucket"
  shows "delete_table a w = Inr (w\<lparr>wtab := (wtab w)(a := None)\<rparr>)"
proof -
  have "set (table t) \<subseteq> {empty_bucket}" using assms(3) by (auto simp: in_set_conv_nth bucket_def)
  then show ?thesis using assms(1,2) by (simp add: delete_table_def tread_Some delete_buckets_empty)
qed

section \<open>The whole collection\<close>

text \<open>What the loops and the threshold read of the world is not changed by a flush.\<close>

lemma citems_entry:
  assumes "table_inv t" "tfind t = vref t"
  shows "(key, c) \<in> set (citems_from t 0) \<Longrightarrow> key \<in> keyrefs t \<and> c = vref t (snd key)"
    and "has_key t k \<Longrightarrow> \<exists>a. ((a, k), vref t k) \<in> set (citems_from t 0)"
proof -
  show "key \<in> keyrefs t \<and> c = vref t (snd key)" if x: "(key, c) \<in> set (citems_from t 0)"
  proof -
    have "(key, c) \<in> set (bucket_items (table t))" using x citems_from_items [of 0 t] by simp
    then have "key \<in> keyrefs t" by (force simp: bucket_items_def keyrefs_def bucket_def in_set_conv_nth split: option.splits)
    then show ?thesis using citems_lookup(1) [OF assms(1) x] assms(2) by simp
  qed
  show "has_key t k \<Longrightarrow> \<exists>a. ((a, k), vref t k) \<in> set (citems_from t 0)" using citems_lookup(2) [OF assms(1)] assms(2) by metis
qed

lemma samples_cong: "\<forall>(k, c) \<in> set is. c \<noteq> 0 \<longrightarrow> went w' c = went w c \<Longrightarrow> samples w' is = samples w is"
  by (induction "is") (auto simp: eread_def)

lemma get_atime_cutoff_cong:
  assumes "\<forall>(k, c) \<in> set (citems_from t 0). c \<noteq> 0 \<longrightarrow> went w' c = went w c"
    "max_bytes (wcache w') = max_bytes (wcache w)" "bytes_c (wcache w') = bytes_c (wcache w)"
  shows "get_atime_cutoff w' t = get_atime_cutoff w t"
proof -
  have "samples w' (take n (citems_from t 0)) = samples w (take n (citems_from t 0))" for n
    by (rule samples_cong) (use assms(1) in \<open>auto dest: in_set_takeD\<close>)
  then show ?thesis by (simp only: get_atime_cutoff_def assms(2,3))
qed

lemma new_table_ok:
  assumes "lg < 31"
  shows "table_inv (new_table lg)" "\<not> has_key (new_table lg) k" "vref (new_table lg) k = 0" "keyrefs (new_table lg) = {}"
proof -
  show n: "table_inv (new_table lg)" "\<not> has_key (new_table lg) k" "vref (new_table lg) k = 0" for k
    unfolding new_table_def by (rule opentable_new_inv [OF assms key_eq_iff])+
  show "keyrefs (new_table lg) = {}" using n(2) has_key_keyrefs [OF n(1)] by auto
qed

text \<open>The last phase, from the table that was built.\<close>

lemma collect_finish_ok:
  assumes t: "tinv t (wmem w) (went w) (wnewer w) (wgc w) own" "\<forall>k. has_key t k \<longrightarrow> vref t k \<noteq> 0"
    and w: "wtab w old = Some t" "wtab w a = Some tb" "taking t tb {}" "v_cpu v < cpu_count (wgc w)"
    and a: "old \<noteq> a" "old \<noteq> 0" "a \<noteq> 0"
  shows "\<exists>t' w'. collect_finish v old a w = Inr w' \<and> wtab w' = (wtab w)(old := None, a \<mapsto> t') \<and>
    tinv t' (wmem w') (went w') (wnewer w') (wgc w') own \<and> (\<forall>k. vref t' k = (if has_key t' k then vref t k else 0)) \<and>
    wmem w' = wmem w \<and> went w' = went w \<and> (wcache w')\<lparr>bytes_c := 0\<rparr> = (wcache w)\<lparr>bytes_c := 0\<rparr> \<and>
    has_key t' = has_key tb \<and> no_room t' = no_room tb"
proof -
  have inv: "table_inv t" by (rule tinvD(1) [OF t(1)])
  have len: "length (table t) = 2 ^ lg2size t" by (rule table_invD(3) [OF inv])
  have R: "rest t tb {} = vref t" "rest_keys t tb {} = keyrefs t" by (auto simp: rest_def rest_keys_def)
  have h: "heap_ok (rest t tb {}) (rest_keys t tb {}) own w" unfolding R by (rule tinv_hinv [OF t(1)])
  have nm: "k \<in> names_at t [0..<length (table t)] \<longleftrightarrow> has_key t k" for k
    using has_key_keyrefs [OF inv, of k] by (force simp: keyrefs_def names_at_def)
  let ?V = "{} \<union> names_at t [0..<length (table t)]"
  obtain to' t' w1 where T: "take_over v old a w [0..<length (table t)] = Inr w1" "moved old a to' t' w w1"
      "length (table to') = 2 ^ lg2size t" "\<forall>j. bucket to' j = (if j \<in> set [0..<length (table t)] then empty_bucket else bucket t j)"
      "taking t t' ?V" "tkeys t' = tkeys tb" "same_config tb t'" "heap_ok (rest t t' ?V) (rest_keys t t' ?V) own w1"
    using take_over_ok [OF inv a w(1-3) h w(4), of "[0..<length (table t)]"] t(2) nm by (auto simp: len)
  have V: "\<forall>k. has_key t k \<longrightarrow> k \<in> ?V" using nm by simp
  note A = taken_all [OF inv T(5) V]
  note M = moved_simps [OF T(2)]
  let ?w = "w1\<lparr>wtab := (wtab w1)(old := None)\<rparr>"
  have "delete_table old w1 = Inr ?w"
    by (rule delete_table_empty) (use M(4) a T(3,4) len in auto)
  then have c: "collect_finish v old a w = Inr ?w" using T(1) w(1) a(2) by (simp add: collect_finish_def tread_Some)
  have "table_inv t'" using T(5) by (simp add: taking_def)
  then have ti: "tinv t' (wmem ?w) (went ?w) (wnewer ?w) (wgc ?w) own" using T(8) unfolding A(1,2) by (simp add: tinv_def)
  have "probes_of t' = probes_of tb" using T(7) probes_of_cong [of t' tb] by (auto simp: same_config_def)
  then have "no_room t' = no_room tb" "has_key t' = has_key tb" using T(6) by (simp_all add: no_room_def has_key_def fun_eq_iff)
  moreover have "wtab ?w = (wtab w)(old := None, a \<mapsto> t')" using M(4) a(1) by (simp add: fun_upd_twist)
  ultimately show ?thesis using c ti A(3) M(1,2,5) by (intro exI [of _ t'] exI [of _ ?w]) simp
qed

text \<open>The first two: the flush and the copy.\<close>

lemma collect_copy_ok:
  assumes t: "tinv t (wmem w) (went w) (wnewer w) (wgc w) own"
    and w: "wtab w old = Some t" "wtab w a = Some tb0" "taking t tb0 {}" "get_atime_cutoff w t = Inr cutoff"
    and a: "old \<noteq> 0" "a \<noteq> 0"
  obtains tb where "collect_copy v old a w = Inr (upd_cache (twrite w a tb) (\<lambda>c. c\<lparr>entries_p := a, building_p := 0\<rparr>))"
    "taking t tb {}" "\<forall>k. has_key tb k \<longrightarrow> has_key tb0 k \<or> vref t k \<noteq> 0 \<and> is_live w cutoff (v_now v) (vref t k)"
    "\<forall>k. has_key tb0 k \<longrightarrow> has_key tb k"
    "\<forall>k. vref t k \<noteq> 0 \<longrightarrow> is_live w cutoff (v_now v) (vref t k) \<longrightarrow> has_key tb k \<or> no_room tb k"
proof -
  have inv: "table_inv t" by (rule tinvD(1) [OF t])
  have "tfind t = vref t" using tinv_tfind [OF t] by blast
  note I = citems_entry [OF inv this]
  have items: "\<forall>(key, c) \<in> set (citems_from t 0). key \<in> keyrefs t \<and> c = vref t (snd key)" using I(1) by blast
  obtain tb where tb: "copy_live v a cutoff (v_now v) w (citems_from t 0) = Inr (twrite w a tb)"
      "copied t tb0 (live_names w cutoff (v_now v) (citems_from t 0)) tb"
    by (rule copy_live_ok [OF tinv_hinv [OF t] w(2) a(2) w(3) items])
  note C = tb(2) [unfolded copied_def]
  have L: "k \<in> live_names w cutoff (v_now v) (citems_from t 0) \<longleftrightarrow> vref t k \<noteq> 0 \<and> is_live w cutoff (v_now v) (vref t k)" for k
  proof
    assume "k \<in> live_names w cutoff (v_now v) (citems_from t 0)"
    then obtain b c where x: "((b, k), c) \<in> set (citems_from t 0)" "c \<noteq> 0" "is_live w cutoff (v_now v) c"
      by (auto simp: live_names_def)
    show "vref t k \<noteq> 0 \<and> is_live w cutoff (v_now v) (vref t k)" using I(1) [OF x(1)] x(2,3) by simp
  next
    assume k: "vref t k \<noteq> 0 \<and> is_live w cutoff (v_now v) (vref t k)"
    then obtain b where "((b, k), vref t k) \<in> set (citems_from t 0)" using I(2) vref_absent [OF inv] by blast
    then show "k \<in> live_names w cutoff (v_now v) (citems_from t 0)" using k by (force simp: live_names_def)
  qed
  show thesis
    by (rule that [of tb]) (use tb(1) w(1,4) a(1) C L in \<open>simp_all add: collect_copy_def tread_Some\<close>)
qed

lemma undisturbed_reads:
  assumes "undisturbed R own w w'"
  shows "R k \<noteq> 0 \<Longrightarrow> went w' (R k) = went w (R k)" "wtab w' = wtab w" "wcache w' = wcache w"
    "hmap R (wmem w') (went w') own = hmap R (wmem w) (went w) own" "R k \<noteq> 0 \<Longrightarrow> is_live w' u n (R k) = is_live w u n (R k)"
    "all_pass (wgc w') = all_pass (wgc w)"
  using assms by (auto simp: undisturbed_def is_live_def all_pass_def fun_eq_iff)

lemma undisturbed_cutoff:
  assumes "undisturbed (vref t) own w w'" "table_inv t" "tfind t = vref t"
  shows "get_atime_cutoff w' t = get_atime_cutoff w t"
proof (rule get_atime_cutoff_cong)
  have "c \<noteq> 0 \<longrightarrow> went w' c = went w c" if "(key, c) \<in> set (citems_from t 0)" for key c
    using citems_entry(1) [OF assms(2,3) that] undisturbed_reads(1) [OF assms(1), of "snd key"] by simp
  then show "\<forall>(k, c) \<in> set (citems_from t 0). c \<noteq> 0 \<longrightarrow> went w' c = went w c" by blast
qed (simp_all add: undisturbed_reads(3) [OF assms(1)])

lemma cache_fields:
  "x\<lparr>bytes_c := b\<rparr> = y\<lparr>bytes_c := b\<rparr> \<Longrightarrow> entries_p x = entries_p y \<and> building_p x = building_p y" for x :: cache
  by (metis cache.select_convs(3,4) cache.surjective cache.update_convs(5))

lemma upd_cache_live [simp]:
  "is_live (upd_cache w (\<lambda>c. c\<lparr>building_p := b\<rparr>)) = is_live w"
  "is_live (upd_cache w (\<lambda>c. c\<lparr>entries_p := e, building_p := b\<rparr>)) = is_live w"
  by (simp_all add: is_live_def fun_eq_iff)

lemma collect_begin_ok:
  assumes "entries_p (wcache w) \<noteq> 0" "wtab w (entries_p (wcache w)) = Some t" "lg2size t < 30"
  obtains lg where "lg < 31"
    "collect_begin a w = Inr (entries_p (wcache w), upd_cache (twrite w a (new_table lg)) (\<lambda>c. c\<lparr>building_p := a\<rparr>))"
proof -
  let ?lg = "if dbl (of_nat (unat (usage_count t))) \<ge> dbl (of_nat (unat (tsize t)) * usage_grow_threshold)
    then lg2size t + 1 else lg2size t"
  show thesis by (rule that [of ?lg]) (use assms in \<open>simp_all add: collect_begin_def tread_Some Let_def\<close>)
qed

section \<open>A deleted key\<close>

lemma take_over_append:
  "take_over v old a w (xs @ ys) = rbind (take_over v old a w xs) (\<lambda>w. take_over v old a w ys)"
  by (induction xs arbitrary: w) (auto simp: rbind_def split: sum.splits option.splits prod.splits)

lemma entry_release_null: "entry_release cpu w 0 = Inl NullDeref"
  by (simp add: entry_release_def release_size.simps gc_free_def gread_def Let_def)

text \<open>The loop stops at the first key without a value.\<close>

lemma take_over_null:
  assumes t: "tinv t (wmem w) (went w) (wnewer w) (wgc w) own" "has_key t k" "vref t k = 0"
    and w: "wtab w old = Some t" "wtab w a = Some tb" "taking t tb {}" "v_cpu v < cpu_count (wgc w)"
      "\<forall>k. has_key tb k \<longrightarrow> vref t k \<noteq> 0"
    and a: "old \<noteq> a" "old \<noteq> 0" "a \<noteq> 0"
  shows "take_over v old a w [0..<length (table t)] = Inl NullDeref"
proof -
  have inv: "table_inv t" by (rule tinvD(1) [OF t(1)])
  have len: "length (table t) = 2 ^ lg2size t" by (rule table_invD(3) [OF inv])
  let ?null = "\<lambda>i. \<exists>key. bkt_k (bucket t i) = Some key \<and> vref t (snd key) = 0"
  have "\<exists>i \<in> set [0..<length (table t)]. ?null i"
    using t(2,3) has_key_keyrefs [OF inv, of k] by (force simp: keyrefs_def)
  then obtain xs i ys where sp: "[0..<length (table t)] = xs @ i # ys" "?null i" "\<forall>j \<in> set xs. \<not> ?null j"
    by (rule split_list_first_propE)
  obtain key where key: "bkt_k (bucket t i) = Some key" "vref t (snd key) = 0" using sp(2) by blast
  have "set [0..<length (table t)] = set (xs @ i # ys)" "distinct (xs @ i # ys)" unfolding sp(1) [symmetric] by simp_all
  then have ix: "i < 2 ^ lg2size t" "\<forall>j \<in> set xs. j < 2 ^ lg2size t" "i \<notin> set xs" "distinct xs" using len by auto
  note K = bucket_vref [OF inv ix(1) key(1)]
  have R: "rest t tb {} = vref t" "rest_keys t tb {} = keyrefs t" by (auto simp: rest_def rest_keys_def)
  have h: "heap_ok (rest t tb {}) (rest_keys t tb {}) own w" unfolding R by (rule tinv_hinv [OF t(1)])
  have nz: "\<forall>k \<in> names_at t xs. vref t k \<noteq> 0" using sp(3) by (auto simp: names_at_def)
  let ?V = "{} \<union> names_at t xs"
  obtain to' tb' w1 where T: "take_over v old a w xs = Inr w1" "moved old a to' tb' w w1"
      "\<forall>j. bucket to' j = (if j \<in> set xs then empty_bucket else bucket t j)"
      "taking t tb' ?V" "tkeys tb' = tkeys tb" "heap_ok (rest t tb' ?V) (rest_keys t tb' ?V) own w1"
    using take_over_ok [OF inv a w(1-3) h w(4) ix(4) len] ix(2) nz by auto
  note M = moved_simps [OF T(2)]
  have inv': "table_inv tb'" using T(4) by (simp add: taking_def)
  have nk: "\<not> has_key tb' (snd key)" using w(5) key(2) T(5) by (auto simp: has_key_def)
  then have ex: "exclusive tb' key 0 = Inr (tb', [key], [0])" using find_bucket_None [OF inv', of "snd key"] by (simp add: exclusive_def)
  have kr: "key \<in> rest_keys t tb' ?V" using K(2) nz key(2) by (auto simp: rest_keys_def)
  have h1: "heap_ok (rest t tb' ?V) (rest_keys t tb' ?V) own (twrite w1 a tb')" "v_cpu v < cpu_count (wgc (twrite w1 a tb'))"
    using T(6) M(6) w(4) by simp_all
  obtain w2 where w2: "key_release (v_cpu v) (twrite w1 a tb') key = Inr w2"
    using key_release_ok [OF h1(1) kr h1(2)] by blast
  have "take_over v old a w1 (i # ys) = Inl NullDeref"
    using M(4) a T(3) ix(3) key K(1) ex w2 entry_release_null by (simp add: tread_Some)
  then show ?thesis unfolding sp(1) take_over_append using T(1) by simp
qed

end
