(* ===== verification/Rebuild.thy ===== *)
theory Rebuild
  imports Collect_Refine
begin

text \<open>
  The cache while its table is rebuilt. Between \<open>collect_begin\<close> and the copy of the entries the other
  threads go on: they look up in the old table, and a key that gets its first value is put into both.
  In this time the cache still refines a map with the slots of the old table, as long as no value is
  replaced or deleted: these operations start chains of versions, which only get their proofs in
  \<open>History\<close>. A key with a first value shares it between both tables, if it finds a slot in the new one.
\<close>

section \<open>Operations that do not ask whether a table is built\<close>

definition building_at :: "addr \<Rightarrow> world \<Rightarrow> world" where
  "building_at b w = upd_cache w (\<lambda>c. c\<lparr>building_p := b\<rparr>)"

lemma building_at_simps [simp]:
  "wmem (building_at b w) = wmem w" "went (building_at b w) = went w" "wnewer (building_at b w) = wnewer w"
  "wgc (building_at b w) = wgc w" "wtab (building_at b w) = wtab w" "wcache (building_at b w) = (wcache w)\<lparr>building_p := b\<rparr>"
  by (simp_all add: building_at_def)

lemma building_at_at [simp]: "building_at b (building_at c w) = building_at b w" "building_at (building_p (wcache w)) w = w"
  by (simp_all add: building_at_def upd_cache_def)

lemma building_at_writes:
  "ewrite (building_at b w) e x = building_at b (ewrite w e x)" "(building_at b w)\<lparr>wmem := h\<rparr> = building_at b (w\<lparr>wmem := h\<rparr>)"
  "upd_cache (building_at b w) (\<lambda>c. c\<lparr>bytes_c := counter_add (bytes_c c) n\<rparr>) = building_at b (upd_cache w (\<lambda>c. c\<lparr>bytes_c := counter_add (bytes_c c) n\<rparr>))"
  "upd_cache (building_at b w) (\<lambda>c. c\<lparr>gets_c := counter_incr (gets_c c)\<rparr>) = building_at b (upd_cache w (\<lambda>c. c\<lparr>gets_c := counter_incr (gets_c c)\<rparr>))"
  "upd_cache (building_at b w) (\<lambda>c. c\<lparr>touches_c := counter_incr (touches_c c)\<rparr>) =
     building_at b (upd_cache w (\<lambda>c. c\<lparr>touches_c := counter_incr (touches_c c)\<rparr>))"
  "upd_cache (building_at b w) (\<lambda>c. c\<lparr>get_misses_c := counter_incr (get_misses_c c)\<rparr>) =
     building_at b (upd_cache w (\<lambda>c. c\<lparr>get_misses_c := counter_incr (get_misses_c c)\<rparr>))"
  "cache_flush_all v (building_at b w) delay = building_at b (cache_flush_all v w delay)"
  "(building_at b w)\<lparr>wgc := g\<rparr> = building_at b (w\<lparr>wgc := g\<rparr>)"
  by (simp_all add: building_at_def upd_cache_def ewrite_def cache_flush_all_def)

lemma building_at_reads [simp]:
  "tread (building_at b w) a = tread w a" "eread (building_at b w) a = eread w a"
  by (simp_all add: tread_def eread_def)

lemma get_building: "cache_get (building_at b w) k = rbind (cache_get w k) (\<lambda>(e, w). Inr (e, building_at b w))"
  by (simp add: cache_get_def building_at_writes Let_def rbind_def split: sum.splits)

lemma in_place_building:
  "in_place op \<Longrightarrow> cexec (building_at b w) op = rbind (cexec w op) (\<lambda>(r, w). Inr (r, building_at b w))"
  by (cases op)
     (auto simp: get_building cache_append_def cache_prepend_def cache_cas_def get_value_def cache_incr_def cache_decr_def
        cache_touch_def building_at_writes Let_def rbind_def code_def number_def split: sum.splits prod.splits)

section \<open>The invariant of a rebuild\<close>

text \<open>The old table is at \<open>old\<close>, the one being built at \<open>a\<close>: it shares entries with the old one, which alone is searched.\<close>

definition brel :: "addr \<Rightarrow> addr \<Rightarrow> world \<Rightarrow> (bytes \<Rightarrow> item option) \<Rightarrow> bool" where
  "brel old a w m \<longleftrightarrow> building_p (wcache w) = a \<and> entries_p (wcache w) = old \<and> a \<noteq> 0 \<and> a \<noteq> entries_p (wcache w) \<and> crel (building_at 0 w) m \<and>
     (\<exists>t tb. wtab w (entries_p (wcache w)) = Some t \<and> wtab w a = Some tb \<and> taking t tb {} \<and> (\<forall>k. has_key tb k \<longrightarrow> vref t k \<noteq> 0))"

lemma brelE:
  assumes "brel old a w m"
  obtains own t tb where "building_p (wcache w) = a \<and> entries_p (wcache w) = old" "a \<noteq> 0" "a \<noteq> entries_p (wcache w)" "entries_p (wcache w) \<noteq> 0"
    "wtab w (entries_p (wcache w)) = Some t" "wtab w a = Some tb" "tinv t (wmem w) (went w) (wnewer w) (wgc w) own"
    "m = tmap t (wmem w) (went w) own" "taking t tb {}" "\<forall>k. has_key tb k \<longrightarrow> vref t k \<noteq> 0"
proof -
  obtain t tb where b: "building_p (wcache w) = a \<and> entries_p (wcache w) = old" "a \<noteq> 0" "a \<noteq> entries_p (wcache w)" "crel (building_at 0 w) m"
      "wtab w (entries_p (wcache w)) = Some t" "wtab w a = Some tb" "taking t tb {}" "\<forall>k. has_key tb k \<longrightarrow> vref t k \<noteq> 0"
    using assms by (auto simp: brel_def)
  obtain own t' where "entries_p (wcache (building_at 0 w)) \<noteq> 0"
      "wtab (building_at 0 w) (entries_p (wcache (building_at 0 w))) = Some t'"
      "tinv t' (wmem (building_at 0 w)) (went (building_at 0 w)) (wnewer (building_at 0 w)) (wgc (building_at 0 w)) own"
      "m = tmap t' (wmem (building_at 0 w)) (went (building_at 0 w)) own" by (rule crelE [OF b(4)])
  then show thesis using that [OF b(1-3) _ b(5,6) _ _ b(7,8)] b(5) by simp
qed

lemma brelI:
  assumes "building_p (wcache w) = a \<and> entries_p (wcache w) = old" "a \<noteq> 0" "a \<noteq> entries_p (wcache w)" "entries_p (wcache w) \<noteq> 0"
    "wtab w (entries_p (wcache w)) = Some t" "wtab w a = Some tb" "tinv t (wmem w) (went w) (wnewer w) (wgc w) own"
    "m = tmap t (wmem w) (went w) own" "taking t tb {}" "\<forall>k. has_key tb k \<longrightarrow> vref t k \<noteq> 0"
  shows "brel old a w m"
  using assms crelI [of "building_at 0 w" t own m] by (auto simp: brel_def)

text \<open>What may happen meanwhile: nothing that replaces or deletes a value, and \<open>add\<close> needs room for its key.\<close>

definition no_value :: "world \<Rightarrow> bytes \<Rightarrow> bool" where
  "no_value w k \<longleftrightarrow> (\<forall>t. wtab w (entries_p (wcache w)) = Some t \<longrightarrow> tfind t k = 0)"

definition has_room :: "world \<Rightarrow> bytes \<Rightarrow> bool" where
  "has_room w k \<longleftrightarrow> (\<forall>t. wtab w (entries_p (wcache w)) = Some t \<longrightarrow> has_key t k \<or> \<not> no_room t k)"

fun blegal :: "world \<Rightarrow> cop \<Rightarrow> bool" where
  "blegal w (OSet v k f x r cs) \<longleftrightarrow> clegal w (OSet v k f x r cs) \<and> no_value w k"
| "blegal w (OAdd v k f x r cs) \<longleftrightarrow> clegal w (OAdd v k f x r cs) \<and> no_value w k \<and> has_room w k"
| "blegal w (OReplace v k f x r cs) \<longleftrightarrow> clegal w (OReplace v k f x r cs) \<and> no_value w k"
| "blegal w (ODel v k) \<longleftrightarrow> no_value w k"
| "blegal w op \<longleftrightarrow> clegal w op"

text \<open>
  Whether the table that is built has a key, or no bucket for it; and what an operation on the way from
  \<open>w\<close>, \<open>m\<close> to \<open>w'\<close>, \<open>m'\<close> does there: keys stay, and one that gets its first value is put in.
\<close>

definition passes :: "bytes opentable \<Rightarrow> bytes \<Rightarrow> bool" where
  "passes tb k \<longleftrightarrow> has_key tb k \<or> no_room tb k"

definition carried :: "addr \<Rightarrow> world \<Rightarrow> (bytes \<Rightarrow> item option) \<Rightarrow> world \<Rightarrow> (bytes \<Rightarrow> item option) \<Rightarrow> bool" where
  "carried a w m w' m' \<longleftrightarrow>
     (\<forall>tb. wtab w a = Some tb \<longrightarrow> (\<exists>tb'. wtab w' a = Some tb' \<and> (\<forall>k. passes tb k \<or> m k = None \<and> m' k \<noteq> None \<longrightarrow> passes tb' k)))"

lemma carried_same: "wtab w' a = wtab w a \<Longrightarrow> (\<And>k. m k = None \<Longrightarrow> m' k = None) \<Longrightarrow> carried a w m w' m'"
  by (auto simp: carried_def)

lemma carried_store:
  "wtab w a = Some tb \<Longrightarrow> wtab w' a = Some tb' \<Longrightarrow> (\<And>j. passes tb j \<Longrightarrow> passes tb' j) \<Longrightarrow> passes tb' k \<Longrightarrow>
   carried a w m w' (m(k \<mapsto> i))"
  by (auto simp: carried_def)

definition brefines :: "addr \<Rightarrow> addr \<Rightarrow> world \<Rightarrow> (bytes \<Rightarrow> item option) \<Rightarrow> cop \<Rightarrow> bool" where
  "brefines old a w m op \<longleftrightarrow> (\<exists>r w' m' t t'. cexec w op = Inr (r, w') \<and> aspec m op r m' \<and> brel old a w' m' \<and>
     table_at w = Some t \<and> table_at w' = Some t' \<and> slots_step m op r t t' \<and> carried a w m w' m')"

lemma brefinesI:
  "cexec w op = Inr (r, w') \<Longrightarrow> aspec m op r m' \<Longrightarrow> brel old a w' m' \<Longrightarrow> table_at w = Some t \<Longrightarrow> table_at w' = Some t' \<Longrightarrow>
   slots_step m op r t t' \<Longrightarrow> carried a w m w' m' \<Longrightarrow> brefines old a w m op"
  unfolding brefines_def by blast

lemma in_place_absent: "in_place op \<Longrightarrow> aspec m op r m' \<Longrightarrow> m k = None \<Longrightarrow> m' k = None"
  by (cases op) (auto split: option.splits if_splits)

lemma in_place_brefines:
  assumes b: "brel old a w m" and op: "in_place op" "clegal w op"
  shows "brefines old a w m op"
proof -
  let ?w0 = "building_at 0 w"
  have "crel ?w0 m" using b by (simp add: brel_def)
  moreover have "clegal ?w0 op" using op
    by (cases op) (simp_all add: rope_fresh_def fresh_chunk_def numeric_value_def runs_on_def)
  ultimately obtain r w1 m' where r: "cexec ?w0 op = Inr (r, w1)" "aspec m op r m'" "crel w1 m'"
    using cexec_refines unfolding refines_def by blast
  obtain t where t: "table_at w = Some t" using b by (auto simp: brel_def)
  have fr: "wtab w1 = wtab w" "entries_p (wcache w1) = entries_p (wcache w)" using in_place_frame [OF op(1) r(1)] by simp_all
  have "cexec (building_at a ?w0) op = Inr (r, building_at a w1)" using in_place_building [OF op(1), of a ?w0] r(1) by simp
  moreover have wa: "building_at a ?w0 = w" using b building_at_at(2) [of w] by (simp add: brel_def)
  moreover have "brel old a (building_at a w1) m'"
  proof -
    have "building_p (wcache w1) = 0" using r(3) by (auto elim: crelE)
    then have "building_at 0 w1 = w1" using building_at_at(2) [of w1] by simp
    then show ?thesis using b r(3) in_place_frame [OF op(1) r(1)] by (auto simp: brel_def)
  qed
  moreover have "claimed op = None" using op(1) by (cases op) simp_all
  ultimately show ?thesis using r(2) t fr
    by (intro brefinesI [where w' = "building_at a w1" and r = r and m' = m' and t = t and t' = t])
       (auto simp: slots_step_def intro: carried_same in_place_absent [OF op(1)])
qed

lemma cache_checkpoint_ok:
  assumes h: "heap_ok R K own w" and c: "c < cpu_count (wgc w)"
  obtains w' where "cache_checkpoint c w = Inr w'" "heap_ok R K own w'" "undisturbed R own w w'"
proof -
  obtain tr where tr: "gc_run tr (wgc w)" using hinvD(5) [OF h] by blast
  obtain ds g where g: "gc_checkpoint (wgc w) c = Inr (ds, g)" "gc_run (EvCheckpoint c # tr) g" "gc_kept (wgc w) ds g"
      "cpu_mask g = cpu_mask (wgc w)" "cpu_count g = cpu_count (wgc w)"
    by (rule checkpoint_kept [OF tr c])
  obtain w' where "gc_finalize (w\<lparr>wgc := g\<rparr>) ds = Inr w'" "heap_ok R K own w'" "undisturbed R own w w'"
    using finalize_undisturbed [OF h g(3) _ g(4,5)] g(2) by blast
  then show thesis using that g(1) by (simp add: cache_checkpoint_def)
qed

lemma checkpoint_brefines:
  assumes b: "brel old a w m" and c: "runs_on w c"
  shows "brefines old a w m (OCheckpoint c)"
proof -
  obtain own t tb where B: "building_p (wcache w) = a \<and> entries_p (wcache w) = old" "a \<noteq> 0" "a \<noteq> entries_p (wcache w)" "entries_p (wcache w) \<noteq> 0"
    "wtab w (entries_p (wcache w)) = Some t" "wtab w a = Some tb" "tinv t (wmem w) (went w) (wnewer w) (wgc w) own"
    "m = tmap t (wmem w) (went w) own" "taking t tb {}" "\<forall>k. has_key tb k \<longrightarrow> vref t k \<noteq> 0" by (rule brelE [OF b])
  have inv: "table_inv t" and h: "heap_ok (vref t) (keyrefs t) own w" using B(7) by (simp_all add: tinv_def)
  obtain w' where w': "cache_checkpoint c w = Inr w'" "heap_ok (vref t) (keyrefs t) own w'" "undisturbed (vref t) own w w'"
    by (rule cache_checkpoint_ok [OF h c [unfolded runs_on_def]])
  note U = undisturbed_reads [OF w'(3)]
  have "brel old a w' m"
    by (rule brelI [where t = t and own = own]) (use B U hinv_tinv [OF inv w'(2)] in \<open>simp_all add: tmap_hmap\<close>)
  then show ?thesis using w'(1) B(5) U
    by (intro brefinesI [where w' = w' and r = RDone and m' = m and t = t and t' = t]) (auto simp: slots_step_def intro: carried_same)
qed

lemma no_value_vref:
  "tinv t (wmem w) (went w) (wnewer w) (wgc w) own \<Longrightarrow> wtab w (entries_p (wcache w)) = Some t \<Longrightarrow> no_value w k \<longleftrightarrow> vref t k = 0"
  using tinv_tfind by (fastforce simp: no_value_def)

lemma del_brefines:
  assumes b: "brel old a w m" and k: "no_value w k"
  shows "brefines old a w m (ODel v k)"
proof -
  obtain own t tb where B: "building_p (wcache w) = a \<and> entries_p (wcache w) = old" "a \<noteq> 0" "a \<noteq> entries_p (wcache w)" "entries_p (wcache w) \<noteq> 0"
    "wtab w (entries_p (wcache w)) = Some t" "tinv t (wmem w) (went w) (wnewer w) (wgc w) own"
    "m = tmap t (wmem w) (went w) own" by (rule brelE [OF b])
  have "tfind t k = 0" "m k = None" using k B(5) no_value_vref [OF B(6,5)] by (simp_all add: no_value_def B(7) tmap_None)
  then show ?thesis using B(1-5) b
    by (intro brefinesI [where w' = w and r = "RCode notfound" and m' = m and t = t and t' = t])
       (simp_all add: cache_del_def is_building_def tread_Some code_def Let_def slots_step_def carried_same)
qed

lemma replace_brefines:
  assumes b: "brel old a w m" and l: "clegal w (OReplace v k f x r cs)" "no_value w k"
  shows "brefines old a w m (OReplace v k f x r cs)"
proof -
  obtain own t tb where B: "building_p (wcache w) = a \<and> entries_p (wcache w) = old" "a \<noteq> 0" "a \<noteq> entries_p (wcache w)" "entries_p (wcache w) \<noteq> 0"
    "wtab w (entries_p (wcache w)) = Some t" "wtab w a = Some tb" "tinv t (wmem w) (went w) (wnewer w) (wgc w) own"
    "m = tmap t (wmem w) (went w) own" "taking t tb {}" "\<forall>k. has_key tb k \<longrightarrow> vref t k \<noteq> 0" by (rule brelE [OF b])
  have k: "tfind t k = 0" "m k = None" using l(2) B(5) no_value_vref [OF B(7,5)] by (simp_all add: no_value_def B(8) tmap_None)
  obtain ys where y: "rope_ok (wmem w) r ys" "\<forall>b \<in> dom (went w). set (own b) \<inter> set ys = {}"
    using rope_freshE [OF _ B(7)] l(1) by (metis clegal.simps(3))
  let ?e = "v_entry v" and ?w0 = "upd_cache w (\<lambda>c. c\<lparr>sets_c := counter_incr (sets_c c)\<rparr>)"
  let ?w1 = "entry_alloc ?w0 ?e f x r (v_now v)" and ?own = "own(?e := ys)"
  have "tinv t (wmem ?w0) (went ?w0) (wnewer ?w0) (wgc ?w0) own" "fresh_object ?w0 ?e" "rope_ok (wmem ?w0) r ys"
      "\<forall>b \<in> dom (went ?w0). set (own b) \<inter> set ys = {}"
    using B(7) l(1) y by (simp_all add: fresh_object_def)
  note F = fresh_entry [OF this(1,2)] and A = alloc_ok [OF this, where f = f and x = x and now = "v_now v"]
  obtain w3 where w3: "outcome (entry_destroy ?w1 ?e) = Inr w3" "tinv t (wmem w3) (went w3) (wnewer w3) (wgc w3) ?own"
      "tmap t (wmem w3) (went w3) ?own = tmap t (wmem ?w1) (went ?w1) ?own" "wtab w3 = wtab ?w1" "wcache w3 = wcache ?w1"
    by (rule refused_ok [OF A(1,2) F(3) A(3)])
  have "brel old a w3 m"
    by (rule brelI [where t = t and tb = tb and own = ?own]) (use w3 B A(4) in \<open>simp_all\<close>)
  moreover have "cexec w (OReplace v k f x r cs) = Inr (RCode set_error, w3)"
    using B(1-5) k(1) w3(1) by (simp add: cache_replace_def replace_body_def is_building_def tread_Some code_def Let_def)
  ultimately show ?thesis using k(2) B(5) w3(4,5)
    by (intro brefinesI [where w' = w3 and r = "RCode set_error" and m' = m and t = t and t' = t])
       (simp_all add: slots_step_def carried_same)
qed

text \<open>A key that has no value is put into both tables, with the same key object.\<close>

lemma taking_set:
  assumes tk: "taking t tb {}" "vref t k = 0" "\<not> has_key tb k"
    and t': "\<And>j. vref t' j = (if j = k then e else vref t j)" "keyrefs t' = keyrefs t \<union> {key}" "snd key = k" "aligned e" "e \<noteq> 0"
    and s: "set_impl tb key (tagged e True) = (cur, tb', rel)"
  shows "taking t' tb' {} \<and> rel = [] \<and> (\<forall>j. has_key tb' j \<longrightarrow> has_key tb j \<or> j = k) \<and>
    (\<forall>j. passes tb j \<longrightarrow> passes tb' j) \<and> passes tb' k"
proof -
  have inv: "table_inv tb" and kr: "keyrefs tb \<subseteq> keyrefs t"
    and vr: "\<And>j. vref tb j = (if \<not> has_key tb j then 0 else tagged (vref t j) True)"
    using tk(1) by (simp_all add: taking_def)
  have v: "valid_ref (tagged e True)" by (rule valid_ref_tagged [OF t'(4,5)])
  have kr': "keyrefs tb' \<subseteq> keyrefs t'" using keyrefs_set [OF inv s valid_ref_nonzero [OF v]] kr t'(2) by auto
  show ?thesis
  proof (cases cur)
    case None
    note S = set_impl_full [OF inv s [unfolded None]]
    have "vref tb j = (if \<not> has_key tb j then 0 else tagged (vref t' j) True)" for j using vr [of j] tk(3) by (simp add: t'(1))
    then show ?thesis using S kr' inv tk(3) t'(3) by (simp add: taking_def passes_def no_room_def)
  next
    case (Some c)
    note S = set_impl_ok [OF inv v s [unfolded Some]]
    have "vref tb' j = (if \<not> has_key tb' j then 0 else tagged (vref t' j) True)" for j
      using S(3) vr [of j] by (auto simp: S(4) t'(1,3))
    moreover have "rel = []" using S(6) vr tk(3) t'(3) by (simp add: unshared_def)
    moreover have "tkeys tb ! j \<noteq> None \<Longrightarrow> tkeys tb' ! j \<noteq> None" for j
      using set_impl_claim [OF inv v s] Some claim_kept by fastforce
    then have "no_room tb j \<Longrightarrow> no_room tb' j" for j using no_room_mono [OF _ S(2)] by blast
    ultimately show ?thesis using S(1,4) kr' t'(3) by (auto simp: taking_def passes_def)
  qed
qed

lemma taking_bind:
  assumes "taking t tb {}" "\<not> has_key tb k" "\<And>j. vref t' j = (if j = k then e else vref t j)" "keyrefs t \<subseteq> keyrefs t'"
  shows "taking t' tb {}"
  using assms by (auto simp: taking_def)

text \<open>Both operations have stored the entry: the state that follows.\<close>

lemma both_stored:
  assumes b: "brel old a w m" and l: "clegal w (OSet v k f x r cs)"
    and t: "wtab w (entries_p (wcache w)) = Some t" "add_impl t (v_key v, k) (fp_ptr (v_entry v)) = (True, Some kr, cv, t', rel)"
    and tb: "taking t' tb' {}" "\<forall>j. has_key tb' j \<longrightarrow> vref t' j \<noteq> 0"
  defines "w2 \<equiv> twrite (twrite (prepared v w f x r) (entries_p (wcache w)) t') a tb'"
  defines "w4 \<equiv> upd_cache w2 (\<lambda>c. c\<lparr>bytes_c := counter_add (bytes_c c) (of_nat (length (concat cs)))\<rparr>)"
  shows "brel old a (drop_key w4 (v_key v, k) (Some kr)) (m(k \<mapsto> \<lparr>i_flags = f, i_exptime = x, i_chunks = cs\<rparr>))"
    and "rope_size (wmem w2) r = Inr (of_nat (length (concat cs)))"
proof -
  obtain own t0 tb where B: "building_p (wcache w) = a \<and> entries_p (wcache w) = old" "a \<noteq> 0" "a \<noteq> entries_p (wcache w)" "entries_p (wcache w) \<noteq> 0"
    "wtab w (entries_p (wcache w)) = Some t0" "tinv t0 (wmem w) (went w) (wnewer w) (wgc w) own"
    "m = tmap t0 (wmem w) (went w) own" by (rule brelE [OF b])
  have t0: "t0 = t" using B(5) t(1) by simp
  let ?w1 = "prepared v w f x r" and ?e = "v_entry v" and ?key = "(v_key v, k)"
  obtain own' where P: "tinv t (wmem ?w1) (went ?w1) (wnewer ?w1) (wgc ?w1) own'" "?e \<in> dom (went ?w1)" "unsched (wgc ?w1) ?e"
      "tmap t (wmem ?w1) (went ?w1) own' = tmap t (wmem w) (went w) own"
      "item_of (wmem ?w1) (the (went ?w1 ?e)) (own' ?e) = \<lparr>i_flags = f, i_exptime = x, i_chunks = cs\<rparr>"
      "\<forall>k. vref t k \<noteq> ?e" "?e \<noteq> 0" "aligned ?e" "v_key v \<notin> dom (went ?w1)" "unsched (wgc ?w1) (v_key v)"
      "rope_size (wmem ?w1) r = Inr (of_nat (length (concat cs)))" "v_cpu v < MAX_CPUS" "wtab ?w1 = wtab w"
      "entries_p (wcache ?w1) = entries_p (wcache w)" "building_p (wcache ?w1) = building_p (wcache w)"
    by (rule prepared_ok [OF B(6) [unfolded t0] l])
  show "rope_size (wmem w2) r = Inr (of_nat (length (concat cs)))" using P(11) by (simp add: w2_def)
  have inv: "table_inv t" by (rule tinvD(1) [OF P(1)])
  have vr: "valid_ref (fp_ptr ?e)" by (rule valid_ref_ptr [OF P(8,7)])
  note A = add_impl_ok [OF inv vr t(2)]
  have bind: "vref t' j = (if j = k then ?e else vref t j)" for j using A(5) by (simp add: fp_ptr_def)
  have nk: "fst ?key \<notin> fst ` keyrefs t" using new_key_address [OF B(6)] l by (simp add: fresh_object_def t0)
  then have kf: "key_fresh t (went ?w1) (wgc ?w1) ?key" using P(9,10) by (simp add: key_fresh_def)
  have ka: "keys_after t t' ?key (Some kr)"
    using keyrefs_add [OF inv t(2)] valid_ref_nonzero [OF vr] by (simp add: keys_after_def)
  have "tinv t' (wmem w4) (went w4) (wnewer w4) (wgc w4) own'"
    using tinv_bind [OF P(1) A(1) bind _ ka] P(2,3,6) kf by (simp add: w4_def w2_def)
  then have "tinv t' (wmem (drop_key w4 ?key (Some kr))) (went (drop_key w4 ?key (Some kr))) (wnewer (drop_key w4 ?key (Some kr)))
      (wgc (drop_key w4 ?key (Some kr))) own'"
    using tinv_drop_key [of t' "wmem w4" "went w4" "wnewer w4" w4 own' ?key "Some kr"] P(9,10) key_not_added [OF ka nk]
    by (simp add: w4_def w2_def)
  then show "brel old a (drop_key w4 ?key (Some kr)) (m(k \<mapsto> \<lparr>i_flags = f, i_exptime = x, i_chunks = cs\<rparr>))"
    by (rule brelI [where t = t' and tb = tb' and own = own', rotated 6])
       (use B P tb tmap_bind [of t' k ?e t, OF bind] in \<open>simp_all add: w4_def w2_def t0\<close>)
qed

text \<open>What \<open>add\<close> does on the old table for a key without a value.\<close>

lemma add_free_key:
  assumes inv: "table_inv t" and e: "aligned e" "e \<noteq> 0" and k: "vref t k = 0" and s: "add_impl t (ka, k) (fp_ptr e) = (ok, cur, cv, t', rel)"
  shows "cur = None \<Longrightarrow> t' = t \<and> \<not> ok \<and> cv = 0 \<and> rel = [] \<and> no_room t k \<and> \<not> has_key t k"
    and "cur = Some kr \<Longrightarrow> ok \<and> cv = e \<and> rel = [] \<and> snd kr = k \<and> keyrefs t' = keyrefs t \<union> {kr} \<and>
      vref t' = (vref t)(k := e)"
proof -
  have vr: "valid_ref (fp_ptr e)" by (rule valid_ref_ptr [OF e])
  show "t' = t \<and> \<not> ok \<and> cv = 0 \<and> rel = [] \<and> no_room t k \<and> \<not> has_key t k" if "cur = None"
    using add_impl_full [OF inv s [unfolded that]] tkeys_add(2) [OF inv s valid_ref_nonzero [OF vr] that] by simp
  show "ok \<and> cv = e \<and> rel = [] \<and> snd kr = k \<and> keyrefs t' = keyrefs t \<union> {kr} \<and> vref t' = (vref t)(k := e)" if "cur = Some kr"
    using add_impl_ok [OF inv vr s [unfolded that]] keyrefs_add [OF inv s valid_ref_nonzero [OF vr]] k e that
    by (auto simp: fp_ptr_def fun_eq_iff)
qed

lemma set_brefines:
  assumes b: "brel old a w m" and l: "clegal w (OSet v k f x r cs)" "no_value w k"
  shows "brefines old a w m (OSet v k f x r cs)"
proof -
  obtain own t tb where B: "building_p (wcache w) = a \<and> entries_p (wcache w) = old" "a \<noteq> 0" "a \<noteq> entries_p (wcache w)" "entries_p (wcache w) \<noteq> 0"
    "wtab w (entries_p (wcache w)) = Some t" "wtab w a = Some tb" "tinv t (wmem w) (went w) (wnewer w) (wgc w) own"
    "m = tmap t (wmem w) (went w) own" "taking t tb {}" "\<forall>k. has_key tb k \<longrightarrow> vref t k \<noteq> 0" by (rule brelE [OF b])
  let ?w1 = "prepared v w f x r" and ?e = "v_entry v" and ?key = "(v_key v, k)"
  obtain own' where P: "tinv t (wmem ?w1) (went ?w1) (wnewer ?w1) (wgc ?w1) own'" "?e \<in> dom (went ?w1)" "unsched (wgc ?w1) ?e"
      "tmap t (wmem ?w1) (went ?w1) own' = tmap t (wmem w) (went w) own"
      "item_of (wmem ?w1) (the (went ?w1 ?e)) (own' ?e) = \<lparr>i_flags = f, i_exptime = x, i_chunks = cs\<rparr>"
      "\<forall>k. vref t k \<noteq> ?e" "?e \<noteq> 0" "aligned ?e" "v_key v \<notin> dom (went ?w1)" "unsched (wgc ?w1) (v_key v)"
      "rope_size (wmem ?w1) r = Inr (of_nat (length (concat cs)))" "v_cpu v < MAX_CPUS" "wtab ?w1 = wtab w"
      "entries_p (wcache ?w1) = entries_p (wcache w)" "building_p (wcache ?w1) = building_p (wcache w)"
    by (rule prepared_ok [OF B(7) l(1)])
  have inv: "table_inv t" by (rule tinvD(1) [OF B(7)])
  have k: "vref t k = 0" "m k = None" using l(2) no_value_vref [OF B(7,5)] by (simp_all add: B(8) tmap_None)
  have tk: "\<not> has_key tb k" using B(10) k(1) by blast
  obtain ok cur cv t' rel where s: "add_impl t ?key (fp_ptr ?e) = (ok, cur, cv, t', rel)"
    by (cases "add_impl t ?key (fp_ptr ?e)") auto
  have vr: "valid_ref (fp_ptr ?e)" by (rule valid_ref_ptr [OF P(8,7)])
  note cl = add_impl_claim [OF inv vr s]
  have pr: "probes_of t' = probes_of t" if "cur = Some kr" for kr
    using add_impl_ok(2) [OF inv vr s [unfolded that]] by (rule probes_of_config)
  note A = add_free_key [OF inv P(8,7) k(1) s]
  have ex: "cexec w (OSet v k f x r cs) = code (rbind (set_body v ?w1 ?key ?e) (\<lambda>(cur_key, w).
      if cur_key = None then rbind (outcome (entry_destroy w ?e)) (\<lambda>w. Inr (set_error, drop_key w ?key cur_key))
      else rbind (rope_size (wmem w) r) (\<lambda>n. let w = upd_cache w (\<lambda>c. c\<lparr>bytes_c := counter_add (bytes_c c) n\<rparr>) in
        Inr (stored, drop_key w ?key cur_key))))"
    by (simp add: cache_set_def prepared_def cache_key_alloc_def Let_def)
  show ?thesis
  proof (cases cur)
    case (Some kr)
    note A = A(2) [OF Some] and pr = pr [OF Some]
    obtain c2 tb' rel2 where s2: "set_impl tb kr (tagged ?e True) = (c2, tb', rel2)" by (cases "set_impl tb kr (tagged ?e True)") auto
    have bind: "vref t' j = (if j = k then ?e else vref t j)" for j using A by simp
    have S: "taking t' tb' {} \<and> rel2 = [] \<and> (\<forall>j. has_key tb' j \<longrightarrow> has_key tb j \<or> j = k) \<and>
        (\<forall>j. passes tb j \<longrightarrow> passes tb' j) \<and> passes tb' k"
      using taking_set [OF B(9) k(1) tk bind _ _ P(8,7) s2] A by blast
    have nv: "\<forall>j. has_key tb' j \<longrightarrow> vref t' j \<noteq> 0" using S B(10) P(7) by (simp add: bind) blast
    have s': "add_impl t ?key (fp_ptr ?e) = (True, Some kr, cv, t', rel)" using s A Some by simp
    note T = both_stored [OF b l(1) B(5) s' _ nv, OF conjunct1 [OF S]]
    let ?w5 = "drop_key (upd_cache (twrite (twrite ?w1 (entries_p (wcache w)) t') a tb')
        (\<lambda>c. c\<lparr>bytes_c := counter_add (bytes_c c) (of_nat (length (concat cs)))\<rparr>)) ?key (Some kr)"
    have "set_body v ?w1 ?key ?e = Inr (Some kr, twrite (twrite ?w1 (entries_p (wcache w)) t') a tb')"
      using s' A S s2 B(1-6) P(13-15) by (simp add: set_body_def is_building_def tread_Some tadd_def set_shared_def Let_def)
    moreover have "slots_step m (OSet v k f x r cs) (RCode stored) t t'" using cl pr Some by (simp add: slots_step_def)
    moreover from calculation have "cexec w (OSet v k f x r cs) = Inr (RCode stored, ?w5)"
      using T(2) unfolding ex by (simp add: code_def Let_def)
    ultimately show ?thesis using T(1) S B(1,3,5,6) P(13,14)
      by (intro brefinesI [where t = t and t' = t' and r = "RCode stored" and m' = "m(k \<mapsto> \<lparr>i_flags = f, i_exptime = x, i_chunks = cs\<rparr>)" and w' = ?w5]
          carried_store [where tb = tb and tb' = tb']) simp_all
  next
    case None
    note A = A(1) [OF None]
    let ?w2 = "twrite ?w1 (entries_p (wcache w)) t"
    have i: "tinv t (wmem ?w2) (went ?w2) (wnewer ?w2) (wgc ?w2) own'" using P(1) by simp
    have u: "?e \<in> dom (went ?w2)" "\<forall>k. vref t k \<noteq> ?e" "unsched (wgc ?w2) ?e" using P(2,3,6) by simp_all
    obtain w3 where w3: "outcome (entry_destroy ?w2 ?e) = Inr w3" "tinv t (wmem w3) (went w3) (wnewer w3) (wgc w3) own'"
        "tmap t (wmem w3) (went w3) own' = tmap t (wmem ?w2) (went ?w2) own'" "wtab w3 = wtab ?w2" "wcache w3 = wcache ?w2"
        "wgc w3 = gc_object_delete (wgc ?w2) ?e" "went w3 = (went ?w2)(?e := None)"
      by (rule refused_ok [OF i u])
    let ?w4 = "drop_key w3 ?key None"
    have "v_key v \<noteq> ?e" using P(2,9) by auto
    moreover have "v_key v \<notin> fst ` keyrefs t" using new_key_address [OF B(7)] l(1) by (simp add: fresh_object_def)
    ultimately have "tinv t (wmem ?w4) (went ?w4) (wnewer ?w4) (wgc ?w4) own'"
      using tinv_drop_key [OF w3(2), of ?key] w3(6,7) P(9,10) by auto
    then have "brel old a ?w4 m"
      by (rule brelI [where t = t and tb = tb and own = own', rotated 6]) (use w3 B P in \<open>simp_all\<close>)
    moreover have "set_body v ?w1 ?key ?e = Inr (None, ?w2)"
      using s A None B(1-6) P(13-15) by (simp add: set_body_def is_building_def tread_Some tadd_def Let_def)
    moreover have "slots_step m (OSet v k f x r cs) (RCode set_error) t t" using cl A None by (simp add: slots_step_def)
    moreover from calculation have "cexec w (OSet v k f x r cs) = Inr (RCode set_error, ?w4)"
      using w3(1) unfolding ex by (simp add: code_def)
    ultimately show ?thesis using w3(4,5) k(2) B(1,3,5) P(13,14)
      by (intro brefinesI [where t = t and t' = t and r = "RCode set_error" and m' = m and w' = ?w4] carried_same) simp_all
  qed
qed

lemma add_brefines:
  assumes b: "brel old a w m" and l: "clegal w (OAdd v k f x r cs)" "no_value w k" "has_room w k"
  shows "brefines old a w m (OAdd v k f x r cs)"
proof -
  obtain own t tb where B: "building_p (wcache w) = a \<and> entries_p (wcache w) = old" "a \<noteq> 0" "a \<noteq> entries_p (wcache w)" "entries_p (wcache w) \<noteq> 0"
    "wtab w (entries_p (wcache w)) = Some t" "wtab w a = Some tb" "tinv t (wmem w) (went w) (wnewer w) (wgc w) own"
    "m = tmap t (wmem w) (went w) own" "taking t tb {}" "\<forall>k. has_key tb k \<longrightarrow> vref t k \<noteq> 0" by (rule brelE [OF b])
  have l': "clegal w (OSet v k f x r cs)" using l(1) by simp
  let ?w1 = "prepared v w f x r" and ?e = "v_entry v" and ?key = "(v_key v, k)"
  obtain own' where P: "?e \<noteq> 0" "aligned ?e" "wtab ?w1 = wtab w"
      "entries_p (wcache ?w1) = entries_p (wcache w)" "building_p (wcache ?w1) = building_p (wcache w)"
    by (rule prepared_ok [OF B(7) l'])
  have inv: "table_inv t" by (rule tinvD(1) [OF B(7)])
  have k: "vref t k = 0" "m k = None" using l(2) no_value_vref [OF B(7,5)] by (simp_all add: B(8) tmap_None)
  have tk: "\<not> has_key tb k" using B(10) k(1) by blast
  obtain ok cur cv t' rel where s: "add_impl t ?key (fp_ptr ?e) = (ok, cur, cv, t', rel)"
    by (cases "add_impl t ?key (fp_ptr ?e)") auto
  have vr: "valid_ref (fp_ptr ?e)" by (rule valid_ref_ptr [OF P(2,1)])
  note cl = add_impl_claim [OF inv vr s]
  have pr: "probes_of t' = probes_of t" if "cur = Some kr" for kr
    using add_impl_ok(2) [OF inv vr s [unfolded that]] by (rule probes_of_config)
  note A = add_free_key [OF inv P(2,1) k(1) s]
  obtain kr where Some: "cur = Some kr" using A(1) l(3) B(5) by (cases cur) (auto simp: has_room_def)
  note A = A(2) [OF Some]
  have kr: "kr \<in> keyrefs t'" "snd kr = k" using A by auto
  have bind: "vref t' j = (if j = k then ?e else vref t j)" for j using A by simp
  have tk': "taking t' tb {}" by (rule taking_bind [OF B(9) tk bind]) (use A in auto)
  obtain ok2 c2 cv2 tb' rel2 where s2: "add_impl tb kr (tagged ?e True) = (ok2, c2, cv2, tb', rel2)"
    by (cases "add_impl tb kr (tagged ?e True)") auto
  have ve: "?e = vref t' (snd kr)" using bind kr(2) by simp
  note S = taking_add [OF tk' kr(1) ve P(1,2) s2]
  have tinv: "table_inv tb" and v2: "tagged ?e True \<noteq> 0"
    using tk' valid_ref_nonzero [OF valid_ref_tagged [OF P(2,1)]] by (auto simp: taking_def)
  have "no_room tb j \<Longrightarrow> no_room tb' j" for j using no_room_mono [OF _ S(2)] tkeys_add(1) [OF tinv s2 v2] by blast
  then have ps: "passes tb j \<Longrightarrow> passes tb' j" "passes tb' k" for j using S(4,6) kr bind by (auto simp: passes_def)
  have S: "taking t' tb' {}" "rel2 = []" "\<And>j. has_key tb' j \<Longrightarrow> has_key tb j \<or> j = k" using S kr(2) bind by auto
  have nv: "\<forall>j. has_key tb' j \<longrightarrow> vref t' j \<noteq> 0" using S(3) B(10) P(1) by (auto simp: bind)
  have s': "add_impl t ?key (fp_ptr ?e) = (True, Some kr, cv, t', rel)" using s A Some by simp
  note T = both_stored [OF b l' B(5) s' S(1) nv]
  have "add_body v ?w1 ?key ?e = Inr (True, Some kr, twrite (twrite ?w1 (entries_p (wcache w)) t') a tb')"
    using s' A S(2) s2 B(1-6) P by (simp add: add_body_def is_building_def tread_Some tadd_def add_shared_def Let_def)
  moreover have "cexec w (OAdd v k f x r cs) = code (rbind (add_body v ?w1 ?key ?e) (\<lambda>(success, cur_key, w).
      if \<not> success then rbind (outcome (entry_destroy w ?e)) (\<lambda>w. Inr (set_error, drop_key w ?key cur_key))
      else rbind (rope_size (wmem w) r) (\<lambda>n. let w = upd_cache w (\<lambda>c. c\<lparr>bytes_c := counter_add (bytes_c c) n\<rparr>) in
        Inr (stored, drop_key w ?key cur_key))))"
    by (simp add: cache_add_def prepared_def cache_key_alloc_def Let_def)
  moreover have "slots_step m (OAdd v k f x r cs) (RCode stored) t t'" using cl pr Some by (simp add: slots_step_def)
  ultimately show ?thesis using T k(2) ps B(1,3,5,6) P(3,4)
    by (intro brefinesI [where t = t and t' = t' and r = "RCode stored" and m' = "m(k \<mapsto> \<lparr>i_flags = f, i_exptime = x, i_chunks = cs\<rparr>)"
          and w' = "drop_key (upd_cache (twrite (twrite ?w1 (entries_p (wcache w)) t') a tb')
            (\<lambda>c. c\<lparr>bytes_c := counter_add (bytes_c c) (of_nat (length (concat cs)))\<rparr>)) ?key (Some kr)"] carried_store [where tb = tb and tb' = tb'])
       (simp_all add: code_def Let_def)
qed

lemma cexec_brefines:
  assumes "brel old a w m" "blegal w op"
  shows "brefines old a w m op"
proof (cases "in_place op")
  case True
  then have "clegal w op" using assms(2) by (cases op) simp_all
  then show ?thesis by (rule in_place_brefines [OF assms(1) True])
next
  case False
  then show ?thesis using assms
    by (cases op) (simp_all only: in_place.simps blegal.simps set_brefines add_brefines replace_brefines del_brefines
      checkpoint_brefines clegal.simps(13) not_True_eq_False)
qed

section \<open>The waiting flush\<close>

text \<open>No operation but a checkpoint, and no thread that starts or ends, changes what the flush waits for.\<close>

definition waiters :: "gc_state \<Rightarrow> addr \<times> (addr \<rightharpoonup> waiter) \<times> u64 \<times> nat" where
  "waiters g = (flushes g, wheap g, cpu_mask g, cpu_count g)"

lemma gc_waiters [simp]:
  "waiters (gc_object_new g a) = waiters g" "waiters (gc_object_delete g a) = waiters g"
  by (auto simp: waiters_def gc_object_new_def gc_object_delete_def gwrite_def)

lemma free_waiters: "gc_free g c a = Inr g' \<Longrightarrow> waiters g' = waiters g"
  by (auto simp: waiters_def gc_free_def set_gnext_def gwrite_def Let_def rbind_Inr_iff)

lemma destroy_waiters:
  assumes "entry_destroy w a = Some (Inr w')"
  shows "waiters (wgc w') = waiters (wgc w)"
proof -
  have "\<forall>w'. r = Inr w' \<longrightarrow> waiters (wgc w') = waiters (wgc w)" if "entry_destroy w a = Some r" for r
    by (rule entry_destroy.raw_induct [where P = "\<lambda>w a r. \<forall>w'. r = Inr w' \<longrightarrow> waiters (wgc w') = waiters (wgc w)", OF _ that])
       (fastforce simp: Let_def split: if_splits sum.splits)
  then show ?thesis using assms by blast
qed

lemma outcome_Inr: "outcome r = Inr x \<longleftrightarrow> r = Some (Inr x)"
  by (simp add: outcome_def split: option.splits)

lemma release_waiters: "release_entries c w es = Inr w' \<Longrightarrow> waiters (wgc w') = waiters (wgc w)"
  by (induction es arbitrary: w) (auto simp: rbind_Inr_iff entry_release_def Let_def dest!: free_waiters)

lemma drop_key_waiters [simp]: "waiters (wgc (drop_key w k c)) = waiters (wgc w)"
  by (simp add: drop_key_def cache_key_delete_def)

lemma set_body_waiters:
  assumes "set_body v w k e = Inr (c, w')"
  shows "waiters (wgc w') = waiters (wgc w)"
proof -
  obtain en b bl where ib: "is_building w = (en, b, bl)" by (cases "is_building w") auto
  obtain t where t: "tread w en = Inr t" using assms by (auto simp: set_body_def ib rbind_Inr_iff)
  show ?thesis
  proof (cases bl)
    case True
    obtain ok cur ce t' rel where a: "tadd t k e = (ok, cur, ce, t', rel)" by (cases "tadd t k e") auto
    obtain w1 where w1: "release_entries (v_cpu v) (twrite w en t') rel = Inr w1"
      using assms True by (auto simp: set_body_def ib t a rbind_Inr_iff)
    have w1w: "waiters (wgc w1) = waiters (wgc w)" using release_waiters [OF w1] by simp
    show ?thesis
    proof (cases ok)
      case True
      then obtain tb w2 where "release_entries (v_cpu v) (twrite w1 b tb) w2 = Inr w'"
        using assms \<open>bl\<close> by (auto simp: set_body_def ib t a w1 rbind_Inr_iff split: option.splits prod.splits)
      then show ?thesis using release_waiters w1w by fastforce
    next
      case False
      then show ?thesis using assms \<open>bl\<close> w1w by (auto simp: set_body_def ib t a w1 rbind_Inr_iff split: if_splits)
    qed
  next
    case False
    obtain cur t' rel where a: "tset t k e = (cur, t', rel)" by (cases "tset t k e") auto
    show ?thesis using assms False by (auto simp: set_body_def ib t a rbind_Inr_iff dest!: release_waiters)
  qed
qed

lemma add_body_waiters:
  assumes "add_body v w k e = Inr (ok, c, w')"
  shows "waiters (wgc w') = waiters (wgc w)"
proof -
  obtain en b bl where ib: "is_building w = (en, b, bl)" by (cases "is_building w") auto
  obtain t where t: "tread w en = Inr t" using assms by (auto simp: add_body_def ib rbind_Inr_iff)
  obtain ok0 cur ce t' rel where a: "tadd t k e = (ok0, cur, ce, t', rel)" by (cases "tadd t k e") auto
  obtain w1 where w1: "release_entries (v_cpu v) (twrite w en t') rel = Inr w1"
    using assms by (auto simp: add_body_def ib t a rbind_Inr_iff)
  have w1w: "waiters (wgc w1) = waiters (wgc w)" using release_waiters [OF w1] by simp
  show ?thesis
  proof (cases "bl \<and> ok0")
    case True
    then obtain tb w2 where "release_entries (v_cpu v) (twrite w1 b tb) w2 = Inr w'"
      using assms by (auto simp: add_body_def ib t a w1 rbind_Inr_iff split: option.splits prod.splits)
    then show ?thesis using release_waiters w1w by fastforce
  next
    case False
    then show ?thesis using assms w1w by (auto simp: add_body_def ib t a w1 rbind_Inr_iff split: if_splits)
  qed
qed

lemma replace_body_waiters:
  assumes "replace_body v w k e = Inr (ok, w')"
  shows "waiters (wgc w') = waiters (wgc w)"
proof -
  obtain en b bl where ib: "is_building w = (en, b, bl)" by (cases "is_building w") auto
  obtain t where t: "tread w en = Inr t" using assms by (auto simp: replace_body_def ib rbind_Inr_iff)
  obtain ok t' rel where a: "treplace t k e = (ok, t', rel)" by (cases "treplace t k e") auto
  show ?thesis using assms
    by (auto simp: replace_body_def ib t a rbind_Inr_iff Let_def split: if_splits prod.splits dest!: release_waiters)
qed

text \<open>Changes of threads and checkpoints.\<close>

fun watched :: "cop \<Rightarrow> bool" where
  "watched OThreadStart = True"
| "watched (OThreadExit c) = True"
| "watched (OCheckpoint c) = True"
| "watched _ = False"

lemma in_place_waiters: "in_place op \<Longrightarrow> \<not> watched op \<Longrightarrow> cexec w op = Inr (r, w') \<Longrightarrow> wgc w' = wgc w"
  by (cases op)
     (auto simp: cache_get_def cache_append_def cache_prepend_def cache_cas_def get_value_def cache_incr_def cache_decr_def cache_flush_all_def
        cache_touch_def rbind_Inr_iff code_def number_def Let_def split: if_splits prod.splits)

lemma cexec_waiters:
  assumes "cexec w op = Inr (r, w')" "\<not> watched op"
  shows "waiters (wgc w') = waiters (wgc w)"
proof (cases "in_place op")
  case True
  then show ?thesis using in_place_waiters assms by simp
next
  case False
  then show ?thesis using assms
    by (cases op)
       (auto simp: cache_set_def cache_add_def cache_replace_def cache_del_def cache_key_alloc_def rbind_Inr_iff code_def Let_def outcome_Inr
         split: if_splits prod.splits dest!: set_body_waiters add_body_waiters replace_body_waiters destroy_waiters release_waiters)
qed

lemma finalize_waiters: "gc_finalize w ds = Inr w' \<Longrightarrow> waiters (wgc w') = waiters (wgc w)"
  by (induction ds arbitrary: w) (auto simp: rbind_Inr_iff outcome_Inr split: option.splits dest!: destroy_waiters)

lemma waiting_cong: "waiters g' = waiters g \<Longrightarrow> waiting s C g' = waiting s C g"
  by (simp add: waiters_def waiting_def)

text \<open>The threads that pass a checkpoint in \<open>ops\<close>; threads neither start nor end.\<close>

definition passed :: "cop list \<Rightarrow> nat set" where
  "passed ops = {c. OCheckpoint c \<in> set ops}"

definition same_threads :: "cop list \<Rightarrow> bool" where
  "same_threads ops \<longleftrightarrow> OThreadStart \<notin> set ops \<and> (\<forall>c. OThreadExit c \<notin> set ops)"

lemma step_waiting:
  assumes x: "cexec w op = Inr (r, w')" and tr: "gc_run tr (wgc w)" and cpu: "\<And>c. op = OCheckpoint c \<Longrightarrow> c < cpu_count (wgc w)"
    and s: "same_threads [op]" "waiting s C (wgc w)"
  shows "waiting s (C \<union> passed [op]) (wgc w') \<and> cpu_mask (wgc w') = cpu_mask (wgc w) \<and> cpu_count (wgc w') = cpu_count (wgc w)"
proof (cases "\<exists>c. op = OCheckpoint c")
  case False
  then have "\<not> watched op" "passed [op] = {}" using s(1) by (cases op; simp add: same_threads_def passed_def)+
  then show ?thesis using cexec_waiters [OF x] waiting_cong [of "wgc w'" "wgc w"] s(2) by (simp add: waiters_def)
next
  case True
  then obtain c where c: "op = OCheckpoint c" by blast
  obtain ds g where g: "gc_checkpoint (wgc w) c = Inr (ds, g)" "cpu_mask g = cpu_mask (wgc w)" "cpu_count g = cpu_count (wgc w)"
    by (rule checkpoint_kept [OF tr cpu [OF c]])
  have "gc_finalize (w\<lparr>wgc := g\<rparr>) ds = Inr w'" using x g(1) by (simp add: c cache_checkpoint_def rbind_Inr_iff)
  then have e: "waiters (wgc w') = waiters g" using finalize_waiters by fastforce
  have "waiting s (insert c C) g" by (rule waiting_checkpoint [OF tr cpu [OF c] g(1) s(2)])
  then show ?thesis using e waiting_cong [OF e] g(2,3) by (simp add: waiters_def c passed_def)
qed

text \<open>
  A flush serves operations: they refine a map in a state \<open>rel\<close> of the world that only depends on
  what a flush leaves as it is.
\<close>

definition legal_flush :: "(world \<Rightarrow> cop \<Rightarrow> bool) \<Rightarrow> env \<Rightarrow> addr \<Rightarrow> cop list \<Rightarrow> world \<Rightarrow> bool" where
  "legal_flush legal v s ops w \<longleftrightarrow>
     (case flush_enter v s w of Inl _ \<Rightarrow> True | Inr w \<Rightarrow> legal_run cexec legal w ops) \<and>
     same_threads ops \<and> v_cpu v < cpu_count (wgc w) \<and> (\<forall>c. bit (cpu_mask (wgc w)) c \<longrightarrow> c = v_cpu v \<or> c \<in> passed ops)"

locale flush_service = res_simulation cexec rel legal spec
  for rel :: "world \<Rightarrow> 'a \<Rightarrow> bool" and legal :: "world \<Rightarrow> cop \<Rightarrow> bool" and spec :: "'a \<Rightarrow> cop \<Rightarrow> creply \<Rightarrow> 'a \<Rightarrow> bool" +
  assumes legal_cpu: "legal w (OCheckpoint c) \<Longrightarrow> c < cpu_count (wgc w)"
    and stable: "rel w m \<Longrightarrow> \<exists>R K own. heap_ok R K own w \<and> (\<forall>w'. heap_ok R K own w' \<longrightarrow> undisturbed R own w w' \<longrightarrow> rel w' m)"
begin

lemma serving_run:
  assumes "rel w m" "legal_run cexec legal w ops" "same_threads ops" "waiting s C (wgc w)"
  shows "\<exists>rs w' m'. run_res cexec w ops = Inr (rs, w') \<and> spec_run spec m ops rs m' \<and> rel w' m' \<and>
    waiting s (C \<union> passed ops) (wgc w') \<and> cpu_mask (wgc w') = cpu_mask (wgc w) \<and> cpu_count (wgc w') = cpu_count (wgc w)"
  using assms
proof (induction ops arbitrary: w m C)
  case (Cons op ops)
  have l: "legal w op" using Cons.prems(2) by simp
  obtain r w1 m1 where r: "cexec w op = Inr (r, w1)" "spec m op r m1" "rel w1 m1" using step [OF Cons.prems(1) l] by blast
  obtain tr where tr: "gc_run tr (wgc w)" using stable [OF Cons.prems(1)] hinvD(5) by blast
  have "same_threads [op]" "same_threads ops" using Cons.prems(3) by (auto simp: same_threads_def)
  then have W: "waiting s (C \<union> passed [op]) (wgc w1)" "cpu_mask (wgc w1) = cpu_mask (wgc w)" "cpu_count (wgc w1) = cpu_count (wgc w)"
    using step_waiting [OF r(1) tr _ _ Cons.prems(4)] legal_cpu l by blast+
  obtain rs w' m' where "run_res cexec w1 ops = Inr (rs, w')" "spec_run spec m1 ops rs m'" "rel w' m'"
      "waiting s (C \<union> passed [op] \<union> passed ops) (wgc w')" "cpu_mask (wgc w') = cpu_mask (wgc w1)" "cpu_count (wgc w') = cpu_count (wgc w1)"
    using Cons.IH [OF r(3) _ \<open>same_threads ops\<close> W(1)] Cons.prems(2) r(1) by auto
  moreover have "C \<union> passed [op] \<union> passed ops = C \<union> passed (op # ops)" by (auto simp: passed_def)
  ultimately show ?case using r(1,2) W(2,3) by (intro exI [of _ "r # rs"] exI [of _ w'] exI [of _ m']) auto
qed (simp add: passed_def)

lemma flush_serves:
  assumes b: "rel w m" and s: "s \<noteq> 0" "flushes (wgc w) = 0" and l: "legal_flush legal v s ops w"
  obtains rs w' m' where "collect_flush v s ops w = Inr (rs, w')" "spec_run spec m ops rs m'" "rel w' m'" "flushes (wgc w') = 0" "cpu_count (wgc w') = cpu_count (wgc w)"
proof -
  have L: "same_threads ops" "v_cpu v < cpu_count (wgc w)" "\<And>c. bit (cpu_mask (wgc w)) c \<Longrightarrow> c \<in> {v_cpu v} \<union> passed ops"
    using l by (auto simp: legal_flush_def)
  obtain R K own where h: "heap_ok R K own w" "\<And>w'. heap_ok R K own w' \<Longrightarrow> undisturbed R own w w' \<Longrightarrow> rel w' m"
    using stable [OF b] by blast
  obtain w1 where w1: "flush_enter v s w = Inr w1" "heap_ok R K own w1" "undisturbed R own w w1"
      "waiting s {v_cpu v} (wgc w1)" by (rule flush_enter_ok [OF h(1) L(2) s(2,1)])
  have "legal_run cexec legal w1 ops" using l w1(1) by (simp add: legal_flush_def)
  then obtain rs w2 m' where w2: "run_res cexec w1 ops = Inr (rs, w2)" "spec_run spec m ops rs m'" "rel w2 m'"
      "waiting s ({v_cpu v} \<union> passed ops) (wgc w2)" "cpu_mask (wgc w2) = cpu_mask (wgc w1)" "cpu_count (wgc w2) = cpu_count (wgc w1)"
    using serving_run [OF h(2) [OF w1(2,3)] _ L(1) w1(4)] by blast
  have mk: "\<And>c. bit (cpu_mask (wgc w2)) c \<Longrightarrow> c \<in> {v_cpu v} \<union> passed ops" using L(3) w2(5) w1(3) by (simp add: undisturbed_def)
  obtain R' K' own' where h': "heap_ok R' K' own' w2" "\<And>w'. heap_ok R' K' own' w' \<Longrightarrow> undisturbed R' own' w2 w' \<Longrightarrow> rel w' m'"
    using stable [OF w2(3)] by blast
  obtain g where g: "flush_leave s w2 = Inr (w2\<lparr>wgc := g\<rparr>)" "heap_ok R' K' own' (w2\<lparr>wgc := g\<rparr>)"
      "undisturbed R' own' w2 (w2\<lparr>wgc := g\<rparr>)" "flushes g = 0"
    using flush_leave_ok [OF h'(1) w2(4) mk] by blast
  have "collect_flush v s ops w = Inr (rs, w2\<lparr>wgc := g\<rparr>)" using w1(1) w2(1) g(1) by (simp add: collect_flush_def)
  then show thesis using that w2(2,6) h'(2) [OF g(2,3)] g(3,4) w1(3) by (simp add: undisturbed_def)
qed

end

section \<open>The first flush\<close>

lemma brel_stable:
  assumes "brel old a w m"
  shows "\<exists>R K own. heap_ok R K own w \<and> (\<forall>w'. heap_ok R K own w' \<longrightarrow> undisturbed R own w w' \<longrightarrow> brel old a w' m)"
proof -
  obtain own t tb where B: "building_p (wcache w) = a \<and> entries_p (wcache w) = old" "a \<noteq> 0" "a \<noteq> entries_p (wcache w)" "entries_p (wcache w) \<noteq> 0"
    "wtab w (entries_p (wcache w)) = Some t" "wtab w a = Some tb" "tinv t (wmem w) (went w) (wnewer w) (wgc w) own"
    "m = tmap t (wmem w) (went w) own" "taking t tb {}" "\<forall>k. has_key tb k \<longrightarrow> vref t k \<noteq> 0" by (rule brelE [OF assms])
  have inv: "table_inv t" by (rule tinvD(1) [OF B(7)])
  have "brel old a w' m" if h: "heap_ok (vref t) (keyrefs t) own w'" and u: "undisturbed (vref t) own w w'" for w'
    by (rule brelI [where t = t and tb = tb and own = own])
       (use B undisturbed_reads [OF u] hinv_tinv [OF inv h] in \<open>simp_all add: tmap_hmap\<close>)
  then show ?thesis using tinv_hinv [OF B(7)] by blast
qed

text \<open>
  The flush began when the map was \<open>m0\<close>: every key that has a value since then is in the table that is
  built, with a shared reference, or has no bucket there. The specification is the full one, with the
  slots of the old table.
\<close>

definition built_since :: "(bytes \<Rightarrow> item option) \<Rightarrow> addr \<Rightarrow> world \<Rightarrow> (bytes \<Rightarrow> item option) \<Rightarrow> bool" where
  "built_since m0 a w m \<longleftrightarrow> (\<forall>tb k. wtab w a = Some tb \<longrightarrow> m0 k = None \<longrightarrow> m k \<noteq> None \<longrightarrow> passes tb k)"

lemma built_since_step: "built_since m0 a w m \<Longrightarrow> carried a w m w' m' \<Longrightarrow> wtab w a \<noteq> None \<Longrightarrow> built_since m0 a w' m'"
  unfolding built_since_def carried_def by (metis option.exhaust option.inject)

definition bview :: "(bytes \<Rightarrow> item option) \<Rightarrow> addr \<Rightarrow> addr \<Rightarrow> world \<Rightarrow> cache_view \<Rightarrow> bool" where
  "bview m0 old a w x \<longleftrightarrow> brel old a w (cv_items x) \<and> built_since m0 a w (cv_items x) \<and>
     (\<exists>t. table_at w = Some t \<and> x = cview t (cv_items x))"

definition both_specs :: "cache_view \<Rightarrow> cop \<Rightarrow> creply \<Rightarrow> cache_view \<Rightarrow> bool" where
  "both_specs x op r y \<longleftrightarrow> cspec x op r y \<and> aspec (cv_items x) op r (cv_items y)"

lemma both_specs_run:
  assumes "spec_run both_specs x ops rs y"
  shows "spec_run cspec x ops rs y" "spec_run aspec (cv_items x) ops rs (cv_items y)"
  using spec_run_map [of both_specs cspec "\<lambda>x. x", OF _ assms] spec_run_map [of both_specs aspec cv_items, OF _ assms]
  by (simp_all add: both_specs_def)

lemma cexec_bview:
  assumes "bview m0 old a w x" "blegal w op"
  shows "\<exists>r w' y. cexec w op = Inr (r, w') \<and> both_specs x op r y \<and> bview m0 old a w' y"
proof -
  obtain t where t: "brel old a w (cv_items x)" "built_since m0 a w (cv_items x)" "table_at w = Some t" "x = cview t (cv_items x)"
    using assms(1) by (auto simp: bview_def)
  obtain r w' m' t' where r: "cexec w op = Inr (r, w')" "aspec (cv_items x) op r m'" "brel old a w' m'" "table_at w' = Some t'"
      "slots_step (cv_items x) op r t t'" "carried a w (cv_items x) w' m'"
    using cexec_brefines [OF t(1) assms(2)] t(3) unfolding brefines_def by auto
  have "wtab w a \<noteq> None" using t(1) by (auto simp: brel_def)
  then have "bview m0 old a w' (cview t' m')" using r(3,4) built_since_step [OF t(2) r(6)] by (simp add: bview_def cview_def)
  moreover have "both_specs x op r (cview t' m')" using slots_step_cspec [OF r(2,5)] t(4) r(2) by (simp add: both_specs_def cview_def)
  ultimately show ?thesis using r(1) by blast
qed

lemma bview_stable:
  assumes "bview m0 old a w x"
  shows "\<exists>R K own. heap_ok R K own w \<and> (\<forall>w'. heap_ok R K own w' \<longrightarrow> undisturbed R own w w' \<longrightarrow> bview m0 old a w' x)"
proof -
  have b: "brel old a w (cv_items x)" using assms by (simp add: bview_def)
  obtain R K own where h: "heap_ok R K own w" "\<And>w'. heap_ok R K own w' \<Longrightarrow> undisturbed R own w w' \<Longrightarrow> brel old a w' (cv_items x)"
    using brel_stable [OF b] by blast
  have "bview m0 old a w' x" if w': "heap_ok R K own w'" "undisturbed R own w w'" for w'
    using assms h(2) [OF w'] undisturbed_reads [OF w'(2)] by (simp add: bview_def built_since_def)
  then show ?thesis using h(1) by blast
qed

interpretation rebuild: flush_service "bview m0 old a" blegal both_specs
proof (unfold_locales, goal_cases)
  case (1 w m op)
  then show ?case by (rule cexec_bview)
next
  case (2 w c)
  then show ?case by (simp add: runs_on_def)
next
  case (3 w m)
  then show ?case by (rule bview_stable)
qed

lemma begin_brel:
  assumes "crel w m" "wtab w (entries_p (wcache w)) = Some t" "lg2size t < 30" "a \<noteq> 0" "wtab w a = None"
  obtains w0 where "collect_begin a w = Inr (entries_p (wcache w), w0)" "brel (entries_p (wcache w)) a w0 m" "wgc w0 = wgc w"
    "table_at w0 = Some t"
proof -
  let ?old = "entries_p (wcache w)"
  obtain own where o: "building_p (wcache w) = 0" "?old \<noteq> 0" "tinv t (wmem w) (went w) (wnewer w) (wgc w) own"
      "m = tmap t (wmem w) (went w) own"
    using crelE [OF assms(1)] assms(2) by (metis option.inject)
  have oa: "?old \<noteq> a" using assms(2,5) by auto
  obtain lg where lg: "lg < 31" "collect_begin a w = Inr (?old, upd_cache (twrite w a (new_table lg)) (\<lambda>c. c\<lparr>building_p := a\<rparr>))"
    by (rule collect_begin_ok [OF o(2) assms(2,3)])
  let ?w0 = "upd_cache (twrite w a (new_table lg)) (\<lambda>c. c\<lparr>building_p := a\<rparr>)"
  have "taking t (new_table lg) {}" using new_table_ok [OF lg(1)] by (simp add: taking_def)
  then have "brel ?old a ?w0 m"
    by (intro brelI [where t = t and tb = "new_table lg" and own = own]) (use o oa assms new_table_ok(2) [OF lg(1)] in simp_all)
  then show thesis using that lg(2) assms(2) oa by simp
qed

text \<open>The part of \<open>collect\<close> up to the first flush, with what it asks of the other threads.\<close>

definition legal_first :: "env \<Rightarrow> addr \<Rightarrow> addr \<Rightarrow> cop list \<Rightarrow> world \<Rightarrow> bool" where
  "legal_first v s a ops w \<longleftrightarrow> (case collect_begin a w of Inl _ \<Rightarrow> True | Inr (old, w) \<Rightarrow> legal_flush blegal v s ops w)"

lemma collect_first_view:
  assumes c: "crel w m" "wtab w (entries_p (wcache w)) = Some t" "lg2size t < 30"
    and a: "a \<noteq> 0" "wtab w a = None" and s: "s \<noteq> 0" "flushes (wgc w) = 0" and l: "legal_first v s a ops w"
  obtains rs w' x where "collect_first v s a ops w = Inr (entries_p (wcache w), rs, w')"
    "spec_run both_specs (cview t m) ops rs x" "bview m (entries_p (wcache w)) a w' x" "flushes (wgc w') = 0"
proof -
  obtain w0 where w0: "collect_begin a w = Inr (entries_p (wcache w), w0)" "brel (entries_p (wcache w)) a w0 m" "wgc w0 = wgc w"
      "table_at w0 = Some t" by (rule begin_brel [OF c a])
  have f: "flushes (wgc w0) = 0" "legal_flush blegal v s ops w0" using l w0(1,3) s(2) by (simp_all add: legal_first_def)
  have b: "bview m (entries_p (wcache w)) a w0 (cview t m)" using w0(2,4) by (auto simp: bview_def cview_def built_since_def)
  obtain rs w' x where "collect_flush v s ops w0 = Inr (rs, w')" "spec_run both_specs (cview t m) ops rs x"
      "bview m (entries_p (wcache w)) a w' x" "flushes (wgc w') = 0"
    by (rule rebuild.flush_serves [OF b s(1) f])
  then show thesis using that w0(1) by (simp add: collect_first_def)
qed

lemma collect_first_ok:
  assumes c: "crel w m" "wtab w (entries_p (wcache w)) = Some t" "lg2size t < 30"
    and a: "a \<noteq> 0" "wtab w a = None" and s: "s \<noteq> 0" "flushes (wgc w) = 0" and l: "legal_first v s a ops w"
  obtains rs w' m' where "collect_first v s a ops w = Inr (entries_p (wcache w), rs, w')"
    "spec_run aspec m ops rs m'" "brel (entries_p (wcache w)) a w' m'" "flushes (wgc w') = 0"
proof -
  obtain rs w' x where x: "collect_first v s a ops w = Inr (entries_p (wcache w), rs, w')"
      "spec_run both_specs (cview t m) ops rs x" "bview m (entries_p (wcache w)) a w' x" "flushes (wgc w') = 0"
    by (rule collect_first_view [OF assms])
  then show thesis using that [OF x(1), of "cv_items x"] both_specs_run(2) [OF x(2)] by (simp add: cview_def bview_def)
qed

lemma collect_first_built:
  assumes c: "crel w m" "wtab w (entries_p (wcache w)) = Some t" "lg2size t < 30"
    and a: "a \<noteq> 0" "wtab w a = None" and s: "s \<noteq> 0" "flushes (wgc w) = 0" and l: "legal_first v s a ops w"
  obtains rs w' m' t' where "collect_first v s a ops w = Inr (entries_p (wcache w), rs, w')"
    "spec_run cspec (cview t m) ops rs (cview t' m')" "brel (entries_p (wcache w)) a w' m'" "flushes (wgc w') = 0"
    "wtab w' (entries_p (wcache w)) = Some t'" "built_since m a w' m'"
proof -
  let ?old = "entries_p (wcache w)"
  obtain rs w' x where x: "collect_first v s a ops w = Inr (?old, rs, w')" "spec_run both_specs (cview t m) ops rs x"
      "bview m ?old a w' x" "flushes (wgc w') = 0" by (rule collect_first_view [OF assms])
  obtain t' where t': "wtab w' ?old = Some t'" "x = cview t' (cv_items x)" "brel ?old a w' (cv_items x)" "built_since m a w' (cv_items x)"
    using x(3) by (auto simp: bview_def brel_def)
  show thesis using that [of rs w' t' "cv_items x"] x(1,4) t' both_specs_run(1) [OF x(2)] by simp
qed

section \<open>After the copy\<close>

text \<open>
  The new table is in use, but its entries are still shared with the old one, at \<open>old\<close>. The state is
  the one at rest for the old table, of which the keys in the new one are visible.
\<close>

definition entries_at :: "addr \<Rightarrow> world \<Rightarrow> world" where
  "entries_at e w = upd_cache w (\<lambda>c. c\<lparr>entries_p := e\<rparr>)"

lemma entries_at_simps [simp]:
  "wmem (entries_at b w) = wmem w" "went (entries_at b w) = went w" "wnewer (entries_at b w) = wnewer w"
  "wgc (entries_at b w) = wgc w" "wtab (entries_at b w) = wtab w" "wcache (entries_at b w) = (wcache w)\<lparr>entries_p := b\<rparr>"
  by (simp_all add: entries_at_def)

lemma entries_at_at [simp]: "entries_at b (entries_at c w) = entries_at b w" "entries_at (entries_p (wcache w)) w = w"
  by (simp_all add: entries_at_def upd_cache_def)

lemma entries_at_writes:
  "ewrite (entries_at b w) e x = entries_at b (ewrite w e x)" "(entries_at b w)\<lparr>wmem := h\<rparr> = entries_at b (w\<lparr>wmem := h\<rparr>)"
  "upd_cache (entries_at b w) (\<lambda>c. c\<lparr>bytes_c := counter_add (bytes_c c) n\<rparr>) = entries_at b (upd_cache w (\<lambda>c. c\<lparr>bytes_c := counter_add (bytes_c c) n\<rparr>))"
  "upd_cache (entries_at b w) (\<lambda>c. c\<lparr>gets_c := counter_incr (gets_c c)\<rparr>) = entries_at b (upd_cache w (\<lambda>c. c\<lparr>gets_c := counter_incr (gets_c c)\<rparr>))"
  "upd_cache (entries_at b w) (\<lambda>c. c\<lparr>touches_c := counter_incr (touches_c c)\<rparr>) =
     entries_at b (upd_cache w (\<lambda>c. c\<lparr>touches_c := counter_incr (touches_c c)\<rparr>))"
  "upd_cache (entries_at b w) (\<lambda>c. c\<lparr>get_misses_c := counter_incr (get_misses_c c)\<rparr>) =
     entries_at b (upd_cache w (\<lambda>c. c\<lparr>get_misses_c := counter_incr (get_misses_c c)\<rparr>))"
  "cache_flush_all v (entries_at b w) delay = entries_at b (cache_flush_all v w delay)"
  "(entries_at b w)\<lparr>wgc := g\<rparr> = entries_at b (w\<lparr>wgc := g\<rparr>)"
  by (simp_all add: entries_at_def upd_cache_def ewrite_def cache_flush_all_def)

lemma eread_entries_at [simp]: "eread (entries_at b w) a = eread w a"
  by (simp add: eread_def)

fun key_of :: "cop \<Rightarrow> bytes option" where
  "key_of (OAppend v k r cs) = Some k"
| "key_of (OPrepend v k r cs) = Some k"
| "key_of (OCas v k f x ver r cs) = Some k"
| "key_of (OGet v n k) = Some k"
| "key_of (OIncr v k d) = Some k"
| "key_of (ODecr v k d) = Some k"
| "key_of (OTouch v k x) = Some k"
| "key_of _ = None"

definition both_find :: "addr \<Rightarrow> world \<Rightarrow> bytes \<Rightarrow> bool" where
  "both_find old w k \<longleftrightarrow> (\<exists>t tb. tread w old = Inr t \<and> tread w (entries_p (wcache w)) = Inr tb \<and> tfind t k = tfind tb k)"

lemma get_entries_at:
  "both_find old w k \<Longrightarrow> cache_get (entries_at old w) k = rbind (cache_get w k) (\<lambda>(e, w). Inr (e, entries_at old w))"
  by (auto simp: both_find_def cache_get_def entries_at_writes tread_def Let_def rbind_def split: if_splits option.splits sum.splits)

lemma both_find_touches [simp]:
  "both_find old (upd_cache w (\<lambda>c. c\<lparr>touches_c := counter_incr (touches_c c)\<rparr>)) = both_find old w"
  by (simp add: both_find_def tread_def fun_eq_iff)

lemma in_place_entries_at:
  assumes "in_place op" "\<And>k. key_of op = Some k \<Longrightarrow> both_find old w k"
  shows "cexec (entries_at old w) op = rbind (cexec w op) (\<lambda>(r, w). Inr (r, entries_at old w))"
proof (cases "\<exists>v k r cs. op = OAppend v k r cs")
  case True
  then obtain v k r cs where op: "op = OAppend v k r cs" by blast
  obtain t tb where "tread w old = Inr t" "tread w (entries_p (wcache w)) = Inr tb" "tfind t k = tfind tb k"
    using assms(2) by (auto simp: op both_find_def)
  moreover have "tread (entries_at old w) old = tread w old" by (simp add: tread_def)
  ultimately show ?thesis
    by (auto simp: op cache_append_def entries_at_writes Let_def rbind_def code_def split: sum.splits prod.splits)
next
  case False
  then show ?thesis using assms
    by (cases op)
       (auto simp: get_entries_at cache_prepend_def cache_cas_def get_value_def cache_incr_def cache_decr_def
          cache_touch_def entries_at_writes Let_def rbind_def code_def number_def split: sum.splits prod.splits)
qed

text \<open>An operation on a key the table does not have.\<close>

lemma in_place_miss:
  assumes "in_place op" "key_of op = Some k" "tread w (entries_p (wcache w)) = Inr tb" "tfind tb k = 0"
  shows "\<exists>r w'. cexec w op = Inr (r, w') \<and> wmem w' = wmem w \<and> went w' = went w \<and> wnewer w' = wnewer w \<and> wgc w' = wgc w \<and>
    wtab w' = wtab w \<and> entries_p (wcache w') = entries_p (wcache w) \<and> building_p (wcache w') = building_p (wcache w) \<and>
    (\<forall>m. m k = None \<longrightarrow> aspec m op r m)"
proof -
  have t: "tread (upd_cache w f) = tread w" for f w by (simp add: tread_def fun_eq_iff)
  show ?thesis using assms
    by (cases op)
       (auto simp: cache_get_def cache_append_def cache_prepend_def cache_cas_def get_value_def cache_incr_def cache_decr_def
          cache_touch_def t Let_def code_def number_def)
qed

definition srel :: "addr \<Rightarrow> bytes opentable \<Rightarrow> addr \<Rightarrow> bytes opentable \<Rightarrow> world \<Rightarrow> (bytes \<Rightarrow> item option) \<Rightarrow> bool" where
  "srel old t a tb w m \<longleftrightarrow> entries_p (wcache w) = a \<and> building_p (wcache w) = 0 \<and> a \<noteq> 0 \<and> old \<noteq> 0 \<and> a \<noteq> old \<and>
     wtab w old = Some t \<and> wtab w a = Some tb \<and> taking t tb {} \<and> (\<forall>k. has_key tb k \<longrightarrow> vref t k \<noteq> 0) \<and>
     (\<exists>m0. crel (entries_at old w) m0 \<and> m = m0 |` {k. has_key tb k})"

fun slegal :: "world \<Rightarrow> cop \<Rightarrow> bool" where
  "slegal w (OCheckpoint c) \<longleftrightarrow> runs_on w c"
| "slegal w op \<longleftrightarrow> in_place op \<and> clegal w op"

lemma aspec_restrict:
  assumes "in_place op" "\<And>k. key_of op = Some k \<Longrightarrow> k \<in> K" "aspec m op r m'"
  shows "aspec (m |` K) op r (m' |` K)"
proof (cases "key_of op")
  case None
  then show ?thesis using assms(1,3) by (cases op) simp_all
next
  case (Some k)
  have k: "(m |` K) k = m k" "(m |` K)(k \<mapsto> i) = m(k \<mapsto> i) |` K" for i
    using assms(2) [OF Some] by (auto simp: restrict_map_def)
  show ?thesis
  proof (cases "m k")
    case None
    then show ?thesis using assms(1,3) Some k(1) by (cases op) simp_all
  next
    case (Some i)
    then show ?thesis using assms(1,3) \<open>key_of op = Some k\<close> k(1)
      by (cases op) (auto simp: k(2) simp del: restrict_fun_upd fun_upd_restrict_conv split: if_splits)
  qed
qed

lemma srel_heap:
  assumes "srel old t a tb w m"
  obtains own where "tinv t (wmem w) (went w) (wnewer w) (wgc w) own" "m = tmap t (wmem w) (went w) own |` {k. has_key tb k}"
proof -
  obtain m0 where m0: "crel (entries_at old w) m0" "m = m0 |` {k. has_key tb k}" using assms by (auto simp: srel_def)
  obtain own t' where "wtab (entries_at old w) (entries_p (wcache (entries_at old w))) = Some t'"
      "tinv t' (wmem (entries_at old w)) (went (entries_at old w)) (wnewer (entries_at old w)) (wgc (entries_at old w)) own"
      "m0 = tmap t' (wmem (entries_at old w)) (went (entries_at old w)) own" by (rule crelE [OF m0(1)])
  then show thesis using that m0(2) assms by (simp add: srel_def)
qed

lemma shared_find:
  assumes "srel old t a tb w m"
  shows "tfind tb k = (if has_key tb k then tfind t k else 0)"
proof -
  obtain own where i: "tinv t (wmem w) (went w) (wnewer w) (wgc w) own" by (rule srel_heap [OF assms])
  have "vref tb k = (if \<not> has_key tb k then 0 else tagged (vref t k) True)" using assms by (simp add: srel_def taking_def)
  moreover have "aligned (vref t k)" using tinv_lookup [OF i refl] aligned_0 by metis
  ultimately show ?thesis using tinv_tfind [OF i, of k] by (simp add: find_vref)
qed

lemma in_place_shared:
  assumes s: "srel old t a tb w m" and op: "in_place op" "clegal w op"
  shows "\<exists>r w' m'. cexec w op = Inr (r, w') \<and> aspec m op r m' \<and> srel old t a tb w' m'"
proof -
  have S: "entries_p (wcache w) = a" "building_p (wcache w) = 0" "a \<noteq> 0" "old \<noteq> 0" "a \<noteq> old" "wtab w old = Some t" "wtab w a = Some tb"
    using s by (simp_all add: srel_def)
  obtain m0 where m0: "crel (entries_at old w) m0" "m = m0 |` {k. has_key tb k}" using s by (auto simp: srel_def)
  have rd: "tread w old = Inr t" "tread w (entries_p (wcache w)) = Inr tb" using S by (simp_all add: tread_Some)
  show ?thesis
  proof (cases "\<exists>k. key_of op = Some k \<and> \<not> has_key tb k")
    case True
    then obtain k where k: "key_of op = Some k" "\<not> has_key tb k" by blast
    obtain r w' where w': "cexec w op = Inr (r, w')" "wmem w' = wmem w" "went w' = went w" "wnewer w' = wnewer w" "wgc w' = wgc w"
        "wtab w' = wtab w" "entries_p (wcache w') = entries_p (wcache w)" "building_p (wcache w') = building_p (wcache w)"
        "\<forall>m. m k = None \<longrightarrow> aspec m op r m"
      using in_place_miss [OF op(1) k(1) rd(2)] shared_find [OF s, of k] k(2) by auto
    have "crel (entries_at old w') m0" by (rule same_crel [OF m0(1)]) (use w' in simp_all)
    then have "srel old t a tb w' m" using s w' m0(2) by (auto simp: srel_def)
    moreover have "m k = None" using k(2) m0(2) by simp
    ultimately show ?thesis using w'(1,9) by blast
  next
    case False
    have bf: "both_find old w k" if "key_of op = Some k" for k
      using False that shared_find [OF s, of k] rd by (auto simp: both_find_def)
    have "clegal (entries_at old w) op" using op bf rd
      by (cases op) (auto simp: rope_fresh_def fresh_chunk_def numeric_value_def runs_on_def both_find_def tread_def split: if_splits option.splits)
    then obtain r w1 m1 where r: "cexec (entries_at old w) op = Inr (r, w1)" "aspec m0 op r m1" "crel w1 m1"
      using cexec_refines [OF m0(1)] unfolding refines_def by blast
    then obtain w' where w': "cexec w op = Inr (r, w')" "w1 = entries_at old w'"
      using in_place_entries_at [OF op(1) bf] by (auto simp: rbind_Inr_iff)
    have "building_p (wcache w') = 0" using r(3) w'(2) by (auto elim: crelE)
    then have "srel old t a tb w' (m1 |` {k. has_key tb k})"
      using s r(3) in_place_frame [OF op(1) w'(1)] unfolding w'(2) by (auto simp: srel_def)
    moreover have "aspec m op r (m1 |` {k. has_key tb k})"
      unfolding m0(2) by (rule aspec_restrict [OF op(1) _ r(2)]) (use False in auto)
    ultimately show ?thesis using w'(1) by blast
  qed
qed

lemma srel_stable:
  assumes s: "srel old t a tb w m"
  shows "\<exists>R K own. heap_ok R K own w \<and> (\<forall>w'. heap_ok R K own w' \<longrightarrow> undisturbed R own w w' \<longrightarrow> srel old t a tb w' m)"
proof -
  obtain own where i: "tinv t (wmem w) (went w) (wnewer w) (wgc w) own" "m = tmap t (wmem w) (went w) own |` {k. has_key tb k}"
    by (rule srel_heap [OF s])
  have "srel old t a tb w' m" if h: "heap_ok (vref t) (keyrefs t) own w'" and u: "undisturbed (vref t) own w w'" for w'
  proof -
    note U = undisturbed_reads [OF u]
    have "crel (entries_at old w') (tmap t (wmem w') (went w') own)"
      by (rule crelI [where t = t and own = own]) (use s U hinv_tinv [OF tinvD(1) [OF i(1)] h] in \<open>simp_all add: srel_def\<close>)
    moreover have "m = tmap t (wmem w') (went w') own |` {k. has_key tb k}" using i(2) U(4) by (simp add: tmap_hmap)
    ultimately show ?thesis using s U(2,3) by (auto simp: srel_def)
  qed
  then show ?thesis using tinv_hinv [OF i(1)] by blast
qed

lemma checkpoint_shared:
  assumes s: "srel old t a tb w m" and c: "runs_on w c"
  shows "\<exists>w'. cexec w (OCheckpoint c) = Inr (RDone, w') \<and> srel old t a tb w' m"
proof -
  obtain R K own where h: "heap_ok R K own w" "\<And>w'. heap_ok R K own w' \<Longrightarrow> undisturbed R own w w' \<Longrightarrow> srel old t a tb w' m"
    using srel_stable [OF s] by blast
  obtain w' where "cache_checkpoint c w = Inr w'" "heap_ok R K own w'" "undisturbed R own w w'"
    using cache_checkpoint_ok [OF h(1) c [unfolded runs_on_def]] by blast
  then show ?thesis using h(2) by simp
qed

interpretation shared: flush_service "srel old t a tb" slegal aspec
proof (unfold_locales, goal_cases)
  case (1 w m op)
  show ?case
  proof (cases "\<exists>c. op = OCheckpoint c")
    case True
    then show ?thesis using checkpoint_shared [OF 1(1)] 1(2) by fastforce
  next
    case False
    then have "in_place op" "clegal w op" using 1(2) by (cases op; simp)+
    then show ?thesis by (rule in_place_shared [OF 1(1)])
  qed
next
  case (2 w c)
  then show ?case by (simp add: runs_on_def)
next
  case (3 w m)
  then show ?case by (rule srel_stable)
qed

end
