(* ===== verification/Collection.thy ===== *)
theory Collection
  imports Rebuild
begin

text \<open>
  The whole of \<open>collect\<close>, with the other threads at work in both of its flushes: the copy leads from
  the state of a rebuild to the one where the tables share entries, and the last loop from there to
  a cache at rest.
\<close>

section \<open>From the copy to the end\<close>

text \<open>
  The new table \<open>t'\<close> has the keys that were stored during the rebuild, those in \<open>tb\<close>, and the live keys of
  the old one, \<open>t\<close>, but for those that find no bucket.
\<close>

definition collected :: "world \<Rightarrow> int \<Rightarrow> int \<Rightarrow> bytes opentable \<Rightarrow> bytes opentable \<Rightarrow> bytes opentable \<Rightarrow> bool" where
  "collected w cutoff now t tb t' \<longleftrightarrow>
     (\<forall>k. has_key t' k \<longrightarrow> has_key tb k \<or> vref t k \<noteq> 0 \<and> is_live w cutoff now (vref t k)) \<and>
     (\<forall>k. has_key tb k \<longrightarrow> has_key t' k) \<and>
     (\<forall>k. vref t k \<noteq> 0 \<longrightarrow> is_live w cutoff now (vref t k) \<longrightarrow> has_key t' k \<or> no_room t' k)"

lemma copy_shared:
  assumes b: "brel old a w m" and t: "wtab w old = Some t" "wtab w a = Some tb0" "get_atime_cutoff w t = Inr cutoff"
  obtains tb w1 where "collect_copy v old a w = Inr w1" "srel old t a tb w1 (m |` {k. has_key tb k})"
    "wgc w1 = wgc w" "collected w cutoff (v_now v) t tb0 tb"
proof -
  obtain own t0 tb1 where B: "building_p (wcache w) = a \<and> entries_p (wcache w) = old" "a \<noteq> 0" "a \<noteq> entries_p (wcache w)"
      "entries_p (wcache w) \<noteq> 0" "wtab w (entries_p (wcache w)) = Some t0" "wtab w a = Some tb1"
      "tinv t0 (wmem w) (went w) (wnewer w) (wgc w) own" "m = tmap t0 (wmem w) (went w) own" "taking t0 tb1 {}"
      "\<forall>k. has_key tb1 k \<longrightarrow> vref t0 k \<noteq> 0" by (rule brelE [OF b])
  have e: "t0 = t" "tb1 = tb0" using B(1,5,6) t(1,2) by simp_all
  note i = B(7) [unfolded e] and old = B(4) [unfolded conjunct2 [OF B(1)]]
  obtain tb where C: "collect_copy v old a w = Inr (upd_cache (twrite w a tb) (\<lambda>c. c\<lparr>entries_p := a, building_p := 0\<rparr>))"
      "taking t tb {}" "\<forall>k. has_key tb k \<longrightarrow> has_key tb0 k \<or> vref t k \<noteq> 0 \<and> is_live w cutoff (v_now v) (vref t k)"
      "\<forall>k. has_key tb0 k \<longrightarrow> has_key tb k"
      "\<forall>k. vref t k \<noteq> 0 \<longrightarrow> is_live w cutoff (v_now v) (vref t k) \<longrightarrow> has_key tb k \<or> no_room tb k"
    by (rule collect_copy_ok [OF i t(1,2) B(9) [unfolded e] t(3) old B(2)])
  let ?w = "upd_cache (twrite w a tb) (\<lambda>c. c\<lparr>entries_p := a, building_p := 0\<rparr>)"
  have oa: "a \<noteq> old" using B(1,3) by simp
  have "crel (entries_at old ?w) m"
    by (rule crelI [where t = t and own = own]) (use i B(8) e t(1) old oa in simp_all)
  moreover have "\<forall>k. has_key tb k \<longrightarrow> vref t k \<noteq> 0" using C(3) B(10) unfolding e by blast
  ultimately have "srel old t a tb ?w (m |` {k. has_key tb k})"
    using B(2) old oa t(1) C(2) by (auto simp: srel_def)
  then show thesis using that [OF C(1)] C(3-5) by (simp add: collected_def)
qed

text \<open>The last loop leaves the visible part of the map.\<close>

lemma finish_shared:
  assumes s: "srel old t a tb w m" and cpu: "v_cpu v < cpu_count (wgc w)" and nz: "\<forall>k. has_key t k \<longrightarrow> vref t k \<noteq> 0"
  obtains t' w' where "collect_finish v old a w = Inr w'" "crel w' m" "entries_p (wcache w') = a"
    "wtab w' = (wtab w)(old := None, a \<mapsto> t')" "has_key t' = has_key tb" "no_room t' = no_room tb"
proof -
  obtain own where i: "tinv t (wmem w) (went w) (wnewer w) (wgc w) own" "m = tmap t (wmem w) (went w) own |` {k. has_key tb k}"
    by (rule srel_heap [OF s])
  have S: "entries_p (wcache w) = a" "building_p (wcache w) = 0" "a \<noteq> 0" "old \<noteq> 0" "old \<noteq> a" "wtab w old = Some t" "wtab w a = Some tb"
      "taking t tb {}" using s by (auto simp: srel_def)
  obtain t' w' where F: "collect_finish v old a w = Inr w'" "wtab w' = (wtab w)(old := None, a \<mapsto> t')"
      "tinv t' (wmem w') (went w') (wnewer w') (wgc w') own" "\<forall>k. vref t' k = (if has_key t' k then vref t k else 0)"
      "wmem w' = wmem w" "went w' = went w" "(wcache w')\<lparr>bytes_c := 0\<rparr> = (wcache w)\<lparr>bytes_c := 0\<rparr>"
      "has_key t' = has_key tb" "no_room t' = no_room tb"
    using collect_finish_ok [OF i(1) nz S(6-8) cpu S(5,4,3)] by blast
  have ep: "entries_p (wcache w') = a" "building_p (wcache w') = 0" using cache_fields [OF F(7)] S(1,2) by simp_all
  have "m k = tmap t' (wmem w') (went w') own k" for k
    using F(4-6,8) by (simp add: i(2) tmap_def restrict_map_def)
  then have "m = tmap t' (wmem w') (went w') own" by (rule ext)
  then have "crel w' m" using crelI [of w' t' own] ep F(2,3) S(3,5) by simp
  then show thesis using that F(1,2,8,9) ep by blast
qed

text \<open>No key of the table at \<open>e\<close> has a null value; the threshold for its entries can be computed.\<close>

definition no_deleted :: "addr \<Rightarrow> world \<Rightarrow> bool" where
  "no_deleted e w \<longleftrightarrow> (\<forall>t k. wtab w e = Some t \<longrightarrow> has_key t k \<longrightarrow> vref t k \<noteq> 0)"

definition has_cutoff :: "addr \<Rightarrow> world \<Rightarrow> bool" where
  "has_cutoff e w \<longleftrightarrow> (\<exists>t cutoff. wtab w e = Some t \<and> get_atime_cutoff w t = Inr cutoff)"

definition legal_rest :: "env \<Rightarrow> addr \<Rightarrow> addr \<Rightarrow> addr \<Rightarrow> cop list \<Rightarrow> world \<Rightarrow> bool" where
  "legal_rest v s old a ops w \<longleftrightarrow> has_cutoff old w \<and>
     (case collect_copy v old a w of Inl _ \<Rightarrow> True | Inr w \<Rightarrow> legal_flush slegal v s ops w)"

lemma shared_flush:
  assumes b: "brel old a w m" and t: "wtab w old = Some t" "wtab w a = Some tb0" "get_atime_cutoff w t = Inr cutoff"
    and s: "s \<noteq> 0" "flushes (wgc w) = 0" and l: "legal_rest v s old a ops w"
  obtains tb w1 rs w2 m2 where "collect_copy v old a w = Inr w1" "collect_flush v s ops w1 = Inr (rs, w2)"
    "spec_run aspec (m |` {k. has_key tb k}) ops rs m2" "srel old t a tb w2 m2" "v_cpu v < cpu_count (wgc w2)"
    "collected w cutoff (v_now v) t tb0 tb"
proof -
  obtain tb w1 where C: "collect_copy v old a w = Inr w1" "srel old t a tb w1 (m |` {k. has_key tb k})"
    "wgc w1 = wgc w" "collected w cutoff (v_now v) t tb0 tb" by (rule copy_shared [OF b t])
  have f: "flushes (wgc w1) = 0" "legal_flush slegal v s ops w1" using l C(1,3) s(2) by (simp_all add: legal_rest_def)
  obtain rs w2 m2 where R: "collect_flush v s ops w1 = Inr (rs, w2)" "spec_run aspec (m |` {k. has_key tb k}) ops rs m2"
      "srel old t a tb w2 m2" "cpu_count (wgc w2) = cpu_count (wgc w1)"
    by (rule shared.flush_serves [OF C(2) s(1) f])
  have "v_cpu v < cpu_count (wgc w2)" using f(2) R(4) by (simp add: legal_flush_def)
  then show thesis using that C(1,4) R(1-3) by blast
qed

lemma collect_rest_ok:
  assumes b: "brel old a w m" and t: "wtab w old = Some t" "wtab w a = Some tb0" "get_atime_cutoff w t = Inr cutoff"
    and s: "s \<noteq> 0" "flushes (wgc w) = 0" and l: "legal_rest v s old a ops w" "no_deleted old w"
  obtains t' rs w' m' where "collect_rest v s old a ops w = Inr (rs, w')" "spec_run aspec (m |` {k. has_key t' k}) ops rs m'"
    "crel w' m'" "entries_p (wcache w') = a" "wtab w' a = Some t'" "wtab w' old = None" "collected w cutoff (v_now v) t tb0 t'"
proof -
  obtain tb w1 rs w2 m2 where C: "collect_copy v old a w = Inr w1" "collect_flush v s ops w1 = Inr (rs, w2)"
    "spec_run aspec (m |` {k. has_key tb k}) ops rs m2" "srel old t a tb w2 m2" "v_cpu v < cpu_count (wgc w2)"
    "collected w cutoff (v_now v) t tb0 tb" by (rule shared_flush [OF b t s l(1)])
  have nz: "\<forall>k. has_key t k \<longrightarrow> vref t k \<noteq> 0" using l(2) t(1) by (simp add: no_deleted_def)
  obtain t' w' where F: "collect_finish v old a w2 = Inr w'" "crel w' m2" "entries_p (wcache w') = a"
    "wtab w' = (wtab w2)(old := None, a \<mapsto> t')" "has_key t' = has_key tb" "no_room t' = no_room tb"
    by (rule finish_shared [OF C(4,5) nz])
  have oa: "a \<noteq> old" using C(4) by (simp add: srel_def)
  show thesis
    by (rule that [of rs w' t' m2]) (use C(1-3,6) F oa in \<open>simp_all add: collect_rest_def collected_def\<close>)
qed

text \<open>When a key of the old table has no value, the last loop stops there.\<close>

lemma finish_null:
  assumes s: "srel old t a tb w m" and cpu: "v_cpu v < cpu_count (wgc w)" and k: "has_key t k" "vref t k = 0"
  shows "collect_finish v old a w = Inl NullDeref"
proof -
  obtain own where i: "tinv t (wmem w) (went w) (wnewer w) (wgc w) own" by (rule srel_heap [OF s])
  have S: "old \<noteq> a" "old \<noteq> 0" "a \<noteq> 0" "wtab w old = Some t" "wtab w a = Some tb" "taking t tb {}"
      "\<forall>k. has_key tb k \<longrightarrow> vref t k \<noteq> 0" using s by (auto simp: srel_def)
  show ?thesis using take_over_null [OF i k S(4-6) cpu S(7,1-3)] S(2,4) by (simp add: collect_finish_def tread_Some)
qed

lemma collect_rest_null:
  assumes b: "brel old a w m" and s: "s \<noteq> 0" "flushes (wgc w) = 0" and l: "legal_rest v s old a ops w" "\<not> no_deleted old w"
  shows "collect_rest v s old a ops w = Inl NullDeref"
proof -
  obtain t cutoff where t: "wtab w old = Some t" "get_atime_cutoff w t = Inr cutoff"
    using l(1) by (auto simp: legal_rest_def has_cutoff_def)
  obtain tb0 where tb0: "wtab w a = Some tb0" using b by (auto simp: brel_def)
  obtain tb w1 rs w2 m2 where C: "collect_copy v old a w = Inr w1" "collect_flush v s ops w1 = Inr (rs, w2)"
      "srel old t a tb w2 m2" "v_cpu v < cpu_count (wgc w2)"
    by (rule shared_flush [OF b t(1) tb0 t(2) s l(1)])
  obtain k where k: "has_key t k" "vref t k = 0" using l(2) t(1) by (auto simp: no_deleted_def)
  show ?thesis using C(1,2) finish_null [OF C(3,4) k] by (simp add: collect_rest_def)
qed

section \<open>An example\<close>

lemma legal_run_snoc:
  "legal_run exec legal s ops \<Longrightarrow> run_res exec s ops = Inr (rs, s') \<Longrightarrow> legal s' op \<Longrightarrow> legal_run exec legal s (ops @ [op])"
  by (induction ops arbitrary: s rs) (auto simp: rbind_Inr_iff split: sum.splits)

text \<open>A table of one bucket, before and after the only key is deleted.\<close>

definition demo_facts :: "u64 \<Rightarrow> u64 \<Rightarrow> world \<Rightarrow> bool" where
  "demo_facts c n w \<longleftrightarrow> flushes (wgc w) = 0 \<and> cpu_count (wgc w) = 1 \<and> cpu_mask (wgc w) = 1 \<and> bytes_c (wcache w) = n \<and>
     max_bytes (wcache w) = 1000 \<and> entries_p (wcache w) = 0x1000 \<and> wtab w 0x5000 = None \<and>
     map_option (\<lambda>t. (lg2size t, table t)) (wtab w 0x1000) = Some (0, [\<lparr>bkt_k = Some (0x2000, ''k''), bkt_v = c\<rparr>])"

lemma demo_stored_run: "case run_res cexec (cache_new 1000 0x1000 0) demo_cops of Inl _ \<Rightarrow> False | Inr (_, w) \<Rightarrow> demo_facts 0x3000 2 w"
  by code_simp

lemma demo_deleted_run:
  "case run_res cexec (cache_new 1000 0x1000 0) (demo_cops @ [ODel demo_env ''k'']) of Inl _ \<Rightarrow> False | Inr (_, w) \<Rightarrow> demo_facts 0 0 w"
  by code_simp

lemma demo_refines:
  assumes "legal_run cexec clegal (cache_new 1000 0x1000 0) ops"
  obtains rs w m where "run_res cexec (cache_new 1000 0x1000 0) ops = Inr (rs, w)" "crel w m"
proof -
  have "crel (cache_new 1000 0x1000 0) (\<lambda>_. None)" by (rule new_cache_crel) simp_all
  from cache.run_refines [OF this assms] show thesis using that by blast
qed

lemma demo_stored: obtains m w where "crel w m" "demo_facts 0x3000 2 w"
proof -
  obtain rs w m where r: "run_res cexec (cache_new 1000 0x1000 0) demo_cops = Inr (rs, w)" "crel w m"
    by (rule demo_refines [OF demo_cops_legal])
  from demo_stored_run [unfolded r(1)] show thesis using that [OF r(2)] by simp
qed

lemma demo_deleted: obtains m w where "crel w m" "demo_facts 0 0 w"
proof -
  obtain rs w m where r: "run_res cexec (cache_new 1000 0x1000 0) demo_cops = Inr (rs, w)" "crel w m"
    by (rule demo_refines [OF demo_cops_legal])
  from demo_stored_run [unfolded r(1)] have "demo_facts 0x3000 2 w" by simp
  then have "clegal w (ODel demo_env ''k'')" by (simp add: runs_on_def demo_facts_def demo_env_def)
  note l = legal_run_snoc [OF demo_cops_legal r(1) this]
  obtain rs w m where r: "run_res cexec (cache_new 1000 0x1000 0) (demo_cops @ [ODel demo_env ''k'']) = Inr (rs, w)" "crel w m"
    by (rule demo_refines [OF l])
  from demo_deleted_run [unfolded r(1)] show thesis using that [OF r(2)] by simp
qed

lemma fill_ratio_demo: "fill_ratio 1000 2 = Inr (Some 450)"
proof -
  have r: "dbl (1 - reserve_percentage) = 8106479329266893 / 9007199254740992"
  proof -
    have a: "reserve_percentage = 3602879701896397 / 36028797018963968" by code_simp
    show ?thesis unfolding a by code_simp
  qed
  have d: "dbl 1000 = 1000" "dbl 2 = 2" "dbl (1000 * (8106479329266893 / 9007199254740992)) = 900" "dbl (900 / 2) = 450"
    by code_simp+
  have n: "of_nat (unat (1000 :: u64)) = (1000 :: rat)" "of_int (sint (2 :: u64)) = (2 :: rat)" by simp_all
  show ?thesis unfolding fill_ratio_def Let_def n r d by simp
qed

lemma demo_cutoff:
  assumes "bytes_c (wcache w) = n" "max_bytes (wcache w) = 1000" "n = 0 \<or> n = 2"
  shows "get_atime_cutoff w t = Inr 0"
proof -
  have z: "fill_ratio 1000 0 = Inr None" by (simp add: fill_ratio_def Let_def)
  show ?thesis using assms(3) unfolding get_atime_cutoff_def assms(1,2) by (elim disjE) (simp_all add: z fill_ratio_demo)
qed

text \<open>Only the collecting thread is registered; operations without conditions are legal in its flushes.\<close>

lemma idle_flush:
  assumes "v_cpu v = 0" "cpu_count (wgc w) = 1" "cpu_mask (wgc w) = 1" "same_threads ops" "\<And>w. legal_run cexec legal w ops"
  shows "legal_flush legal v s ops w"
  using assms by (auto simp: legal_flush_def bit_1_iff split: sum.split)

lemma demo_gets: "legal_run cexec slegal w [OGet demo_env 0 ''k'']" "legal_run cexec blegal w [OGet demo_env 0 ''k'']"
  "same_threads [OGet demo_env 0 ''k'']" "same_threads []"
  by (simp_all add: same_threads_def split: sum.split)

lemma demo_collect:
  assumes c: "crel w m" and f: "demo_facts c n w" "n = 0 \<or> n = 2"
  obtains t w1 where "wtab w (entries_p (wcache w)) = Some t" "lg2size t < 30" "wtab w 0x5000 = None" "flushes (wgc w) = 0"
    "has_key t = (\<lambda>k. k = ''k'')" "m ''k'' = None \<longleftrightarrow> c = 0"
    "legal_first demo_env 0x6000 0x5000 [] w" "legal_first demo_env 0x6000 0x5000 [OGet demo_env 0 ''k''] w"
    "collect_first demo_env 0x6000 0x5000 [] w = Inr (0x1000, [], w1)" "wtab w1 0x1000 = Some t" "get_atime_cutoff w1 t = Inr 0"
    "legal_rest demo_env 0x6000 0x1000 0x5000 [OGet demo_env 0 ''k''] w1" "no_deleted 0x1000 w1 \<longleftrightarrow> c \<noteq> 0"
proof -
  have D: "flushes (wgc w) = 0" "cpu_count (wgc w) = 1" "cpu_mask (wgc w) = 1" "bytes_c (wcache w) = n"
      "max_bytes (wcache w) = 1000" "entries_p (wcache w) = 0x1000" "wtab w 0x5000 = None" "v_cpu demo_env = 0"
    using f(1) by (simp_all add: demo_facts_def demo_env_def)
  obtain own t where o: "wtab w (entries_p (wcache w)) = Some t" "tinv t (wmem w) (went w) (wnewer w) (wgc w) own"
      "m = tmap t (wmem w) (went w) own" by (rule crelE [OF c])
  have t: "lg2size t = 0" "table t = [\<lparr>bkt_k = Some (0x2000, ''k''), bkt_v = c\<rparr>]" using f(1) o(1) by (auto simp: demo_facts_def)
  have inv: "table_inv t" by (rule tinvD(1) [OF o(2)])
  have vk: "vref t ''k'' = c" using bucket_vref(1) [OF inv, of 0 "(0x2000, ''k'')"] t by (simp add: bucket_def)
  then have mk: "m ''k'' = None \<longleftrightarrow> c = 0" by (simp add: o(3) tmap_None)
  have hk: "has_key t = (\<lambda>k. k = ''k'')" using t(2) by (auto simp: has_key_def tkeys_def)
  have lg: "lg2size t < 30" using t(1) by simp
  obtain w0 where w0: "collect_begin 0x5000 w = Inr (0x1000, w0)" "brel 0x1000 0x5000 w0 m" "wgc w0 = wgc w"
    using begin_brel [OF c o(1) lg _ D(7)] D(6) by auto
  have C0: "bytes_c (wcache w0) = n" "max_bytes (wcache w0) = 1000" "wtab w0 0x1000 = Some t"
    using w0(1) D(4-6) o(1) by (auto simp: collect_begin_def rbind_Inr_iff Let_def)
  obtain R K own0 where h: "heap_ok R K own0 w0" "\<And>w'. heap_ok R K own0 w' \<Longrightarrow> undisturbed R own0 w0 w' \<Longrightarrow> brel 0x1000 0x5000 w' m"
    using brel_stable [OF w0(2)] by blast
  have p: "all_pass (wgc w0) (v_cpu demo_env) []" using D w0(3) by (simp add: all_pass_def bit_1_iff)
  have fl: "flushes (wgc w0) = 0" "(0x6000 :: addr) \<noteq> 0" using D(1) w0(3) by simp_all
  obtain w1 where w1: "collect_flush demo_env 0x6000 [] w0 = Inr ([], w1)" "heap_ok R K own0 w1" "undisturbed R own0 w0 w1"
    using collect_flush_ok [OF h(1) p fl] unfolding list.map by blast
  have b1: "brel 0x1000 0x5000 w1 m" by (rule h(2) [OF w1(2,3)])
  have C1: "bytes_c (wcache w1) = n" "max_bytes (wcache w1) = 1000" "wtab w1 0x1000 = Some t" "cpu_count (wgc w1) = 1" "cpu_mask (wgc w1) = 1"
    using C0 D(2,3) w0(3) w1(3) by (simp_all add: undisturbed_def)
  note cut = demo_cutoff [OF C1(1,2) f(2)]
  obtain tb0 where tb0: "wtab w1 0x5000 = Some tb0" using b1 by (auto simp: brel_def)
  obtain w2 where w2: "collect_copy demo_env 0x1000 0x5000 w1 = Inr w2" "wgc w2 = wgc w1"
    using copy_shared [OF b1 C1(3) tb0 cut] by metis
  have "legal_rest demo_env 0x6000 0x1000 0x5000 [OGet demo_env 0 ''k''] w1"
    unfolding legal_rest_def has_cutoff_def w2(1) sum.case
    using C1(3) cut idle_flush [of demo_env w2, OF D(8) _ _ demo_gets(3) demo_gets(1)] w2(2) C1(4,5) by auto
  moreover have "legal_first demo_env 0x6000 0x5000 [] w" "legal_first demo_env 0x6000 0x5000 [OGet demo_env 0 ''k''] w"
    unfolding legal_first_def w0(1) sum.case prod.case
    by (rule idle_flush [OF D(8)], use D w0(3) demo_gets in simp_all)+
  moreover have "no_deleted 0x1000 w1 \<longleftrightarrow> c \<noteq> 0" using C1(3) hk vk by (simp add: no_deleted_def)
  moreover have "collect_first demo_env 0x6000 0x5000 [] w = Inr (0x1000, [], w1)"
    using w0(1) w1(1) by (simp add: collect_first_def)
  ultimately show thesis using that [OF o(1) lg D(7,1) hk mk] C1(3) cut by blast
qed

section \<open>Properties\<close>

text \<open>
  C2: \<open>collect\<close> on a cache at rest, with a table of less than $2^{30}$ buckets and no other flush
  under way, returns, while other threads use the cache in both of its flushes,
  under these conditions: in the first flush they set, add, replace and delete only keys that have no
  value, and add only keys that find a slot; in the second they only look up and change values in
  place; memory and data are fresh, and \<open>incr\<close> and \<open>decr\<close> apply to numbers, as for the cache at rest;
  no thread starts or ends, and every registered one passes a checkpoint in each flush; at the
  end of the first one no key of the old table is without a value (otherwise the last loop of \<open>collect\<close>
  crashes), and the eviction threshold for its entries can be computed (\<open>get_atime_cutoff\<close> does not
  fail). The operations in the first flush answer as on the map with the slots of the old table; the
  copy drops from the map the keys that the new table lacks: it has those that got a value meanwhile
  and those whose entries are not flushed, evicted or expired, but for those that find no bucket in
  it; the operations in the second flush answer as on that map. At the end the new table is in use, the
  old one is freed, and the cache is at rest and represents the map.
\<close>

theorem collect_correct:
  assumes c: "crel w m" "wtab w (entries_p (wcache w)) = Some t" "lg2size t < 30"
    and a: "a \<noteq> 0" "wtab w a = None" and s: "s \<noteq> 0" "flushes (wgc w) = 0"
    and l: "legal_first v s a ops1 w"
      "\<forall>old rs w1. collect_first v s a ops1 w = Inr (old, rs, w1) \<longrightarrow> legal_rest v s old a ops2 w1 \<and> no_deleted old w1"
  shows "\<exists>rs1 w1 m1 t1 tb cutoff rs2 w' m2 t'. collect_first v s a ops1 w = Inr (entries_p (wcache w), rs1, w1) \<and>
    spec_run cspec (cview t m) ops1 rs1 (cview t1 m1) \<and>
    wtab w1 (entries_p (wcache w)) = Some t1 \<and> wtab w1 a = Some tb \<and> get_atime_cutoff w1 t1 = Inr cutoff \<and>
    collected w1 cutoff (v_now v) t1 tb t' \<and> (\<forall>k. m k = None \<and> m1 k \<noteq> None \<longrightarrow> has_key t' k \<or> no_room tb k) \<and>
    collect v s a ops1 ops2 w = Inr (rs1 @ rs2, w') \<and> spec_run aspec (m1 |` {k. has_key t' k}) ops2 rs2 m2 \<and>
    crel w' m2 \<and> entries_p (wcache w') = a \<and> wtab w' a = Some t' \<and> wtab w' (entries_p (wcache w)) = None"
proof -
  let ?old = "entries_p (wcache w)"
  obtain rs1 w1 m1 t1 where F: "collect_first v s a ops1 w = Inr (?old, rs1, w1)" "spec_run cspec (cview t m) ops1 rs1 (cview t1 m1)"
      "brel ?old a w1 m1" "flushes (wgc w1) = 0" "wtab w1 ?old = Some t1" "built_since m a w1 m1"
    by (rule collect_first_built [OF c a s l(1)])
  have l1: "legal_rest v s ?old a ops2 w1" "no_deleted ?old w1" using l(2) F(1) by simp_all
  obtain cutoff where t1: "get_atime_cutoff w1 t1 = Inr cutoff" using l1(1) F(5) by (auto simp: legal_rest_def has_cutoff_def)
  obtain tb where tb: "wtab w1 a = Some tb" using F(3) by (auto simp: brel_def)
  obtain t' rs2 w' m2 where R: "collect_rest v s ?old a ops2 w1 = Inr (rs2, w')" "spec_run aspec (m1 |` {k. has_key t' k}) ops2 rs2 m2"
      "crel w' m2" "entries_p (wcache w') = a" "wtab w' a = Some t'" "wtab w' ?old = None" "collected w1 cutoff (v_now v) t1 tb t'"
    by (rule collect_rest_ok [OF F(3,5) tb t1 s(1) F(4) l1])
  have "collect v s a ops1 ops2 w = Inr (rs1 @ rs2, w')" using F(1) R(1) by (simp add: collect_def)
  moreover have "has_key t' k \<or> no_room tb k" if "m k = None \<and> m1 k \<noteq> None" for k
    using F(6) tb R(7) that by (auto simp: built_since_def passes_def collected_def)
  ultimately show ?thesis using F(1,2,5) t1 tb R(2-7) by blast
qed

theorem collect_correct_witness:
  "\<exists>w m w1 m1 t1 tb rs2 w' m2 t'. crel w m \<and> m ''k'' \<noteq> None \<and> has_key t1 ''k'' \<and>
    collect_first demo_env 0x6000 0x5000 [] w = Inr (0x1000, [], w1) \<and> wtab w1 0x1000 = Some t1 \<and> collected w1 0 100 t1 tb t' \<and>
    collect demo_env 0x6000 0x5000 [] [OGet demo_env 0 ''k''] w = Inr (rs2, w') \<and>
    spec_run aspec (m1 |` {k. has_key t' k}) [OGet demo_env 0 ''k''] rs2 m2 \<and> crel w' m2 \<and> entries_p (wcache w') = 0x5000"
proof -
  obtain m w where w: "crel w m" "demo_facts 0x3000 2 w" by (rule demo_stored)
  obtain t w1 where D: "wtab w (entries_p (wcache w)) = Some t" "lg2size t < 30" "wtab w 0x5000 = None" "flushes (wgc w) = 0"
    "has_key t = (\<lambda>k. k = ''k'')" "m ''k'' = None \<longleftrightarrow> (0x3000 :: u64) = 0"
    "legal_first demo_env 0x6000 0x5000 [] w" "legal_first demo_env 0x6000 0x5000 [OGet demo_env 0 ''k''] w"
    "collect_first demo_env 0x6000 0x5000 [] w = Inr (0x1000, [], w1)" "wtab w1 0x1000 = Some t" "get_atime_cutoff w1 t = Inr 0"
    "legal_rest demo_env 0x6000 0x1000 0x5000 [OGet demo_env 0 ''k''] w1" "no_deleted 0x1000 w1 \<longleftrightarrow> (0x3000 :: u64) \<noteq> 0"
    by (rule demo_collect [OF w disjI2 [OF refl]])
  have e: "entries_p (wcache w) = 0x1000" "v_now demo_env = 100" using w(2) by (simp_all add: demo_facts_def demo_env_def)
  have ad: "(0x5000 :: addr) \<noteq> 0" "(0x6000 :: addr) \<noteq> 0" by simp_all
  have l: "\<forall>old rs w'. collect_first demo_env 0x6000 0x5000 [] w = Inr (old, rs, w') \<longrightarrow>
      legal_rest demo_env 0x6000 old 0x5000 [OGet demo_env 0 ''k''] w' \<and> no_deleted old w'"
    unfolding D(9) using D(12,13) by simp
  obtain rs1 w1' m1 t1 tb cutoff rs2 w' m2 t' where
    T: "collect_first demo_env 0x6000 0x5000 [] w = Inr (entries_p (wcache w), rs1, w1')"
      "wtab w1' (entries_p (wcache w)) = Some t1" "get_atime_cutoff w1' t1 = Inr cutoff" "collected w1' cutoff (v_now demo_env) t1 tb t'"
      "collect demo_env 0x6000 0x5000 [] [OGet demo_env 0 ''k''] w = Inr (rs1 @ rs2, w')"
      "spec_run aspec (m1 |` {k. has_key t' k}) [OGet demo_env 0 ''k''] rs2 m2" "crel w' m2" "entries_p (wcache w') = 0x5000"
    using collect_correct [OF w(1) D(1,2) ad(1) D(3) ad(2) D(4,7) l] by blast
  have q: "rs1 = []" "w1' = w1" using T(1) D(9) by simp_all
  have q1: "t1 = t" using T(2) D(10) unfolding q e by simp
  then have "cutoff = 0" using T(3) D(11) unfolding q by simp
  moreover have "m ''k'' \<noteq> None" "has_key t ''k''" using D(5,6) by simp_all
  ultimately show ?thesis using w(1) T(4-8) D(9,10) unfolding q q1 e append_Nil by blast
qed

text \<open>
  C3: While the table is rebuilt, the cache goes on to refine a map: \<open>collect\<close> starts on a cache at rest
  (a table of less than $2^{30}$ buckets, no other flush under way) and waits in its first flush; the other threads, of which none starts or ends in this time and all
  pass a checkpoint, may look up and change values in place, and set, add, replace and delete keys that
  have no value, where an added key has to find a slot (memory and data are fresh, and \<open>incr\<close> and \<open>decr\<close> apply to
  numbers, as for the cache at rest). Their operations run without failing and answer
  as on the map with the slots of the old table, where a set or add stores unless its key has no slot;
  the flush returns. The cache then still represents the map, and every key that got a value meanwhile
  is in the new table as well, where it shares the value with the old one, unless all buckets on its
  probe sequence in the new table are taken.
\<close>

theorem rebuild_serves:
  assumes c: "crel w m" "wtab w (entries_p (wcache w)) = Some t" "lg2size t < 30"
    and a: "a \<noteq> 0" "wtab w a = None" and s: "s \<noteq> 0" "flushes (wgc w) = 0" and l: "legal_first v s a ops w"
  shows "\<exists>rs w' m' t' tb. collect_first v s a ops w = Inr (entries_p (wcache w), rs, w') \<and>
    spec_run cspec (cview t m) ops rs (cview t' m') \<and> brel (entries_p (wcache w)) a w' m' \<and> flushes (wgc w') = 0 \<and>
    wtab w' (entries_p (wcache w)) = Some t' \<and> wtab w' a = Some tb \<and>
    (\<forall>k. m k = None \<and> m' k \<noteq> None \<longrightarrow> has_key tb k \<and> vref tb k = tagged (vref t' k) True \<or> no_room tb k)"
proof -
  let ?old = "entries_p (wcache w)"
  obtain rs w' m' t' where x: "collect_first v s a ops w = Inr (?old, rs, w')" "spec_run cspec (cview t m) ops rs (cview t' m')"
      "brel ?old a w' m'" "flushes (wgc w') = 0" "wtab w' ?old = Some t'" "built_since m a w' m'" by (rule collect_first_built [OF assms])
  obtain tb where tb: "wtab w' a = Some tb" "taking t' tb {}" using x(3,5) by (auto simp: brel_def)
  have "has_key tb k \<and> vref tb k = tagged (vref t' k) True \<or> no_room tb k" if "m k = None \<and> m' k \<noteq> None" for k
    using x(6) tb that by (auto simp: built_since_def passes_def taking_def)
  then show ?thesis using x(1-5) tb(1) by blast
qed

theorem rebuild_serves_witness:
  "\<exists>w m t rs w' m' t'. crel w m \<and> m ''k'' \<noteq> None \<and>
    collect_first demo_env 0x6000 0x5000 [OGet demo_env 0 ''k''] w = Inr (0x1000, rs, w') \<and>
    spec_run cspec (cview t m) [OGet demo_env 0 ''k''] rs (cview t' m') \<and> brel 0x1000 0x5000 w' m'"
proof -
  obtain m w where w: "crel w m" "demo_facts 0x3000 2 w" by (rule demo_stored)
  obtain t w1 where D: "wtab w (entries_p (wcache w)) = Some t" "lg2size t < 30" "wtab w 0x5000 = None" "flushes (wgc w) = 0"
    "m ''k'' = None \<longleftrightarrow> (0x3000 :: u64) = 0" "legal_first demo_env 0x6000 0x5000 [OGet demo_env 0 ''k''] w"
    by (rule demo_collect [OF w disjI2 [OF refl]])
  have e: "entries_p (wcache w) = 0x1000" using w(2) by (simp add: demo_facts_def)
  have ad: "(0x5000 :: addr) \<noteq> 0" "(0x6000 :: addr) \<noteq> 0" by simp_all
  have "m ''k'' \<noteq> None" using D(5) by simp
  then show ?thesis using rebuild_serves [OF w(1) D(1,2) ad(1) D(3) ad(2) D(4,6)] w(1) unfolding e by blast
qed

text \<open>
  C22: When a key of the old table has no value at the end of the first flush, as after a \<open>delete\<close>,
  \<open>collect\<close> does not complete, whatever the other threads do: for such a key \<open>exclusive\<close> calls the
  release function of values with the null pointer.
\<close>

theorem collect_after_delete:
  assumes c: "crel w m" "wtab w (entries_p (wcache w)) = Some t" "lg2size t < 30"
    and a: "a \<noteq> 0" "wtab w a = None" and s: "s \<noteq> 0" "flushes (wgc w) = 0"
    and l: "legal_first v s a ops1 w"
      "\<forall>old rs w1. collect_first v s a ops1 w = Inr (old, rs, w1) \<longrightarrow> legal_rest v s old a ops2 w1 \<and> \<not> no_deleted old w1"
  shows "collect v s a ops1 ops2 w = Inl NullDeref"
proof -
  let ?old = "entries_p (wcache w)"
  obtain rs1 w1 m1 where F: "collect_first v s a ops1 w = Inr (?old, rs1, w1)" "brel ?old a w1 m1" "flushes (wgc w1) = 0"
    by (rule collect_first_ok [OF c a s l(1)])
  have "collect_rest v s ?old a ops2 w1 = Inl NullDeref"
    by (rule collect_rest_null [OF F(2) s(1) F(3)]) (use l(2) F(1) in simp_all)
  then show ?thesis using F(1) by (simp add: collect_def)
qed

theorem collect_after_delete_witness:
  "\<exists>w m. crel w m \<and> m ''k'' = None \<and> collect demo_env 0x6000 0x5000 [] [OGet demo_env 0 ''k''] w = Inl NullDeref"
proof -
  obtain m w where w: "crel w m" "demo_facts 0 0 w" by (rule demo_deleted)
  obtain t w1 where D: "wtab w (entries_p (wcache w)) = Some t" "lg2size t < 30" "wtab w 0x5000 = None" "flushes (wgc w) = 0"
    "m ''k'' = None \<longleftrightarrow> (0 :: u64) = 0" "legal_first demo_env 0x6000 0x5000 [] w"
    "collect_first demo_env 0x6000 0x5000 [] w = Inr (0x1000, [], w1)"
    "legal_rest demo_env 0x6000 0x1000 0x5000 [OGet demo_env 0 ''k''] w1" "no_deleted 0x1000 w1 \<longleftrightarrow> (0 :: u64) \<noteq> 0"
    by (rule demo_collect [OF w disjI1 [OF refl]])
  have ad: "(0x5000 :: addr) \<noteq> 0" "(0x6000 :: addr) \<noteq> 0" by simp_all
  have l: "\<forall>old rs w'. collect_first demo_env 0x6000 0x5000 [] w = Inr (old, rs, w') \<longrightarrow>
      legal_rest demo_env 0x6000 old 0x5000 [OGet demo_env 0 ''k''] w' \<and> \<not> no_deleted old w'"
    unfolding D(7) using D(8,9) by simp
  have "m ''k'' = None" using D(5) by simp
  then show ?thesis using collect_after_delete [OF w(1) D(1,2) ad(1) D(3) ad(2) D(4,6) l] w(1) by blast
qed

end
