(* ===== verification/Buffer.thy ===== *)
theory Buffer
  imports Prelude
begin

text \<open>
  The character ranges and the byte buffer of \<open>src/buffer.h\<close>. A \<open>char\<close> array is a list, a pointer
  into it an offset, so a \<open>buf\<close> is a pair of offsets into an array that the operations which
  follow the pointers take as an argument. Reading outside the array is \<open>BadPtr\<close>, writing is \<open>Overrun\<close>. The
  \<open>int\<close> members of a \<open>buffer\<close> never leave the range of its size.
\<close>

section \<open>Arrays\<close>

definition NUL :: char where
  "NUL = CHR 0x00"

definition load :: "bytes \<Rightarrow> nat \<Rightarrow> char res" where
  "load arr i = (if i < length arr then Inr (arr ! i) else Inl BadPtr)"

text \<open>\<open>memcpy\<close> of \<open>bs\<close> to offset \<open>i\<close>.\<close>

definition store :: "bytes \<Rightarrow> nat \<Rightarrow> bytes \<Rightarrow> bytes res" where
  "store arr i bs =
     (if i + length bs \<le> length arr then Inr (take i arr @ bs @ drop (i + length bs) arr) else Inl Overrun)"

text \<open>
  Whether \<open>strncmp(a, b, n)\<close> is 0, for the array \<open>a\<close> of a literal (its terminating zero included)
  and the memory \<open>b\<close> from some pointer on.
\<close>

fun strncmp0 :: "bytes \<Rightarrow> bytes \<Rightarrow> nat \<Rightarrow> bool res" where
  "strncmp0 a b 0 = Inr True"
| "strncmp0 (x # a) (y # b) (Suc n) =
     (if x \<noteq> y then Inr False else if x = NUL then Inr True else strncmp0 a b n)"
| "strncmp0 a b (Suc n) = Inl BadPtr"

section \<open>The class buf\<close>

record buf =
  b_head :: nat
  b_tail :: nat

definition buf_null :: buf where
  "buf_null = \<lparr>b_head = 0, b_tail = 0\<rparr>"

definition buf_mk :: "nat \<Rightarrow> nat \<Rightarrow> buf" where
  "buf_mk b n = \<lparr>b_head = b, b_tail = b + n\<rparr>"

definition buf_size :: "buf \<Rightarrow> nat" where
  "buf_size b = b_tail b - b_head b"

definition buf_empty :: "buf \<Rightarrow> bool" where
  "buf_empty b \<longleftrightarrow> buf_size b = 0"

definition buf_is :: "bytes \<Rightarrow> buf \<Rightarrow> bytes \<Rightarrow> bool res" where
  "buf_is arr b a =
     rbind (strncmp0 (a @ [NUL]) (drop (b_head b) arr) (buf_size b)) (\<lambda>eq.
     if eq then rbind (load (a @ [NUL]) (buf_size b)) (\<lambda>c. Inr (c = NUL)) else Inr False)"

definition buf_notify_read :: "buf \<Rightarrow> nat \<Rightarrow> (nat \<times> buf) res" where
  "buf_notify_read b n =
     rbind (require (n \<le> buf_size b) AssertFailed) (\<lambda>_. Inr (b_head b, b\<lparr>b_head := b_head b + n\<rparr>))"

definition buf_sub :: "buf \<Rightarrow> nat \<Rightarrow> (buf \<times> buf) res" where
  "buf_sub b n = rbind (buf_notify_read b n) (\<lambda>(x, b). Inr (buf_mk x n, b))"

text \<open>The bytes a \<open>buf\<close> stands for: what a key is copied from and \<open>operator<<\<close> prints.\<close>

definition buf_bytes :: "bytes \<Rightarrow> buf \<Rightarrow> bytes" where
  "buf_bytes arr b = take (buf_size b) (drop (b_head b) arr)"

section \<open>The class buffer\<close>

record buffer =
  bf_b :: bytes
  bf_head :: nat
  bf_tail :: nat

text \<open>\<open>raw\<close> is the uninitialised array that \<open>new char[size]\<close> returns.\<close>

definition buffer_new :: "bytes \<Rightarrow> buffer" where
  "buffer_new raw = \<lparr>bf_b = raw, bf_head = 0, bf_tail = 0\<rparr>"

definition max_size :: "buffer \<Rightarrow> nat" where
  "max_size a = length (bf_b a)"

definition used :: "buffer \<Rightarrow> nat" where
  "used a = bf_tail a - bf_head a"

text \<open>Negative for a buffer that was moved from.\<close>

definition available :: "buffer \<Rightarrow> int" where
  "available a = int (max_size a) - int (used a)"

definition bf_empty :: "buffer \<Rightarrow> bool" where
  "bf_empty a \<longleftrightarrow> used a = 0"

definition buffer_bytes :: "buffer \<Rightarrow> bytes" where
  "buffer_bytes a = take (used a) (drop (bf_head a) (bf_b a))"

definition buffer_copy :: "bytes \<Rightarrow> buffer \<Rightarrow> buffer res" where
  "buffer_copy raw a =
     rbind (store raw 0 (buffer_bytes a)) (\<lambda>b. Inr \<lparr>bf_b = b, bf_head = 0, bf_tail = used a\<rparr>)"

definition buffer_of_buf :: "bytes \<Rightarrow> bytes \<Rightarrow> buf \<Rightarrow> buffer res" where
  "buffer_of_buf raw arr a =
     rbind (store raw 0 (buf_bytes arr a)) (\<lambda>b. Inr \<lparr>bf_b = b, bf_head = 0, bf_tail = buf_size a\<rparr>)"

text \<open>The new buffer and the one moved from, which keeps its offsets.\<close>

definition buffer_move :: "buffer \<Rightarrow> buffer \<times> buffer" where
  "buffer_move a = (a, a\<lparr>bf_b := []\<rparr>)"

definition buffer_assign :: "buffer \<Rightarrow> buffer \<Rightarrow> buffer \<times> buffer" where
  "buffer_assign this a = (a, a\<lparr>bf_b := []\<rparr>)"

definition buffer_is :: "buffer \<Rightarrow> bytes \<Rightarrow> bool res" where
  "buffer_is b a =
     rbind (strncmp0 (a @ [NUL]) (drop (bf_head b) (bf_b b)) (used b)) (\<lambda>eq.
     if eq then rbind (load (a @ [NUL]) (used b)) (\<lambda>c. Inr (c = NUL)) else Inr False)"

definition bf_reset :: "buffer \<Rightarrow> buffer" where
  "bf_reset a = a\<lparr>bf_head := 0, bf_tail := 0\<rparr>"

definition bf_notify_read :: "buffer \<Rightarrow> nat \<Rightarrow> (nat \<times> buffer) res" where
  "bf_notify_read a n =
     rbind (require (n \<le> used a) BufferError) (\<lambda>_. Inr (bf_head a, a\<lparr>bf_head := bf_head a + n\<rparr>))"

definition bf_notify_write :: "buffer \<Rightarrow> nat \<Rightarrow> buffer res" where
  "bf_notify_write a n =
     rbind (require (int n \<le> available a) BufferError) (\<lambda>_. Inr (a\<lparr>bf_tail := bf_tail a + n\<rparr>))"

definition bf_compact :: "buffer \<Rightarrow> buffer res" where
  "bf_compact a =
     rbind (store (bf_b a) 0 (buffer_bytes a)) (\<lambda>b. Inr \<lparr>bf_b = b, bf_head = 0, bf_tail = used a\<rparr>)"

definition bf_write :: "buffer \<Rightarrow> bytes \<Rightarrow> buffer res" where
  "bf_write a bs =
     rbind (require (int (length bs) \<le> available a) BufferError) (\<lambda>_.
     rbind (store (bf_b a) (bf_tail a) bs) (\<lambda>b.
     bf_notify_write (a\<lparr>bf_b := b\<rparr>) (length bs)))"

definition bf_write_buffer :: "buffer \<Rightarrow> buffer \<Rightarrow> buffer res" where
  "bf_write_buffer a b = bf_write a (buffer_bytes b)"

definition bf_sub :: "buffer \<Rightarrow> nat \<Rightarrow> (buf \<times> buffer) res" where
  "bf_sub a n = rbind (bf_notify_read a n) (\<lambda>(x, a). Inr (buf_mk x n, a))"

text \<open>\<open>memcmp(x, y, n) < 0\<close>: the first difference decides, as unsigned bytes.\<close>

fun memcmp_less :: "bytes \<Rightarrow> bytes \<Rightarrow> bool" where
  "memcmp_less (x # xs) (y # ys) \<longleftrightarrow>
     (of_char x :: nat) < of_char y \<or> x = y \<and> memcmp_less xs ys"
| "memcmp_less xs ys \<longleftrightarrow> False"

definition buffer_less :: "buffer \<Rightarrow> buffer \<Rightarrow> bool" where
  "buffer_less a b =
     (if used a = used b then memcmp_less (buffer_bytes a) (buffer_bytes b) else used a < used b)"

text \<open>\<open>operator>>\<close>: what \<open>istream::read\<close> takes from the input is written at the tail.\<close>

definition buffer_input :: "bytes \<Rightarrow> buffer \<Rightarrow> (bytes \<times> buffer) res" where
  "buffer_input i b =
     (let n = min (length i) (nat (available b)) in
      rbind (store (bf_b b) (bf_tail b) (take n i)) (\<lambda>arr.
      rbind (bf_notify_write (b\<lparr>bf_b := arr\<rparr>) n) (\<lambda>b. Inr (drop n i, b))))"

section \<open>Well-formed buffers\<close>

text \<open>\<open>flat\<close> buffers are those nothing was read from: only these may be written to safely.\<close>

definition buffer_ok :: "buffer \<Rightarrow> bool" where
  "buffer_ok a \<longleftrightarrow> bf_head a \<le> bf_tail a \<and> bf_tail a \<le> max_size a"

definition flat :: "buffer \<Rightarrow> bool" where
  "flat a \<longleftrightarrow> buffer_ok a \<and> bf_head a = 0"

lemma load_simps [simp]: "i < length arr \<Longrightarrow> load arr i = Inr (arr ! i)"
  by (simp add: load_def)

lemma store_ok:
  "i + length bs \<le> length arr \<Longrightarrow> store arr i bs = Inr (take i arr @ bs @ drop (i + length bs) arr)"
  by (simp add: store_def)

lemma flatD: "flat a \<Longrightarrow> used a = bf_tail a \<and> available a = int (max_size a) - int (bf_tail a) \<and>
    buffer_bytes a = take (bf_tail a) (bf_b a) \<and> bf_tail a \<le> length (bf_b a) \<and> buffer_ok a"
  by (simp add: flat_def buffer_ok_def used_def available_def buffer_bytes_def max_size_def)

lemma length_buffer_bytes [simp]: "buffer_ok a \<Longrightarrow> length (buffer_bytes a) = used a"
  by (auto simp: buffer_ok_def buffer_bytes_def used_def max_size_def)

text \<open>Writing to a flat buffer appends, or throws and changes nothing.\<close>

lemma bf_write_flat:
  assumes "flat a"
  shows "length bs + used a \<le> max_size a \<Longrightarrow>
      \<exists>a'. bf_write a bs = Inr a' \<and> flat a' \<and> max_size a' = max_size a \<and> buffer_bytes a' = buffer_bytes a @ bs"
    and "max_size a < length bs + used a \<Longrightarrow> bf_write a bs = Inl BufferError"
proof -
  note f = flatD [OF assms]
  show "bf_write a bs = Inl BufferError" if "max_size a < length bs + used a"
    using that by (simp add: bf_write_def available_def require_def)
  assume le: "length bs + used a \<le> max_size a"
  let ?b = "take (bf_tail a) (bf_b a) @ bs @ drop (bf_tail a + length bs) (bf_b a)"
  have "length ?b = length (bf_b a)" using le f by (simp add: max_size_def)
  then have "bf_write a bs = Inr (a\<lparr>bf_b := ?b, bf_tail := bf_tail a + length bs\<rparr>)"
    using le f assms
    by (simp add: bf_write_def bf_notify_write_def available_def used_def max_size_def store_ok flat_def)
  moreover have "flat (a\<lparr>bf_b := ?b, bf_tail := bf_tail a + length bs\<rparr>)"
    using le f assms by (simp add: flat_def buffer_ok_def max_size_def)
  ultimately show "\<exists>a'. bf_write a bs = Inr a' \<and> flat a' \<and> max_size a' = max_size a \<and> buffer_bytes a' = buffer_bytes a @ bs"
    using le f assms
    by (intro exI [of _ "a\<lparr>bf_b := ?b, bf_tail := bf_tail a + length bs\<rparr>"])
       (simp add: buffer_bytes_def used_def max_size_def flat_def)
qed

lemma flat_new: "flat (buffer_new raw)"
  by (simp add: buffer_new_def flat_def buffer_ok_def)

lemma flat_reset: "flat (bf_reset a)" "max_size (bf_reset a) = max_size a" "used (bf_reset a) = 0"
  "buffer_bytes (bf_reset a) = []"
  by (simp_all add: bf_reset_def flat_def buffer_ok_def max_size_def used_def buffer_bytes_def)

lemma bf_compact_ok:
  assumes "buffer_ok a"
  obtains a' where "bf_compact a = Inr a'" "flat a'" "max_size a' = max_size a" "buffer_bytes a' = buffer_bytes a"
proof -
  let ?n = "used a"
  have n: "?n \<le> length (bf_b a)" using assms by (auto simp: buffer_ok_def used_def max_size_def)
  have l: "length (buffer_bytes a) = ?n" by (rule length_buffer_bytes [OF assms])
  let ?a = "\<lparr>bf_b = buffer_bytes a @ drop ?n (bf_b a), bf_head = 0, bf_tail = ?n\<rparr>"
  have "bf_compact a = Inr ?a" using n l by (simp add: bf_compact_def store_def)
  moreover have "flat ?a" "max_size ?a = max_size a" "buffer_bytes ?a = buffer_bytes a"
    using n l by (simp_all add: flat_def buffer_ok_def max_size_def buffer_bytes_def used_def)
  ultimately show thesis using that by blast
qed

text \<open>A literal matches exactly its own bytes, for a range without zero bytes.\<close>

lemma strncmp0_iff:
  "n \<le> length b \<Longrightarrow> NUL \<notin> set (take n b) \<Longrightarrow> NUL \<notin> set a \<Longrightarrow>
   strncmp0 (a @ [NUL]) b n = Inr (take n b = take n a \<and> n \<le> length a)"
proof (induction n arbitrary: a b)
  case (Suc n)
  then obtain y b' where b: "b = y # b'" by (cases b) auto
  then show ?case using Suc by (cases a) auto
qed simp

lemma buf_is_iff:
  assumes "b_head b \<le> b_tail b" "b_tail b \<le> length arr" "NUL \<notin> set (buf_bytes arr b)" "NUL \<notin> set a"
  shows "buf_is arr b a = Inr (buf_bytes arr b = a)"
proof -
  have n: "buf_size b \<le> length (drop (b_head b) arr)" using assms(1,2) by (simp add: buf_size_def)
  have s: "strncmp0 (a @ [NUL]) (drop (b_head b) arr) (buf_size b)
      = Inr (buf_bytes arr b = take (buf_size b) a \<and> buf_size b \<le> length a)"
    using strncmp0_iff [OF n _ assms(4)] assms(3) by (simp add: buf_bytes_def)
  have l: "length (buf_bytes arr b) = buf_size b" using n by (simp add: buf_bytes_def)
  show ?thesis
  proof (cases "buf_bytes arr b = take (buf_size b) a \<and> buf_size b \<le> length a")
    case True
    have "a ! buf_size b \<noteq> NUL" if "buf_size b < length a" using assms(4) nth_mem [OF that] by metis
    then show ?thesis using True s l by (auto simp: buf_is_def nth_append)
  qed (use s l in \<open>auto simp: buf_is_def\<close>)
qed

lemma length_buf_bytes: "b_tail b \<le> length arr \<Longrightarrow> length (buf_bytes arr b) = buf_size b"
  by (simp add: buf_bytes_def buf_size_def)

end
