(* ===== verification/Utils.thy ===== *)
theory Utils
  imports Buffer
begin

text \<open>
  The tokenizer of \<open>src/utils.cc\<close>. It works on a \<open>buf\<close> inside the input buffer's array, but the
  C library functions it calls know nothing of the end of that \<open>buf\<close>: they read on until they
  find a byte that stops them.
\<close>

section \<open>C library functions\<close>

text \<open>The number of bytes before the first that is zero or satisfies \<open>P\<close>.\<close>

fun cspan :: "(char \<Rightarrow> bool) \<Rightarrow> bytes \<Rightarrow> nat res" where
  "cspan P [] = Inl BadPtr"
| "cspan P (c # cs) = (if c = NUL \<or> P c then Inr 0 else rbind (cspan P cs) (\<lambda>n. Inr (Suc n)))"

definition strcspn :: "bytes \<Rightarrow> nat \<Rightarrow> bytes \<Rightarrow> nat res" where
  "strcspn arr i reject = cspan (\<lambda>c. c \<in> set reject) (drop i arr)"

definition c_isspace :: "char \<Rightarrow> bool" where
  "c_isspace c \<longleftrightarrow> c \<in> {CHR '' '', CHR 0x09, CHR 0x0A, CHR 0x0B, CHR 0x0C, CHR 0x0D}"

definition c_isdigit :: "char \<Rightarrow> bool" where
  "c_isdigit c \<longleftrightarrow> 48 \<le> (of_char c :: nat) \<and> (of_char c :: nat) \<le> 57"

definition digit_val :: "char \<Rightarrow> nat" where
  "digit_val c = of_char c - 48"

fun skip_space :: "bytes \<Rightarrow> nat res" where
  "skip_space [] = Inl BadPtr"
| "skip_space (c # cs) = (if c_isspace c then rbind (skip_space cs) (\<lambda>n. Inr (Suc n)) else Inr 0)"

fun read_digits :: "bytes \<Rightarrow> nat \<Rightarrow> nat \<Rightarrow> (nat \<times> nat) res" where
  "read_digits [] acc n = Inl BadPtr"
| "read_digits (c # cs) acc n =
     (if c_isdigit c then read_digits cs (10 * acc + digit_val c) (Suc n) else Inr (acc, n))"

text \<open>
  \<open>strtoul(arr + i, &end, 10)\<close> (and \<open>strtoull\<close>: both are 64 bit): white space, an optional sign,
  decimal digits. A value that does not fit is the largest one; a minus sign negates modulo
  $2^{64}$; without digits nothing is converted and \<open>end\<close> is the start.
\<close>

definition strtoul :: "bytes \<Rightarrow> nat \<Rightarrow> (u64 \<times> nat) res" where
  "strtoul arr i =
     rbind (skip_space (drop i arr)) (\<lambda>ws.
     let p = i + ws in
     rbind (load arr p) (\<lambda>c.
     let neg = c = CHR ''-''; p = (if c = CHR ''-'' \<or> c = CHR ''+'' then p + 1 else p) in
     rbind (read_digits (drop p arr) 0 0) (\<lambda>(acc, n).
     if n = 0 then Inr (0, i)
     else if 2 ^ 64 \<le> int acc then Inr (- 1, p + n)
     else Inr (if neg then - of_nat acc else of_nat acc, p + n))))"

fun memchr_loop :: "bytes \<Rightarrow> char \<Rightarrow> nat \<Rightarrow> nat option res" where
  "memchr_loop cs x 0 = Inr None"
| "memchr_loop [] x (Suc n) = Inl BadPtr"
| "memchr_loop (c # cs) x (Suc n) =
     (if c = x then Inr (Some 0) else rbind (memchr_loop cs x n) (\<lambda>r. Inr (map_option Suc r)))"

section \<open>utils.cc\<close>

function consume_whitespace :: "bytes \<Rightarrow> buf \<Rightarrow> buf res" where
  "consume_whitespace arr b =
     (if buf_empty b then Inr b
      else case load arr (b_head b) of
        Inl e \<Rightarrow> Inl e
      | Inr c \<Rightarrow>
          if c = CHR '' '' \<or> c = CHR 0x09
          then (case buf_notify_read b 1 of
                  Inl e \<Rightarrow> Inl e
                | Inr (_, b') \<Rightarrow> consume_whitespace arr b')
          else Inr b)"
  by pat_completeness auto
termination
  by (relation "measure (\<lambda>(arr, b). buf_size b)")
     (auto simp: buf_notify_read_def buf_size_def buf_empty_def require_def split: if_splits)

declare consume_whitespace.simps [simp del]

definition consume_token :: "bytes \<Rightarrow> buf \<Rightarrow> (buf \<times> buf) res" where
  "consume_token arr b =
     rbind (consume_whitespace arr b) (\<lambda>b.
     rbind (strcspn arr (b_head b) [CHR '' '', CHR 0x09, CHR 0x0A, CHR 0x0D]) (\<lambda>n. buf_sub b n))"

definition is_whitespace :: "char \<Rightarrow> bool" where
  "is_whitespace c \<longleftrightarrow> c = CHR '' '' \<or> c = CHR 0x0A \<or> c = CHR 0x0D \<or> c = CHR 0x09"

definition is_terminal :: "char \<Rightarrow> bool" where
  "is_terminal c \<longleftrightarrow> c = NUL \<or> is_whitespace c"

text \<open>The result is the number (\<open>None\<close> for \<open>false\<close>) and what is left of the \<open>buf\<close>.\<close>

definition consume_int :: "bytes \<Rightarrow> buf \<Rightarrow> (u64 option \<times> buf) res" where
  "consume_int arr b =
     rbind (consume_whitespace arr b) (\<lambda>b.
     rbind (strtoul arr (b_head b)) (\<lambda>(v, e).
     if b_head b = e then Inr (None, b)
     else rbind (load arr e) (\<lambda>c.
       if \<not> is_terminal c then Inr (None, b)
       else rbind (buf_notify_read b (e - b_head b)) (\<lambda>(_, b). Inr (Some v, b)))))"

definition consume_u64 :: "bytes \<Rightarrow> buf \<Rightarrow> (u64 option \<times> buf) res" where
  "consume_u64 arr b =
     rbind (consume_whitespace arr b) (\<lambda>b.
     rbind (strtoul arr (b_head b)) (\<lambda>(v, e).
     if b_head b = e then Inr (None, b)
     else rbind (load arr e) (\<lambda>c.
       if \<not> is_terminal c then Inr (None, b)
       else rbind (buf_notify_read b (e - b_head b)) (\<lambda>(_, b). Inr (Some v, b)))))"

text \<open>The end of the command that starts at offset \<open>i\<close>, one past its newline.\<close>

definition find_end_of_command :: "bytes \<Rightarrow> nat \<Rightarrow> nat \<Rightarrow> nat option res" where
  "find_end_of_command arr i len =
     rbind (memchr_loop (drop i arr) (CHR 0x0A) len) (\<lambda>r. Inr (map_option (\<lambda>n. i + n + 1) r))"

section \<open>What the tokenizer computes, on lists\<close>

definition blank :: "char \<Rightarrow> bool" where
  "blank c \<longleftrightarrow> c = CHR '' '' \<or> c = CHR 0x09"

text \<open>The bytes that end a token.\<close>

definition stop :: "char \<Rightarrow> bool" where
  "stop c \<longleftrightarrow> c = NUL \<or> c \<in> set [CHR '' '', CHR 0x09, CHR 0x0A, CHR 0x0D]"

definition token :: "bytes \<Rightarrow> bytes" where
  "token s = takeWhile (\<lambda>c. \<not> stop c) (dropWhile blank s)"

definition after_token :: "bytes \<Rightarrow> bytes" where
  "after_token s = dropWhile (\<lambda>c. \<not> stop c) (dropWhile blank s)"

definition digits_val :: "nat \<Rightarrow> bytes \<Rightarrow> nat" where
  "digits_val = foldl (\<lambda>a d. 10 * a + digit_val d)"

text \<open>The number at the start of \<open>z\<close> and the length of its text.\<close>

definition conversion :: "bytes \<Rightarrow> (u64 \<times> nat) option" where
  "conversion z =
     (let k = (if hd z = CHR ''-'' \<or> hd z = CHR ''+'' then 1 else 0);
          ds = takeWhile c_isdigit (drop k z); n = digits_val 0 ds in
      if ds = [] then None
      else Some (if 2 ^ 64 \<le> int n then - 1 else if hd z = CHR ''-'' then - of_nat n else of_nat n, k + length ds))"

text \<open>A \<open>buf\<close> that holds the rest of a command line: inside the array and ending in a newline.\<close>

definition line_ok :: "bytes \<Rightarrow> buf \<Rightarrow> bool" where
  "line_ok arr b \<longleftrightarrow> b_head b < b_tail b \<and> b_tail b \<le> length arr \<and> arr ! (b_tail b - 1) = CHR 0x0A"

lemma stop_newline [simp]: "stop (CHR 0x0A)" "\<not> blank (CHR 0x0A)" "\<not> c_isdigit (CHR 0x0A)" "c_isspace (CHR 0x0A)"
  by (simp_all add: stop_def blank_def c_isdigit_def c_isspace_def)

lemma line_split:
  assumes "b_head b \<le> b_tail b" "b_tail b \<le> length arr"
  shows "drop (b_head b) arr = buf_bytes arr b @ drop (b_tail b) arr" "length (buf_bytes arr b) = b_tail b - b_head b"
proof -
  have "drop (b_tail b) arr = drop (b_tail b - b_head b) (drop (b_head b) arr)" using assms by simp
  then show "drop (b_head b) arr = buf_bytes arr b @ drop (b_tail b) arr"
    unfolding buf_bytes_def buf_size_def by (metis append_take_drop_id)
  show "length (buf_bytes arr b) = b_tail b - b_head b" using assms by (simp add: buf_bytes_def buf_size_def)
qed

lemma line_ok_bytes:
  assumes "line_ok arr b"
  shows "buf_bytes arr b \<noteq> []" "last (buf_bytes arr b) = CHR 0x0A"
proof -
  have l: "length (buf_bytes arr b) = b_tail b - b_head b" "b_head b < b_tail b" "b_tail b \<le> length arr"
    using line_split(2) [of b arr] assms by (simp_all add: line_ok_def)
  then show "buf_bytes arr b \<noteq> []" by auto
  then have "last (buf_bytes arr b) = arr ! (b_tail b - 1)"
    using l by (simp add: last_conv_nth buf_bytes_def buf_size_def)
  then show "last (buf_bytes arr b) = CHR 0x0A" using assms by (simp add: line_ok_def)
qed

text \<open>Advancing inside a line, up to a suffix that still has the newline.\<close>

lemma line_advance:
  assumes "line_ok arr b" "buf_bytes arr b = xs @ ys" "ys \<noteq> []"
  shows "line_ok arr (b\<lparr>b_head := b_head b + length xs\<rparr>)" "buf_bytes arr (b\<lparr>b_head := b_head b + length xs\<rparr>) = ys"
    "b_head b + length xs < b_tail b"
proof -
  have h: "b_head b \<le> b_tail b" "b_tail b \<le> length arr" using assms(1) by (simp_all add: line_ok_def)
  have l: "length xs + length ys = b_tail b - b_head b" using line_split(2) [OF h] assms(2) by simp
  then show lt: "b_head b + length xs < b_tail b" using h assms(3) by (cases ys) auto
  then show "line_ok arr (b\<lparr>b_head := b_head b + length xs\<rparr>)" using assms(1) by (simp add: line_ok_def)
  have "drop (b_head b + length xs) arr = ys @ drop (b_tail b) arr"
    using line_split(1) [OF h] assms(2) by (metis add.commute append.assoc append_eq_conv_conj drop_drop)
  then show "buf_bytes arr (b\<lparr>b_head := b_head b + length xs\<rparr>) = ys"
    using l lt by (simp add: buf_bytes_def buf_size_def)
qed

lemma dropWhile_newline:
  "xs \<noteq> [] \<Longrightarrow> last xs = c \<Longrightarrow> \<not> P c \<Longrightarrow> dropWhile P xs \<noteq> []"
  using last_in_set by fastforce

lemma last_dropWhile: "dropWhile P xs \<noteq> [] \<Longrightarrow> last (dropWhile P xs) = last xs"
  by (metis last_appendR takeWhile_dropWhile_id)

lemma dropWhile_blank: "dropWhile c_isspace (dropWhile blank xs) = dropWhile c_isspace xs"
  by (induction xs) (auto simp: blank_def c_isspace_def)

section \<open>The tokenizer meets its list specification\<close>

lemma consume_whitespace_ok:
  assumes "b_head b \<le> b_tail b" "b_tail b \<le> length arr"
  shows "consume_whitespace arr b = Inr (b\<lparr>b_head := b_head b + length (takeWhile blank (buf_bytes arr b))\<rparr>)"
  using assms
proof (induction arr b rule: consume_whitespace.induct)
  case (1 arr b)
  show ?case
  proof (cases "buf_empty b")
    case True
    then have "buf_bytes arr b = []" by (simp add: buf_empty_def buf_bytes_def)
    then show ?thesis using True by (simp add: consume_whitespace.simps)
  next
    case False
    then have lt: "b_head b < b_tail b" by (simp add: buf_empty_def buf_size_def)
    let ?b = "b\<lparr>b_head := Suc (b_head b)\<rparr>"
    obtain n where n: "b_tail b = Suc (b_head b + n)" using less_imp_Suc_add [OF lt] by auto
    have s: "buf_bytes arr b = arr ! b_head b # buf_bytes arr ?b"
      using n lt "1.prems" by (simp add: buf_bytes_def buf_size_def Cons_nth_drop_Suc [symmetric])
    have ld: "load arr (b_head b) = Inr (arr ! b_head b)" using lt "1.prems" by simp
    have nr: "buf_notify_read b 1 = Inr (b_head b, ?b)" using lt by (simp add: buf_notify_read_def buf_size_def require_def)
    show ?thesis
    proof (cases "blank (arr ! b_head b)")
      case True
      then have "consume_whitespace arr ?b = Inr (?b\<lparr>b_head := b_head ?b + length (takeWhile blank (buf_bytes arr ?b))\<rparr>)"
        using "1.IH" [OF False ld True [unfolded blank_def] nr refl] lt "1.prems" by simp
      moreover have "consume_whitespace arr b = consume_whitespace arr ?b"
        using True False ld nr by (subst consume_whitespace.simps) (simp add: blank_def)
      ultimately show ?thesis using True s by simp
    next
      case n: False
      then show ?thesis using False ld s by (subst consume_whitespace.simps) (simp add: blank_def)
    qed
  qed
qed

lemma cspan_ok: "(\<forall>x \<in> set xs. x \<noteq> NUL \<and> \<not> P x) \<Longrightarrow> c = NUL \<or> P c \<Longrightarrow> cspan P (xs @ c # ys) = Inr (length xs)"
  by (induction xs) auto

lemma line_blanks:
  assumes "line_ok arr b"
  obtains b1 where "consume_whitespace arr b = Inr b1" "line_ok arr b1" "b_tail b1 = b_tail b" "b_head b \<le> b_head b1"
    "buf_bytes arr b1 = dropWhile blank (buf_bytes arr b)"
proof -
  note nb = line_ok_bytes [OF assms]
  have ne: "dropWhile blank (buf_bytes arr b) \<noteq> []" by (rule dropWhile_newline [OF nb]) simp
  have s: "buf_bytes arr b = takeWhile blank (buf_bytes arr b) @ dropWhile blank (buf_bytes arr b)" by simp
  have "consume_whitespace arr b = Inr (b\<lparr>b_head := b_head b + length (takeWhile blank (buf_bytes arr b))\<rparr>)"
    using assms by (intro consume_whitespace_ok) (simp_all add: line_ok_def)
  then show thesis using that line_advance [OF assms s ne] by simp
qed

lemma consume_token_ok:
  assumes "line_ok arr b"
  obtains t b' where "consume_token arr b = Inr (t, b')" "line_ok arr b'" "b_tail b' = b_tail b"
    "b_head b \<le> b_head t" "b_tail t = b_head b'" "b_head t \<le> b_tail t"
    "buf_bytes arr t = token (buf_bytes arr b)" "buf_bytes arr b' = after_token (buf_bytes arr b)"
proof -
  obtain b1 where b1: "consume_whitespace arr b = Inr b1" "line_ok arr b1" "b_tail b1 = b_tail b" "b_head b \<le> b_head b1"
    "buf_bytes arr b1 = dropWhile blank (buf_bytes arr b)" by (rule line_blanks [OF assms])
  let ?s = "buf_bytes arr b1" and ?n = "length (token (buf_bytes arr b))"
  let ?b' = "b1\<lparr>b_head := b_head b1 + ?n\<rparr>"
  have ne: "after_token (buf_bytes arr b) \<noteq> []"
    unfolding after_token_def b1(5) [symmetric] by (rule dropWhile_newline [OF line_ok_bytes [OF b1(2)]]) simp
  have s: "?s = token (buf_bytes arr b) @ after_token (buf_bytes arr b)"
    unfolding token_def after_token_def b1(5) by simp
  note adv = line_advance [OF b1(2) s ne]
  have h: "b_head b1 \<le> b_tail b1" "b_tail b1 \<le> length arr" using b1(2) by (simp_all add: line_ok_def)
  obtain c r where c: "after_token (buf_bytes arr b) = c # r" using ne by (cases "after_token (buf_bytes arr b)") auto
  have cs: "stop c" using hd_dropWhile [of "\<lambda>c. \<not> stop c"] ne c unfolding after_token_def by (metis list.sel(1))
  have "drop (b_head b1) arr = token (buf_bytes arr b) @ c # r @ drop (b_tail b1) arr"
    using line_split(1) [OF h] s c by simp
  then have sp: "strcspn arr (b_head b1) [CHR '' '', CHR 0x09, CHR 0x0A, CHR 0x0D] = Inr ?n"
    using cs unfolding strcspn_def token_def
    by (simp only:) (rule cspan_ok; auto simp: stop_def dest: set_takeWhileD)
  have sub: "buf_sub b1 ?n = Inr (buf_mk (b_head b1) ?n, ?b')"
    using adv(3) by (simp add: buf_sub_def buf_notify_read_def buf_size_def require_def)
  have t: "buf_bytes arr (buf_mk (b_head b1) ?n) = token (buf_bytes arr b)"
    using line_split(1) [OF h] s by (simp add: buf_bytes_def buf_mk_def buf_size_def)
  show thesis
    by (rule that [of "buf_mk (b_head b1) ?n" ?b'])
       (use b1 sp sub t adv in \<open>simp_all add: consume_token_def buf_mk_def\<close>)
qed

lemma skip_space_ok: "(\<forall>x \<in> set xs. c_isspace x) \<Longrightarrow> \<not> c_isspace c \<Longrightarrow> skip_space (xs @ c # ys) = Inr (length xs)"
  by (induction xs) auto

lemma read_digits_ok:
  "(\<forall>x \<in> set xs. c_isdigit x) \<Longrightarrow> \<not> c_isdigit c \<Longrightarrow>
   read_digits (xs @ c # ys) a n = Inr (digits_val a xs, n + length xs)"
  by (induction xs arbitrary: a n) (auto simp: digits_val_def)


lemma conversion_split:
  assumes "z \<noteq> []" "last z = CHR 0x0A"
  defines "k \<equiv> (if hd z = CHR ''-'' \<or> hd z = CHR ''+'' then 1 else 0 :: nat)"
  obtains c r where "z = take k z @ takeWhile c_isdigit (drop k z) @ c # r" "\<not> c_isdigit c" "length (take k z) = k"
proof -
  have ne: "drop k z \<noteq> []"
  proof
    assume "drop k z = []"
    then have "k = 1" "length z \<le> 1" using assms(1) by (auto simp: k_def split: if_splits)
    moreover have "hd z = last z" using assms(1) \<open>length z \<le> 1\<close> by (cases z) auto
    ultimately show False using assms(2) by (auto simp: k_def split: if_splits)
  qed
  have d: "dropWhile c_isdigit (drop k z) \<noteq> []"
    using dropWhile_newline [OF ne, of "CHR 0x0A" c_isdigit] ne assms(2) by simp
  then obtain c r where c: "dropWhile c_isdigit (drop k z) = c # r" by (cases "dropWhile c_isdigit (drop k z)") auto
  have "drop k z = takeWhile c_isdigit (drop k z) @ c # r" unfolding c [symmetric] by simp
  then have "z = take k z @ takeWhile c_isdigit (drop k z) @ c # r" by (metis append_take_drop_id)
  moreover have "\<not> c_isdigit c" using hd_dropWhile [OF d] c by simp
  moreover have "length (take k z) = k" using ne by simp
  ultimately show thesis by (rule that)
qed

lemma strtoul_ok:
  assumes "drop i arr = sp @ z @ rest" "\<forall>c \<in> set sp. c_isspace c" "z \<noteq> []" "\<not> c_isspace (hd z)" "last z = CHR 0x0A"
  shows "strtoul arr i = Inr (case conversion z of None \<Rightarrow> (0, i) | Some (v, n) \<Rightarrow> (v, i + length sp + n))"
    and "conversion z = Some (v, n) \<Longrightarrow> n < length z"
proof -
  define k where "k = (if hd z = CHR ''-'' \<or> hd z = CHR ''+'' then 1 else 0 :: nat)"
  obtain c r where zc: "z = take k z @ takeWhile c_isdigit (drop k z) @ c # r" "\<not> c_isdigit c" "length (take k z) = k"
    using conversion_split [OF assms(3,5)] unfolding k_def by blast
  have z: "z = hd z # tl z" using assms(3) by simp
  have ws: "skip_space (drop i arr) = Inr (length sp)"
    using skip_space_ok [OF assms(2,4), of "tl z @ rest"] assms(1) z by (metis append_Cons)
  have d: "drop (i + length sp) arr = z @ rest" using assms(1) by (metis add.commute append_eq_conv_conj drop_drop)
  then have len: "i + length sp < length arr" using assms(3) by (metis append_is_Nil_conv drop_all not_le)
  then have ld: "load arr (i + length sp) = Inr (hd z)"
    using d z hd_drop_conv_nth [OF len] by (metis append_Cons list.sel(1) load_simps)
  have dk: "drop (i + length sp + k) arr = takeWhile c_isdigit (drop k z) @ c # r @ rest"
  proof -
    have "drop (i + length sp + k) arr = drop k (z @ rest)" using d by (metis add.commute drop_drop)
    also have "\<dots> = drop k z @ rest" using zc(3) by simp
    also have "drop k z = takeWhile c_isdigit (drop k z) @ c # r"
      by (metis append_eq_conv_conj zc(1,3))
    finally show ?thesis by simp
  qed
  have rd: "read_digits (drop (i + length sp + k) arr) 0 0 =
      Inr (digits_val 0 (takeWhile c_isdigit (drop k z)), length (takeWhile c_isdigit (drop k z)))"
    unfolding dk using read_digits_ok [of "takeWhile c_isdigit (drop k z)" c "r @ rest" 0 0] zc(2)
    by (auto dest: set_takeWhileD)
  have p: "(if hd z = CHR ''-'' \<or> hd z = CHR ''+'' then i + length sp + 1 else i + length sp) = i + length sp + k"
    by (simp add: k_def)
  show "strtoul arr i = Inr (case conversion z of None \<Rightarrow> (0, i) | Some (v, n) \<Rightarrow> (v, i + length sp + n))"
    unfolding strtoul_def ws rbind_simps Let_def ld p rd conversion_def
    by (simp add: k_def)
  show "n < length z" if "conversion z = Some (v, n)"
  proof -
    have "n = k + length (takeWhile c_isdigit (drop k z))"
      using that by (auto simp: conversion_def Let_def k_def split: if_splits)
    also have "\<dots> < length z" using arg_cong [OF zc(1), of length] zc(3) by simp
    finally show ?thesis .
  qed
qed

text \<open>
  A line whose rest is not only white space: \<open>consume_int\<close> looks at nothing but the line.
\<close>

lemma consume_int_ok:
  assumes "line_ok arr b" and z: "z = dropWhile c_isspace (buf_bytes arr b)" "z \<noteq> []"
  obtains b' where "line_ok arr b'" "b_tail b' = b_tail b"
    "consume_int arr b = Inr (case conversion z of None \<Rightarrow> None | Some (v, n) \<Rightarrow> if is_terminal (z ! n) then Some v else None, b')"
    "\<forall>v n. conversion z = Some (v, n) \<longrightarrow> is_terminal (z ! n) \<longrightarrow> buf_bytes arr b' = drop n z"
proof -
  obtain b1 where b1: "consume_whitespace arr b = Inr b1" "line_ok arr b1" "b_tail b1 = b_tail b" "b_head b \<le> b_head b1"
    "buf_bytes arr b1 = dropWhile blank (buf_bytes arr b)" by (rule line_blanks [OF assms(1)])
  define sp where "sp = takeWhile c_isspace (buf_bytes arr b1)"
  have z1: "z = dropWhile c_isspace (buf_bytes arr b1)" unfolding b1(5) z(1) by (rule dropWhile_blank [symmetric])
  have s: "buf_bytes arr b1 = sp @ z" by (simp add: z1 sp_def)
  have h: "b_head b1 \<le> b_tail b1" "b_tail b1 \<le> length arr" using b1(2) by (simp_all add: line_ok_def)
  have lz: "last z = CHR 0x0A" using line_ok_bytes [OF b1(2)] z(2) s by simp
  have hz: "\<not> c_isspace (hd z)" using hd_dropWhile z1 z(2) by metis
  have d: "drop (b_head b1) arr = sp @ z @ drop (b_tail b1) arr" using line_split(1) [OF h] s by simp
  note st = strtoul_ok [OF d _ z(2) hz lz]
  have sps: "\<forall>c \<in> set sp. c_isspace c" by (auto simp: sp_def dest: set_takeWhileD)
  show thesis
  proof (cases "conversion z")
    case None
    then show thesis using that [of b1] b1 st(1) [OF sps] by (simp add: consume_int_def)
  next
    case (Some vn)
    obtain v n where vn: "conversion z = Some (v, n)" using Some by (cases vn) auto
    have n: "n < length z" by (rule st(2) [OF sps vn])
    have n0: "0 < n" using vn by (auto simp: conversion_def Let_def split: if_splits)
    have split: "buf_bytes arr b1 = (sp @ take n z) @ drop n z" using s by simp
    have l: "length (sp @ take n z) = length sp + n" using n by simp
    note adv = line_advance [OF b1(2) split, unfolded l]
    have dn: "drop n z \<noteq> []" using n by simp
    have "drop (b_head b1 + length sp + n) arr = drop n z @ drop (b_tail b1) arr"
    proof -
      have "drop (b_head b1 + length sp + n) arr = drop (length sp + n) (sp @ z @ drop (b_tail b1) arr)"
        using d by (metis add.assoc add.commute drop_drop)
      then show ?thesis using n by simp
    qed
    moreover have lt: "b_head b1 + length sp + n < length arr" using adv(3) [OF dn] h(2) by linarith
    ultimately have ld: "load arr (b_head b1 + length sp + n) = Inr (z ! n)"
      using n hd_drop_conv_nth [OF lt] hd_drop_conv_nth [OF n] by (simp add: hd_append)
    have nr: "buf_notify_read b1 (length sp + n) = Inr (b_head b1, b1\<lparr>b_head := b_head b1 + (length sp + n)\<rparr>)"
      using adv(3) [OF dn] by (simp add: buf_notify_read_def buf_size_def require_def)
    show thesis
    proof (cases "is_terminal (z ! n)")
      case True
      then show thesis
        using that [of "b1\<lparr>b_head := b_head b1 + (length sp + n)\<rparr>"] b1 st(1) [OF sps] vn ld nr n0 adv(1,2) [OF dn]
        by (simp add: consume_int_def add.assoc)
    next
      case False
      then show thesis using that [of b1] b1 st(1) [OF sps] vn ld n0 by (simp add: consume_int_def)
    qed
  qed
qed

lemma consume_u64_int: "consume_u64 = consume_int"
  by (simp add: fun_eq_iff consume_u64_def consume_int_def)

text \<open>The end of a command: one past the first newline of the bytes received so far.\<close>

lemma memchr_loop_ok:
  "n \<le> length cs \<Longrightarrow> memchr_loop cs x n =
     Inr (if x \<in> set (take n cs) then Some (length (takeWhile (\<lambda>c. c \<noteq> x) cs)) else None)"
  by (induction cs x n rule: memchr_loop.induct) auto

lemma find_end_of_command_ok:
  "i + len \<le> length arr \<Longrightarrow> find_end_of_command arr i len =
     Inr (if CHR 0x0A \<in> set (take len (drop i arr))
          then Some (i + length (takeWhile (\<lambda>c. c \<noteq> CHR 0x0A) (drop i arr)) + 1) else None)"
  by (simp add: find_end_of_command_def memchr_loop_ok)

section \<open>Properties\<close>

text \<open>
  C32: \<open>consume_token\<close> on the rest of a command line returns exactly the next word of that line: it
  skips blanks, stops before the next blank, carriage return, newline or zero byte, leaves the
  remainder of the line (which still ends in its newline) for the next call, and reads no byte
  outside the line.
\<close>

theorem consume_token_spec:
  assumes "line_ok arr b"
  shows "\<exists>t b'. consume_token arr b = Inr (t, b') \<and> line_ok arr b' \<and>
    buf_bytes arr t = token (buf_bytes arr b) \<and> buf_bytes arr b' = after_token (buf_bytes arr b) \<and>
    (\<forall>c \<in> set (buf_bytes arr t). \<not> stop c)"
proof -
  obtain t b' where t: "consume_token arr b = Inr (t, b')" "line_ok arr b'"
    "buf_bytes arr t = token (buf_bytes arr b)" "buf_bytes arr b' = after_token (buf_bytes arr b)"
    by (rule consume_token_ok [OF assms])
  then show ?thesis by (auto simp: token_def dest: set_takeWhileD)
qed

definition demo_line :: bytes where
  "demo_line = ''set  k 12 -1'' @ [CHR 0x0D, CHR 0x0A] @ ''34 x''"

lemma demo_line_ok: "line_ok demo_line \<lparr>b_head = 3, b_tail = 14\<rparr>"
  by (simp add: demo_line_def line_ok_def)

theorem consume_token_spec_witness:
  "\<exists>t b'. consume_token demo_line \<lparr>b_head = 3, b_tail = 14\<rparr> = Inr (t, b') \<and> buf_bytes demo_line t = ''k'' \<and>
     buf_bytes demo_line b' = '' 12 -1'' @ [CHR 0x0D, CHR 0x0A]"
  using consume_token_spec [OF demo_line_ok]
  by (auto simp: demo_line_def buf_bytes_def buf_size_def token_def after_token_def blank_def stop_def NUL_def)

text \<open>
  C33: \<open>consume_int\<close> on a line whose rest is not only white space converts the text at the front of
  it, however long: a sign and decimal digits that run up to white space or a zero byte give the
  number (the largest one on overflow, negated modulo $2^{64}$ after a minus sign) and leave the
  remainder of the line; anything else gives no number.
\<close>

theorem consume_int_spec:
  assumes "line_ok arr b" and "dropWhile c_isspace (buf_bytes arr b) = z" and "z \<noteq> []"
  shows "\<exists>b'. line_ok arr b' \<and>
    consume_int arr b = Inr (case conversion z of
        None \<Rightarrow> None | Some (v, n) \<Rightarrow> if is_terminal (z ! n) then Some v else None, b') \<and>
    (\<forall>v n. conversion z = Some (v, n) \<longrightarrow> is_terminal (z ! n) \<longrightarrow> buf_bytes arr b' = drop n z)"
proof -
  obtain b' where "line_ok arr b'" "b_tail b' = b_tail b"
    "consume_int arr b = Inr (case conversion z of None \<Rightarrow> None | Some (v, n) \<Rightarrow> if is_terminal (z ! n) then Some v else None, b')"
    "\<forall>v n. conversion z = Some (v, n) \<longrightarrow> is_terminal (z ! n) \<longrightarrow> buf_bytes arr b' = drop n z"
    by (rule consume_int_ok [OF assms(1) assms(2) [symmetric] assms(3)])
  then show ?thesis by blast
qed

theorem consume_int_spec_witness:
  "\<exists>b'. consume_int demo_line \<lparr>b_head = 6, b_tail = 14\<rparr> = Inr (Some 12, b') \<and>
     buf_bytes demo_line b' = '' -1'' @ [CHR 0x0D, CHR 0x0A]"
proof -
  have l: "line_ok demo_line \<lparr>b_head = 6, b_tail = 14\<rparr>" by (simp add: demo_line_def line_ok_def)
  have z: "dropWhile c_isspace (buf_bytes demo_line \<lparr>b_head = 6, b_tail = 14\<rparr>) = ''12 -1'' @ [CHR 0x0D, CHR 0x0A]"
    by (simp add: demo_line_def buf_bytes_def buf_size_def c_isspace_def)
  have c: "conversion (''12 -1'' @ [CHR 0x0D, CHR 0x0A]) = Some (12, 2)"
    by (simp add: conversion_def c_isdigit_def digits_val_def digit_val_def)
  from consume_int_spec [OF l z] c show ?thesis by (auto simp: is_terminal_def is_whitespace_def)
qed

lemma skip_past_line:
  assumes "line_ok arr b" "\<forall>c \<in> set (buf_bytes arr b). c_isspace c"
  obtains b1 where "consume_whitespace arr b = Inr b1" "line_ok arr b1" "b_tail b1 = b_tail b"
    "\<forall>c \<in> set (buf_bytes arr b1). c_isspace c" "\<exists>n. buf_bytes arr b1 = drop n (buf_bytes arr b)"
proof -
  obtain b1 where b1: "consume_whitespace arr b = Inr b1" "line_ok arr b1" "b_tail b1 = b_tail b" "b_head b \<le> b_head b1"
    "buf_bytes arr b1 = dropWhile blank (buf_bytes arr b)" by (rule line_blanks [OF assms(1)])
  moreover have "\<exists>n. dropWhile blank (buf_bytes arr b) = drop n (buf_bytes arr b)" using dropWhile_eq_drop by blast
  ultimately show thesis using that [of b1] assms(2) by (auto dest: set_dropWhileD)
qed

lemma consume_int_absent:
  assumes "line_ok arr b" "\<forall>c \<in> set (buf_bytes arr b). c_isspace c"
    and "drop (b_tail b) arr = sp @ c # rest" "\<forall>x \<in> set sp. c_isspace x"
    and "\<not> c_isspace c" "\<not> c_isdigit c" "c \<noteq> CHR ''-''" "c \<noteq> CHR ''+''"
  obtains b1 where "consume_int arr b = Inr (None, b1)" "line_ok arr b1" "b_tail b1 = b_tail b"
    "\<exists>n. buf_bytes arr b1 = drop n (buf_bytes arr b)"
proof -
  obtain b1 where b1: "consume_whitespace arr b = Inr b1" "line_ok arr b1" "b_tail b1 = b_tail b"
    "\<forall>c \<in> set (buf_bytes arr b1). c_isspace c" "\<exists>n. buf_bytes arr b1 = drop n (buf_bytes arr b)" by (rule skip_past_line [OF assms(1,2)])
  have h: "b_head b1 < b_tail b1" "b_tail b1 \<le> length arr" using b1(2) by (simp_all add: line_ok_def)
  let ?w = "buf_bytes arr b1 @ sp"
  have dr: "drop (b_head b1) arr = ?w @ c # rest" using line_split(1) [of b1 arr] h assms(3) b1(3) by simp
  have ws: "skip_space (drop (b_head b1) arr) = Inr (length ?w)"
    unfolding dr using skip_space_ok [of ?w c rest] b1(4) assms(4,5) by auto
  let ?p = "b_head b1 + length ?w"
  have dp: "drop ?p arr = c # rest" using dr by (metis add.commute append_eq_conv_conj drop_drop)
  have ld: "load arr ?p = Inr c"
    using dp hd_drop_conv_nth [of ?p arr] by (metis drop_all leI list.distinct(1) list.sel(1) load_simps)
  have "read_digits (drop ?p arr) 0 0 = Inr (0, 0)" unfolding dp using assms(6) by simp
  then have "strtoul arr (b_head b1) = Inr (0, b_head b1)"
    unfolding strtoul_def ws rbind_simps Let_def ld using assms(7,8) by simp
  then have "consume_int arr b = Inr (None, b1)" using b1(1) by (simp add: consume_int_def)
  then show thesis using that b1 by blast
qed

text \<open>
  C34: Where the number is missing, \<open>consume_int\<close> reads on behind the end of the command: when the
  rest of the line is only white space and the bytes that stand behind the line in the array are white
  space (or none), at least one digit and a terminator, it fails the assertion of \<open>buf::notify_read\<close>.
  So a client that sends a command without its number, together with a line that starts with a number,
  stops the process. When no number stands behind the line, the call returns without a number.
\<close>

theorem consume_int_missing_number:
  assumes "line_ok arr b" and "\<forall>c \<in> set (buf_bytes arr b). c_isspace c"
    and "drop (b_tail b) arr = sp @ ds @ c # rest" and "\<forall>x \<in> set sp. c_isspace x"
    and "ds \<noteq> []" and "\<forall>x \<in> set ds. c_isdigit x" and "is_terminal c"
  shows "consume_int arr b = Inl AssertFailed"
proof -
  obtain b1 where b1: "consume_whitespace arr b = Inr b1" "line_ok arr b1" "b_tail b1 = b_tail b"
    "\<forall>c \<in> set (buf_bytes arr b1). c_isspace c" by (rule skip_past_line [OF assms(1,2)])
  have h: "b_head b1 < b_tail b1" "b_tail b1 \<le> length arr" using b1(2) by (simp_all add: line_ok_def)
  let ?w = "buf_bytes arr b1 @ sp"
  have lw: "length (buf_bytes arr b1) = b_tail b1 - b_head b1" using line_split(2) h by simp
  have dr: "drop (b_head b1) arr = ?w @ ds @ c # rest" using line_split(1) [of b1 arr] h assms(3) b1(3) by simp
  obtain d ds' where ds: "ds = d # ds'" using assms(5) by (cases ds) auto
  have dig: "c_isdigit d" using assms(6) ds by simp
  then have dns: "\<not> c_isspace d" "d \<noteq> CHR ''-''" "d \<noteq> CHR ''+''"
    by (auto simp: c_isdigit_def c_isspace_def)
  have nc: "\<not> c_isdigit c" using assms(7) by (auto simp: is_terminal_def is_whitespace_def c_isdigit_def NUL_def)
  have ws: "skip_space (drop (b_head b1) arr) = Inr (length ?w)"
    unfolding dr ds using skip_space_ok [of ?w d "ds' @ c # rest"] dns(1) b1(4) assms(4) by auto
  let ?p = "b_head b1 + length ?w"
  have dp: "drop ?p arr = ds @ c # rest" using dr by (metis add.commute append_eq_conv_conj drop_drop)
  have arr: "length arr = ?p + length ds + Suc (length rest)"
    using arg_cong [OF dp, of length] arg_cong [OF dr, of length] h by simp
  have ld: "load arr ?p = Inr d" using dp ds arr by (simp add: load_def) (metis hd_drop_conv_nth list.sel(1) arr less_add_Suc1 add_Suc_right add.assoc)
  have dp2: "drop (?p + length ds) arr = c # rest" using dp by (metis add.commute append_eq_conv_conj drop_drop)
  have lc: "load arr (?p + length ds) = Inr c"
    using arr hd_drop_conv_nth [of "?p + length ds" arr] dp2 by simp
  have rd: "read_digits (drop ?p arr) 0 0 = Inr (digits_val 0 ds, length ds)"
    unfolding dp using read_digits_ok [OF assms(6) nc, of rest 0 0] by simp
  have st: "\<exists>v. strtoul arr (b_head b1) = Inr (v, ?p + length ds)"
    unfolding strtoul_def ws rbind_simps Let_def ld using dns rd ds by simp
  have "\<not> ?p + length ds - b_head b1 \<le> buf_size b1"
    using ds lw by (simp add: buf_size_def)
  then show ?thesis using b1(1) st lc assms(7) ds by (auto simp: consume_int_def buf_notify_read_def)
qed

theorem consume_int_missing_number_witness:
  "consume_int demo_line \<lparr>b_head = 12, b_tail = 14\<rparr> = Inl AssertFailed"
  by (rule consume_int_missing_number [where sp = "[]" and ds = "''34''" and c = "CHR '' ''" and rest = "''x''"])
     (simp_all add: demo_line_def line_ok_def buf_bytes_def buf_size_def c_isspace_def c_isdigit_def is_terminal_def is_whitespace_def)

end
