(* ===== verification/Session.thy ===== *)
theory Session
  imports Cache Utils
begin

text \<open>
  The text protocol: \<open>text_session\<close> of \<open>src/session.cc\<close>, command by command and state by state.

  A handler runs on the session object and the rest of the program (the record \<open>world\<close> of the
  cache) and may throw \<open>client_error_t\<close> or \<open>server_error_t\<close>, which \<open>loop\<close> catches; every other
  way of not returning is an error value, since nothing catches it. What the session asks of its
  streams is left in \<open>io\<close>: the bytes of an \<open>async_write\<close>, or the range of an \<open>async_read\<close>. Logging
  is left out.
\<close>

section \<open>Session objects\<close>

definition buffer_size :: nat where
  "buffer_size = 4096"

definition max_key_size :: nat where
  "max_key_size = 255"

definition CRLF :: bytes where
  "CRLF = [CHR 0x0D, CHR 0x0A]"

datatype session_state =
    session_write_prompt
  | session_read_command
  | session_execute_command
  | session_execute_write
  | session_write_data
  | session_write_result
  | session_stopping

text \<open>
  \<open>ReadCmd off n\<close> reads at most \<open>n\<close> bytes to offset \<open>off\<close> of the input buffer, under control of
  \<open>cmd_callback\<close>; \<open>ReadData a size n\<close> reads exactly \<open>n\<close> bytes to the start of the \<open>size\<close> bytes of
  chunk \<open>a\<close>.
\<close>

datatype io_req =
    NoIO
  | WriteReq bytes
  | ReadCmd nat nat
  | ReadData addr u64 u64

record session =
  s_prompt :: "bytes option"
  ibuf :: buffer
  obuf :: buffer
  noreply :: bool
  state :: session_state
  args :: buf
  cmd :: buf
  flags_s :: u64
  exptime_s :: u64
  unique_s :: u64
  key_s :: buf
  idata :: addr
  odata :: rope
  io :: io_req

text \<open>
  \<open>raw1\<close>, \<open>raw2\<close> and \<open>nr\<close> are what the constructor leaves uninitialised: the arrays of the two
  buffers and \<open>noreply_\<close>.
\<close>

definition text_session_new :: "bytes \<Rightarrow> bytes \<Rightarrow> bool \<Rightarrow> bytes option \<Rightarrow> session" where
  "text_session_new raw1 raw2 nr pr =
     \<lparr>s_prompt = pr, ibuf = buffer_new raw1, obuf = buffer_new raw2, noreply = nr,
      state = session_write_prompt, args = buf_null, cmd = buf_null, flags_s = 0, exptime_s = 0,
      unique_s = 0, key_s = buf_null, idata = 0, odata = \<lparr>r_head = 0, r_tail = 0\<rparr>, io = NoIO\<rparr>"

text \<open>
  What a step takes from outside: to the arguments of the cache come the thread's counter
  \<open>updated_atime\<close> and the package version of the generated \<open>config.h\<close>.
\<close>

record senv = env +
  v_updates :: int
  v_version :: bytes

section \<open>Handlers\<close>

text \<open>The result \<open>None\<close> is a thrown \<open>client_error_t\<close> or \<open>server_error_t\<close>.\<close>

type_synonym ss = "session \<times> world"

type_synonym 'a handler = "ss \<Rightarrow> ('a option \<times> ss) res"

definition ret :: "'a \<Rightarrow> 'a handler" where
  "ret x = (\<lambda>sw. Inr (Some x, sw))"

definition throw :: "'a handler" where
  "throw = (\<lambda>sw. Inr (None, sw))"

definition andthen :: "'a handler \<Rightarrow> ('a \<Rightarrow> 'b handler) \<Rightarrow> 'b handler" where
  "andthen m f = (\<lambda>sw. rbind (m sw) (\<lambda>(x, sw). case x of None \<Rightarrow> Inr (None, sw) | Some y \<Rightarrow> f y sw))"

definition get_s :: "(session \<Rightarrow> 'a) \<Rightarrow> 'a handler" where
  "get_s f = (\<lambda>(s, w). Inr (Some (f s), (s, w)))"

definition upd_s :: "(session \<Rightarrow> session) \<Rightarrow> unit handler" where
  "upd_s f = (\<lambda>(s, w). Inr (Some (), (f s, w)))"

definition lift_s :: "(session \<Rightarrow> ('a \<times> session) res) \<Rightarrow> 'a handler" where
  "lift_s f = (\<lambda>(s, w). rbind (f s) (\<lambda>(x, s). Inr (Some x, (s, w))))"

text \<open>A call of the cache with the session's view of it.\<close>

definition lift_w :: "(session \<Rightarrow> world \<Rightarrow> ('a \<times> world) res) \<Rightarrow> 'a handler" where
  "lift_w f = (\<lambda>(s, w). rbind (f s w) (\<lambda>(x, w). Inr (Some x, (s, w))))"

definition set_state :: "session_state \<Rightarrow> unit handler" where
  "set_state next = upd_s (\<lambda>s. s\<lparr>state := next\<rparr>)"

section \<open>Output\<close>

definition send_n :: "bytes \<Rightarrow> unit handler" where
  "send_n msg = lift_s (\<lambda>s.
     if noreply s then Inr ((), s) else rbind (bf_write (obuf s) msg) (\<lambda>o'. Inr ((), s\<lparr>obuf := o'\<rparr>)))"

definition send :: "bytes \<Rightarrow> unit handler" where
  "send msg = send_n msg"

definition sendln :: "bytes \<Rightarrow> unit handler" where
  "sendln msg = andthen (send msg) (\<lambda>_. send CRLF)"

text \<open>
  \<open>vsnprintf\<close> writes at most \<open>n\<close> bytes, the terminating zero included, and returns the length of
  the whole text, here the formatted text \<open>txt\<close>.
\<close>

definition vsnprintf :: "bytes \<Rightarrow> nat \<Rightarrow> int \<Rightarrow> bytes \<Rightarrow> (nat \<times> bytes) res" where
  "vsnprintf arr i n txt =
     (if n \<le> 0 then Inr (length txt, arr)
      else rbind (store arr i (take (nat n - 1) txt @ [NUL])) (\<lambda>arr. Inr (length txt, arr)))"

definition vsendf :: "bytes \<Rightarrow> unit handler" where
  "vsendf txt =
     andthen (get_s noreply) (\<lambda>nr.
     if \<not> nr then
       andthen (lift_s (\<lambda>s.
         rbind (vsnprintf (bf_b (obuf s)) (bf_tail (obuf s)) (available (obuf s)) txt) (\<lambda>(n, arr).
         rbind (bf_notify_write ((obuf s)\<lparr>bf_b := arr\<rparr>) n) (\<lambda>o'. Inr ((), s\<lparr>obuf := o'\<rparr>))))) (\<lambda>_.
       send CRLF)
     else ret ())"

definition sendf :: "bytes \<Rightarrow> unit handler" where
  "sendf txt = vsendf txt"

definition print_u32 :: "u32 \<Rightarrow> bytes" where
  "print_u32 a = dec_digits (unat a)"

text \<open>\<open>%.*s\<close> stops at a zero byte.\<close>

definition print_buf :: "bytes \<Rightarrow> buf \<Rightarrow> bytes" where
  "print_buf arr b = takeWhile (\<lambda>c. c \<noteq> NUL) (buf_bytes arr b)"

definition send_stat_s :: "bytes \<Rightarrow> bytes \<Rightarrow> unit handler" where
  "send_stat_s name val = sendf (''STAT '' @ name @ '' '' @ val)"

definition send_stat :: "bytes \<Rightarrow> u64 \<Rightarrow> unit handler" where
  "send_stat name val = send_stat_s name (print_u64 val)"

definition flush :: "bool handler" where
  "flush = lift_s (\<lambda>s.
     if bf_empty (obuf s) then Inr (False, s) else Inr (True, s\<lparr>io := WriteReq (buffer_bytes (obuf s))\<rparr>))"

definition send_async :: "bytes \<Rightarrow> unit handler" where
  "send_async msg = lift_s (\<lambda>s.
     rbind (require (used (obuf s) = 0) AssertFailed) (\<lambda>_. Inr ((), s\<lparr>io := WriteReq msg\<rparr>)))"

definition pop_odata :: "addr handler" where
  "pop_odata = (\<lambda>(s, w). rbind (const_rope_pop (wmem w) (odata s)) (\<lambda>(m, r). Inr (Some m, (s\<lparr>odata := r\<rparr>, w))))"

definition chunk_data :: "addr \<Rightarrow> bytes handler" where
  "chunk_data m = (\<lambda>(s, w). rbind (rbind (mread (wmem w) m) mem_bytes) (\<lambda>bs. Inr (Some bs, (s, w))))"

definition send_data :: "bool handler" where
  "send_data =
     andthen pop_odata (\<lambda>m.
     if m = 0 then
       andthen (send CRLF) (\<lambda>_. andthen (set_state session_execute_command) (\<lambda>_. ret False))
     else
       andthen (set_state session_write_data) (\<lambda>_.
       andthen (chunk_data m) (\<lambda>bs. andthen (send_async bs) (\<lambda>_. ret True))))"

definition client_error :: "bytes \<Rightarrow> 'a handler" where
  "client_error txt =
     andthen (send ''CLIENT ERROR '') (\<lambda>_. andthen (vsendf txt) (\<lambda>_. andthen (send CRLF) (\<lambda>_.
     andthen (set_state session_write_result) (\<lambda>_. throw))))"

definition server_error :: "bytes \<Rightarrow> 'a handler" where
  "server_error txt =
     andthen (send ''SERVER ERROR '') (\<lambda>_. andthen (vsendf txt) (\<lambda>_. andthen (send CRLF) (\<lambda>_.
     andthen (set_state session_write_result) (\<lambda>_. throw))))"

definition send_cache_result :: "cache_error_t \<Rightarrow> unit handler" where
  "send_cache_result res =
     andthen (sendln (case res of stored \<Rightarrow> ''STORED'' | deleted \<Rightarrow> ''DELETED'' | notfound \<Rightarrow> ''NOT_FOUND''
                       | set_error \<Rightarrow> ''NOT_STORED'' | cas_exists \<Rightarrow> ''EXISTS'')) (\<lambda>_.
     set_state session_write_result)"

section \<open>Arguments\<close>

definition take_token :: "buf handler" where
  "take_token = lift_s (\<lambda>s.
     rbind (consume_token (bf_b (ibuf s)) (args s)) (\<lambda>(t, a). Inr (t, s\<lparr>args := a\<rparr>)))"

definition take_int :: "u64 option handler" where
  "take_int = lift_s (\<lambda>s.
     rbind (consume_int (bf_b (ibuf s)) (args s)) (\<lambda>(v, a). Inr (v, s\<lparr>args := a\<rparr>)))"

definition take_u64 :: "u64 option handler" where
  "take_u64 = lift_s (\<lambda>s.
     rbind (consume_u64 (bf_b (ibuf s)) (args s)) (\<lambda>(v, a). Inr (v, s\<lparr>args := a\<rparr>)))"

definition is_s :: "buf \<Rightarrow> bytes \<Rightarrow> bool handler" where
  "is_s b a = lift_s (\<lambda>s. rbind (buf_is (bf_b (ibuf s)) b a) (\<lambda>r. Inr (r, s)))"

definition parse_noreply :: "unit handler" where
  "parse_noreply =
     andthen take_token (\<lambda>nr.
     if \<not> buf_empty nr then
       andthen (is_s nr ''noreplay'') (\<lambda>yes.
       if yes then upd_s (\<lambda>s. s\<lparr>noreply := True\<rparr>)
       else client_error ''expected noreply or end of command'')
     else ret ())"

definition parse_key :: "unit handler" where
  "parse_key =
     andthen take_token (\<lambda>k. andthen (upd_s (\<lambda>s. s\<lparr>key_s := k\<rparr>)) (\<lambda>_.
     if buf_empty k then client_error ''missing key'' else ret ()))"

definition parse_update :: "u64 handler" where
  "parse_update =
     andthen parse_key (\<lambda>_.
     andthen take_int (\<lambda>f. case f of None \<Rightarrow> client_error ''missing flags'' | Some f \<Rightarrow>
     andthen (upd_s (\<lambda>s. s\<lparr>flags_s := f\<rparr>)) (\<lambda>_.
     andthen take_int (\<lambda>x. case x of None \<Rightarrow> client_error ''missing exptime'' | Some x \<Rightarrow>
     andthen (upd_s (\<lambda>s. s\<lparr>exptime_s := x\<rparr>)) (\<lambda>_.
     andthen take_int (\<lambda>n. case n of None \<Rightarrow> client_error ''missing bytes'' | Some n \<Rightarrow> ret n))))))"

text \<open>The bytes of \<open>key_\<close>.\<close>

definition key_bytes :: "session \<Rightarrow> bytes" where
  "key_bytes s = buf_bytes (bf_b (ibuf s)) (key_s s)"

section \<open>Commands\<close>

text \<open>\<open>while (const mem *m = odata_.pop()) send_n(m->data, m->size);\<close>\<close>

partial_function (option) send_rope :: "ss \<Rightarrow> (unit option \<times> ss) res option" where
  "send_rope sw =
     (case andthen pop_odata (\<lambda>m. if m = 0 then ret False
             else andthen (chunk_data m) (\<lambda>bs. andthen (send_n bs) (\<lambda>_. ret True))) sw of
        Inl e \<Rightarrow> Some (Inl e)
      | Inr (again, sw) \<Rightarrow>
          if again = Some True then send_rope sw else Some (Inr (map_option (\<lambda>_. ()) again, sw)))"

declare send_rope.simps [code]

definition read_entry :: "senv \<Rightarrow> addr \<Rightarrow> u32 handler" where
  "read_entry v e = (\<lambda>(s, w).
     rbind (eread w e) (\<lambda>x.
     rbind (entry_read (v_now v) (v_updates v) (wmem w) x) (\<lambda>(r, _, x).
     Inr (Some (e_flags x), (s\<lparr>odata := r\<rparr>, ewrite w e x)))))"

definition odata_size :: "u64 handler" where
  "odata_size = (\<lambda>(s, w). rbind (const_rope_size (wmem w) (odata s)) (\<lambda>n. Inr (Some n, (s, w))))"

definition odata_hash :: "u64 \<Rightarrow> u64 handler" where
  "odata_hash seed = (\<lambda>(s, w). rbind (const_rope_hash (wmem w) (odata s) seed) (\<lambda>n. Inr (Some n, (s, w))))"

text \<open>\<open>%u\<close> prints the low 32 bits of \<open>size\<close>.\<close>

definition value_line :: "bytes \<Rightarrow> u32 \<Rightarrow> u64 \<Rightarrow> u64 option \<Rightarrow> bytes" where
  "value_line key flags sz version =
     ''VALUE '' @ key @ '' '' @ print_u32 flags @ '' '' @ print_u32 (ucast sz) @
     (case version of None \<Rightarrow> [] | Some v \<Rightarrow> '' '' @ print_u64 v)"

definition margin :: u64 where
  "margin = of_nat max_key_size + 64"

definition get_found :: "senv \<Rightarrow> bool \<Rightarrow> buf \<Rightarrow> addr \<Rightarrow> bool handler" where
  "get_found v cas_unique key e =
     andthen (read_entry v e) (\<lambda>fl.
     andthen odata_size (\<lambda>size.
     andthen (if cas_unique then andthen (odata_hash (ucast fl)) (\<lambda>h. ret (Some h)) else ret None) (\<lambda>version.
     andthen (get_s (\<lambda>s. print_buf (bf_b (ibuf s)) key)) (\<lambda>k.
     andthen (sendf (value_line k fl size version)) (\<lambda>_.
     andthen (get_s (\<lambda>s. available (obuf s))) (\<lambda>avail.
     if word_of_int avail > size + margin then
       andthen (\<lambda>sw. outcome (send_rope sw)) (\<lambda>_. andthen (send CRLF) (\<lambda>_. ret False))
     else andthen (set_state session_write_data) (\<lambda>_. flush)))))))"

definition get :: "senv \<Rightarrow> bool \<Rightarrow> bool handler" where
  "get v cas_unique =
     andthen take_token (\<lambda>key.
     if buf_empty key then
       andthen (send (''END'' @ CRLF)) (\<lambda>_. andthen (set_state session_write_result) (\<lambda>_. ret False))
     else
       andthen (lift_w (\<lambda>s w. cache_get w (buf_bytes (bf_b (ibuf s)) key))) (\<lambda>e.
       if e = 0 then
         andthen (sendln ''NOT_FOUND'') (\<lambda>_. andthen (set_state session_write_result) (\<lambda>_. ret False))
       else get_found v cas_unique key e))"

definition del :: "senv \<Rightarrow> bool handler" where
  "del v =
     andthen parse_key (\<lambda>_. andthen parse_noreply (\<lambda>_.
     andthen (lift_w (\<lambda>s w. cache_del (env.truncate v) w (key_bytes s))) (\<lambda>res.
     andthen (send_cache_result res) (\<lambda>_. ret False))))"

definition incr_decr :: "senv \<Rightarrow> bool \<Rightarrow> bool handler" where
  "incr_decr v incr =
     andthen parse_key (\<lambda>_.
     andthen take_u64 (\<lambda>d. case d of None \<Rightarrow> client_error ''missing value'' | Some d \<Rightarrow>
     andthen parse_noreply (\<lambda>_.
     andthen (lift_w (\<lambda>s w. rbind (if incr then cache_incr (env.truncate v) w (key_bytes s) d
                                    else cache_decr (env.truncate v) w (key_bytes s) d)
                (\<lambda>(res, out, w). Inr ((res, out), w)))) (\<lambda>(res, out).
     andthen (if res = stored then sendf (print_u64 (case out of None \<Rightarrow> d | Some n \<Rightarrow> n))
              else send_cache_result res) (\<lambda>_. ret False)))))"

definition touch :: "senv \<Rightarrow> bool handler" where
  "touch v =
     andthen parse_key (\<lambda>_.
     andthen take_int (\<lambda>x. case x of None \<Rightarrow> client_error ''missing exptime'' | Some x \<Rightarrow>
     andthen parse_noreply (\<lambda>_.
     andthen (lift_w (\<lambda>s w. cache_touch (env.truncate v) w (key_bytes s) (ucast x))) (\<lambda>_.
     andthen (sendln ''TOUCHED'') (\<lambda>_. ret False)))))"

text \<open>The \<open>unsigned long\<close> delay is passed as an \<open>int\<close>.\<close>

definition flush_all :: "senv \<Rightarrow> bool handler" where
  "flush_all v =
     andthen take_int (\<lambda>d. let delay = (case d of None \<Rightarrow> 0 | Some d \<Rightarrow> d) in
     andthen parse_noreply (\<lambda>_.
     andthen (lift_w (\<lambda>s w. Inr ((), cache_flush_all (env.truncate v) w (sint (ucast delay :: 32 word))))) (\<lambda>_.
     ret False)))"

definition version :: "senv \<Rightarrow> bool handler" where
  "version v =
     andthen (sendln (''VERSION '' @ v_version v)) (\<lambda>_. andthen (set_state session_write_result) (\<lambda>_. ret False))"

definition stats :: "senv \<Rightarrow> bool handler" where
  "stats v =
     andthen (send_stat_s ''version'' (v_version v)) (\<lambda>_.
     andthen (send_stat ''pointer_size'' 8) (\<lambda>_.
     andthen (lift_w (\<lambda>s w. rbind (cache_buckets w) (\<lambda>b. rbind (cache_keys w) (\<lambda>k. Inr ((wcache w, get_hit_count w, b, k), w)))))
       (\<lambda>(c, hits, b, k).
     andthen (send_stat ''cmd_get'' (gets_c c)) (\<lambda>_.
     andthen (send_stat ''cmd_set'' (sets_c c)) (\<lambda>_.
     andthen (send_stat ''cmd_flush'' (flushes_c c)) (\<lambda>_.
     andthen (send_stat ''cmd_touch'' (touches_c c)) (\<lambda>_.
     andthen (send_stat ''get_hits'' hits) (\<lambda>_.
     andthen (send_stat ''get_misses'' (get_misses_c c)) (\<lambda>_.
     andthen (send_stat ''bytes'' (bytes_c c)) (\<lambda>_.
     andthen (send_stat ''buckets'' b) (\<lambda>_.
     andthen (send_stat ''keys'' k) (\<lambda>_.
     andthen (send (''END'' @ CRLF)) (\<lambda>_.
     andthen (set_state session_write_result) (\<lambda>_. ret False))))))))))))))"

text \<open>
  \<open>malloc\<close> returns the address and the uninitialised bytes of the environment. The rest of the
  data is read to the start of the chunk.
\<close>

definition recv_data :: "senv \<Rightarrow> u64 \<Rightarrow> bool handler" where
  "recv_data v bytes = (\<lambda>(s, w).
     let a = v_chunk v; h = mem_alloc a (v_raw v) bytes (wmem w); ready = min (unat bytes) (used (ibuf s)) in
     rbind (mread h a) (\<lambda>m.
     rbind (mem_store m (take ready (buffer_bytes (ibuf s)))) (\<lambda>m.
     rbind (bf_notify_read (ibuf s) ready) (\<lambda>(_, ib).
     let s = s\<lparr>idata := a, ibuf := ib, state := session_execute_write\<rparr>;
         w = w\<lparr>wmem := h(a \<mapsto> m)\<rparr> in
     if ready = unat bytes then Inr (Some False, (s, w))
     else Inr (Some True, (s\<lparr>io := ReadData a bytes (bytes - of_nat ready)\<rparr>, w))))))"

definition cas :: "senv \<Rightarrow> bool handler" where
  "cas v =
     andthen parse_update (\<lambda>bytes.
     andthen take_u64 (\<lambda>u. case u of None \<Rightarrow> client_error ''missing cas unique'' | Some u \<Rightarrow>
     andthen (upd_s (\<lambda>s. s\<lparr>unique_s := u\<rparr>)) (\<lambda>_.
     andthen parse_noreply (\<lambda>_. recv_data v bytes))))"

section \<open>Dispatch\<close>

text \<open>A chain of tests \<open>cmd_.is(...)\<close>: the first that holds decides.\<close>

fun switch :: "buf \<Rightarrow> (bytes \<times> 'a handler) list \<Rightarrow> 'a handler \<Rightarrow> 'a handler" where
  "switch c [] other = other"
| "switch c ((a, m) # cases) other = andthen (is_s c a) (\<lambda>yes. if yes then m else switch c cases other)"

definition dispatch_write :: "senv \<Rightarrow> bool handler" where
  "dispatch_write v =
     andthen (get_s cmd) (\<lambda>c.
     andthen (get_s (\<lambda>s. \<lparr>r_head = idata s, r_tail = idata s\<rparr>)) (\<lambda>data.
     andthen (switch c
       [(''set'', lift_w (\<lambda>s w. cache_set (env.truncate v) w (key_bytes s) (ucast (flags_s s)) (ucast (exptime_s s)) data)),
        (''add'', lift_w (\<lambda>s w. cache_add (env.truncate v) w (key_bytes s) (ucast (flags_s s)) (ucast (exptime_s s)) data)),
        (''replace'', lift_w (\<lambda>s w. cache_replace (env.truncate v) w (key_bytes s) (ucast (flags_s s)) (ucast (exptime_s s)) data)),
        (''append'', lift_w (\<lambda>s w. cache_append (env.truncate v) w (key_bytes s) data)),
        (''prepend'', lift_w (\<lambda>s w. cache_prepend (env.truncate v) w (key_bytes s) data)),
        (''cas'', lift_w (\<lambda>s w. cache_cas (env.truncate v) w (key_bytes s) (ucast (flags_s s)) (ucast (exptime_s s)) (unique_s s) data))]
       (andthen (get_s (\<lambda>s. print_buf (bf_b (ibuf s)) c)) (\<lambda>t. server_error (''confused by command: '' @ t)))) (\<lambda>res.
     andthen (send_cache_result res) (\<lambda>_. ret False))))"

definition update :: "senv \<Rightarrow> bool handler" where
  "update v = andthen parse_update (\<lambda>bytes. andthen parse_noreply (\<lambda>_. recv_data v bytes))"

definition dispatch :: "senv \<Rightarrow> bool handler" where
  "dispatch v =
     andthen (get_s cmd) (\<lambda>c.
     if buf_empty c then andthen (set_state session_write_prompt) (\<lambda>_. ret False)
     else switch c
       [(''get'', get v False), (''gets'', get v True),
        (''set'', update v), (''add'', update v), (''replace'', update v), (''append'', update v), (''prepend'', update v),
        (''incr'', incr_decr v True), (''decr'', incr_decr v False),
        (''delete'', del v), (''cas'', cas v), (''touch'', touch v), (''flush_all'', flush_all v),
        (''version'', version v), (''stats'', stats v),
        (''quit'', andthen (set_state session_stopping) (\<lambda>_. ret False))]
       (andthen (get_s (\<lambda>s. print_buf (bf_b (ibuf s)) c)) (\<lambda>t. client_error (''unknown command: '' @ [CHR 0x27] @ t @ [CHR 0x27]))))"

section \<open>Input\<close>

definition send_prompt :: "bool handler" where
  "send_prompt =
     andthen (set_state session_read_command) (\<lambda>_.
     andthen (get_s s_prompt) (\<lambda>p. case p of
       None \<Rightarrow> ret False
     | Some p \<Rightarrow> andthen (send p) (\<lambda>_. flush)))"

definition cmd_ready :: "nat \<Rightarrow> session \<Rightarrow> (bool \<times> session) res" where
  "cmd_ready additional s =
     rbind (find_end_of_command (bf_b (ibuf s)) (bf_head (ibuf s)) (used (ibuf s) + additional)) (\<lambda>r.
     case r of
       Some e \<Rightarrow>
         rbind (bf_notify_write (ibuf s) additional) (\<lambda>ib.
         rbind (bf_sub ib (e - bf_head ib)) (\<lambda>(a, ib).
         rbind (consume_token (bf_b ib) a) (\<lambda>(c, a).
         Inr (True, s\<lparr>ibuf := ib, args := a, cmd := c\<rparr>))))
     | None \<Rightarrow>
         if int additional = available (ibuf s) then Inr (True, s\<lparr>state := session_stopping\<rparr>)
         else Inr (False, s))"

definition recv_command :: "bool handler" where
  "recv_command =
     andthen (upd_s (\<lambda>s. s\<lparr>noreply := False\<rparr>)) (\<lambda>_.
     andthen (set_state session_execute_command) (\<lambda>_.
     andthen (lift_s (cmd_ready 0)) (\<lambda>ready.
     if ready then ret False
     else lift_s (\<lambda>s.
       rbind (bf_compact (ibuf s)) (\<lambda>ib.
       Inr (True, s\<lparr>ibuf := ib, io := ReadCmd (bf_tail ib) (nat (available ib))\<rparr>))))))"

text \<open>The number of bytes to read next; 0 ends the read.\<close>

definition cmd_callback :: "bool \<Rightarrow> nat \<Rightarrow> session \<Rightarrow> (nat \<times> session) res" where
  "cmd_callback ec bytes s =
     (if ec then Inr (0, s)
      else rbind (cmd_ready bytes s) (\<lambda>(ready, s).
        Inr (if ready then 0 else nat (available (ibuf s)) - bytes, s)))"

section \<open>The loop\<close>

datatype flow = Running | Blocked | Finished

definition handle :: "senv \<Rightarrow> session_state \<Rightarrow> bool handler" where
  "handle v st =
     (case st of
        session_write_prompt \<Rightarrow> andthen (upd_s (\<lambda>s. s\<lparr>obuf := bf_reset (obuf s)\<rparr>)) (\<lambda>_. send_prompt)
      | session_read_command \<Rightarrow> andthen (upd_s (\<lambda>s. s\<lparr>obuf := bf_reset (obuf s)\<rparr>)) (\<lambda>_. recv_command)
      | session_execute_command \<Rightarrow> dispatch v
      | session_execute_write \<Rightarrow> dispatch_write v
      | session_write_data \<Rightarrow> andthen (upd_s (\<lambda>s. s\<lparr>obuf := bf_reset (obuf s)\<rparr>)) (\<lambda>_. send_data)
      | session_write_result \<Rightarrow> andthen (set_state session_write_prompt) (\<lambda>_. flush)
      | session_stopping \<Rightarrow> ret False)"

definition loop_step :: "senv \<Rightarrow> ss \<Rightarrow> (flow \<times> ss) res" where
  "loop_step v sw =
     (if state (fst sw) = session_stopping then Inr (Finished, sw)
      else rbind (handle v (state (fst sw)) sw) (\<lambda>(blocked, sw).
        Inr (if blocked = Some True then Blocked else Running, sw)))"

text \<open>\<open>vs\<close> gives what each step takes from outside, \<open>i\<close> counts the steps.\<close>

partial_function (option) loop :: "(nat \<Rightarrow> senv) \<Rightarrow> nat \<Rightarrow> ss \<Rightarrow> (flow \<times> nat \<times> ss) res option" where
  "loop vs i sw =
     (case loop_step (vs i) sw of
        Inl e \<Rightarrow> Some (Inl e)
      | Inr (fl, sw) \<Rightarrow>
          if fl = Running then loop vs (Suc i) sw else Some (Inr (fl, Suc i, sw)))"

declare loop.simps [code]

definition callback :: "bool \<Rightarrow> (nat \<Rightarrow> senv) \<Rightarrow> nat \<Rightarrow> ss \<Rightarrow> (flow \<times> nat \<times> ss) res option" where
  "callback ec vs i sw =
     (let (s, w) = sw; s = s\<lparr>io := NoIO\<rparr>; s = (if ec then s\<lparr>state := session_stopping\<rparr> else s) in
      loop vs i (s, w))"

definition interact :: "(nat \<Rightarrow> senv) \<Rightarrow> nat \<Rightarrow> ss \<Rightarrow> (flow \<times> nat \<times> ss) res option" where
  "interact vs i sw = (let (s, w) = sw in loop vs i (s\<lparr>state := session_write_prompt\<rparr>, w))"

end
