(* ===== verification/Session_Lemmas.thy ===== *)
theory Session_Lemmas
  imports Session
begin

text \<open>
  How the handlers of a session compose: output that fits is appended to the output buffer,
  arguments are taken off the command line, and the dispatcher runs the handler of the command's
  name. The loop is unfolded step by step.
\<close>

named_theorems handler_simps \<open>unfolding of handlers\<close>

lemma andthen_simps [simp, handler_simps]:
  "andthen (ret x) f sw = f x sw"
  "m sw = Inr (Some x, sw') \<Longrightarrow> andthen m f sw = f x sw'"
  "m sw = Inr (None, sw') \<Longrightarrow> andthen m f sw = Inr (None, sw')"
  "m sw = Inl e \<Longrightarrow> andthen m f sw = Inl e"
  by (simp_all add: andthen_def ret_def)

lemma basic_handlers [simp, handler_simps]:
  "ret x sw = Inr (Some x, sw)"
  "throw sw = Inr (None, sw)"
  "get_s g (s, w) = Inr (Some (g s), (s, w))"
  "upd_s u (s, w) = Inr (Some (), (u s, w))"
  "set_state st (s, w) = Inr (Some (), (s\<lparr>state := st\<rparr>, w))"
  by (simp_all add: ret_def throw_def get_s_def upd_s_def set_state_def)

lemma lift_simps [simp, handler_simps]:
  "f s = Inr (x, s') \<Longrightarrow> lift_s f (s, w) = Inr (Some x, (s', w))"
  "f s = Inl e \<Longrightarrow> lift_s f (s, w) = Inl e"
  "g s w = Inr (y, w') \<Longrightarrow> lift_w g (s, w) = Inr (Some y, (s, w'))"
  "g s w = Inl e \<Longrightarrow> lift_w g (s, w) = Inl e"
  by (simp_all add: lift_s_def lift_w_def)

section \<open>Output\<close>

text \<open>The effect of output that fits.\<close>

definition put :: "buffer \<Rightarrow> bytes \<Rightarrow> buffer" where
  "put a bs = a\<lparr>bf_b := take (bf_tail a) (bf_b a) @ bs @ drop (bf_tail a + length bs) (bf_b a),
     bf_tail := bf_tail a + length bs\<rparr>"

definition emit :: "session \<Rightarrow> bytes \<Rightarrow> session" where
  "emit s bs = (if noreply s then s else s\<lparr>obuf := put (obuf s) bs\<rparr>)"

definition fits :: "session \<Rightarrow> bytes \<Rightarrow> bool" where
  "fits s bs \<longleftrightarrow> noreply s \<or> length bs + used (obuf s) \<le> max_size (obuf s)"

definition out :: "session \<Rightarrow> bytes" where
  "out s = buffer_bytes (obuf s)"

lemma put_flat:
  assumes "flat a" "length bs + used a \<le> max_size a"
  shows "flat (put a bs)" "max_size (put a bs) = max_size a" "used (put a bs) = used a + length bs"
    "buffer_bytes (put a bs) = buffer_bytes a @ bs" "bf_write a bs = Inr (put a bs)"
proof -
  note f = flatD [OF assms(1)]
  have l: "length (take (bf_tail a) (bf_b a) @ bs @ drop (bf_tail a + length bs) (bf_b a)) = length (bf_b a)"
    using assms(2) f by (simp add: max_size_def)
  show "flat (put a bs)" "max_size (put a bs) = max_size a" "used (put a bs) = used a + length bs"
    "buffer_bytes (put a bs) = buffer_bytes a @ bs"
    using assms f l by (simp_all add: put_def flat_def buffer_ok_def max_size_def used_def buffer_bytes_def)
  show "bf_write a bs = Inr (put a bs)"
    using assms f l
    by (simp add: put_def bf_write_def bf_notify_write_def available_def used_def max_size_def store_ok flat_def)
qed

lemma put_put:
  "flat a \<Longrightarrow> length (x @ y) + used a \<le> max_size a \<Longrightarrow> put (put a x) y = put a (x @ y)"
  by (simp add: put_def max_size_def flat_def buffer_ok_def used_def min.absorb1 add.assoc add.commute [of "length y"])

lemma emit_simps [simp]:
  "s_prompt (emit s bs) = s_prompt s" "ibuf (emit s bs) = ibuf s" "noreply (emit s bs) = noreply s"
  "state (emit s bs) = state s" "args (emit s bs) = args s" "cmd (emit s bs) = cmd s" "flags_s (emit s bs) = flags_s s"
  "exptime_s (emit s bs) = exptime_s s" "unique_s (emit s bs) = unique_s s" "key_s (emit s bs) = key_s s"
  "idata (emit s bs) = idata s" "odata (emit s bs) = odata s" "io (emit s bs) = io s"
  by (simp_all add: emit_def)

lemma emit_flat:
  assumes "flat (obuf s)" "fits s bs"
  shows "flat (obuf (emit s bs))" "max_size (obuf (emit s bs)) = max_size (obuf s)"
    "used (obuf (emit s bs)) = used (obuf s) + (if noreply s then 0 else length bs)"
    "out (emit s bs) = out s @ (if noreply s then [] else bs)"
  using assms put_flat [OF assms(1), of bs] by (auto simp: emit_def fits_def out_def)

lemma fits_append: "flat (obuf s) \<Longrightarrow> fits s (x @ y) \<longleftrightarrow> fits s x \<and> fits (emit s x) y"
  using put_flat [of "obuf s" x] by (auto simp: fits_def emit_def)

lemma emit_append: "flat (obuf s) \<Longrightarrow> fits s (x @ y) \<Longrightarrow> emit (emit s x) y = emit s (x @ y)"
  using put_put [of "obuf s" x y] by (auto simp: emit_def fits_def)

lemma send_n_ok: "flat (obuf s) \<Longrightarrow> fits s msg \<Longrightarrow> send_n msg (s, w) = Inr (Some (), (emit s msg, w))"
  using put_flat [of "obuf s" msg] by (auto simp: send_n_def lift_s_def emit_def fits_def)

lemma send_n_full: "flat (obuf s) \<Longrightarrow> \<not> fits s msg \<Longrightarrow> send_n msg (s, w) = Inl BufferError"
  using bf_write_flat(2) [of "obuf s" msg] by (simp add: send_n_def lift_s_def fits_def)

lemma send_ok: "flat (obuf s) \<Longrightarrow> fits s msg \<Longrightarrow> send msg (s, w) = Inr (Some (), (emit s msg, w))"
  by (simp add: send_def send_n_ok)

lemma send_full: "flat (obuf s) \<Longrightarrow> \<not> fits s msg \<Longrightarrow> send msg (s, w) = Inl BufferError"
  by (simp add: send_def send_n_full)

lemma sendln_ok:
  "flat (obuf s) \<Longrightarrow> fits s (msg @ CRLF) \<Longrightarrow> sendln msg (s, w) = Inr (Some (), (emit s (msg @ CRLF), w))"
  using fits_append [of s msg CRLF] emit_append [of s msg CRLF] emit_flat(1) [of s msg]
  by (simp add: sendln_def send_ok)

text \<open>A formatted line: the zero that \<open>vsnprintf\<close> appends is overwritten by the line end.\<close>

lemma vsendf_ok:
  assumes "flat (obuf s)" "fits s (txt @ CRLF)"
  shows "vsendf txt (s, w) = Inr (Some (), (emit s (txt @ CRLF), w))"
proof (cases "noreply s")
  case True
  then show ?thesis by (simp add: vsendf_def emit_def)
next
  case False
  let ?o = "obuf s"
  note f = flatD [OF assms(1)]
  have le: "length txt + 2 + bf_tail ?o \<le> length (bf_b ?o)" using assms(2) False f by (simp add: fits_def CRLF_def max_size_def)
  define arr where "arr = take (bf_tail ?o) (bf_b ?o) @ (txt @ [NUL]) @ drop (bf_tail ?o + length (txt @ [NUL])) (bf_b ?o)"
  define o1 where "o1 = ?o\<lparr>bf_b := arr, bf_tail := bf_tail ?o + length txt\<rparr>"
  have la: "length arr = length (bf_b ?o)" using le by (simp add: arr_def)
  have t: "take (nat (available ?o) - 1) txt = txt" using le f by (simp add: max_size_def)
  have "\<not> available ?o \<le> 0" using le f by (simp add: max_size_def)
  then have v: "vsnprintf (bf_b ?o) (bf_tail ?o) (available ?o) txt = Inr (length txt, arr)"
    using t le store_ok [of "bf_tail ?o" "txt @ [NUL]" "bf_b ?o"] by (simp add: vsnprintf_def arr_def)
  have nw: "bf_notify_write (?o\<lparr>bf_b := arr\<rparr>) (length txt) = Inr o1"
    using le f la by (simp add: bf_notify_write_def o1_def available_def used_def max_size_def require_def)
  have fl: "flat o1" "length CRLF + used o1 \<le> max_size o1"
    using le la assms(1) by (simp_all add: o1_def flat_def buffer_ok_def used_def max_size_def CRLF_def)
  have "put o1 CRLF = put ?o (txt @ CRLF)"
    using le la by (simp add: o1_def put_def arr_def CRLF_def min.absorb1)
  moreover have "send CRLF (s\<lparr>obuf := o1\<rparr>, w) = Inr (Some (), (emit (s\<lparr>obuf := o1\<rparr>) CRLF, w))"
    by (rule send_ok) (use fl False in \<open>simp_all add: fits_def\<close>)
  ultimately show ?thesis using v nw False by (simp add: vsendf_def lift_s_def emit_def andthen_def get_s_def)
qed

lemma vsendf_full:
  assumes "flat (obuf s)" "\<not> fits s (txt @ CRLF)"
  shows "vsendf txt (s, w) = Inl BufferError"
proof -
  let ?o = "obuf s"
  note f = flatD [OF assms(1)]
  have nr: "\<not> noreply s" and gt: "length (bf_b ?o) < length txt + 2 + bf_tail ?o"
    using assms(2) f by (auto simp: fits_def CRLF_def max_size_def)
  have "\<exists>arr. vsnprintf (bf_b ?o) (bf_tail ?o) (available ?o) txt = Inr (length txt, arr) \<and> length arr = length (bf_b ?o)"
  proof (cases "available ?o \<le> 0")
    case False
    let ?t = "take (nat (available ?o) - 1) txt @ [NUL]"
    have "length ?t \<le> nat (available ?o)" using False by simp
    then have "bf_tail ?o + length ?t \<le> length (bf_b ?o)" using f False unfolding max_size_def by linarith
    then show ?thesis using False store_ok [of "bf_tail ?o" ?t "bf_b ?o"] by (simp add: vsnprintf_def)
  qed (simp add: vsnprintf_def)
  then obtain arr where arr: "vsnprintf (bf_b ?o) (bf_tail ?o) (available ?o) txt = Inr (length txt, arr)"
    "length arr = length (bf_b ?o)" by blast
  define o1 where "o1 = ?o\<lparr>bf_b := arr, bf_tail := bf_tail ?o + length txt\<rparr>"
  show ?thesis
  proof (cases "length txt + bf_tail ?o \<le> length (bf_b ?o)")
    case True
    have nw: "bf_notify_write (?o\<lparr>bf_b := arr\<rparr>) (length txt) = Inr o1"
      using True f arr(2) by (simp add: bf_notify_write_def o1_def available_def used_def max_size_def require_def)
    have fl: "flat o1" "max_size o1 < length CRLF + used o1"
      using True gt arr(2) assms(1) by (simp_all add: o1_def flat_def buffer_ok_def used_def max_size_def CRLF_def)
    have "send CRLF (s\<lparr>obuf := o1\<rparr>, w) = Inl BufferError"
      by (rule send_full) (use fl nr in \<open>simp_all add: fits_def\<close>)
    then show ?thesis using arr nw nr by (simp add: vsendf_def lift_s_def andthen_def get_s_def)
  next
    case False
    then have "bf_notify_write (?o\<lparr>bf_b := arr\<rparr>) (length txt) = Inl BufferError"
      using f arr(2) by (simp add: bf_notify_write_def available_def used_def max_size_def require_def)
    then show ?thesis using arr nr by (simp add: vsendf_def lift_s_def andthen_def get_s_def)
  qed
qed

lemma sendf_ok: "flat (obuf s) \<Longrightarrow> fits s (txt @ CRLF) \<Longrightarrow> sendf txt (s, w) = Inr (Some (), (emit s (txt @ CRLF), w))"
  by (simp add: sendf_def vsendf_ok)

text \<open>An error reply ends the command.\<close>

definition error_text :: "bytes \<Rightarrow> bytes" where
  "error_text txt = ''CLIENT ERROR '' @ txt @ CRLF @ CRLF"

lemma client_error_ok:
  assumes "flat (obuf s)" "fits s (error_text txt)"
  shows "client_error txt (s, w) = Inr (None, ((emit s (error_text txt))\<lparr>state := session_write_result\<rparr>, w))"
proof -
  let ?s1 = "emit s ''CLIENT ERROR ''" and ?s2 = "emit (emit s ''CLIENT ERROR '') (txt @ CRLF)"
  have f: "fits s ''CLIENT ERROR ''" "fits ?s1 (txt @ CRLF)" "fits s (''CLIENT ERROR '' @ (txt @ CRLF) @ CRLF)"
    using assms fits_append [of s "''CLIENT ERROR ''" "txt @ CRLF @ CRLF"] emit_flat(1) [of s "''CLIENT ERROR ''"]
      fits_append [of ?s1 "txt @ CRLF" CRLF] by (simp_all add: error_text_def)
  have fl: "flat (obuf ?s1)" using emit_flat(1) [OF assms(1) f(1)] .
  have fl2: "flat (obuf ?s2)" using emit_flat(1) [OF fl f(2)] .
  have f2: "fits ?s1 ((txt @ CRLF) @ CRLF)" using assms f fits_append [OF assms(1), of "''CLIENT ERROR ''"] by simp
  then have f3: "fits ?s2 CRLF" using fits_append [OF fl] by blast
  have e: "emit ?s2 CRLF = emit s (error_text txt)"
    using emit_append [OF fl f2] emit_append [OF assms(1) f(3)] by (simp add: error_text_def)
  show ?thesis
    unfolding client_error_def
    using send_ok [OF assms(1) f(1), of w] vsendf_ok [OF fl f(2), of w] send_ok [OF fl2 f3, of w] e by simp
qed

lemma client_error_full:
  assumes "flat (obuf s)" "\<not> fits s (error_text txt)"
  shows "client_error txt (s, w) = Inl BufferError"
proof (cases "fits s ''CLIENT ERROR ''")
  case True
  let ?s1 = "emit s ''CLIENT ERROR ''"
  have fl: "flat (obuf ?s1)" "\<not> fits ?s1 ((txt @ CRLF) @ CRLF)"
    using emit_flat(1) [OF assms(1) True] fits_append [OF assms(1), of "''CLIENT ERROR ''" "txt @ CRLF @ CRLF"] assms(2) True
    by (simp_all add: error_text_def)
  note s1 = send_ok [OF assms(1) True, of w]
  show ?thesis
  proof (cases "fits ?s1 (txt @ CRLF)")
    case t: True
    then have "flat (obuf (emit ?s1 (txt @ CRLF)))" "\<not> fits (emit ?s1 (txt @ CRLF)) CRLF"
      using emit_flat(1) [OF fl(1) t] fits_append [OF fl(1), of "txt @ CRLF" CRLF] fl(2) by simp_all
    then show ?thesis unfolding client_error_def using s1 vsendf_ok [OF fl(1) t, of w] send_full by simp
  next
    case False
    then show ?thesis unfolding client_error_def using s1 vsendf_full [OF fl(1) False, of w] by simp
  qed
next
  case False
  then show ?thesis unfolding client_error_def using send_full [OF assms(1) False, of w] by simp
qed

lemma send_cache_result_ok:
  "flat (obuf s) \<Longrightarrow> fits s (msg @ CRLF) \<Longrightarrow>
   msg = (case res of stored \<Rightarrow> ''STORED'' | deleted \<Rightarrow> ''DELETED'' | notfound \<Rightarrow> ''NOT_FOUND''
            | set_error \<Rightarrow> ''NOT_STORED'' | cas_exists \<Rightarrow> ''EXISTS'') \<Longrightarrow>
   send_cache_result res (s, w) = Inr (Some (), ((emit s (msg @ CRLF))\<lparr>state := session_write_result\<rparr>, w))"
  using sendln_ok [of s msg w] by (simp add: send_cache_result_def)

section \<open>Arguments\<close>

text \<open>A token: a range inside the array without any byte that ends tokens.\<close>

definition tok_ok :: "bytes \<Rightarrow> buf \<Rightarrow> bool" where
  "tok_ok arr t \<longleftrightarrow> b_head t \<le> b_tail t \<and> b_tail t \<le> length arr \<and> (\<forall>c \<in> set (buf_bytes arr t). \<not> stop c)"

lemma tok_ok_NUL: "tok_ok arr t \<Longrightarrow> NUL \<notin> set (buf_bytes arr t)"
  by (auto simp: tok_ok_def stop_def)

lemma tok_ok_empty: "tok_ok arr t \<Longrightarrow> buf_empty t \<longleftrightarrow> buf_bytes arr t = []"
  using length_buf_bytes [of t arr] by (auto simp: tok_ok_def buf_empty_def)

lemma print_tok: "tok_ok arr t \<Longrightarrow> print_buf arr t = buf_bytes arr t"
  using tok_ok_NUL [of arr t] unfolding print_buf_def by (subst takeWhile_eq_all_conv) blast

definition sarr :: "session \<Rightarrow> bytes" where
  "sarr s = bf_b (ibuf s)"

definition line :: "session \<Rightarrow> bytes" where
  "line s = buf_bytes (sarr s) (args s)"

lemma sarr_simps [simp]:
  "sarr (s\<lparr>args := a\<rparr>) = sarr s" "sarr (s\<lparr>key_s := k\<rparr>) = sarr s" "sarr (s\<lparr>state := st\<rparr>) = sarr s"
  "sarr (s\<lparr>flags_s := f\<rparr>) = sarr s" "sarr (s\<lparr>exptime_s := f\<rparr>) = sarr s" "sarr (s\<lparr>unique_s := f\<rparr>) = sarr s"
  "sarr (s\<lparr>noreply := b\<rparr>) = sarr s" "sarr (emit s bs) = sarr s" "sarr (s\<lparr>odata := r\<rparr>) = sarr s" "sarr (s\<lparr>obuf := ob\<rparr>) = sarr s"
  by (simp_all add: sarr_def)

lemma line_simps [simp]:
  "line (s\<lparr>args := a\<rparr>) = buf_bytes (sarr s) a" "line (s\<lparr>key_s := k\<rparr>) = line s" "line (s\<lparr>state := st\<rparr>) = line s"
  "line (s\<lparr>flags_s := f\<rparr>) = line s" "line (s\<lparr>exptime_s := f\<rparr>) = line s" "line (s\<lparr>unique_s := f\<rparr>) = line s"
  "line (s\<lparr>noreply := b\<rparr>) = line s" "line (emit s bs) = line s" "line (s\<lparr>odata := r\<rparr>) = line s" "line (s\<lparr>obuf := ob\<rparr>) = line s"
  by (simp_all add: line_def)

lemma take_token_ok:
  assumes "line_ok (sarr s) (args s)"
  obtains t a where "take_token (s, w) = Inr (Some t, (s\<lparr>args := a\<rparr>, w))" "line_ok (sarr s) a" "tok_ok (sarr s) t"
    "buf_bytes (sarr s) t = token (line s)" "buf_bytes (sarr s) a = after_token (line s)" "b_tail a = b_tail (args s)"
proof -
  obtain t a where t: "consume_token (sarr s) (args s) = Inr (t, a)" "line_ok (sarr s) a" "b_tail a = b_tail (args s)"
    "b_head (args s) \<le> b_head t" "b_tail t = b_head a" "b_head t \<le> b_tail t"
    "buf_bytes (sarr s) t = token (buf_bytes (sarr s) (args s))"
    "buf_bytes (sarr s) a = after_token (buf_bytes (sarr s) (args s))" by (rule consume_token_ok [OF assms])
  have "tok_ok (sarr s) t" using t(2,5,6,7) by (auto simp: tok_ok_def line_ok_def token_def dest: set_takeWhileD)
  then show thesis using that t by (simp add: take_token_def lift_s_def sarr_def line_def)
qed

lemma is_s_ok: "tok_ok (sarr s) b \<Longrightarrow> NUL \<notin> set a \<Longrightarrow> is_s b a (s, w) = Inr (Some (buf_bytes (sarr s) b = a), (s, w))"
  using buf_is_iff [of b "sarr s" a] tok_ok_NUL [of "sarr s" b] by (simp add: is_s_def lift_s_def tok_ok_def sarr_def)

lemma switch_ok:
  "tok_ok (sarr s) c \<Longrightarrow> list_all (\<lambda>(a, _). NUL \<notin> set a) cases \<Longrightarrow>
   switch c cases other (s, w) = (case map_of cases (buf_bytes (sarr s) c) of None \<Rightarrow> other (s, w) | Some m \<Rightarrow> m (s, w))"
  by (induction c cases other rule: switch.induct) (auto simp: is_s_ok)

lemma parse_key_ok:
  assumes "line_ok (sarr s) (args s)" "token (line s) \<noteq> []"
  obtains k a where "parse_key (s, w) = Inr (Some (), (s\<lparr>args := a, key_s := k\<rparr>, w))" "line_ok (sarr s) a" "tok_ok (sarr s) k"
    "buf_bytes (sarr s) k = token (line s)" "buf_bytes (sarr s) a = after_token (line s)"
proof -
  obtain k a where k: "take_token (s, w) = Inr (Some k, (s\<lparr>args := a\<rparr>, w))" "line_ok (sarr s) a" "tok_ok (sarr s) k"
    "buf_bytes (sarr s) k = token (line s)" "buf_bytes (sarr s) a = after_token (line s)"
    by (rule take_token_ok [OF assms(1)])
  then show thesis using that assms(2) tok_ok_empty [OF k(3)] by (simp add: parse_key_def)
qed

lemma parse_key_missing:
  assumes "line_ok (sarr s) (args s)" "token (line s) = []" "flat (obuf s)" "fits s (error_text ''missing key'')"
  obtains k a where "parse_key (s, w) = Inr (None, ((emit (s\<lparr>args := a, key_s := k\<rparr>) (error_text ''missing key''))\<lparr>state := session_write_result\<rparr>, w))"
proof -
  obtain k a where k: "take_token (s, w) = Inr (Some k, (s\<lparr>args := a\<rparr>, w))" "tok_ok (sarr s) k"
    "buf_bytes (sarr s) k = token (line s)" by (rule take_token_ok [OF assms(1)])
  have "client_error ''missing key'' (s\<lparr>args := a, key_s := k\<rparr>, w) =
      Inr (None :: unit option, ((emit (s\<lparr>args := a, key_s := k\<rparr>) (error_text ''missing key''))\<lparr>state := session_write_result\<rparr>, w))"
    by (rule client_error_ok) (use assms(3,4) in \<open>simp_all add: fits_def\<close>)
  then show thesis using that k assms(2) tok_ok_empty [OF k(2)] by (simp add: parse_key_def)
qed

lemma parse_noreply_none:
  assumes "line_ok (sarr s) (args s)" "token (line s) = []"
  obtains a where "parse_noreply (s, w) = Inr (Some (), (s\<lparr>args := a\<rparr>, w))" "line_ok (sarr s) a"
    "buf_bytes (sarr s) a = after_token (line s)"
proof -
  obtain k a where k: "take_token (s, w) = Inr (Some k, (s\<lparr>args := a\<rparr>, w))" "line_ok (sarr s) a" "tok_ok (sarr s) k"
    "buf_bytes (sarr s) k = token (line s)" "buf_bytes (sarr s) a = after_token (line s)"
    by (rule take_token_ok [OF assms(1)])
  then show thesis using that assms(2) tok_ok_empty [OF k(3)] by (simp add: parse_noreply_def)
qed

text \<open>The number at the front of the arguments, and the arguments after it.\<close>

definition int_arg :: "bytes \<Rightarrow> (u64 \<times> bytes) option" where
  "int_arg l =
     (let z = dropWhile c_isspace l in
      if z = [] then None
      else case conversion z of
        None \<Rightarrow> None
      | Some (v, n) \<Rightarrow> if is_terminal (z ! n) then Some (v, drop n z) else None)"

lemma take_int_ok:
  assumes "line_ok (sarr s) (args s)" "int_arg (line s) = Some (v, l')"
  obtains a where "take_int (s, w) = Inr (Some (Some v), (s\<lparr>args := a\<rparr>, w))" "line_ok (sarr s) a" "buf_bytes (sarr s) a = l'"
proof -
  let ?z = "dropWhile c_isspace (line s)"
  obtain n where z: "?z \<noteq> []" "conversion ?z = Some (v, n)" "is_terminal (?z ! n)" "l' = drop n ?z"
    using assms(2) by (auto simp: int_arg_def Let_def split: if_splits option.splits)
  obtain a where a: "line_ok (sarr s) a"
    "consume_int (sarr s) (args s) = Inr (case conversion ?z of None \<Rightarrow> None | Some (v, n) \<Rightarrow> if is_terminal (?z ! n) then Some v else None, a)"
    "\<forall>v n. conversion ?z = Some (v, n) \<longrightarrow> is_terminal (?z ! n) \<longrightarrow> buf_bytes (sarr s) a = drop n ?z"
    by (rule consume_int_ok [OF assms(1) _ z(1)]) (simp_all add: line_def)
  then show thesis using that z by (simp add: take_int_def lift_s_def sarr_def)
qed

lemma take_u64_int: "take_u64 = take_int"
  by (simp add: take_u64_def take_int_def consume_u64_int)

definition update_args :: "bytes \<Rightarrow> (bytes \<times> u64 \<times> u64 \<times> u64 \<times> bytes) option" where
  "update_args l =
     (if token l = [] then None
      else Option.bind (int_arg (after_token l)) (\<lambda>(f, l1).
           Option.bind (int_arg l1) (\<lambda>(x, l2).
           Option.bind (int_arg l2) (\<lambda>(n, l3). Some (token l, f, x, n, l3)))))"

lemma parse_update_ok:
  assumes "line_ok (sarr s) (args s)" "update_args (line s) = Some (key, f, x, n, l3)"
  obtains k a where
    "parse_update (s, w) = Inr (Some n, (s\<lparr>args := a, key_s := k, flags_s := f, exptime_s := x\<rparr>, w))"
    "line_ok (sarr s) a" "tok_ok (sarr s) k" "buf_bytes (sarr s) k = key" "buf_bytes (sarr s) a = l3"
proof -
  obtain l1 l2 where l: "token (line s) \<noteq> []" "key = token (line s)" "int_arg (after_token (line s)) = Some (f, l1)"
    "int_arg l1 = Some (x, l2)" "int_arg l2 = Some (n, l3)"
    using assms(2) by (auto simp: update_args_def bind_eq_Some_conv split: if_splits)
  obtain k a where k: "parse_key (s, w) = Inr (Some (), (s\<lparr>args := a, key_s := k\<rparr>, w))" "line_ok (sarr s) a" "tok_ok (sarr s) k"
    "buf_bytes (sarr s) k = token (line s)" "buf_bytes (sarr s) a = after_token (line s)"
    by (rule parse_key_ok [OF assms(1) l(1)])
  let ?s1 = "s\<lparr>args := a, key_s := k\<rparr>"
  obtain a1 where a1: "take_int (?s1, w) = Inr (Some (Some f), (?s1\<lparr>args := a1\<rparr>, w))" "line_ok (sarr ?s1) a1"
    "buf_bytes (sarr ?s1) a1 = l1" by (rule take_int_ok [of ?s1 f l1]) (use k l in simp_all)
  let ?s2 = "?s1\<lparr>args := a1, flags_s := f\<rparr>"
  obtain a2 where a2: "take_int (?s2, w) = Inr (Some (Some x), (?s2\<lparr>args := a2\<rparr>, w))" "line_ok (sarr ?s2) a2"
    "buf_bytes (sarr ?s2) a2 = l2" by (rule take_int_ok [of ?s2 x l2]) (use a1 l in simp_all)
  let ?s3 = "?s2\<lparr>args := a2, exptime_s := x\<rparr>"
  obtain a3 where a3: "take_int (?s3, w) = Inr (Some (Some n), (?s3\<lparr>args := a3\<rparr>, w))" "line_ok (sarr ?s3) a3"
    "buf_bytes (sarr ?s3) a3 = l3" by (rule take_int_ok [of ?s3 n l3]) (use a2 l in simp_all)
  show thesis by (rule that [of k a3]) (use k l a1 a2 a3 in \<open>simp_all add: parse_update_def\<close>)
qed

section \<open>Steps of the loop\<close>

lemma loop_running: "loop_step (vs i) sw = Inr (Running, sw') \<Longrightarrow> loop vs i sw = loop vs (Suc i) sw'"
  by (subst loop.simps) simp

lemma loop_stops: "loop_step (vs i) sw = Inr (fl, sw') \<Longrightarrow> fl \<noteq> Running \<Longrightarrow> loop vs i sw = Some (Inr (fl, Suc i, sw'))"
  by (subst loop.simps) simp

lemma loop_fails: "loop_step (vs i) sw = Inl e \<Longrightarrow> loop vs i sw = Some (Inl e)"
  by (subst loop.simps) simp

text \<open>A loop that keeps running in a set of states never returns.\<close>

lemma loop_diverges:
  assumes "\<And>i sw. P sw \<Longrightarrow> \<exists>sw'. loop_step (vs i) sw = Inr (Running, sw') \<and> P sw'" and "P sw"
  shows "loop vs i sw = None"
proof -
  have "vs = vs \<longrightarrow> \<not> P sw" if "loop vs i sw = Some r" for r
  proof (rule loop.raw_induct [where P = "\<lambda>vs' i sw r. vs' = vs \<longrightarrow> \<not> P sw", OF _ that], intro impI notI)
    fix f vs' i sw y
    assume f: "\<And>vs' i sw y. f vs' i sw = Some y \<Longrightarrow> vs' = vs \<longrightarrow> \<not> P sw" and v: "vs' = vs" and p: "P sw"
      and y: "(case loop_step (vs' i) sw of Inl e \<Rightarrow> Some (Inl e)
        | Inr (fl, sw) \<Rightarrow> if fl = Running then f vs' (Suc i) sw else Some (Inr (fl, Suc i, sw))) = Some y"
    obtain sw' where "loop_step (vs i) sw = Inr (Running, sw')" "P sw'" using assms(1) [OF p] by blast
    then show False using y v f [of vs "Suc i" sw' y] by simp
  qed
  then show ?thesis using assms(2) by (cases "loop vs i sw") auto
qed

lemma loop_step_handle:
  "state s \<noteq> session_stopping \<Longrightarrow> handle v (state s) (s, w) = Inr (b, sw') \<Longrightarrow>
   loop_step v (s, w) = Inr (if b = Some True then Blocked else Running, sw')"
  "state s \<noteq> session_stopping \<Longrightarrow> handle v (state s) (s, w) = Inl e \<Longrightarrow> loop_step v (s, w) = Inl e"
  by (simp_all add: loop_step_def)

text \<open>The reply of a command is written in one piece.\<close>

lemma loop_write_result:
  assumes "state s = session_write_result" "used (obuf s) \<noteq> 0"
  shows "loop vs i (s, w) = Some (Inr (Blocked, Suc i, (s\<lparr>state := session_write_prompt, io := WriteReq (out s)\<rparr>, w)))"
proof -
  have "handle (vs i) (state s) (s, w) = Inr (Some True, (s\<lparr>state := session_write_prompt, io := WriteReq (out s)\<rparr>, w))"
    using assms by (simp add: handle_def flush_def lift_s_def bf_empty_def out_def)
  from loop_step_handle(1) [OF _ this] assms(1) show ?thesis by (intro loop_stops) simp_all
qed

text \<open>A session that has read a command line, and one that is about to.\<close>

definition ready_cmd :: "session \<Rightarrow> bool" where
  "ready_cmd s \<longleftrightarrow>
     state s = session_execute_command \<and> flat (obuf s) \<and> used (obuf s) = 0 \<and> max_size (obuf s) = buffer_size \<and>
     \<not> noreply s \<and> line_ok (sarr s) (args s) \<and> tok_ok (sarr s) (cmd s) \<and> buffer_ok (ibuf s)"

definition idle :: "session \<Rightarrow> bytes \<Rightarrow> bytes \<Rightarrow> bool" where
  "idle s l rest \<longleftrightarrow>
     state s = session_read_command \<and> buffer_ok (ibuf s) \<and> max_size (ibuf s) = buffer_size \<and> max_size (obuf s) = buffer_size \<and>
     buffer_bytes (ibuf s) = l @ rest \<and> l \<noteq> [] \<and> last l = CHR 0x0A \<and> CHR 0x0A \<notin> set (butlast l)"

lemma cmd_ready_found:
  assumes "buffer_ok (ibuf s)" "buffer_bytes (ibuf s) = l @ rest" "l \<noteq> []" "last l = CHR 0x0A" "CHR 0x0A \<notin> set (butlast l)"
  obtains c a where
    "cmd_ready 0 s = Inr (True, s\<lparr>ibuf := (ibuf s)\<lparr>bf_head := bf_head (ibuf s) + length l\<rparr>, args := a, cmd := c\<rparr>)"
    "line_ok (sarr s) a" "tok_ok (sarr s) c" "buf_bytes (sarr s) c = token l" "buf_bytes (sarr s) a = after_token l"
    "buffer_ok ((ibuf s)\<lparr>bf_head := bf_head (ibuf s) + length l\<rparr>)"
    "buffer_bytes ((ibuf s)\<lparr>bf_head := bf_head (ibuf s) + length l\<rparr>) = rest" "b_tail a = bf_head (ibuf s) + length l"
proof -
  let ?i = "ibuf s" and ?arr = "sarr s"
  have ok: "bf_head ?i \<le> bf_tail ?i" "bf_tail ?i \<le> length ?arr" using assms(1) by (simp_all add: buffer_ok_def max_size_def sarr_def)
  have len: "length l + length rest = used ?i" using length_buffer_bytes [OF assms(1)] assms(2) by simp
  have d: "drop (bf_head ?i) ?arr = l @ rest @ drop (bf_tail ?i) ?arr"
  proof -
    have "drop (bf_head ?i) ?arr = take (used ?i) (drop (bf_head ?i) ?arr) @ drop (used ?i) (drop (bf_head ?i) ?arr)"
      by (rule append_take_drop_id [symmetric])
    moreover have "used ?i + bf_head ?i = bf_tail ?i" using ok by (simp add: used_def)
    ultimately show ?thesis using assms(2) by (simp add: buffer_bytes_def sarr_def)
  qed
  obtain l0 where l0: "l = l0 @ [CHR 0x0A]" using assms(3,4) by (metis append_butlast_last_id)
  have nl: "CHR 0x0A \<notin> set l0" using assms(5) l0 by simp
  have tw: "takeWhile (\<lambda>c. c \<noteq> CHR 0x0A) (drop (bf_head ?i) ?arr) = l0"
    unfolding d l0 using nl by (subst append.assoc) (subst takeWhile_append2, auto)
  have in_l: "CHR 0x0A \<in> set (take (used ?i) (drop (bf_head ?i) ?arr))" using assms(2) l0 by (simp add: buffer_bytes_def sarr_def)
  have fe: "find_end_of_command ?arr (bf_head ?i) (used ?i + 0) = Inr (Some (bf_head ?i + length l))"
    using find_end_of_command_ok [of "bf_head ?i" "used ?i" ?arr] ok in_l tw l0 by (simp add: used_def)
  have nw: "bf_notify_write ?i 0 = Inr ?i"
    using ok by (simp add: bf_notify_write_def available_def used_def max_size_def sarr_def require_def)
  let ?i' = "?i\<lparr>bf_head := bf_head ?i + length l\<rparr>"
  have sub: "bf_sub ?i (bf_head ?i + length l - bf_head ?i) = Inr (buf_mk (bf_head ?i) (length l), ?i')"
    using len by (simp add: bf_sub_def bf_notify_read_def require_def)
  let ?a0 = "buf_mk (bf_head ?i) (length l)"
  have a0: "buf_bytes ?arr ?a0 = l" using d by (simp add: buf_bytes_def buf_mk_def buf_size_def)
  have "?arr ! (bf_head ?i + length l - 1) = CHR 0x0A"
  proof -
    have "length l0 < length (drop (bf_head ?i) ?arr)" using d l0 by simp
    moreover have "drop (bf_head ?i) ?arr ! length l0 = CHR 0x0A" using d l0 by (simp add: nth_append)
    ultimately show ?thesis using l0 ok by simp
  qed
  then have lo: "line_ok ?arr ?a0" using len ok assms(3) by (auto simp: line_ok_def buf_mk_def used_def)
  obtain c a where t: "consume_token ?arr ?a0 = Inr (c, a)" "line_ok ?arr a" "b_tail a = b_tail ?a0"
    "b_head ?a0 \<le> b_head c" "b_tail c = b_head a" "b_head c \<le> b_tail c"
    "buf_bytes ?arr c = token (buf_bytes ?arr ?a0)" "buf_bytes ?arr a = after_token (buf_bytes ?arr ?a0)"
    by (rule consume_token_ok [OF lo])
  have tok: "tok_ok ?arr c" using t(2,5,6,7) by (auto simp: tok_ok_def line_ok_def token_def dest: set_takeWhileD)
  have cr: "cmd_ready 0 s = Inr (True, s\<lparr>ibuf := ?i', args := a, cmd := c\<rparr>)"
    using fe nw sub t(1) unfolding sarr_def by (simp add: cmd_ready_def)
  have b': "buffer_ok ?i'" using ok len by (simp add: buffer_ok_def used_def max_size_def sarr_def)
  have "drop (bf_head ?i + length l) ?arr = rest @ drop (bf_tail ?i) ?arr"
    using d by (metis add.commute append_eq_conv_conj drop_drop)
  moreover have "used ?i' = length rest" using len ok by (simp add: used_def)
  ultimately have "buffer_bytes ?i' = rest" by (simp add: buffer_bytes_def sarr_def)
  then show thesis using that cr t tok a0 b' by (simp add: buf_mk_def)
qed

lemma read_command_ok:
  assumes "idle s l rest"
  obtains s' where "loop_step v (s, w) = Inr (Running, (s', w))" "ready_cmd s'" "line s' = after_token l"
    "buf_bytes (sarr s') (cmd s') = token l" "buffer_bytes (ibuf s') = rest" "max_size (ibuf s') = max_size (ibuf s)"
    "s_prompt s' = s_prompt s" "sarr s' = sarr s" "b_tail (args s') = bf_head (ibuf s) + length l"
proof -
  let ?s = "s\<lparr>obuf := bf_reset (obuf s), noreply := False, state := session_execute_command\<rparr>"
  have i: "buffer_ok (ibuf ?s)" "buffer_bytes (ibuf ?s) = l @ rest" "l \<noteq> []" "last l = CHR 0x0A" "CHR 0x0A \<notin> set (butlast l)"
    using assms by (simp_all add: idle_def)
  obtain c a where c: "cmd_ready 0 ?s = Inr (True, ?s\<lparr>ibuf := (ibuf ?s)\<lparr>bf_head := bf_head (ibuf ?s) + length l\<rparr>, args := a, cmd := c\<rparr>)"
    "line_ok (sarr ?s) a" "tok_ok (sarr ?s) c" "buf_bytes (sarr ?s) c = token l" "buf_bytes (sarr ?s) a = after_token l"
    "buffer_ok ((ibuf ?s)\<lparr>bf_head := bf_head (ibuf ?s) + length l\<rparr>)"
    "buffer_bytes ((ibuf ?s)\<lparr>bf_head := bf_head (ibuf ?s) + length l\<rparr>) = rest" "b_tail a = bf_head (ibuf ?s) + length l"
    by (rule cmd_ready_found [OF i])
  let ?s' = "?s\<lparr>ibuf := (ibuf ?s)\<lparr>bf_head := bf_head (ibuf ?s) + length l\<rparr>, args := a, cmd := c\<rparr>"
  have st: "state s = session_read_command" and os: "max_size (obuf s) = buffer_size" using assms by (simp_all add: idle_def)
  have "handle v (state s) (s, w) = Inr (Some False, (?s', w))"
    using c(1) by (simp add: handle_def st recv_command_def lift_s_def)
  from loop_step_handle(1) [OF _ this] st have step: "loop_step v (s, w) = Inr (Running, (?s', w))" by simp
  have "ready_cmd ?s'" using c os flat_reset [of "obuf s"] by (simp add: ready_cmd_def sarr_def)
  then show thesis using that [OF step] c by (simp add: line_def sarr_def max_size_def)
qed

text \<open>A command runs to its reply.\<close>

lemma dispatch_ok:
  assumes "tok_ok (sarr s) (cmd s)" "buf_bytes (sarr s) (cmd s) = name" "name \<noteq> []"
  shows "dispatch v (s, w) =
    (case map_of [(''get'', get v False), (''gets'', get v True),
        (''set'', update v), (''add'', update v), (''replace'', update v), (''append'', update v), (''prepend'', update v),
        (''incr'', incr_decr v True), (''decr'', incr_decr v False),
        (''delete'', del v), (''cas'', cas v), (''touch'', touch v), (''flush_all'', flush_all v),
        (''version'', version v), (''stats'', stats v),
        (''quit'', andthen (set_state session_stopping) (\<lambda>_. ret False))] name of
       None \<Rightarrow> client_error (''unknown command: '' @ [CHR 0x27] @ name @ [CHR 0x27]) (s, w)
     | Some m \<Rightarrow> m (s, w))"
proof -
  have ne: "\<not> buf_empty (cmd s)" using tok_ok_empty [OF assms(1)] assms(2,3) by simp
  have pr: "print_buf (bf_b (ibuf s)) (cmd s) = name" using print_tok [OF assms(1)] assms(2) by (simp add: sarr_def)
  show ?thesis
    unfolding dispatch_def using ne assms pr
    by (simp add: switch_ok [OF assms(1)] NUL_def del: map_of.simps switch.simps split: option.split)
qed

lemma step_dispatch:
  "state s = session_execute_command \<Longrightarrow> dispatch v (s, w) = Inr (b, sw') \<Longrightarrow>
   loop_step v (s, w) = Inr (if b = Some True then Blocked else Running, sw')"
  "state s = session_execute_command \<Longrightarrow> dispatch v (s, w) = Inl e \<Longrightarrow> loop_step v (s, w) = Inl e"
  by (simp_all add: loop_step_def handle_def)

end
