(* ===== verification/Protocol.thy ===== *)
theory Protocol
  imports Session_Lemmas Cache_Refine
begin

text \<open>
  The text protocol end to end: a session with a complete command in its input buffer, on a cache
  that represents a map from keys to items, runs the command on that map and writes the reply the
  protocol promises.
\<close>

section \<open>A session and a cache to run on\<close>

text \<open>A session with a command and perhaps more in its input buffer, and a cache with one item.\<close>

definition demo_sess :: "bytes \<Rightarrow> session" where
  "demo_sess bs = (text_session_new [] (replicate 4096 NUL) False None)
     \<lparr>ibuf := \<lparr>bf_b = bs @ replicate (4096 - length bs) NUL, bf_head = 0, bf_tail = length bs\<rparr>,
      state := session_read_command\<rparr>"

lemma demo_idle:
  "length (l @ rest) \<le> 4096 \<Longrightarrow> l \<noteq> [] \<Longrightarrow> last l = CHR 0x0A \<Longrightarrow> CHR 0x0A \<notin> set (butlast l) \<Longrightarrow>
   idle (demo_sess (l @ rest)) l rest"
  by (simp add: idle_def demo_sess_def text_session_new_def buffer_ok_def max_size_def buffer_size_def buffer_bytes_def
      used_def buffer_new_def)

definition demo_world :: world where
  "demo_world = (case run_res cexec (cache_new 1000 0x1000 2) demo_cops of Inl e \<Rightarrow> cache_new 0 0 0 | Inr (rs, w) \<Rightarrow> w)"

definition demo_map :: "bytes \<Rightarrow> item option" where
  "demo_map = [''k'' \<mapsto> \<lparr>i_flags = 7, i_exptime = 0, i_chunks = [''42'']\<rparr>]"

lemma demo_replies:
  "(case run_res cexec (cache_new 1000 0x1000 2) demo_cops of Inl e \<Rightarrow> None | Inr (rs, w) \<Rightarrow> Some (take 3 rs))
   = Some [RDone, RDone, RCode stored]"
  by code_simp

lemma demo_world_crel: "crel demo_world demo_map"
proof -
  have "crel (cache_new 1000 0x1000 2) (\<lambda>_. None)" by (rule new_cache_crel) simp_all
  from cache.run_refines [OF this demo_cops_legal]
  obtain rs w' m' where r: "run_res cexec (cache_new 1000 0x1000 2) demo_cops = Inr (rs, w')"
    "spec_run aspec (\<lambda>_. None) demo_cops rs m'" "crel w' m'" by blast
  have t: "take 3 rs = [RDone, RDone, RCode stored]" using demo_replies r(1) by simp
  obtain r1 r2 r3 r4 where rs: "rs = [r1, r2, r3, r4]" using r(2) by (auto simp: demo_cops_def simp del: aspec.simps)
  have "m' = demo_map" using r(2) t unfolding rs demo_cops_def demo_map_def by auto
  then show ?thesis using r(1,3) by (simp add: demo_world_def)
qed

definition demo_vs :: "nat \<Rightarrow> senv" where
  "demo_vs i = \<lparr>v_cpu = 0, v_now = 200, v_key = 0x5000, v_entry = 0x6000, v_chunk = 0x7000, v_raw = [NUL],
     v_updates = 1, v_version = ''1.0''\<rparr>"

lemma demo_world_facts:
  "cpu_count (wgc demo_world) = 1" "gheap (wgc demo_world) 0x5000 = None" "gheap (wgc demo_world) 0x6000 = None"
  "wmem demo_world 0x7000 = None"
  by code_simp+

section \<open>Replies\<close>

fun reply_text :: "cache_error_t \<Rightarrow> bytes" where
  "reply_text stored = ''STORED'' @ CRLF"
| "reply_text deleted = ''DELETED'' @ CRLF"
| "reply_text notfound = ''NOT_FOUND'' @ CRLF"
| "reply_text set_error = ''NOT_STORED'' @ CRLF"
| "reply_text cas_exists = ''EXISTS'' @ CRLF"

lemma length_reply: "length (reply_text c) \<le> 12" "reply_text c \<noteq> []"
  by (cases c; simp add: CRLF_def)+

lemma length_print_u32: "length (print_u32 a) \<le> 10"
proof -
  have "unat a < 10 ^ 10" using unsigned_less [of a, where 'a = nat] by simp
  then show ?thesis unfolding print_u32_def by (intro dec_digits_length) simp_all
qed

lemma length_print_u64: "length (print_u64 a) \<le> 20"
proof -
  have "unat a < 10 ^ 20" using unsigned_less [of a, where 'a = nat] by simp
  then show ?thesis unfolding print_u64_def by (intro dec_digits_length) simp_all
qed

lemma send_result_ok:
  assumes "flat (obuf s)" "fits s (reply_text c)"
  shows "send_cache_result c (s, w) = Inr (Some (), ((emit s (reply_text c))\<lparr>state := session_write_result\<rparr>, w))"
proof -
  define msg where "msg = (case c of stored \<Rightarrow> ''STORED'' | deleted \<Rightarrow> ''DELETED'' | notfound \<Rightarrow> ''NOT_FOUND''
            | set_error \<Rightarrow> ''NOT_STORED'' | cas_exists \<Rightarrow> ''EXISTS'')"
  have "reply_text c = msg @ CRLF" by (cases c) (simp_all add: msg_def)
  then show ?thesis using send_cache_result_ok [OF assms(1) _ msg_def] assms(2) by simp
qed

text \<open>
  What a step that ends a command leaves: the reply is in the output buffer, and the next step
  writes it.
\<close>

lemma reply_written:
  assumes "flat (obuf s)" "used (obuf s) = 0" "\<not> noreply s" "fits s txt" "txt \<noteq> []"
    and s': "s' = (emit s txt)\<lparr>state := session_write_result\<rparr>"
  shows "loop vs i (s', w) = Some (Inr (Blocked, Suc i, (s'\<lparr>state := session_write_prompt, io := WriteReq txt\<rparr>, w)))"
proof -
  have "out s = []" using assms(1,2) length_buffer_bytes [of "obuf s"] flatD [OF assms(1)] by (simp add: out_def)
  then have o: "out s' = txt" using emit_flat(4) [OF assms(1,4)] assms(3) s' by (simp add: out_def)
  have "used (obuf s') \<noteq> 0" using emit_flat(3) [OF assms(1,4)] assms(3,5) s' by simp
  then show ?thesis using loop_write_result [of s' vs i w] s' o by simp
qed

lemma ready_fits: "ready_cmd s \<Longrightarrow> length txt \<le> 4096 \<Longrightarrow> fits s txt"
  by (simp add: ready_cmd_def fits_def buffer_size_def)

lemma command_reply:
  assumes "loop_step (vs i) (s, w) = Inr (Running, (s1, w))" "ready_cmd s1"
    and d: "dispatch (vs (Suc i)) (s1, w) = Inr (b, (s4, w'))" "b \<noteq> Some True"
    and s4: "s4 = (emit s3 txt)\<lparr>state := session_write_result\<rparr>" "obuf s3 = obuf s1" "noreply s3 = noreply s1"
    and "txt \<noteq> []" "length txt \<le> 4096"
  shows "loop vs i (s, w) = Some (Inr (Blocked, i + 3, (s4\<lparr>state := session_write_prompt, io := WriteReq txt\<rparr>, w')))"
proof -
  have r: "flat (obuf s3)" "used (obuf s3) = 0" "\<not> noreply s3" "state s1 = session_execute_command"
    using assms(2) s4(2,3) by (simp_all add: ready_cmd_def)
  have f: "fits s3 txt" using ready_fits [OF assms(2,9)] s4(2,3) by (simp add: fits_def)
  have step: "loop_step (vs (Suc i)) (s1, w) = Inr (Running, (s4, w'))"
    using step_dispatch(1) [OF r(4) d(1)] d(2) by simp
  show ?thesis
    using loop_running [of vs i, OF assms(1)] loop_running [of vs "Suc i", OF step]
      reply_written [OF r(1-3) f assms(8) s4(1), of vs "Suc (Suc i)" w'] by (simp add: numeral_3_eq_3)
qed

section \<open>Deleting\<close>

text \<open>
  C25: A \<open>delete\<close> command: the session removes the key from the cache, and from nothing else, and
  writes \<open>DELETED\<close> or \<open>NOT_FOUND\<close> as the key was there or not; what follows the command in the
  input is left for the next one.
\<close>

theorem session_delete:
  assumes "idle s l rest" and "token l = ''delete''" and "token (after_token l) = k" and "k \<noteq> []"
    and "token (after_token (after_token l)) = []"
    and "crel w m" and "\<forall>j. v_cpu (vs j) < MAX_CPUS"
  shows "\<exists>s' w'. loop vs i (s, w) = Some (Inr (Blocked, i + 3, (s', w'))) \<and>
    io s' = WriteReq (reply_text (if m k = None then notfound else deleted)) \<and>
    crel w' (m(k := None)) \<and> buffer_bytes (ibuf s') = rest \<and> state s' = session_write_prompt"
proof -
  obtain s1 where s1: "loop_step (vs i) (s, w) = Inr (Running, (s1, w))" "ready_cmd s1" "line s1 = after_token l"
    "buf_bytes (sarr s1) (cmd s1) = token l" "buffer_bytes (ibuf s1) = rest"
    by (rule read_command_ok [OF assms(1)])
  have r: "line_ok (sarr s1) (args s1)" "tok_ok (sarr s1) (cmd s1)" "flat (obuf s1)" "used (obuf s1) = 0" "\<not> noreply s1"
    "state s1 = session_execute_command" using s1(2) by (simp_all add: ready_cmd_def)
  obtain kb a where k: "parse_key (s1, w) = Inr (Some (), (s1\<lparr>args := a, key_s := kb\<rparr>, w))" "line_ok (sarr s1) a"
    "tok_ok (sarr s1) kb" "buf_bytes (sarr s1) kb = token (line s1)" "buf_bytes (sarr s1) a = after_token (line s1)"
    by (rule parse_key_ok [OF r(1), of w]) (use assms(3,4) s1(3) in simp_all)
  let ?s2 = "s1\<lparr>args := a, key_s := kb\<rparr>"
  obtain a2 where a2: "parse_noreply (?s2, w) = Inr (Some (), (?s2\<lparr>args := a2\<rparr>, w))"
    by (rule parse_noreply_none [of ?s2 w]) (use k assms(5) s1(3) in simp_all)
  let ?s3 = "?s2\<lparr>args := a2\<rparr>"
  have kb: "key_bytes ?s3 = k" using k(4) s1(3) assms(3) by (simp add: key_bytes_def sarr_def)
  let ?v = "env.truncate (vs (Suc i))"
  have "refines w m (ODel ?v k)"
    by (rule cexec_refines [OF assms(6)]) (use assms(7) in \<open>simp add: env.truncate_def\<close>)
  then obtain c w' m' where d: "cache_del ?v w k = Inr (c, w')" "aspec m (ODel ?v k) (RCode c) m'" "crel w' m'"
    by (auto simp: refines_def code_def res_simps split: prod.splits)
  have c: "c = (if m k = None then notfound else deleted)" "m' = m(k := None)"
    using d(2) by (auto split: option.splits)
  have f: "fits ?s3 (reply_text c)"
    using ready_fits [OF s1(2)] length_reply(1) [of c] by (auto simp: fits_def)
  let ?s4 = "(emit ?s3 (reply_text c))\<lparr>state := session_write_result\<rparr>"
  have "del (vs (Suc i)) (s1, w) = Inr (Some False, (?s4, w'))"
    using k(1) a2 kb d(1) send_result_ok [of ?s3 c w'] f r(3) by (simp add: del_def)
  then have "dispatch (vs (Suc i)) (s1, w) = Inr (Some False, (?s4, w'))"
    using dispatch_ok [OF r(2) s1(4)] assms(2) by simp
  from command_reply [OF s1(1,2) this _ refl] length_reply [of c]
  have "loop vs i (s, w) = Some (Inr (Blocked, i + 3, (?s4\<lparr>state := session_write_prompt, io := WriteReq (reply_text c)\<rparr>, w')))"
    by simp
  then show ?thesis using c d(3) s1(5) by auto
qed

theorem session_delete_witness:
  "\<exists>s' w'. loop demo_vs 0 (demo_sess (''delete k'' @ CRLF), demo_world) = Some (Inr (Blocked, 3, (s', w'))) \<and>
     io s' = WriteReq (''DELETED'' @ CRLF) \<and> crel w' (\<lambda>_. None)"
proof -
  have i: "idle (demo_sess ((''delete k'' @ CRLF) @ [])) (''delete k'' @ CRLF) []"
    by (rule demo_idle) (simp_all add: CRLF_def)
  have t: "token (''delete k'' @ CRLF) = ''delete''" "token (after_token (''delete k'' @ CRLF)) = ''k''"
    "token (after_token (after_token (''delete k'' @ CRLF))) = []"
    by (simp_all add: token_def after_token_def blank_def stop_def NUL_def CRLF_def)
  have r: "\<forall>j. v_cpu (demo_vs j) < MAX_CPUS" by (simp add: demo_vs_def MAX_CPUS_def)
  have "demo_map(''k'' := None) = (\<lambda>_. None)" "demo_map ''k'' \<noteq> None" by (auto simp: demo_map_def)
  with session_delete [OF i t(1,2) _ t(3) demo_world_crel r, of 0] show ?thesis by auto
qed

end
