(* ===== verification/Storing.thy ===== *)
theory Storing
  imports Protocol
begin

text \<open>
  The storing commands. The data of a command is copied to a new chunk, and the operation runs on
  the cache once all of it has arrived. When it has not arrived with the command, the code reads
  the rest over the part it has.
\<close>

section \<open>Receiving the data\<close>


lemma seg_unique:
  "seg h (x # xs) \<Longrightarrow> ends h (x # xs) \<Longrightarrow> seg h (x # ys) \<Longrightarrow> ends h (x # ys) \<Longrightarrow> xs = ys"
proof (induction xs arbitrary: x ys)
  case Nil
  then have "ys = [] \<or> hd ys = 0" by (cases ys) (auto simp: ends_def)
  then show ?case using Nil by (cases ys) auto
next
  case (Cons y xs)
  then obtain m where m: "h x = Some m" "m_next m = y" "y \<noteq> 0" by auto
  then obtain z zs where ys: "ys = z # zs" using Cons.prems by (cases ys) (auto simp: ends_def)
  then have "z = y" using Cons.prems(3) m by auto
  then show ?case using Cons.IH [of y zs] Cons.prems ys by (auto simp: ends_def)
qed

lemma entry_ok_unique: "entry_ok h e xs \<Longrightarrow> entry_ok h e ys \<Longrightarrow> xs = ys"
  using seg_unique [of h "hd xs" "tl xs" "tl ys"]
  by (cases xs; cases ys) (auto simp: entry_ok_def chain_def simp del: seg.simps)

lemma received_fresh:
  assumes "crel w m" "a \<noteq> 0" "a \<notin> dom (wmem w)" "length bs < 2 ^ 31"
  shows "rope_fresh (w\<lparr>wmem := mem_alloc a bs (of_nat (length bs)) (wmem w)\<rparr>) \<lparr>r_head = a, r_tail = a\<rparr> [bs]"
proof -
  let ?h = "mem_alloc a bs (of_nat (length bs)) (wmem w)"
  obtain own t where i: "tinv t (wmem w) (went w) (wnewer w) (wgc w) own" by (rule crelE [OF assms(1)])
  define mm where "mm = \<lparr>m_magic = MEM_MAGIC, m_next = 0, m_size = ucast (of_nat (length bs) :: u64), m_data = bs\<rparr>"
  have h: "?h = (wmem w)(a \<mapsto> mm)" by (simp add: mem_alloc_def mm_def)
  have sz: "sint (m_size mm) = int (length bs)"
  proof -
    have "m_size mm = (of_nat (length bs) :: 32 word)"
      using assms(4) by (simp add: mm_def unsigned_of_nat take_bit_nat_eq_self)
    moreover have "sint (of_nat (length bs) :: 32 word) = int (length bs)"
      using assms(4) by (simp add: signed_of_nat signed_take_bit_int_eq_self)
    ultimately show ?thesis by simp
  qed
  have ck: "chunk_ok mm" "chunk mm = bs" using sz by (simp_all add: chunk_ok_def chunk_def mm_def)
  have r: "rope_ok ?h \<lparr>r_head = a, r_tail = a\<rparr> [a]" "chunks ?h [a] = [bs]"
    using ck assms(2) by (simp_all add: h rope_ok_def chain_def ends_def chunks_def mm_def)
  have "a \<notin> set xs" if e: "went w b = Some e" "entry_ok ?h e xs" for b e xs
  proof -
    have o: "entry_ok (wmem w) e (own b)" using tinvD(2) [OF i e(1)] by (simp add: entry_inv_def)
    then have ch: "chain (wmem w) (e_head e) (e_tail e) (own b)" by (simp add: entry_ok_def)
    have n: "a \<notin> set (own b)" using chain_addrs [OF ch] assms(3) by auto
    have "last (own b) \<noteq> a" using n ch chain_addrs [OF ch] by (auto simp: chain_def)
    then have "entry_ok ?h e (own b)" using o n unfolding h by (auto simp: entry_ok_def)
    then show ?thesis using entry_ok_unique [OF e(2)] n by simp
  qed
  then show ?thesis unfolding rope_fresh_def using r by (intro exI [of _ "[a]"]) auto
qed

definition storing :: "bytes set" where
  "storing = {''set'', ''add'', ''replace'', ''append'', ''prepend'', ''cas''}"

definition update_op :: "bytes \<Rightarrow> env \<Rightarrow> bytes \<Rightarrow> u32 \<Rightarrow> u32 \<Rightarrow> u64 \<Rightarrow> rope \<Rightarrow> bytes list \<Rightarrow> cop" where
  "update_op name v k f x u r cs =
     (if name = ''set'' then OSet v k f x r cs
      else if name = ''add'' then OAdd v k f x r cs
      else if name = ''replace'' then OReplace v k f x r cs
      else if name = ''append'' then OAppend v k r cs
      else if name = ''prepend'' then OPrepend v k r cs
      else OCas v k f x u r cs)"

text \<open>What a step finds free: the addresses of a new key and a new entry, and of a new chunk.\<close>

definition object_env :: "world \<Rightarrow> senv \<Rightarrow> bool" where
  "object_env w v \<longleftrightarrow> fresh_object w (v_key v) \<and> fresh_object w (v_entry v) \<and> v_key v \<noteq> v_entry v \<and> v_cpu v < MAX_CPUS"

definition chunk_env :: "world \<Rightarrow> senv \<Rightarrow> nat \<Rightarrow> bool" where
  "chunk_env w v n \<longleftrightarrow> v_chunk v \<noteq> 0 \<and> v_chunk v \<notin> dom (wmem w) \<and> length (v_raw v) = n"

lemma update_op_legal:
  "object_env w v \<Longrightarrow> rope_fresh w r cs \<Longrightarrow> clegal w (update_op name (env.truncate v) k f x u r cs)"
  by (simp add: update_op_def object_env_def env.truncate_def)

lemma code_refines:
  assumes "refines w m op" "cexec w op = code r"
  obtains c w' m' where "r = Inr (c, w')" "aspec m op (RCode c) m'" "crel w' m'"
  using assms by (auto simp: refines_def code_def res_simps split: prod.splits)

lemma dispatch_write_ok:
  assumes "tok_ok (sarr s) (cmd s)" "buf_bytes (sarr s) (cmd s) = name"
    and "name \<in> storing"
    and "crel w m" "object_env w v" "rope_fresh w \<lparr>r_head = idata s, r_tail = idata s\<rparr> cs"
    and "flat (obuf s)" "fits s (replicate 12 NUL)"
    and op: "op = update_op name (env.truncate v) (key_bytes s) (ucast (flags_s s)) (ucast (exptime_s s)) (unique_s s)
        \<lparr>r_head = idata s, r_tail = idata s\<rparr> cs"
  obtains c w' m' where "dispatch_write v (s, w) = Inr (Some False, ((emit s (reply_text c))\<lparr>state := session_write_result\<rparr>, w'))"
    "aspec m op (RCode c) m'" "crel w' m'"
proof -
  let ?r = "\<lparr>r_head = idata s, r_tail = idata s\<rparr>" and ?v = "env.truncate v"
  have ref: "refines w m op" unfolding op by (rule cexec_refines [OF assms(4) update_op_legal [OF assms(5,6)]])
  define cases where "cases =
       [(''set'', lift_w (\<lambda>s w. cache_set ?v w (key_bytes s) (ucast (flags_s s)) (ucast (exptime_s s)) ?r)),
        (''add'', lift_w (\<lambda>s w. cache_add ?v w (key_bytes s) (ucast (flags_s s)) (ucast (exptime_s s)) ?r)),
        (''replace'', lift_w (\<lambda>s w. cache_replace ?v w (key_bytes s) (ucast (flags_s s)) (ucast (exptime_s s)) ?r)),
        (''append'', lift_w (\<lambda>s w. cache_append ?v w (key_bytes s) ?r)),
        (''prepend'', lift_w (\<lambda>s w. cache_prepend ?v w (key_bytes s) ?r)),
        (''cas'', lift_w (\<lambda>s w. cache_cas ?v w (key_bytes s) (ucast (flags_s s)) (ucast (exptime_s s)) (unique_s s) ?r))]"
  define body where "body = (\<lambda>s w.
      if name = ''set'' then cache_set ?v w (key_bytes s) (ucast (flags_s s)) (ucast (exptime_s s)) ?r
      else if name = ''add'' then cache_add ?v w (key_bytes s) (ucast (flags_s s)) (ucast (exptime_s s)) ?r
      else if name = ''replace'' then cache_replace ?v w (key_bytes s) (ucast (flags_s s)) (ucast (exptime_s s)) ?r
      else if name = ''append'' then cache_append ?v w (key_bytes s) ?r
      else if name = ''prepend'' then cache_prepend ?v w (key_bytes s) ?r
      else cache_cas ?v w (key_bytes s) (ucast (flags_s s)) (ucast (exptime_s s)) (unique_s s) ?r)"
  have "map_of cases name = Some (lift_w body) \<and> cexec w op = code (body s w)"
    using assms(3) unfolding storing_def by (elim insertE emptyE) (simp_all add: cases_def body_def op update_op_def)
  then have mo: "map_of cases name = Some (lift_w body)" and x: "cexec w op = code (body s w)" by blast+
  obtain c w' m' where c: "body s w = Inr (c, w')" "aspec m op (RCode c) m'" "crel w' m'" by (rule code_refines [OF ref x])
  have sw: "switch (cmd s) cases other (s, w) = Inr (Some c, (s, w'))" for other
    using switch_ok [OF assms(1), of cases other w] mo c(1) assms(2)
    by (auto simp: cases_def NUL_def simp del: map_of.simps switch.simps)
  have "fits s (reply_text c)" using assms(8) length_reply(1) [of c] by (auto simp: fits_def)
  then have "dispatch_write v (s, w) = Inr (Some False, ((emit s (reply_text c))\<lparr>state := session_write_result\<rparr>, w'))"
    using sw send_result_ok [OF assms(7)] unfolding cases_def by (simp add: dispatch_write_def del: switch.simps)
  then show thesis using that c by blast
qed


section \<open>Parsing a storing command\<close>

text \<open>The key, the flags, the expiry time, the number of bytes and, for \<open>cas\<close>, the version.\<close>

definition store_args :: "bytes \<Rightarrow> bytes \<Rightarrow> (bytes \<times> u64 \<times> u64 \<times> u64 \<times> u64) option" where
  "store_args name l =
     Option.bind (update_args l) (\<lambda>(k, f, x, n, l3).
     if name = ''cas'' then Option.bind (int_arg l3) (\<lambda>(u, l4). if token l4 = [] then Some (k, f, x, n, u) else None)
     else if token l3 = [] then Some (k, f, x, n, 0) else None)"

lemma update_parsed:
  assumes "line_ok (sarr s) (args s)" "update_args (line s) = Some (k, f, x, n, l3)" "token l3 = []"
  obtains kb a where "update v (s, w) = recv_data v n (s\<lparr>args := a, key_s := kb, flags_s := f, exptime_s := x\<rparr>, w)"
    "buf_bytes (sarr s) kb = k"
proof -
  obtain kb a where k: "parse_update (s, w) = Inr (Some n, (s\<lparr>args := a, key_s := kb, flags_s := f, exptime_s := x\<rparr>, w))"
    "line_ok (sarr s) a" "tok_ok (sarr s) kb" "buf_bytes (sarr s) kb = k" "buf_bytes (sarr s) a = l3"
    by (rule parse_update_ok [OF assms(1,2)])
  let ?s = "s\<lparr>args := a, key_s := kb, flags_s := f, exptime_s := x\<rparr>"
  obtain a2 where "parse_noreply (?s, w) = Inr (Some (), (?s\<lparr>args := a2\<rparr>, w))"
    by (rule parse_noreply_none [of ?s w]) (use k assms(3) in simp_all)
  then have "update v (s, w) = recv_data v n (?s\<lparr>args := a2\<rparr>, w)" using k(1) by (simp add: update_def)
  moreover have "?s\<lparr>args := a2\<rparr> = s\<lparr>args := a2, key_s := kb, flags_s := f, exptime_s := x\<rparr>" by simp
  ultimately show thesis using that k(4) by metis
qed

lemma cas_parsed:
  assumes "line_ok (sarr s) (args s)" "update_args (line s) = Some (k, f, x, n, l3)" "int_arg l3 = Some (u, l4)" "token l4 = []"
  obtains kb a where "cas v (s, w) = recv_data v n (s\<lparr>args := a, key_s := kb, flags_s := f, exptime_s := x, unique_s := u\<rparr>, w)"
    "buf_bytes (sarr s) kb = k"
proof -
  obtain kb a where k: "parse_update (s, w) = Inr (Some n, (s\<lparr>args := a, key_s := kb, flags_s := f, exptime_s := x\<rparr>, w))"
    "line_ok (sarr s) a" "tok_ok (sarr s) kb" "buf_bytes (sarr s) kb = k" "buf_bytes (sarr s) a = l3"
    by (rule parse_update_ok [OF assms(1,2)])
  let ?s = "s\<lparr>args := a, key_s := kb, flags_s := f, exptime_s := x\<rparr>"
  obtain a1 where a1: "take_int (?s, w) = Inr (Some (Some u), (?s\<lparr>args := a1\<rparr>, w))" "line_ok (sarr ?s) a1" "buf_bytes (sarr ?s) a1 = l4"
    by (rule take_int_ok [of ?s u l4]) (use k assms(3) in simp_all)
  let ?s1 = "?s\<lparr>args := a1, unique_s := u\<rparr>"
  obtain a2 where "parse_noreply (?s1, w) = Inr (Some (), (?s1\<lparr>args := a2\<rparr>, w))"
    by (rule parse_noreply_none [of ?s1 w]) (use a1 assms(4) in simp_all)
  then have "cas v (s, w) = recv_data v n (?s1\<lparr>args := a2\<rparr>, w)" using k(1) a1(1) by (simp add: cas_def take_u64_int)
  moreover have "?s1\<lparr>args := a2\<rparr> = s\<lparr>args := a2, key_s := kb, flags_s := f, exptime_s := x, unique_s := u\<rparr>" by simp
  ultimately show thesis using that k(4) by metis
qed

lemma store_parsed:
  assumes "ready_cmd s" "buf_bytes (sarr s) (cmd s) = name" "name \<in> storing" "store_args name (line s) = Some (k, f, x, n, u)"
  obtains kb a u' where
    "dispatch v (s, w) = recv_data v n (s\<lparr>args := a, key_s := kb, flags_s := f, exptime_s := x, unique_s := u'\<rparr>, w)"
    "buf_bytes (sarr s) kb = k" "name = ''cas'' \<Longrightarrow> u' = u"
proof -
  have r: "line_ok (sarr s) (args s)" "tok_ok (sarr s) (cmd s)" using assms(1) by (simp_all add: ready_cmd_def)
  note d = dispatch_ok [OF r(2) assms(2), of v w]
  show thesis
  proof (cases "name = ''cas''")
    case True
    then obtain l3 l4 where "update_args (line s) = Some (k, f, x, n, l3)" "int_arg l3 = Some (u, l4)" "token l4 = []"
      using assms(4) by (auto simp: store_args_def bind_eq_Some_conv split: if_splits)
    then obtain kb a where "cas v (s, w) = recv_data v n (s\<lparr>args := a, key_s := kb, flags_s := f, exptime_s := x, unique_s := u\<rparr>, w)"
      "buf_bytes (sarr s) kb = k" by (rule cas_parsed [OF r(1)])
    then show thesis using that [where a = a and kb = kb and u' = u] d True by simp
  next
    case False
    then obtain l3 where "update_args (line s) = Some (k, f, x, n, l3)" "token l3 = []"
      using assms(4) by (auto simp: store_args_def bind_eq_Some_conv split: if_splits)
    then obtain kb a where "update v (s, w) = recv_data v n (s\<lparr>args := a, key_s := kb, flags_s := f, exptime_s := x\<rparr>, w)"
      "buf_bytes (sarr s) kb = k" by (rule update_parsed [OF r(1)])
    moreover have "dispatch v (s, w) = update v (s, w)" using d assms(3) False by (auto simp: storing_def)
    ultimately show thesis using that [where a = a and kb = kb and u' = "unique_s s"] False by simp
  qed
qed

text \<open>The second half of a storing command, once its data is in a chunk.\<close>

lemma write_step:
  assumes "state s = session_execute_write" "flat (obuf s)" "used (obuf s) = 0" "max_size (obuf s) = buffer_size" "\<not> noreply s"
    and "tok_ok (sarr s) (cmd s)" "buf_bytes (sarr s) (cmd s) = name"
    and "name \<in> storing"
    and "crel w m" "object_env w (vs i)" "rope_fresh w \<lparr>r_head = idata s, r_tail = idata s\<rparr> cs"
  shows "\<exists>c s' w' m'. loop vs i (s, w) = Some (Inr (Blocked, i + 2, (s', w'))) \<and> io s' = WriteReq (reply_text c) \<and>
    aspec m (update_op name (env.truncate (vs i)) (key_bytes s) (ucast (flags_s s)) (ucast (exptime_s s)) (unique_s s)
        \<lparr>r_head = idata s, r_tail = idata s\<rparr> cs) (RCode c) m' \<and>
    crel w' m' \<and> ibuf s' = ibuf s \<and> state s' = session_write_prompt"
proof -
  have f: "fits s tx" if "length tx \<le> 12" for tx using assms(3,4) that by (simp add: fits_def buffer_size_def)
  obtain c w' m' where d: "dispatch_write (vs i) (s, w) = Inr (Some False, ((emit s (reply_text c))\<lparr>state := session_write_result\<rparr>, w'))"
    "aspec m (update_op name (env.truncate (vs i)) (key_bytes s) (ucast (flags_s s)) (ucast (exptime_s s)) (unique_s s)
        \<lparr>r_head = idata s, r_tail = idata s\<rparr> cs) (RCode c) m'" "crel w' m'"
    by (rule dispatch_write_ok [OF assms(6,7,8,9,10,11,2) f refl]) simp
  let ?s = "(emit s (reply_text c))\<lparr>state := session_write_result\<rparr>"
  have "loop_step (vs i) (s, w) = Inr (Running, (?s, w'))"
    using assms(1) d(1) by (simp add: loop_step_def handle_def)
  then have "loop vs i (s, w) = Some (Inr (Blocked, i + 2, (?s\<lparr>state := session_write_prompt, io := WriteReq (reply_text c)\<rparr>, w')))"
    using loop_running [of vs i] reply_written [OF assms(2,3,5) f length_reply(2) refl, of c vs "Suc i" w'] length_reply(1) [of c]
    by simp
  then show ?thesis using d by (intro exI [of _ c]) auto
qed

text \<open>From the chunk with the data to the reply, in the state \<open>recv_data\<close> leaves.\<close>

lemma stored_reply:
  assumes s1: "ready_cmd s1" "buf_bytes (sarr s1) (cmd s1) = name" "buffer_bytes (ibuf s1) = rest"
    and name: "name \<in> storing"
    and k: "buf_bytes (sarr s1) kb = k" and n: "unat n = length bs" "length bs < 2 ^ 31"
    and w: "crel w m" "c \<noteq> 0" "c \<notin> dom (wmem w)" "object_env w (vs i)"
    and s2: "s2 = s1\<lparr>args := a, key_s := kb, flags_s := f, exptime_s := x, unique_s := u, idata := c,
        ibuf := (ibuf s1)\<lparr>bf_head := bf_head (ibuf s1) + j\<rparr>, state := session_execute_write, io := rq\<rparr>"
    and w2: "w2 = w\<lparr>wmem := mem_alloc c bs n (wmem w)\<rparr>"
  shows "\<exists>code s' w' m'. loop vs i (s2, w2) = Some (Inr (Blocked, i + 2, (s', w'))) \<and> io s' = WriteReq (reply_text code) \<and>
    aspec m (update_op name (env.truncate (vs i)) k (ucast f) (ucast x) u \<lparr>r_head = c, r_tail = c\<rparr> [bs]) (RCode code) m' \<and>
    crel w' m' \<and> buffer_bytes (ibuf s') = drop j rest \<and> state s' = session_write_prompt"
proof -
  have nw: "n = of_nat (length bs)" unfolding n(1) [symmetric] by simp
  have "refines w m (OReceive c bs)" by (rule cexec_refines [OF w(1)]) (use w(2,3) in simp)
  then have c2: "crel w2 m" unfolding w2 nw by (simp add: refines_def)
  have rf: "rope_fresh w2 \<lparr>r_head = idata s2, r_tail = idata s2\<rparr> [bs]"
    unfolding w2 s2 nw using received_fresh [OF w(1,2,3) n(2)] by simp
  have r: "state s2 = session_execute_write" "flat (obuf s2)" "used (obuf s2) = 0" "max_size (obuf s2) = buffer_size" "\<not> noreply s2"
    "tok_ok (sarr s2) (cmd s2)" "buf_bytes (sarr s2) (cmd s2) = name"
    using s1(1,2) by (simp_all add: ready_cmd_def s2 sarr_def)
  have ob: "object_env w2 (vs i)" using w(4) by (simp add: object_env_def fresh_object_def runs_on_def w2)
  have kb: "key_bytes s2 = k" "flags_s s2 = f" "exptime_s s2 = x" "unique_s s2 = u" "idata s2 = c"
    using k by (simp_all add: key_bytes_def s2 sarr_def)
  have "buffer_bytes (ibuf s2) = drop j rest"
    unfolding s1(3) [symmetric] by (simp add: s2 buffer_bytes_def used_def drop_take add.commute)
  with write_step [of s2 name w2 m vs i, OF r name c2 ob rf] kb show ?thesis by fastforce
qed



section \<open>Data that arrives late\<close>

lemma recv_data_part:
  assumes "buffer_ok (ibuf s)" "used (ibuf s) < unat n" "v_chunk v \<noteq> 0" "length (v_raw v) = unat n"
  shows "recv_data v n (s, w) = Inr (Some True,
    (s\<lparr>idata := v_chunk v, ibuf := (ibuf s)\<lparr>bf_head := bf_head (ibuf s) + used (ibuf s)\<rparr>, state := session_execute_write,
       io := ReadData (v_chunk v) n (n - of_nat (used (ibuf s)))\<rparr>,
     w\<lparr>wmem := mem_alloc (v_chunk v) (buffer_bytes (ibuf s) @ drop (used (ibuf s)) (v_raw v)) n (wmem w)\<rparr>))"
  using assms length_buffer_bytes [OF assms(1)]
  by (simp add: recv_data_def mem_alloc_def mem_store_def bf_notify_read_def require_def Let_def min_def)

text \<open>The completion of a read: the bytes are stored from the start of the chunk on.\<close>

definition deliver :: "addr \<Rightarrow> bytes \<Rightarrow> world \<Rightarrow> world res" where
  "deliver a bs w =
     rbind (mread (wmem w) a) (\<lambda>m. rbind (mem_store m bs) (\<lambda>m. Inr (w\<lparr>wmem := (wmem w)(a \<mapsto> m)\<rparr>)))"

lemma deliver_alloc:
  "a \<noteq> 0 \<Longrightarrow> length bs \<le> length raw \<Longrightarrow>
   deliver a bs (w\<lparr>wmem := mem_alloc a raw n h\<rparr>) = Inr (w\<lparr>wmem := mem_alloc a (bs @ drop (length bs) raw) n h\<rparr>)"
  by (simp add: deliver_def mem_alloc_def mem_store_def)

text \<open>
  C31: A storing command whose data arrives in two parts, \<open>early\<close> with the command line and \<open>late\<close>
  afterwards: the session waits for exactly the missing number of bytes, but has them read to the
  start of the chunk, over the part that was there. What it stores is \<open>late\<close> followed by whatever
  remains of \<open>early\<close> and of the uninitialised chunk, and not \<open>early @ late\<close>.
\<close>

theorem session_store_split:
  assumes "idle s l early" and "token l \<in> storing"
    and "store_args (token l) (after_token l) = Some (k, f, x, n, u)"
    and "length early < unat n" and "unat n < 2 ^ 31" and "length late = unat n - length early"
    and "crel w m" and "chunk_env w (vs (i + 1)) (unat n)" and "object_env w (vs (i + 2))"
  shows "\<exists>s1 w1 w2 c s' w' m'. loop vs i (s, w) = Some (Inr (Blocked, i + 2, (s1, w1))) \<and>
    io s1 = ReadData (v_chunk (vs (i + 1))) n (of_nat (length late)) \<and>
    deliver (v_chunk (vs (i + 1))) late w1 = Inr w2 \<and>
    callback False vs (i + 2) (s1, w2) = Some (Inr (Blocked, i + 4, (s', w'))) \<and> io s' = WriteReq (reply_text c) \<and>
    aspec m (update_op (token l) (env.truncate (vs (i + 2))) k (ucast f) (ucast x) u
        \<lparr>r_head = v_chunk (vs (i + 1)), r_tail = v_chunk (vs (i + 1))\<rparr>
        [late @ drop (length late) (early @ drop (length early) (v_raw (vs (i + 1))))]) (RCode c) m' \<and>
    crel w' m' \<and> buffer_bytes (ibuf s') = [] \<and> state s' = session_write_prompt"
proof -
  obtain s1 where s1: "loop_step (vs i) (s, w) = Inr (Running, (s1, w))" "ready_cmd s1" "line s1 = after_token l"
    "buf_bytes (sarr s1) (cmd s1) = token l" "buffer_bytes (ibuf s1) = early"
    by (rule read_command_ok [OF assms(1)])
  have r: "state s1 = session_execute_command" "buffer_ok (ibuf s1)" using s1(2) by (simp_all add: ready_cmd_def)
  let ?v = "vs (i + 1)" and ?c = "v_chunk (vs (i + 1))"
  let ?early = "early @ drop (length early) (v_raw ?v)"
  let ?bs = "late @ drop (length late) ?early"
  obtain kb a u' where p: "dispatch ?v (s1, w) = recv_data ?v n (s1\<lparr>args := a, key_s := kb, flags_s := f, exptime_s := x, unique_s := u'\<rparr>, w)"
    "buf_bytes (sarr s1) kb = k" "token l = ''cas'' \<Longrightarrow> u' = u"
    by (rule store_parsed [OF s1(2,4) assms(2), of k f x n u ?v w]) (use s1(3) assms(3) in simp_all)
  have fresh: "?c \<noteq> 0" "?c \<notin> dom (wmem w)" "length (v_raw ?v) = unat n" using assms(8) by (simp_all add: chunk_env_def)
  let ?s3 = "s1\<lparr>args := a, key_s := kb, flags_s := f, exptime_s := x, unique_s := u'\<rparr>"
  have us: "used (ibuf ?s3) = length early" "n - of_nat (length early) = of_nat (length late)"
    using length_buffer_bytes [OF r(2)] s1(5) assms(4,6) by (simp_all add: of_nat_diff)
  let ?s4 = "?s3\<lparr>idata := ?c, ibuf := (ibuf ?s3)\<lparr>bf_head := bf_head (ibuf ?s3) + length early\<rparr>, state := session_execute_write,
       io := ReadData ?c n (of_nat (length late))\<rparr>"
  let ?w1 = "w\<lparr>wmem := mem_alloc ?c ?early n (wmem w)\<rparr>" and ?w2 = "w\<lparr>wmem := mem_alloc ?c ?bs n (wmem w)\<rparr>"
  have "recv_data ?v n (?s3, w) = Inr (Some True, (?s4, ?w1))"
    using recv_data_part [of ?s3 n ?v w] r(2) fresh assms(4) s1(5) us by simp
  from step_dispatch(1) [OF r(1), of ?v w, unfolded p(1), OF this]
  have lp: "loop vs i (s, w) = Some (Inr (Blocked, i + 2, (?s4, ?w1)))"
    using loop_running [of vs i, OF s1(1)] loop_stops [of vs "i + 1" "(s1, w)" Blocked] by simp
  have ln: "length ?bs = unat n" using fresh(3) assms(4,6) by simp
  have ln4: "length ?bs < 2 ^ 31" unfolding ln by (rule assms(5))
  have four: "i + 4 = Suc (Suc (Suc (Suc i)))" by (simp add: eval_nat_numeral)
  have dl: "deliver ?c late ?w1 = Inr ?w2" by (rule deliver_alloc) (use fresh assms(4,6) in simp_all)
  have un: "update_op (token l) v k f x u r cs = update_op (token l) v k f x u' r cs" for v k f x r cs
    using p(3) assms(2) by (auto simp: update_op_def storing_def)
  have "\<exists>c s' w' m'. callback False vs (i + 2) (?s4, ?w2) = Some (Inr (Blocked, i + 4, (s', w'))) \<and> io s' = WriteReq (reply_text c) \<and>
    aspec m (update_op (token l) (env.truncate (vs (i + 2))) k (ucast f) (ucast x) u \<lparr>r_head = ?c, r_tail = ?c\<rparr> [?bs]) (RCode c) m' \<and>
    crel w' m' \<and> buffer_bytes (ibuf s') = drop (length early) early \<and> state s' = session_write_prompt"
    using stored_reply [where vs = vs and i = "i + 2", OF s1(2,4,5) assms(2) p(2) ln [symmetric] ln4 assms(7) fresh(1,2) assms(9) refl refl,
      where a = a and f = f and x = x and u = u' and j = "length early" and rq = NoIO] un
    by (simp add: callback_def four)
  then show ?thesis using lp dl by (intro exI [of _ ?s4] exI [of _ ?w1] exI [of _ ?w2]) simp
qed

definition demo_vs2 :: "nat \<Rightarrow> senv" where
  "demo_vs2 i = (demo_vs i)\<lparr>v_raw := ''???''\<rparr>"

theorem session_store_split_witness:
  "\<exists>s1 w1 w2 s' w'. loop demo_vs2 0 (demo_sess (''set k 0 0 3'' @ CRLF @ ''ab''), demo_world) = Some (Inr (Blocked, 2, (s1, w1))) \<and>
     deliver 0x7000 ''c'' w1 = Inr w2 \<and>
     callback False demo_vs2 2 (s1, w2) = Some (Inr (Blocked, 4, (s', w'))) \<and> io s' = WriteReq (''STORED'' @ CRLF) \<and>
     crel w' [''k'' \<mapsto> \<lparr>i_flags = 0, i_exptime = 0, i_chunks = [''cb?'']\<rparr>]"
proof -
  let ?l = "''set k 0 0 3'' @ CRLF"
  have i: "idle (demo_sess (?l @ ''ab'')) ?l ''ab''" by (rule demo_idle) (simp_all add: CRLF_def)
  have t: "token ?l = ''set''" "store_args ''set'' (after_token ?l) = Some (''k'', 0, 0, 3, 0)"
    by (simp_all add: token_def after_token_def blank_def stop_def NUL_def CRLF_def store_args_def update_args_def int_arg_def c_isspace_def
        conversion_def c_isdigit_def digits_val_def digit_val_def is_terminal_def is_whitespace_def)
  have c: "chunk_env demo_world (demo_vs2 (0 + 1)) (unat (3 :: u64))"
    using demo_world_facts(4) by (simp add: chunk_env_def demo_vs2_def demo_vs_def domIff)
  have o: "object_env demo_world (demo_vs2 (0 + 2))"
    using demo_world_facts by (simp add: object_env_def demo_vs2_def demo_vs_def runs_on_def fresh_object_def aligned_def flag_mask_15)
  have nm: "token ?l \<in> storing" using t(1) by (simp add: storing_def)
  have m: "demo_map ''k'' \<noteq> None" by (simp add: demo_map_def)
  have v: "v_chunk (demo_vs2 j) = 0x7000" "v_raw (demo_vs2 j) = ''???''" for j by (simp_all add: demo_vs2_def demo_vs_def)
  have n: "length ''ab'' < unat (3 :: u64)" "unat (3 :: u64) < 2 ^ 31" "length ''c'' = unat (3 :: u64) - length ''ab''" by simp_all
  from session_store_split [where vs = demo_vs2, OF i nm _ n demo_world_crel c o, unfolded t(1) add_0, OF t(2)] m
  show ?thesis by (auto simp: update_op_def demo_map_def v)
qed

end
