(* ===== verification/Retrieval.thy ===== *)
theory Retrieval
  imports Protocol
begin

text \<open>
  Retrieving values: the commands \<open>get\<close> and \<open>gets\<close>. A reply that fits the output buffer is written
  in one piece. A value that does not fit it is written chunk by chunk, each write followed by a
  callback of the session. The margin the code keeps in the output buffer is enough for keys of
  at most \<open>max_key_size\<close> bytes.
\<close>

section \<open>Replies that fit the output buffer\<close>

text \<open>The keys of a \<open>get\<close>, and the reply the protocol promises for them.\<close>

lemma after_token_shorter: "token l \<noteq> [] \<Longrightarrow> length (after_token l) < length l"
proof -
  assume "token l \<noteq> []"
  then have "length (after_token l) < length (dropWhile blank l)"
    using arg_cong [OF takeWhile_dropWhile_id [of "\<lambda>c. \<not> stop c" "dropWhile blank l"], of length]
    by (cases "takeWhile (\<lambda>c. \<not> stop c) (dropWhile blank l)") (simp_all add: token_def after_token_def)
  also have "\<dots> \<le> length l" by (rule length_dropWhile_le)
  finally show ?thesis .
qed

function tokens :: "bytes \<Rightarrow> bytes list" where
  "tokens l = (if token l = [] then [] else token l # tokens (after_token l))"
  by pat_completeness auto
termination by (relation "measure length") (simp_all add: after_token_shorter)

declare tokens.simps [simp del]

definition value_block :: "bool \<Rightarrow> bytes \<Rightarrow> item \<Rightarrow> bytes" where
  "value_block cu k it =
     value_line k (i_flags it) (of_nat (length (concat (i_chunks it)))) (if cu then Some (item_version it) else None) @ CRLF @
     concat (i_chunks it) @ CRLF"

fun get_reply :: "bool \<Rightarrow> (bytes \<Rightarrow> item option) \<Rightarrow> bytes list \<Rightarrow> bytes" where
  "get_reply cu m [] = ''END'' @ CRLF"
| "get_reply cu m (k # ks) =
     (case m k of None \<Rightarrow> ''NOT_FOUND'' @ CRLF | Some it \<Rightarrow> value_block cu k it @ get_reply cu m ks)"

lemma send_rope_null: "send_rope (s\<lparr>odata := \<lparr>r_head = 0, r_tail = 0\<rparr>\<rparr>, w) = Some (Inr (Some (), (s\<lparr>odata := \<lparr>r_head = 0, r_tail = 0\<rparr>\<rparr>, w)))"
  by (subst send_rope.simps) (simp add: pop_odata_def const_rope_pop_def andthen_def)

lemma emit_odata: "emit (s\<lparr>odata := r\<rparr>) bs = (emit s bs)\<lparr>odata := r\<rparr>" "fits (s\<lparr>odata := r\<rparr>) bs = fits s bs"
  by (simp_all add: emit_def fits_def)

lemma send_rope_seg:
  "seg (wmem w) (x # xs) \<Longrightarrow> distinct (x # xs) \<Longrightarrow> flat (obuf s) \<Longrightarrow> fits s (contents (wmem w) (x # xs)) \<Longrightarrow>
   send_rope (s\<lparr>odata := \<lparr>r_head = x, r_tail = last (x # xs)\<rparr>\<rparr>, w) =
   Some (Inr (Some (), ((emit s (contents (wmem w) (x # xs)))\<lparr>odata := \<lparr>r_head = 0, r_tail = 0\<rparr>\<rparr>, w)))"
proof (induction xs arbitrary: x s)
  case Nil
  then obtain c where c: "wmem w x = Some c" "x \<noteq> 0" "chunk_ok c" by auto
  have f: "fits s (chunk c)" using Nil(4) c by simp
  let ?s = "s\<lparr>odata := \<lparr>r_head = 0, r_tail = 0\<rparr>\<rparr>"
  have "pop_odata (s\<lparr>odata := \<lparr>r_head = x, r_tail = last [x]\<rparr>\<rparr>, w) = Inr (Some x, (?s, w))"
    by (simp add: pop_odata_def const_rope_pop_def)
  moreover have "chunk_data x (?s, w) = Inr (Some (chunk c), (?s, w))" using c by (simp add: chunk_data_def)
  moreover have "send_n (chunk c) (?s, w) = Inr (Some (), (emit ?s (chunk c), w))"
    by (rule send_n_ok) (use Nil(3) f in \<open>simp_all add: emit_odata\<close>)
  ultimately show ?case using c by (subst send_rope.simps) (simp add: emit_odata send_rope_null)
next
  case (Cons y ys)
  then obtain c where c: "wmem w x = Some c" "x \<noteq> 0" "chunk_ok c" "m_next c = y" by auto
  have ne: "x \<noteq> last (y # ys)" using Cons.prems(2) last_in_set [of "y # ys"] by (metis distinct.simps(2) list.distinct(1))
  have f: "fits s (chunk c @ contents (wmem w) (y # ys))" using Cons.prems(4) c by simp
  note fa = fits_append [OF Cons.prems(3), of "chunk c" "contents (wmem w) (y # ys)"]
  let ?r = "\<lparr>r_head = y, r_tail = last (y # ys)\<rparr>"
  have "pop_odata (s\<lparr>odata := \<lparr>r_head = x, r_tail = last (x # y # ys)\<rparr>\<rparr>, w) = Inr (Some x, (s\<lparr>odata := ?r\<rparr>, w))"
    using c ne by (simp add: pop_odata_def const_rope_pop_def)
  moreover have "chunk_data x (s\<lparr>odata := ?r\<rparr>, w) = Inr (Some (chunk c), (s\<lparr>odata := ?r\<rparr>, w))"
    using c by (simp add: chunk_data_def)
  moreover have "send_n (chunk c) (s\<lparr>odata := ?r\<rparr>, w) = Inr (Some (), ((emit s (chunk c))\<lparr>odata := ?r\<rparr>, w))"
    using send_n_ok [of "s\<lparr>odata := ?r\<rparr>" "chunk c" w] Cons.prems(3) f fa by (simp add: emit_odata)
  moreover have "send_rope ((emit s (chunk c))\<lparr>odata := ?r\<rparr>, w) =
      Some (Inr (Some (), ((emit (emit s (chunk c)) (contents (wmem w) (y # ys)))\<lparr>odata := \<lparr>r_head = 0, r_tail = 0\<rparr>\<rparr>, w)))"
    by (rule Cons.IH) (use Cons.prems f fa emit_flat(1) [OF Cons.prems(3)] in \<open>simp_all\<close>)
  ultimately show ?case
    using c emit_append [OF Cons.prems(3) f] by (subst send_rope.simps) (simp del: last.simps)
qed

lemma send_rope_chain:
  assumes "chain (wmem w) (r_head (odata s)) (r_tail (odata s)) xs" "flat (obuf s)" "fits s (contents (wmem w) xs)"
  shows "send_rope (s, w) = Some (Inr (Some (), ((emit s (contents (wmem w) xs))\<lparr>odata := \<lparr>r_head = 0, r_tail = 0\<rparr>\<rparr>, w)))"
proof -
  obtain x ys where c: "xs = x # ys" "r_head (odata s) = x" "r_tail (odata s) = last (x # ys)"
    "seg (wmem w) (x # ys)" "distinct (x # ys)" using assms(1) by (rule chainE) metis
  have "s\<lparr>odata := \<lparr>r_head = x, r_tail = last (x # ys)\<rparr>\<rparr> = s" using c(2,3) by simp
  then show ?thesis using send_rope_seg [OF c(4,5) assms(2)] assms(3) c(1) by simp
qed

text \<open>Reading the entry of a key that has one keeps the map.\<close>

lemma read_hit:
  assumes "cache_get w k = Inr (a, upd_cache w g)" "holds_entry w m k t own a e"
    "entries_p (g (wcache w)) = entries_p (wcache w)" "building_p (g (wcache w)) = building_p (wcache w)"
  obtains w' where "\<forall>s. read_entry v a (s, upd_cache w g) = Inr (Some (e_flags e), (s\<lparr>odata := \<lparr>r_head = e_head e, r_tail = e_tail e\<rparr>\<rparr>, w'))"
    "crel w' m" "wmem w' = wmem w" "wgc w' = wgc w"
proof -
  note H = holds_entryD [OF assms(2)]
  define e' where "e' = (if v_updates v mod 8 = 0 then e\<lparr>e_atime := v_now v\<rparr> else e)"
  have rd: "entry_read (v_now v) (v_updates v) (wmem w) e = Inr (\<lparr>r_head = e_head e, r_tail = e_tail e\<rparr>, v_updates v + 1, e')"
    using entry_read_ok [OF H(3)] by (simp add: e'_def)
  have e': "e_flags e' = e_flags e" "entry_ok (wmem w) e' (own a)" "item_of (wmem w) e' (own a) = item_of (wmem w) e (own a)"
    using H(3) by (simp_all add: e'_def entry_ok_def item_of_def)
  have "crel (ewrite (upd_cache w g) a e') (m(k \<mapsto> item_of (wmem w) e' (own a)))"
    by (rule update_hit [OF assms(2) e'(2)]) (use H(10) assms(3,4) in auto)
  moreover have "m(k \<mapsto> item_of (wmem w) e' (own a)) = m" using H(4) e'(3) by auto
  ultimately show thesis
    using that [of "ewrite (upd_cache w g) a e'"] rd e'(1) H(1,2) by (simp add: read_entry_def eread_Some)
qed

text \<open>A hit, up to the line that announces the value; \<open>bs\<close> are the bytes of the value.\<close>

definition value_head :: "bool \<Rightarrow> bytes \<Rightarrow> item \<Rightarrow> bytes" where
  "value_head cu k it =
     value_line k (i_flags it) (of_nat (length (concat (i_chunks it)))) (if cu then Some (item_version it) else None) @ CRLF"

lemma value_block_head: "value_block cu k it = value_head cu k it @ concat (i_chunks it) @ CRLF"
  by (simp add: value_block_def value_head_def)

lemma get_line:
  assumes "line_ok (sarr s) (args s)" "token (line s) = k" "k \<noteq> []" "crel w m" "m k = Some it"
    and o: "flat (obuf s)" "fits s (value_head cu k it)"
  obtains a w' r xs s2 where "line_ok (sarr s) a" "buf_bytes (sarr s) a = after_token (line s)" "crel w' m"
    "chain (wmem w') (r_head r) (r_tail r) xs" "contents (wmem w') xs = concat (i_chunks it)" "xs \<noteq> []"
    "s2 = emit (s\<lparr>args := a, odata := r\<rparr>) (value_head cu k it)"
    "get v cu (s, w) =
       (if word_of_int (available (obuf s2)) > (of_nat (length (concat (i_chunks it))) :: u64) + margin
        then andthen (\<lambda>sw. outcome (send_rope sw)) (\<lambda>_. andthen (send CRLF) (\<lambda>_. ret False)) (s2, w')
        else andthen (set_state session_write_data) (\<lambda>_. flush) (s2, w'))"
proof -
  obtain kb a where t: "take_token (s, w) = Inr (Some kb, (s\<lparr>args := a\<rparr>, w))" "line_ok (sarr s) a" "tok_ok (sarr s) kb"
    "buf_bytes (sarr s) kb = token (line s)" "buf_bytes (sarr s) a = after_token (line s)"
    by (rule take_token_ok [OF assms(1)])
  obtain g tb own e b where g: "cache_get w k = Inr (b, upd_cache w g)" and h: "holds_entry w m k tb own b e"
    "entries_p (g (wcache w)) = entries_p (wcache w)" "building_p (g (wcache w)) = building_p (wcache w)"
    by (rule get_cases [OF assms(4), of k]) (use assms(5) in auto)
  note H = holds_entryD [OF h(1)]
  obtain w' where w': "\<forall>s. read_entry v b (s, upd_cache w g) = Inr (Some (e_flags e), (s\<lparr>odata := \<lparr>r_head = e_head e, r_tail = e_tail e\<rparr>\<rparr>, w'))"
    "crel w' m" "wmem w' = wmem w" by (rule read_hit [OF g h])
  let ?r = "\<lparr>r_head = e_head e, r_tail = e_tail e\<rparr>" and ?bs = "contents (wmem w) (own b)"
  have ch: "chain (wmem w') (r_head ?r) (r_tail ?r) (own b)" using H(3) w'(3) by (simp add: entry_ok_def)
  have ne: "own b \<noteq> []" using ch by (simp add: chain_def)
  have it: "it = item_of (wmem w) e (own b)" using H(4) assms(5) by simp
  have itf: "i_flags it = e_flags e" "concat (i_chunks it) = ?bs" "item_version it = hash_chunks (chunks (wmem w) (own b)) (ucast (e_flags e))"
    by (simp_all add: it item_of_def contents_def item_version_def)
  define ver where "ver = (if cu then Some (item_version it) else None)"
  let ?s1 = "s\<lparr>args := a, odata := ?r\<rparr>" and ?ln = "value_line k (e_flags e) (of_nat (length ?bs)) ver"
  have vh: "value_head cu k it = ?ln @ CRLF" by (simp add: value_head_def itf ver_def)
  have f: "flat (obuf ?s1)" "fits ?s1 (?ln @ CRLF)" using o vh by (simp_all add: fits_def)
  have sz: "odata_size (?s1, w') = Inr (Some (of_nat (length ?bs)), (?s1, w'))"
    using const_rope_size_chain [OF ch] w'(3) by (simp add: odata_size_def)
  have hs: "(if cu then andthen (odata_hash (ucast (e_flags e))) (\<lambda>h. ret (Some h)) else ret None) (?s1, w') = Inr (Some ver, (?s1, w'))"
    using const_rope_hash_chain [OF ch] w'(3) by (simp add: odata_hash_def ver_def itf)
  have pr: "print_buf (bf_b (ibuf s)) kb = k" using print_tok [OF t(3)] t(4) assms(2) by (simp add: sarr_def)
  have re: "read_entry v b (s\<lparr>args := a\<rparr>, upd_cache w g) = Inr (Some (e_flags e), (?s1, w'))" using w'(1) by simp
  let ?s2 = "emit ?s1 (value_head cu k it)"
  have "get_found v cu kb b (s\<lparr>args := a\<rparr>, upd_cache w g) =
      (if word_of_int (available (obuf ?s2)) > (of_nat (length ?bs) :: u64) + margin
       then andthen (\<lambda>sw. outcome (send_rope sw)) (\<lambda>_. andthen (send CRLF) (\<lambda>_. ret False)) (?s2, w')
       else andthen (set_state session_write_data) (\<lambda>_. flush) (?s2, w'))"
    unfolding get_found_def vh using re sz hs pr sendf_ok [OF f, of w'] by simp
  moreover have "get v cu (s, w) = get_found v cu kb b (s\<lparr>args := a\<rparr>, upd_cache w g)"
    using t g H(1) assms(2,3) tok_ok_empty [OF t(3)] by (simp add: get_def lift_w_def sarr_def)
  ultimately show thesis using that [OF t(2,5) w'(2) ch _ ne refl] itf(2) w'(3) by simp
qed

lemma margin_fits:
  assumes "available ob = int q" "n + 319 < q" "q \<le> 4096"
  shows "(of_nat n :: u64) + margin < word_of_int (available ob)"
proof -
  have "(of_nat n :: u64) + margin = of_nat (n + 319)" by (simp add: margin_def max_key_size_def)
  moreover have "(of_nat (n + 319) :: u64) < of_nat q"
    using assms by (simp add: word_less_nat_alt unsigned_of_nat take_bit_nat_eq_self del: of_nat_add)
  ultimately show ?thesis using assms(1) by simp
qed

text \<open>A hit whose value is copied to the output buffer.\<close>

lemma rope_copied:
  assumes "chain (wmem w) (r_head (odata s)) (r_tail (odata s)) xs" "contents (wmem w) xs = bs" "flat (obuf s)" "fits s (bs @ CRLF)"
  shows "andthen (\<lambda>sw. outcome (send_rope sw)) (\<lambda>_. andthen (send CRLF) (\<lambda>_. ret False)) (s, w) =
    Inr (Some False, ((emit s (bs @ CRLF))\<lparr>odata := \<lparr>r_head = 0, r_tail = 0\<rparr>\<rparr>, w))"
proof -
  let ?s = "(emit s bs)\<lparr>odata := \<lparr>r_head = 0, r_tail = 0\<rparr>\<rparr>"
  have f: "fits s bs" "fits (emit s bs) CRLF" using fits_append [OF assms(3)] assms(4) by blast+
  have rope: "send_rope (s, w) = Some (Inr (Some (), (?s, w)))"
    using send_rope_chain [OF assms(1,3)] f(1) assms(2) by simp
  have "send CRLF (?s, w) = Inr (Some (), (emit ?s CRLF, w))"
    by (rule send_ok) (use emit_flat(1) [OF assms(3) f(1)] f(2) in \<open>simp_all add: emit_odata\<close>)
  moreover have "emit ?s CRLF = (emit s (bs @ CRLF))\<lparr>odata := \<lparr>r_head = 0, r_tail = 0\<rparr>\<rparr>"
    using emit_odata(1) [of _ "emit s bs" CRLF] emit_append [OF assms(3,4)] by simp
  ultimately show ?thesis using rope by simp
qed

lemma get_hit:
  assumes "line_ok (sarr s) (args s)" "token (line s) = k" "k \<noteq> []" "crel w m" "m k = Some it"
    and o: "flat (obuf s)" "\<not> noreply s" "max_size (obuf s) = 4096" "used (obuf s) + length (value_block cu k it) + 319 < 4096"
  obtains a w' where "get v cu (s, w) = Inr (Some False,
      ((emit (s\<lparr>args := a\<rparr>) (value_block cu k it))\<lparr>odata := \<lparr>r_head = 0, r_tail = 0\<rparr>\<rparr>, w'))"
    "line_ok (sarr s) a" "buf_bytes (sarr s) a = after_token (line s)" "crel w' m"
proof -
  let ?bs = "concat (i_chunks it)" and ?h = "value_head cu k it"
  have f: "fits s ?h" using o by (simp add: fits_def value_block_head)
  obtain a w' r xs s2 where x: "line_ok (sarr s) a" "buf_bytes (sarr s) a = after_token (line s)" "crel w' m"
    "chain (wmem w') (r_head r) (r_tail r) xs" "contents (wmem w') xs = ?bs" "xs \<noteq> []"
    "s2 = emit (s\<lparr>args := a, odata := r\<rparr>) ?h"
    "get v cu (s, w) =
       (if word_of_int (available (obuf s2)) > (of_nat (length ?bs) :: u64) + margin
        then andthen (\<lambda>sw. outcome (send_rope sw)) (\<lambda>_. andthen (send CRLF) (\<lambda>_. ret False)) (s2, w')
        else andthen (set_state session_write_data) (\<lambda>_. flush) (s2, w'))"
    by (rule get_line [OF assms(1-5) o(1) f])
  let ?s1 = "s\<lparr>args := a, odata := r\<rparr>"
  have f1: "flat (obuf ?s1)" "fits ?s1 ?h" "fits ?s1 (?h @ ?bs @ CRLF)" using o f by (simp_all add: fits_def value_block_head)
  have s2: "flat (obuf s2)" "used (obuf s2) = used (obuf s) + length ?h" "max_size (obuf s2) = 4096" "odata s2 = r"
    unfolding x(7) using emit_flat [OF f1(1,2)] o by simp_all
  have f2: "fits s2 (?bs @ CRLF)" unfolding x(7) using fits_append [OF f1(1)] f1(3) by blast
  have "(of_nat (length ?bs) :: u64) + margin < word_of_int (available (obuf s2))"
    by (rule margin_fits [of _ "4096 - used (obuf s2)"]) (use s2 o(4) in \<open>auto simp: available_def value_block_head\<close>)
  moreover have "emit s2 (?bs @ CRLF) = (emit (s\<lparr>args := a\<rparr>) (value_block cu k it))\<lparr>odata := r\<rparr>"
    unfolding x(7) value_block_head using emit_append [OF f1(1,3)] emit_odata(1) [of r "s\<lparr>args := a\<rparr>"] by simp
  ultimately show thesis
    using that [OF _ x(1,2,3)] x(8) rope_copied [of w' s2 xs ?bs] x(4,5) s2(1,4) f2 by simp
qed

lemma get_miss:
  assumes "line_ok (sarr s) (args s)" "token (line s) = k" "k \<noteq> []" "crel w m" "m k = None"
    and "flat (obuf s)" "fits s (''NOT_FOUND'' @ CRLF)"
  obtains a w' where "get v cu (s, w) = Inr (Some False,
      ((emit (s\<lparr>args := a\<rparr>) (''NOT_FOUND'' @ CRLF))\<lparr>state := session_write_result\<rparr>, w'))" "crel w' m"
proof -
  obtain kb a where t: "take_token (s, w) = Inr (Some kb, (s\<lparr>args := a\<rparr>, w))" "tok_ok (sarr s) kb"
    "buf_bytes (sarr s) kb = token (line s)" by (rule take_token_ok [OF assms(1)])
  obtain g where g: "cache_get w k = Inr (0, upd_cache w g)" "crel (upd_cache w g) m"
    by (rule get_cases [OF assms(4), of k]) (use assms(5) holds_entryD(4) in fastforce)+
  have f: "flat (obuf (s\<lparr>args := a\<rparr>))" "fits (s\<lparr>args := a\<rparr>) (''NOT_FOUND'' @ CRLF)"
    using assms(6,7) by (simp_all add: fits_def)
  have "get v cu (s, w) = Inr (Some False,
      ((emit (s\<lparr>args := a\<rparr>) (''NOT_FOUND'' @ CRLF))\<lparr>state := session_write_result\<rparr>, upd_cache w g))"
    using t g sendln_ok [OF f, of "upd_cache w g"] assms(2,3) tok_ok_empty [OF t(2)]
    by (simp add: get_def lift_w_def sarr_def)
  then show thesis using that g(2) by blast
qed

lemma get_end:
  assumes "line_ok (sarr s) (args s)" "token (line s) = []" "flat (obuf s)" "fits s (''END'' @ CRLF)"
  obtains a where "get v cu (s, w) = Inr (Some False,
      ((emit (s\<lparr>args := a\<rparr>) (''END'' @ CRLF))\<lparr>state := session_write_result\<rparr>, w))"
proof -
  obtain kb a where t: "take_token (s, w) = Inr (Some kb, (s\<lparr>args := a\<rparr>, w))" "tok_ok (sarr s) kb"
    "buf_bytes (sarr s) kb = token (line s)" by (rule take_token_ok [OF assms(1)])
  have f: "flat (obuf (s\<lparr>args := a\<rparr>))" "fits (s\<lparr>args := a\<rparr>) (''END'' @ CRLF)" using assms(3,4) by (simp_all add: fits_def)
  have "get v cu (s, w) = Inr (Some False, ((emit (s\<lparr>args := a\<rparr>) (''END'' @ CRLF))\<lparr>state := session_write_result\<rparr>, w))"
    using t send_ok [OF f, of w] assms(2) tok_ok_empty [OF t(2)] by (simp add: get_def)
  then show thesis by (rule that)
qed

text \<open>From any point of a \<open>get\<close> on: the rest of the reply is appended to what is there.\<close>

definition getting :: "bool \<Rightarrow> session \<Rightarrow> bool" where
  "getting cu s \<longleftrightarrow> state s = session_execute_command \<and> flat (obuf s) \<and> max_size (obuf s) = 4096 \<and> \<not> noreply s \<and>
     line_ok (sarr s) (args s) \<and> tok_ok (sarr s) (cmd s) \<and> buf_bytes (sarr s) (cmd s) = (if cu then ''gets'' else ''get'')"

lemma getting_dispatch:
  assumes "getting cu s" "get v cu (s, w) = Inr (b, sw')"
  shows "loop_step v (s, w) = Inr (if b = Some True then Blocked else Running, sw')"
proof -
  have g: "tok_ok (sarr s) (cmd s)" "buf_bytes (sarr s) (cmd s) = (if cu then ''gets'' else ''get'')" "state s = session_execute_command"
    using assms(1) by (simp_all add: getting_def)
  have "dispatch v (s, w) = get v cu (s, w)" using dispatch_ok [OF g(1,2), of v w] by (cases cu) simp_all
  then show ?thesis using step_dispatch(1) [OF g(3)] assms(2) by simp
qed

lemma getting_step: "getting cu s \<Longrightarrow> get v cu (s, w) = Inr (Some False, sw') \<Longrightarrow> loop_step v (s, w) = Inr (Running, sw')"
  using getting_dispatch by fastforce

lemma getting_blocks: "getting cu s \<Longrightarrow> get v cu (s, w) = Inr (Some True, sw') \<Longrightarrow> loop_step v (s, w) = Inr (Blocked, sw')"
  using getting_dispatch by fastforce

lemma loop_reply:
  assumes "getting cu s" "fits s msg" "msg \<noteq> []"
    and "get (vs i) cu (s, w) = Inr (Some False, ((emit (s\<lparr>args := a\<rparr>) msg)\<lparr>state := session_write_result\<rparr>, w'))"
  shows "\<exists>s'. loop vs i (s, w) = Some (Inr (Blocked, i + 2, (s', w'))) \<and> io s' = WriteReq (out s @ msg) \<and>
    ibuf s' = ibuf s \<and> state s' = session_write_prompt"
proof -
  let ?s = "(emit (s\<lparr>args := a\<rparr>) msg)\<lparr>state := session_write_result\<rparr>"
  have "used (obuf ?s) \<noteq> 0" "out ?s = out s @ msg"
    using emit_flat [of "s\<lparr>args := a\<rparr>" msg] assms(1-3) by (simp_all add: getting_def fits_def out_def)
  moreover have "loop vs i (s, w) = loop vs (Suc i) (?s, w')" by (rule loop_running [of vs i, OF getting_step [OF assms(1,4)]])
  ultimately show ?thesis using loop_write_result [of ?s vs "Suc i" w'] by simp
qed

text \<open>The end of a \<open>get\<close>: no key is left, or the next one has no value.\<close>

lemma loop_get_last:
  assumes "getting cu s" "tokens (line s) = ks" "crel w m" "ks = [] \<or> m (hd ks) = None"
    and "used (obuf s) + length (get_reply cu m ks) \<le> 4096"
  shows "\<exists>i' s' w'. loop vs i (s, w) = Some (Inr (Blocked, i', (s', w'))) \<and> io s' = WriteReq (out s @ get_reply cu m ks) \<and>
     crel w' m \<and> ibuf s' = ibuf s \<and> state s' = session_write_prompt"
proof -
  have g: "line_ok (sarr s) (args s)" "flat (obuf s)" "max_size (obuf s) = 4096" using assms(1) by (simp_all add: getting_def)
  have f: "fits s (get_reply cu m ks)" using assms(5) g(3) by (simp add: fits_def)
  show ?thesis
  proof (cases ks)
    case Nil
    then have tk: "token (line s) = []" using assms(2) by (simp add: tokens.simps split: if_splits)
    obtain a where a: "get (vs i) cu (s, w) = Inr (Some False, ((emit (s\<lparr>args := a\<rparr>) (''END'' @ CRLF))\<lparr>state := session_write_result\<rparr>, w))"
      by (rule get_end [OF g(1) tk g(2)]) (use f Nil in simp_all)
    from loop_reply [of cu s "''END'' @ CRLF" vs i w a w, OF assms(1) _ _ a] f Nil assms(3) show ?thesis by fastforce
  next
    case (Cons k ks')
    then have tk: "token (line s) = k" "k \<noteq> []" using assms(2) by (simp_all add: tokens.simps [of "line s"] split: if_splits)
    have mk: "m k = None" using assms(4) Cons by simp
    obtain a w' where a: "get (vs i) cu (s, w) = Inr (Some False,
        ((emit (s\<lparr>args := a\<rparr>) (''NOT_FOUND'' @ CRLF))\<lparr>state := session_write_result\<rparr>, w'))" "crel w' m"
      by (rule get_miss [OF g(1) tk assms(3) mk g(2)]) (use f Cons mk in simp_all)
    from loop_reply [of cu s "''NOT_FOUND'' @ CRLF" vs i w a w', OF assms(1) _ _ a(1)] f Cons mk a(2) show ?thesis by fastforce
  qed
qed

lemma loop_get:
  "getting cu s \<Longrightarrow> tokens (line s) = ks \<Longrightarrow> crel w m \<Longrightarrow> used (obuf s) + length (get_reply cu m ks) + 319 < 4096 \<Longrightarrow>
   \<exists>i' s' w'. loop vs i (s, w) = Some (Inr (Blocked, i', (s', w'))) \<and> io s' = WriteReq (out s @ get_reply cu m ks) \<and>
     crel w' m \<and> ibuf s' = ibuf s \<and> state s' = session_write_prompt"
proof (induction ks arbitrary: s w i)
  case Nil
  then show ?case by (intro loop_get_last) simp_all
next
  case (Cons k ks)
  have g: "line_ok (sarr s) (args s)" "flat (obuf s)" "\<not> noreply s" "max_size (obuf s) = 4096" using Cons(2) by (simp_all add: getting_def)
  have tk: "token (line s) = k" "k \<noteq> []" "tokens (after_token (line s)) = ks"
    using Cons(3) by (simp_all add: tokens.simps [of "line s"] split: if_splits)
  show ?case
  proof (cases "m k")
    case None
    then show ?thesis using Cons.prems by (intro loop_get_last) simp_all
  next
    case (Some it)
    have u: "used (obuf s) + length (value_block cu k it) + 319 < 4096" using Cons(5) Some by simp
    obtain a w' where a: "get (vs i) cu (s, w) = Inr (Some False,
        ((emit (s\<lparr>args := a\<rparr>) (value_block cu k it))\<lparr>odata := \<lparr>r_head = 0, r_tail = 0\<rparr>\<rparr>, w'))"
      "line_ok (sarr s) a" "buf_bytes (sarr s) a = after_token (line s)" "crel w' m"
      by (rule get_hit [OF g(1) tk(1,2) Cons(4) Some g(2,3,4) u])
    let ?s = "(emit (s\<lparr>args := a\<rparr>) (value_block cu k it))\<lparr>odata := \<lparr>r_head = 0, r_tail = 0\<rparr>\<rparr>"
    have f: "fits (s\<lparr>args := a\<rparr>) (value_block cu k it)" using u g(4) by (simp add: fits_def)
    have e: "flat (obuf ?s)" "max_size (obuf ?s) = 4096" "used (obuf ?s) = used (obuf s) + length (value_block cu k it)"
        "out ?s = out s @ value_block cu k it"
      using emit_flat [of "s\<lparr>args := a\<rparr>", OF _ f] g by (simp_all add: out_def)
    have gs: "getting cu ?s" "tokens (line ?s) = ks" using e Cons(2) a(2,3) tk(3) by (simp_all add: getting_def)
    have lp: "loop vs i (s, w) = loop vs (Suc i) (?s, w')" by (rule loop_running [of vs i, OF getting_step [OF Cons(2) a(1)]])
    have "\<exists>i' s' w''. loop vs (Suc i) (?s, w') = Some (Inr (Blocked, i', (s', w''))) \<and> io s' = WriteReq (out ?s @ get_reply cu m ks) \<and>
        crel w'' m \<and> ibuf s' = ibuf ?s \<and> state s' = session_write_prompt"
      by (rule Cons.IH [OF gs a(4)]) (use Cons(5) Some e(3) in simp)
    then show ?thesis using lp e(4) Some by simp
  qed
qed

text \<open>
  C26: A \<open>get\<close> or \<open>gets\<close> of any number of keys whose whole reply leaves more than 319 bytes of the output
  buffer's 4096 free (the margin the code keeps for the next line, so a larger reply need not be
  written in one piece): the session writes, in one piece, for every key in turn the
  line with its flags and size (and, for \<open>gets\<close>, the version that \<open>cas\<close> checks) and its bytes,
  then \<open>END\<close>; the first key without a value ends the reply with \<open>NOT_FOUND\<close> instead, and the keys
  after it are not looked up. The cache keeps the map it represents.
\<close>

theorem session_get:
  assumes "idle s l rest" and "token l = (if cu then ''gets'' else ''get'')" and "crel w m"
    and "length (get_reply cu m (tokens (after_token l))) + 319 < buffer_size"
  shows "\<exists>i' s' w'. loop vs i (s, w) = Some (Inr (Blocked, i', (s', w'))) \<and>
    io s' = WriteReq (get_reply cu m (tokens (after_token l))) \<and>
    crel w' m \<and> buffer_bytes (ibuf s') = rest \<and> state s' = session_write_prompt"
proof -
  obtain s1 where s1: "loop_step (vs i) (s, w) = Inr (Running, (s1, w))" "ready_cmd s1" "line s1 = after_token l"
    "buf_bytes (sarr s1) (cmd s1) = token l" "buffer_bytes (ibuf s1) = rest"
    by (rule read_command_ok [OF assms(1)])
  have g: "getting cu s1" using s1(2,4) assms(2) by (simp add: ready_cmd_def getting_def buffer_size_def)
  have u: "used (obuf s1) = 0" "out s1 = []"
    using s1(2) length_buffer_bytes [of "obuf s1"] flatD [of "obuf s1"] by (auto simp: ready_cmd_def out_def)
  have "used (obuf s1) + length (get_reply cu m (tokens (after_token l))) + 319 < 4096"
    using u assms(4) by (simp add: buffer_size_def)
  from loop_get [OF g _ assms(3) this, of vs "Suc i"] s1(3,5) u loop_running [of vs i, OF s1(1)]
  show ?thesis by auto
qed

theorem session_get_witness:
  "\<exists>i' s' w'. loop demo_vs 0 (demo_sess (''get k x'' @ CRLF), demo_world) = Some (Inr (Blocked, i', (s', w'))) \<and>
     io s' = WriteReq (''VALUE k 7 2'' @ CRLF @ ''42'' @ CRLF @ ''NOT_FOUND'' @ CRLF) \<and> crel w' demo_map"
proof -
  have i: "idle (demo_sess ((''get k x'' @ CRLF) @ [])) (''get k x'' @ CRLF) []" by (rule demo_idle) (simp_all add: CRLF_def)
  have t: "token (''get k x'' @ CRLF) = (if False then ''gets'' else ''get'')" "tokens (after_token (''get k x'' @ CRLF)) = [''k'', ''x'']"
    by (simp_all add: token_def after_token_def blank_def stop_def NUL_def CRLF_def tokens.simps)
  have g: "get_reply False demo_map [''k'', ''x''] = ''VALUE k 7 2'' @ CRLF @ ''42'' @ CRLF @ ''NOT_FOUND'' @ CRLF"
  proof -
    have "dec_digits 7 = ''7''" "dec_digits 2 = ''2''" by code_simp+
    then show ?thesis by (simp add: demo_map_def value_block_def value_line_def print_u32_def CRLF_def)
  qed
  from session_get [OF i t(1) demo_world_crel, of demo_vs 0, unfolded t(2) g] show ?thesis by (auto simp: CRLF_def buffer_size_def)
qed

section \<open>Everything a command writes\<close>

text \<open>
  \<open>session_output vs r out sw\<close>: from the outcome \<open>r\<close> of a run of the loop on, with every write
  completing, the session writes \<open>out\<close> until it is ready for its next command.
\<close>

inductive session_output :: "(nat \<Rightarrow> senv) \<Rightarrow> (flow \<times> nat \<times> ss) res option \<Rightarrow> bytes \<Rightarrow> ss \<Rightarrow> bool" for vs where
  output_last: "state s = session_write_prompt \<Longrightarrow> io s = WriteReq b \<Longrightarrow>
    session_output vs (Some (Inr (Blocked, i, (s, w)))) b (s, w)"
| output_more: "state s = session_write_data \<Longrightarrow> io s = WriteReq b \<Longrightarrow>
    session_output vs (callback False vs i (s, w)) bs sw' \<Longrightarrow>
    session_output vs (Some (Inr (Blocked, i, (s, w)))) (b @ bs) sw'"

section \<open>The length of a value line\<close>

lemma length_value_head: "length (value_head cu k it) \<le> length k + 51"
  using length_print_u32 [of "i_flags it"] length_print_u32 [of "ucast (of_nat (length (concat (i_chunks it))) :: u64)"]
    length_print_u64 [of "item_version it"]
  by (auto simp: value_head_def value_line_def CRLF_def)

section \<open>Writing a value chunk by chunk\<close>

text \<open>A session that has announced a value and still has \<open>r\<close> of it to write.\<close>

definition writing :: "bool \<Rightarrow> session \<Rightarrow> bool" where
  "writing cu s \<longleftrightarrow> state s = session_write_data \<and> max_size (obuf s) = 4096 \<and> \<not> noreply s \<and>
     line_ok (sarr s) (args s) \<and> tok_ok (sarr s) (cmd s) \<and> buf_bytes (sarr s) (cmd s) = (if cu then ''gets'' else ''get'')"

lemma writing_chunk:
  assumes "writing cu s" "const_rope_pop (wmem w) (odata s) = Inr (x, r)" "wmem w x = Some c" "x \<noteq> 0" "chunk_ok c"
  shows "loop vs i (s, w) = Some (Inr (Blocked, Suc i, (s\<lparr>obuf := bf_reset (obuf s), odata := r, io := WriteReq (chunk c)\<rparr>, w)))"
proof -
  let ?s = "s\<lparr>obuf := bf_reset (obuf s), odata := r, io := WriteReq (chunk c)\<rparr>"
  have st: "state s = session_write_data" using assms(1) by (simp add: writing_def)
  have "handle (vs i) (state s) (s, w) = Inr (Some True, (?s, w))"
    using assms(2-5) st flat_reset(3) [of "obuf s"]
    by (simp add: handle_def send_data_def pop_odata_def chunk_data_def send_async_def lift_s_def)
  from loop_step_handle(1) [OF _ this] st show ?thesis by (intro loop_stops) simp_all
qed

lemma writing_end:
  assumes "writing cu s" "odata s = \<lparr>r_head = 0, r_tail = 0\<rparr>"
  obtains s' where "loop vs i (s, w) = loop vs (Suc i) (s', w)" "getting cu s'" "used (obuf s') = 2" "out s' = CRLF"
    "line s' = line s" "ibuf s' = ibuf s"
proof -
  let ?s1 = "s\<lparr>obuf := bf_reset (obuf s), odata := \<lparr>r_head = 0, r_tail = 0\<rparr>\<rparr>"
  let ?s' = "(emit ?s1 CRLF)\<lparr>state := session_execute_command\<rparr>"
  have st: "state s = session_write_data" "\<not> noreply s" using assms(1) by (simp_all add: writing_def)
  have f: "flat (obuf ?s1)" "fits ?s1 CRLF" using flat_reset [of "obuf s"] assms(1) by (simp_all add: fits_def writing_def CRLF_def)
  have "handle (vs i) (state s) (s, w) = Inr (Some False, (?s', w))"
    using assms(2) st send_ok [OF f, of w] by (simp add: handle_def send_data_def pop_odata_def const_rope_pop_def)
  from loop_step_handle(1) [OF _ this] st have "loop vs i (s, w) = loop vs (Suc i) (?s', w)" by (intro loop_running) simp
  moreover have "getting cu ?s'" "used (obuf ?s') = 2" "out ?s' = CRLF"
    using emit_flat [OF f] assms(1) flat_reset [of "obuf s"] by (simp_all add: getting_def writing_def out_def CRLF_def sarr_def)
  ultimately show thesis using that by (simp add: line_def sarr_def)
qed

lemma writing_value:
  assumes "seg (wmem w) (x # xs)" "distinct (x # xs)" "writing cu s" "odata s = \<lparr>r_head = x, r_tail = last (x # xs)\<rparr>"
    and rest: "\<And>i s'. getting cu s' \<Longrightarrow> used (obuf s') = 2 \<Longrightarrow> out s' = CRLF \<Longrightarrow> line s' = line s \<Longrightarrow> ibuf s' = ibuf s \<Longrightarrow>
      \<exists>sw'. session_output vs (loop vs i (s', w)) reply sw' \<and> P sw'"
  shows "\<exists>sw'. session_output vs (loop vs i (s, w)) (contents (wmem w) (x # xs) @ reply) sw' \<and> P sw'"
  using assms
proof (induction xs arbitrary: x s i)
  case Nil
  then obtain c where c: "wmem w x = Some c" "x \<noteq> 0" "chunk_ok c" by auto
  let ?r = "\<lparr>r_head = 0, r_tail = 0\<rparr>"
  let ?s = "s\<lparr>obuf := bf_reset (obuf s), odata := ?r, io := WriteReq (chunk c)\<rparr>"
  have lp: "loop vs i (s, w) = Some (Inr (Blocked, Suc i, (?s, w)))"
    by (rule writing_chunk [OF Nil(3) _ c]) (simp add: Nil(4) const_rope_pop_def)
  have wr: "writing cu (?s\<lparr>io := NoIO\<rparr>)" using Nil(3) flat_reset(2) [of "obuf s"] by (simp add: writing_def sarr_def)
  obtain s' where s': "loop vs (Suc i) (?s\<lparr>io := NoIO\<rparr>, w) = loop vs (Suc (Suc i)) (s', w)" "getting cu s'" "used (obuf s') = 2"
    "out s' = CRLF" "line s' = line (?s\<lparr>io := NoIO\<rparr>)" "ibuf s' = ibuf (?s\<lparr>io := NoIO\<rparr>)"
    by (rule writing_end [OF wr]) simp_all
  obtain sw' where o: "session_output vs (loop vs (Suc (Suc i)) (s', w)) reply sw'" "P sw'"
    using Nil(5) [OF s'(2,3,4), of "Suc (Suc i)"] s'(5,6) by (auto simp: line_def sarr_def)
  have "session_output vs (callback False vs (Suc i) (?s, w)) reply sw'" using o(1) s'(1) by (simp add: callback_def)
  then have "session_output vs (loop vs i (s, w)) (chunk c @ reply) sw'"
    unfolding lp using Nil(3) by (intro output_more) (simp_all add: writing_def)
  then show ?case using o(2) c by (intro exI [of _ sw']) simp
next
  case (Cons y ys)
  then obtain c where c: "wmem w x = Some c" "x \<noteq> 0" "chunk_ok c" "m_next c = y" by auto
  have ne: "x \<noteq> last (y # ys)" using Cons.prems(2) last_in_set [of "y # ys"] by (metis distinct.simps(2) list.distinct(1))
  let ?r = "\<lparr>r_head = y, r_tail = last (y # ys)\<rparr>"
  let ?s = "s\<lparr>obuf := bf_reset (obuf s), odata := ?r, io := WriteReq (chunk c)\<rparr>"
  have lp: "loop vs i (s, w) = Some (Inr (Blocked, Suc i, (?s, w)))"
    by (rule writing_chunk [OF Cons.prems(3) _ c(1-3)]) (use Cons.prems(4) c ne in \<open>simp add: const_rope_pop_def\<close>)
  have wr: "writing cu (?s\<lparr>io := NoIO\<rparr>)" using Cons.prems(3) flat_reset(2) [of "obuf s"] by (simp add: writing_def sarr_def)
  have "\<exists>sw'. session_output vs (loop vs (Suc i) (?s\<lparr>io := NoIO\<rparr>, w)) (contents (wmem w) (y # ys) @ reply) sw' \<and> P sw'"
    by (rule Cons.IH [OF _ _ wr]) (use Cons.prems in \<open>auto simp: line_def sarr_def\<close>)
  then obtain sw' where o: "session_output vs (loop vs (Suc i) (?s\<lparr>io := NoIO\<rparr>, w)) (contents (wmem w) (y # ys) @ reply) sw'" "P sw'"
    by blast
  have "session_output vs (callback False vs (Suc i) (?s, w)) (contents (wmem w) (y # ys) @ reply) sw'"
    using o(1) by (simp add: callback_def)
  then have "session_output vs (loop vs i (s, w)) (chunk c @ contents (wmem w) (y # ys) @ reply) sw'"
    unfolding lp using Cons.prems(3) by (intro output_more) (simp_all add: writing_def)
  then show ?case using o(2) c(1) by (intro exI [of _ sw']) simp
qed

section \<open>The whole reply\<close>

text \<open>The key is not too long, and its value is shorter than the address space.\<close>

definition key_sized :: "(bytes \<Rightarrow> item option) \<Rightarrow> bytes \<Rightarrow> bool" where
  "key_sized m k \<longleftrightarrow> length k \<le> max_key_size \<and>
     (case m k of None \<Rightarrow> True | Some it \<Rightarrow> length (concat (i_chunks it)) < 2 ^ 63)"

lemma margin_fitsD:
  assumes "word_of_int (available ob) > (of_nat n :: u64) + margin" "n < 2 ^ 63" "available ob = int q" "q \<le> 4096"
  shows "n + 319 < q"
proof -
  have "(of_nat n :: u64) + margin = of_nat (n + 319)" by (simp add: margin_def max_key_size_def)
  then have "(of_nat (n + 319) :: u64) < of_nat q" using assms(1,3) by simp
  then show ?thesis using assms(2,4) by (simp add: word_less_nat_alt unsigned_of_nat take_bit_nat_eq_self del: of_nat_add)
qed

text \<open>
  A key with a value: it is either copied to the output buffer with its line, or only the line is
  written now, and the chunks of the value follow in the callbacks.
\<close>

lemma get_either:
  assumes gt: "getting cu s" "used (obuf s) \<le> 3778" and tk: "token (line s) = k" "k \<noteq> []"
    and it: "key_sized m k" "crel w m" "m k = Some it"
  obtains (copied) s' w' where "loop vs i (s, w) = loop vs (Suc i) (s', w')" "getting cu s'" "used (obuf s') \<le> 3778"
      "out s' = out s @ value_block cu k it" "line s' = after_token (line s)" "ibuf s' = ibuf s" "crel w' m"
  | (chunked) s' w' y ys where
      "loop vs i (s, w) = Some (Inr (Blocked, Suc i, (s'\<lparr>io := WriteReq (out s @ value_head cu k it)\<rparr>, w')))"
      "writing cu (s'\<lparr>io := NoIO\<rparr>)" "odata s' = \<lparr>r_head = y, r_tail = last (y # ys)\<rparr>" "seg (wmem w') (y # ys)" "distinct (y # ys)"
      "contents (wmem w') (y # ys) = concat (i_chunks it)" "line s' = after_token (line s)" "ibuf s' = ibuf s" "crel w' m"
proof -
  let ?bs = "concat (i_chunks it)" and ?h = "value_head cu k it"
  have g: "line_ok (sarr s) (args s)" "flat (obuf s)" "\<not> noreply s" "max_size (obuf s) = 4096" using gt by (simp_all add: getting_def)
  have "length ?h \<le> 306" using length_value_head [of cu k it] it(1) by (simp add: key_sized_def max_key_size_def)
  then have f: "fits s ?h" using gt(2) g(4) by (simp add: fits_def)
  obtain a w' r xs s2 where x: "line_ok (sarr s) a" "buf_bytes (sarr s) a = after_token (line s)" "crel w' m"
    "chain (wmem w') (r_head r) (r_tail r) xs" "contents (wmem w') xs = ?bs" "xs \<noteq> []"
    "s2 = emit (s\<lparr>args := a, odata := r\<rparr>) ?h"
    "get (vs i) cu (s, w) =
       (if word_of_int (available (obuf s2)) > (of_nat (length ?bs) :: u64) + margin
        then andthen (\<lambda>sw. outcome (send_rope sw)) (\<lambda>_. andthen (send CRLF) (\<lambda>_. ret False)) (s2, w')
        else andthen (set_state session_write_data) (\<lambda>_. flush) (s2, w'))"
    by (rule get_line [OF g(1) tk it(2,3) g(2) f])
  have f1: "flat (obuf (s\<lparr>args := a, odata := r\<rparr>))" "fits (s\<lparr>args := a, odata := r\<rparr>) ?h" using g f by (simp_all add: fits_def)
  have s2: "flat (obuf s2)" "used (obuf s2) = used (obuf s) + length ?h" "max_size (obuf s2) = 4096" "odata s2 = r"
    "out s2 = out s @ ?h" "\<not> noreply s2" "line s2 = after_token (line s)" "ibuf s2 = ibuf s" "getting cu s2"
    unfolding x(7) using emit_flat [OF f1] g x(1,2) gt(1) by (simp_all add: out_def getting_def)
  show thesis
  proof (cases "word_of_int (available (obuf s2)) > (of_nat (length ?bs) :: u64) + margin")
    case True
    have n: "length ?bs + 319 < 4096 - used (obuf s2)"
      by (rule margin_fitsD [OF True]) (use it s2(1,3) in \<open>auto simp: key_sized_def available_def flat_def buffer_ok_def used_def\<close>)
    then have "length ?bs + used (obuf s2) \<le> 4094" by linarith
    then have f2: "fits s2 (?bs @ CRLF)" using s2(3) by (simp add: fits_def CRLF_def)
    let ?s3 = "(emit s2 (?bs @ CRLF))\<lparr>odata := \<lparr>r_head = 0, r_tail = 0\<rparr>\<rparr>"
    have "get (vs i) cu (s, w) = Inr (Some False, (?s3, w'))"
      using x(8) True rope_copied [of w' s2 xs ?bs] x(4,5) s2(1,4) f2 by simp
    then have lp: "loop vs i (s, w) = loop vs (Suc i) (?s3, w')" by (rule loop_running [of vs i, OF getting_step [OF gt(1)]])
    have "used (obuf ?s3) = used (obuf s2) + length ?bs + 2" using emit_flat [OF s2(1) f2] s2(6) by (simp add: CRLF_def)
    then have "used (obuf ?s3) \<le> 3778" using n by linarith
    then show thesis using lp emit_flat [OF s2(1) f2] s2 x(3)
      by (intro copied [of ?s3 w']) (simp_all add: getting_def out_def value_block_head)
  next
    case False
    let ?s3 = "s2\<lparr>state := session_write_data\<rparr>"
    have "\<not> bf_empty (obuf s2)" using s2(2) by (simp add: bf_empty_def value_head_def CRLF_def)
    then have "get (vs i) cu (s, w) = Inr (Some True, (?s3\<lparr>io := WriteReq (out s @ ?h)\<rparr>, w'))"
      using x(8) False s2(5) by (simp add: flush_def lift_s_def out_def)
    from getting_blocks [OF gt(1) this]
    have lp: "loop vs i (s, w) = Some (Inr (Blocked, Suc i, (?s3\<lparr>io := WriteReq (out s @ ?h)\<rparr>, w')))" by (rule loop_stops) simp
    obtain y ys where c: "xs = y # ys" "r_head r = y" "r_tail r = last (y # ys)"
      "seg (wmem w') (y # ys)" "distinct (y # ys)" using x(4) by (rule chainE) metis
    have "writing cu (?s3\<lparr>io := NoIO\<rparr>)" "line ?s3 = line s2" using s2(9) by (simp_all add: getting_def writing_def sarr_def line_def)
    then show thesis using lp c s2 x(3,5) by (intro chunked [of ?s3 w' y ys]) simp_all
  qed
qed

lemma output_get:
  "getting cu s \<Longrightarrow> used (obuf s) \<le> 3778 \<Longrightarrow> tokens (line s) = ks \<Longrightarrow> \<forall>k \<in> set ks. key_sized m k \<Longrightarrow> crel w m \<Longrightarrow>
   \<exists>sw'. session_output vs (loop vs i (s, w)) (out s @ get_reply cu m ks) sw' \<and>
     (crel (snd sw') m \<and> ibuf (fst sw') = ibuf s \<and> state (fst sw') = session_write_prompt)"
proof (induction ks arbitrary: s w i)
  case Nil
  then have "used (obuf s) + length (get_reply cu m []) \<le> 4096" by (simp add: CRLF_def)
  from loop_get_last [OF Nil(1,3,5) _ this, of vs i] show ?case by (fastforce intro: output_last)
next
  case (Cons k ks)
  have tk: "token (line s) = k" "k \<noteq> []" "tokens (after_token (line s)) = ks"
    using Cons(4) by (simp_all add: tokens.simps [of "line s"] split: if_splits)
  have ks: "key_sized m k" "\<forall>k \<in> set ks. key_sized m k" using Cons(5) by simp_all
  show ?case
  proof (cases "m k")
    case None
    then have "used (obuf s) + length (get_reply cu m (k # ks)) \<le> 4096" using Cons(3) by (simp add: CRLF_def)
    from loop_get_last [OF Cons(2,4,6) _ this, of vs i] None show ?thesis by (fastforce intro: output_last)
  next
    case (Some it)
    show ?thesis
    proof (rule get_either [OF Cons(2,3) tk(1,2) ks(1) Cons(6) Some, of vs i], goal_cases)
      case (1 s' w')
      from Cons.IH [OF 1(2,3) _ ks(2) 1(7), of "Suc i"] 1(1,4,5,6) tk(3) Some show ?thesis by simp
    next
      case (2 s' w' y ys)
      let ?P = "\<lambda>sw'. crel (snd sw') m \<and> ibuf (fst sw') = ibuf s \<and> state (fst sw') = session_write_prompt"
      have "\<exists>sw'. session_output vs (loop vs (Suc i) (s'\<lparr>io := NoIO\<rparr>, w')) (contents (wmem w') (y # ys) @ CRLF @ get_reply cu m ks) sw' \<and> ?P sw'"
      proof (rule writing_value [OF 2(4,5,2)])
        fix j t assume t: "getting cu t" "used (obuf t) = 2" "out t = CRLF" "line t = line (s'\<lparr>io := NoIO\<rparr>)" "ibuf t = ibuf (s'\<lparr>io := NoIO\<rparr>)"
        have "tokens (line t) = ks" "used (obuf t) \<le> 3778" using t(2,4) 2(7) tk(3) by (simp_all add: line_def sarr_def)
        from Cons.IH [OF t(1) this(2,1) ks(2) 2(9), of j] t(3,5) 2(8)
        show "\<exists>sw'. session_output vs (loop vs j (t, w')) (CRLF @ get_reply cu m ks) sw' \<and> ?P sw'" by simp
      qed (use 2(3) in simp)
      then obtain sw' where o: "session_output vs (loop vs (Suc i) (s'\<lparr>io := NoIO\<rparr>, w')) (concat (i_chunks it) @ CRLF @ get_reply cu m ks) sw'"
        "?P sw'" unfolding 2(6) by blast
      then have "session_output vs (loop vs i (s, w)) ((out s @ value_head cu k it) @ concat (i_chunks it) @ CRLF @ get_reply cu m ks) sw'"
        unfolding 2(1) using 2(2) by (intro output_more) (simp_all add: callback_def writing_def)
      then show ?thesis using o(2) Some by (intro exI [of _ sw']) (simp add: value_block_head)
    qed
  qed
qed

text \<open>
  C24: A \<open>get\<close> or \<open>gets\<close> of any number of keys, with values of any size (below $2^{63}$ bytes), where no
  key of the request is longer than 255 bytes (\<open>max_key_size\<close>: a limit on which the margin in the
  output buffer relies, but which the code does not enforce; the line of a longer key can overflow the
  buffer, which throws). The session then never overflows its output buffer and never loops: as its writes
  complete, it writes all the value lines and all the bytes of all the values in order, whatever
  way they are split between the output buffer and writes of single chunks, and ends the command.
\<close>

theorem session_get_any_size:
  assumes "idle s l rest" and "token l = (if cu then ''gets'' else ''get'')" and "crel w m"
    and "\<forall>k \<in> set (tokens (after_token l)). key_sized m k"
  shows "\<exists>s' w'. session_output vs (loop vs i (s, w)) (get_reply cu m (tokens (after_token l))) (s', w') \<and>
    crel w' m \<and> buffer_bytes (ibuf s') = rest \<and> state s' = session_write_prompt"
proof -
  obtain s1 where s1: "loop_step (vs i) (s, w) = Inr (Running, (s1, w))" "ready_cmd s1" "line s1 = after_token l"
    "buf_bytes (sarr s1) (cmd s1) = token l" "buffer_bytes (ibuf s1) = rest"
    by (rule read_command_ok [OF assms(1)])
  have g: "getting cu s1" using s1(2,4) assms(2) by (simp add: ready_cmd_def getting_def buffer_size_def)
  have u: "used (obuf s1) \<le> 3778" "out s1 = []"
    using s1(2) length_buffer_bytes [of "obuf s1"] flatD [of "obuf s1"] by (auto simp: ready_cmd_def out_def)
  from output_get [OF g u(1) _ _ assms(3), of "tokens (after_token l)" vs "Suc i"] assms(4) s1(3,5) u(2)
    loop_running [of vs i, OF s1(1)]
  show ?thesis by fastforce
qed

theorem session_get_any_size_witness:
  "\<exists>s' w'. session_output demo_vs (loop demo_vs 0 (demo_sess (''get k k'' @ CRLF), demo_world))
     (''VALUE k 7 2'' @ CRLF @ ''42'' @ CRLF @ ''VALUE k 7 2'' @ CRLF @ ''42'' @ CRLF @ ''END'' @ CRLF) (s', w') \<and> crel w' demo_map"
proof -
  have i: "idle (demo_sess ((''get k k'' @ CRLF) @ [])) (''get k k'' @ CRLF) []" by (rule demo_idle) (simp_all add: CRLF_def)
  have t: "token (''get k k'' @ CRLF) = (if False then ''gets'' else ''get'')" "tokens (after_token (''get k k'' @ CRLF)) = [''k'', ''k'']"
    by (simp_all add: token_def after_token_def blank_def stop_def NUL_def CRLF_def tokens.simps)
  have k: "\<forall>k \<in> set (tokens (after_token (''get k k'' @ CRLF))). key_sized demo_map k"
    unfolding t(2) by (simp add: key_sized_def demo_map_def max_key_size_def)
  have "dec_digits 7 = ''7''" "dec_digits 2 = ''2''" by code_simp+
  then have g: "get_reply False demo_map [''k'', ''k''] =
      ''VALUE k 7 2'' @ CRLF @ ''42'' @ CRLF @ ''VALUE k 7 2'' @ CRLF @ ''42'' @ CRLF @ ''END'' @ CRLF"
    by (simp add: demo_map_def value_block_def value_line_def print_u32_def CRLF_def)
  from session_get_any_size [OF i t(1) demo_world_crel k, of demo_vs 0, unfolded t(2) g] show ?thesis
    by (auto simp: CRLF_def)
qed

end
