(* ===== verification/Commands.thy ===== *)
theory Commands
  imports Storing
begin

text \<open>
  The commands that answer in one line: \<open>incr\<close>, \<open>decr\<close>, \<open>touch\<close>, \<open>flush_all\<close> and unknown ones.
  \<open>incr\<close>, \<open>decr\<close>, \<open>touch\<close> and \<open>flush_all\<close> do not set the state of the session when they succeed,
  so the loop dispatches the same command once more on what is left of its line.
\<close>

section \<open>A command that is dispatched twice\<close>

lemma token_again: "token l = [] \<Longrightarrow> token (after_token l) = []"
proof -
  assume t: "token l = []"
  define z where "z = dropWhile blank l"
  have "z = [] \<or> stop (hd z)" using t by (cases z) (auto simp: token_def z_def split: if_splits)
  moreover have "z = [] \<or> \<not> blank (hd z)" unfolding z_def using hd_dropWhile by blast
  ultimately show ?thesis by (cases z) (auto simp: token_def after_token_def z_def [symmetric])
qed

definition counting :: "bytes set" where
  "counting = {''incr'', ''decr'', ''touch''}"

lemma missing_key_again:
  assumes "tok_ok (sarr s) (cmd s)" "buf_bytes (sarr s) (cmd s) \<in> counting"
    and "line_ok (sarr s) (args s)" "token (line s) = []" "flat (obuf s)" "fits s (error_text ''missing key'')"
  obtains k a where "dispatch v (s, w) =
    Inr (None, ((emit (s\<lparr>args := a, key_s := k\<rparr>) (error_text ''missing key''))\<lparr>state := session_write_result\<rparr>, w))"
proof -
  obtain k a where k: "parse_key (s, w) =
      Inr (None, ((emit (s\<lparr>args := a, key_s := k\<rparr>) (error_text ''missing key''))\<lparr>state := session_write_result\<rparr>, w))"
    by (rule parse_key_missing [OF assms(3-6)])
  have "dispatch v (s, w) \<in> {incr_decr v True (s, w), incr_decr v False (s, w), touch v (s, w)}"
    using dispatch_ok [OF assms(1) refl, of v w] assms(2) by (auto simp: counting_def)
  then show thesis using that k by (auto simp: incr_decr_def touch_def)
qed

text \<open>The reply of such a command is followed by an error.\<close>

lemma double_reply:
  assumes "loop_step (vs i) (s, w) = Inr (Running, (s1, w))" "ready_cmd s1" "buf_bytes (sarr s1) (cmd s1) \<in> counting"
    and d: "dispatch (vs (Suc i)) (s1, w) = Inr (Some False, (s2, w'))"
    and s2: "s2 = emit (s1\<lparr>args := a, key_s := kb\<rparr>) msg" "line_ok (sarr s1) a" "token (buf_bytes (sarr s1) a) = []"
    and len: "length msg + 40 \<le> 4096"
  shows "\<exists>s'. loop vs i (s, w) = Some (Inr (Blocked, i + 4, (s', w'))) \<and>
    io s' = WriteReq (msg @ error_text ''missing key'') \<and> ibuf s' = ibuf s1 \<and> state s' = session_write_prompt"
proof -
  let ?e = "error_text ''missing key''"
  have r: "flat (obuf s1)" "used (obuf s1) = 0" "max_size (obuf s1) = 4096" "\<not> noreply s1" "state s1 = session_execute_command"
    "tok_ok (sarr s1) (cmd s1)" using assms(2) by (simp_all add: ready_cmd_def buffer_size_def)
  have le: "length ?e = 28" by (simp add: error_text_def CRLF_def)
  let ?s1 = "s1\<lparr>args := a, key_s := kb\<rparr>"
  have f1: "flat (obuf ?s1)" "fits ?s1 msg" using r len by (simp_all add: fits_def)
  note e = emit_flat [OF f1]
  have f2: "flat (obuf s2)" "fits s2 ?e" "state s2 = session_execute_command" "used (obuf s2) = length msg" "\<not> noreply s2"
    unfolding s2(1) using e r len le by (simp_all add: fits_def)
  obtain k a' where d2: "dispatch (vs (Suc (Suc i))) (s2, w') =
      Inr (None, ((emit (s2\<lparr>args := a', key_s := k\<rparr>) ?e)\<lparr>state := session_write_result\<rparr>, w'))"
    by (rule missing_key_again [OF _ _ _ _ f2(1,2)]) (use s2 r(6) assms(3) in simp_all)
  let ?s3 = "(emit (s2\<lparr>args := a', key_s := k\<rparr>) ?e)\<lparr>state := session_write_result\<rparr>"
  have "out s1 = []" using r(1,2) length_buffer_bytes [of "obuf s1"] flatD [OF r(1)] by (simp add: out_def)
  then have "out s2 = msg" unfolding s2(1) using e(4) r(4) by (simp add: out_def)
  moreover have "flat (obuf (s2\<lparr>args := a', key_s := k\<rparr>))" "fits (s2\<lparr>args := a', key_s := k\<rparr>) ?e" using f2(1,2) by (simp_all add: fits_def)
  ultimately have o: "out ?s3 = msg @ ?e" "used (obuf ?s3) \<noteq> 0"
    using emit_flat [of "s2\<lparr>args := a', key_s := k\<rparr>" ?e] f2(5) le by (simp_all add: out_def)
  have st: "loop_step (vs (Suc i)) (s1, w) = Inr (Running, (s2, w'))" "loop_step (vs (Suc (Suc i))) (s2, w') = Inr (Running, (?s3, w'))"
    using step_dispatch(1) [OF r(5) d] step_dispatch(1) [OF f2(3) d2] by simp_all
  have "loop vs i (s, w) = Some (Inr (Blocked, i + 4, (?s3\<lparr>state := session_write_prompt, io := WriteReq (msg @ ?e)\<rparr>, w')))"
    using loop_running [of vs i, OF assms(1)] loop_running [of vs "Suc i", OF st(1)] loop_running [of vs "Suc (Suc i)", OF st(2)]
      loop_write_result [of ?s3 vs "Suc (Suc (Suc i))" w'] o by (simp add: eval_nat_numeral)
  then show ?thesis by (simp add: s2(1))
qed

section \<open>Counting\<close>

lemma crel_numeric:
  assumes "crel w m" "\<And>it. m k = Some it \<Longrightarrow> item_number it \<noteq> None"
  shows "numeric_value w k"
  unfolding numeric_value_def
proof (intro allI impI)
  fix t e xs
  assume a: "wtab w (entries_p (wcache w)) = Some t" "went w (tfind t k) = Some e" "entry_ok (wmem w) e xs"
  obtain own t' where c: "wtab w (entries_p (wcache w)) = Some t'" "tinv t' (wmem w) (went w) (wnewer w) (wgc w) own"
    "m = tmap t' (wmem w) (went w) own" by (rule crelE [OF assms(1)])
  have t: "t' = t" "tfind t k = vref t k" using a(1) c tinv_tfind by auto
  have i: "entry_inv (wmem w) (wnewer w) (wgc w) own (vref t k) e" using tinvD(2) [OF c(2)] a(2) t by simp
  then have x: "xs = own (vref t k)" using entry_ok_unique a(3) by (auto simp: entry_inv_def)
  have "vref t k \<noteq> 0" using i by (auto simp: entry_inv_def)
  then have "m k = Some (item_of (wmem w) e xs)" using c(3) t a(2) x by (simp add: tmap_def Let_def)
  from assms(2) [OF this] show "parse_number (contents (wmem w) xs) \<noteq> None"
    by (simp add: item_number_def item_of_def contents_def)
qed

definition counted :: "bool \<Rightarrow> u64 \<Rightarrow> u64 \<Rightarrow> u64" where
  "counted incr a d = (if incr then of_nat (unat a + unat d) else of_nat (unat a - unat d))"

lemma counted_code:
  "(if incr then cache_incr v w k d else cache_decr v w k d) = Inr (c, Some n, w') \<Longrightarrow> c = stored"
  by (auto simp: cache_incr_def cache_decr_def res_simps split: if_splits prod.splits)

lemma counted_on_map:
  assumes "crel w m" "fresh_chunk w v" "m k = Some it" "item_number it = Some a"
  obtains w' where "(if incr then cache_incr v w k d else cache_decr v w k d) = Inr (stored, Some (counted incr a d), w')"
    "crel w' (m(k \<mapsto> it\<lparr>i_chunks := [print_u64 (counted incr a d)]\<rparr>))"
proof -
  have n: "numeric_value w k" by (rule crel_numeric [OF assms(1)]) (use assms(3,4) in simp)
  let ?op = "if incr then OIncr v k d else ODecr v k d"
  have "refines w m ?op" by (rule cexec_refines [OF assms(1)]) (use assms(2) n in simp)
  then obtain r w' m' where x: "cexec w ?op = Inr (r, w')" "aspec m ?op r m'" "crel w' m'" by (auto simp: refines_def)
  have r: "r = RNumber (counted incr a d)" "m' = m(k \<mapsto> it\<lparr>i_chunks := [print_u64 (counted incr a d)]\<rparr>)"
    using x(2) assms(3,4) by (auto simp: counted_def split: if_splits)
  have "number (if incr then cache_incr v w k d else cache_decr v w k d) = Inr (RNumber (counted incr a d), w')"
    using x(1) r(1) by (cases incr) simp_all
  then obtain c where "(if incr then cache_incr v w k d else cache_decr v w k d) = Inr (c, Some (counted incr a d), w')"
    by (auto simp: number_def res_simps split: prod.splits option.splits)
  then show thesis using that x(3) r(2) counted_code [of incr v w k d] by blast
qed

lemma args_first: "s\<lparr>key_s := kb, args := a\<rparr> = s\<lparr>args := a, key_s := kb\<rparr>"
  by simp

lemma count_parsed:
  assumes "line_ok (sarr s) (args s)" "token (line s) = k" "k \<noteq> []" "int_arg (after_token (line s)) = Some (d, l3)" "token l3 = []"
  obtains a kb a' a'' where "line_ok (sarr s) a" "token (buf_bytes (sarr s) a) = []" "buf_bytes (sarr s) kb = k"
    "parse_key (s, w) = Inr (Some (), (s\<lparr>args := a', key_s := kb\<rparr>, w))"
    "take_int (s\<lparr>args := a', key_s := kb\<rparr>, w) = Inr (Some (Some d), (s\<lparr>args := a'', key_s := kb\<rparr>, w))"
    "parse_noreply (s\<lparr>args := a'', key_s := kb\<rparr>, w) = Inr (Some (), (s\<lparr>args := a, key_s := kb\<rparr>, w))"
proof -
  obtain kb a1 where k: "parse_key (s, w) = Inr (Some (), (s\<lparr>args := a1, key_s := kb\<rparr>, w))" "line_ok (sarr s) a1" "tok_ok (sarr s) kb"
    "buf_bytes (sarr s) kb = token (line s)" "buf_bytes (sarr s) a1 = after_token (line s)"
    by (rule parse_key_ok [OF assms(1)]) (use assms(2,3) in simp)
  let ?s1 = "s\<lparr>args := a1, key_s := kb\<rparr>"
  obtain a2 where a2: "take_int (?s1, w) = Inr (Some (Some d), (?s1\<lparr>args := a2\<rparr>, w))" "line_ok (sarr ?s1) a2" "buf_bytes (sarr ?s1) a2 = l3"
    by (rule take_int_ok [of ?s1 d l3]) (use k assms(4) in simp_all)
  let ?s2 = "?s1\<lparr>args := a2\<rparr>"
  obtain a3 where a3: "parse_noreply (?s2, w) = Inr (Some (), (?s2\<lparr>args := a3\<rparr>, w))" "line_ok (sarr ?s2) a3"
    "buf_bytes (sarr ?s2) a3 = after_token (line ?s2)"
    by (rule parse_noreply_none [of ?s2 w]) (use a2 assms(5) in simp_all)
  show thesis by (rule that [of a3 kb a1 a2]) (use k a2 a3 token_again [OF assms(5)] assms(2) in \<open>simp_all add: args_first\<close>)
qed

text \<open>
  C27: \<open>incr\<close> and \<open>decr\<close> of a key that holds a number: the value is replaced by the decimal text of
  the sum modulo $2^{64}$, or of the difference, not below zero, and no other key changes. But the
  handler leaves the session in the state that dispatches the command, so the number in the reply
  is followed by the error \<open>missing key\<close>: the client gets two replies to one command.
\<close>

theorem session_incr_decr:
  assumes "idle s l rest" and "token l = (if incr then ''incr'' else ''decr'')" and "token (after_token l) = k" and "k \<noteq> []"
    and "int_arg (after_token (after_token l)) = Some (d, l3)" and "token l3 = []"
    and "crel w m" and "m k = Some it" and "item_number it = Some a" and "fresh_chunk w (env.truncate (vs (i + 1)))"
  shows "\<exists>s' w'. loop vs i (s, w) = Some (Inr (Blocked, i + 4, (s', w'))) \<and>
    io s' = WriteReq (print_u64 (counted incr a d) @ CRLF @ error_text ''missing key'') \<and>
    crel w' (m(k \<mapsto> it\<lparr>i_chunks := [print_u64 (counted incr a d)]\<rparr>)) \<and>
    buffer_bytes (ibuf s') = rest \<and> state s' = session_write_prompt"
proof -
  obtain s1 where s1: "loop_step (vs i) (s, w) = Inr (Running, (s1, w))" "ready_cmd s1" "line s1 = after_token l"
    "buf_bytes (sarr s1) (cmd s1) = token l" "buffer_bytes (ibuf s1) = rest"
    by (rule read_command_ok [OF assms(1)])
  have r: "line_ok (sarr s1) (args s1)" "tok_ok (sarr s1) (cmd s1)" "flat (obuf s1)" using s1(2) by (simp_all add: ready_cmd_def)
  obtain ar kb a1 a2 where p: "line_ok (sarr s1) ar" "token (buf_bytes (sarr s1) ar) = []" "buf_bytes (sarr s1) kb = k"
    "parse_key (s1, w) = Inr (Some (), (s1\<lparr>args := a1, key_s := kb\<rparr>, w))"
    "take_int (s1\<lparr>args := a1, key_s := kb\<rparr>, w) = Inr (Some (Some d), (s1\<lparr>args := a2, key_s := kb\<rparr>, w))"
    "parse_noreply (s1\<lparr>args := a2, key_s := kb\<rparr>, w) = Inr (Some (), (s1\<lparr>args := ar, key_s := kb\<rparr>, w))"
    by (rule count_parsed [OF r(1), of k d l3 w]) (use assms(3-6) s1(3) in simp_all)
  let ?s = "s1\<lparr>args := ar, key_s := kb\<rparr>" and ?n = "counted incr a d" and ?v = "vs (Suc i)"
  have kb: "key_bytes ?s = k" using p(3) by (simp add: key_bytes_def sarr_def)
  obtain w' where w': "(if incr then cache_incr (env.truncate ?v) w k d else cache_decr (env.truncate ?v) w k d) = Inr (stored, Some ?n, w')"
    "crel w' (m(k \<mapsto> it\<lparr>i_chunks := [print_u64 ?n]\<rparr>))"
    by (rule counted_on_map [OF assms(7) _ assms(8,9)]) (use assms(10) in simp)
  have len: "length (print_u64 ?n @ CRLF) + 40 \<le> 4096" using length_print_u64 [of ?n] by (simp add: CRLF_def)
  then have "fits ?s (print_u64 ?n @ CRLF)" using ready_fits [OF s1(2), of "print_u64 ?n @ CRLF"] by (simp add: fits_def)
  then have "sendf (print_u64 ?n) (?s, w') = Inr (Some (), (emit ?s (print_u64 ?n @ CRLF), w'))" by (intro sendf_ok) (use r(3) in simp_all)
  then have "incr_decr ?v incr (s1, w) = Inr (Some False, (emit ?s (print_u64 ?n @ CRLF), w'))"
    using p(4-6) w'(1) kb by (cases incr) (simp_all add: incr_decr_def take_u64_int)
  then have d: "dispatch ?v (s1, w) = Inr (Some False, (emit ?s (print_u64 ?n @ CRLF), w'))"
    using dispatch_ok [OF r(2) s1(4)] assms(2) by (cases incr) simp_all
  have c: "buf_bytes (sarr s1) (cmd s1) \<in> counting" using s1(4) assms(2) by (cases incr) (simp_all add: counting_def)
  from double_reply [where vs = vs and i = i, OF s1(1,2) c d refl p(1,2) len] w'(2) s1(5) show ?thesis by auto
qed

definition demo_vs3 :: "nat \<Rightarrow> senv" where
  "demo_vs3 i = (demo_vs i)\<lparr>v_raw := replicate 32 NUL\<rparr>"

theorem session_incr_decr_witness:
  "\<exists>s' w'. loop demo_vs3 0 (demo_sess (''incr k 8'' @ CRLF), demo_world) = Some (Inr (Blocked, 4, (s', w'))) \<and>
     io s' = WriteReq (''50'' @ CRLF @ ''CLIENT ERROR missing key'' @ CRLF @ CRLF) \<and>
     crel w' [''k'' \<mapsto> \<lparr>i_flags = 7, i_exptime = 0, i_chunks = [''50'']\<rparr>]"
proof -
  let ?l = "''incr k 8'' @ CRLF"
  have i: "idle (demo_sess (?l @ [])) ?l []" by (rule demo_idle) (simp_all add: CRLF_def)
  have t: "token ?l = (if True then ''incr'' else ''decr'')" "token (after_token ?l) = ''k''"
    "int_arg (after_token (after_token ?l)) = Some (8, CRLF)" "token CRLF = []"
    by (simp_all add: token_def after_token_def blank_def stop_def NUL_def CRLF_def int_arg_def c_isspace_def
        conversion_def c_isdigit_def digits_val_def digit_val_def is_terminal_def is_whitespace_def)
  have m: "demo_map ''k'' = Some \<lparr>i_flags = 7, i_exptime = 0, i_chunks = [''42'']\<rparr>"
    "item_number \<lparr>i_flags = 7, i_exptime = 0, i_chunks = [''42'']\<rparr> = Some 42"
    by (simp add: demo_map_def) code_simp
  have f: "fresh_chunk demo_world (env.truncate (demo_vs3 (0 + 1)))"
    using demo_world_facts(4) by (simp add: fresh_chunk_def demo_vs3_def demo_vs_def env.truncate_def domIff)
  have p: "print_u64 (counted True 42 8) = ''50''" by code_simp
  have u: "demo_map(''k'' \<mapsto> x) = [''k'' \<mapsto> x]" for x by (simp add: demo_map_def)
  from session_incr_decr [where vs = demo_vs3, OF i t(1,2) _ t(3,4) demo_world_crel m f, unfolded u p]
  show ?thesis by (auto simp: error_text_def)
qed

section \<open>Touching\<close>

lemma touched_on_map:
  assumes "crel w m"
  obtains c w' where "cache_touch v w k x = Inr (c, w')" "crel w' (m(k := map_option (\<lambda>it. it\<lparr>i_exptime := x\<rparr>) (m k)))"
proof -
  have "refines w m (OTouch v k x)" by (rule cexec_refines [OF assms]) simp
  then obtain c w' m' where t: "cache_touch v w k x = Inr (c, w')" "aspec m (OTouch v k x) (RCode c) m'" "crel w' m'"
    by (auto simp: refines_def code_def res_simps split: prod.splits)
  have "m' = m(k := map_option (\<lambda>it. it\<lparr>i_exptime := x\<rparr>) (m k))" using t(2) by (cases "m k") (auto simp: fun_upd_idem)
  then show thesis using that t by simp
qed

text \<open>
  C28: \<open>touch\<close>: the expiry time of the key's item is replaced (by the low 32 bits of the number), its
  data and every other key stay. The reply is \<open>TOUCHED\<close> even when the key has no item, and the
  error \<open>missing key\<close> follows it.
\<close>

theorem session_touch:
  assumes "idle s l rest" and "token l = ''touch''" and "token (after_token l) = k" and "k \<noteq> []"
    and "int_arg (after_token (after_token l)) = Some (d, l3)" and "token l3 = []" and "crel w m"
  shows "\<exists>s' w'. loop vs i (s, w) = Some (Inr (Blocked, i + 4, (s', w'))) \<and>
    io s' = WriteReq (''TOUCHED'' @ CRLF @ error_text ''missing key'') \<and>
    crel w' (m(k := map_option (\<lambda>it. it\<lparr>i_exptime := ucast d\<rparr>) (m k))) \<and>
    buffer_bytes (ibuf s') = rest \<and> state s' = session_write_prompt"
proof -
  obtain s1 where s1: "loop_step (vs i) (s, w) = Inr (Running, (s1, w))" "ready_cmd s1" "line s1 = after_token l"
    "buf_bytes (sarr s1) (cmd s1) = token l" "buffer_bytes (ibuf s1) = rest"
    by (rule read_command_ok [OF assms(1)])
  have r: "line_ok (sarr s1) (args s1)" "tok_ok (sarr s1) (cmd s1)" "flat (obuf s1)" using s1(2) by (simp_all add: ready_cmd_def)
  obtain ar kb a1 a2 where p: "line_ok (sarr s1) ar" "token (buf_bytes (sarr s1) ar) = []" "buf_bytes (sarr s1) kb = k"
    "parse_key (s1, w) = Inr (Some (), (s1\<lparr>args := a1, key_s := kb\<rparr>, w))"
    "take_int (s1\<lparr>args := a1, key_s := kb\<rparr>, w) = Inr (Some (Some d), (s1\<lparr>args := a2, key_s := kb\<rparr>, w))"
    "parse_noreply (s1\<lparr>args := a2, key_s := kb\<rparr>, w) = Inr (Some (), (s1\<lparr>args := ar, key_s := kb\<rparr>, w))"
    by (rule count_parsed [OF r(1), of k d l3 w]) (use assms(3-6) s1(3) in simp_all)
  let ?s = "s1\<lparr>args := ar, key_s := kb\<rparr>" and ?v = "vs (Suc i)"
  have kb: "key_bytes ?s = k" using p(3) by (simp add: key_bytes_def sarr_def)
  obtain c w' where w': "cache_touch (env.truncate ?v) w k (ucast d) = Inr (c, w')"
    "crel w' (m(k := map_option (\<lambda>it. it\<lparr>i_exptime := ucast d\<rparr>) (m k)))" by (rule touched_on_map [OF assms(7)])
  have len: "length (''TOUCHED'' @ CRLF) + 40 \<le> 4096" by (simp add: CRLF_def)
  have "fits ?s (''TOUCHED'' @ CRLF)" using ready_fits [OF s1(2), of "''TOUCHED'' @ CRLF"] len by (simp add: fits_def)
  then have "sendln ''TOUCHED'' (?s, w') = Inr (Some (), (emit ?s (''TOUCHED'' @ CRLF), w'))" by (intro sendln_ok) (use r(3) in simp_all)
  then have "touch ?v (s1, w) = Inr (Some False, (emit ?s (''TOUCHED'' @ CRLF), w'))"
    using p(4-6) w'(1) kb by (simp add: touch_def)
  then have d: "dispatch ?v (s1, w) = Inr (Some False, (emit ?s (''TOUCHED'' @ CRLF), w'))"
    using dispatch_ok [OF r(2) s1(4)] assms(2) by simp
  have c: "buf_bytes (sarr s1) (cmd s1) \<in> counting" using s1(4) assms(2) by (simp add: counting_def)
  from double_reply [where vs = vs and i = i, OF s1(1,2) c d refl p(1,2) len] w'(2) s1(5) show ?thesis by auto
qed

theorem session_touch_witness:
  "\<exists>s' w'. loop demo_vs 0 (demo_sess (''touch k 8'' @ CRLF), demo_world) = Some (Inr (Blocked, 4, (s', w'))) \<and>
     io s' = WriteReq (''TOUCHED'' @ CRLF @ ''CLIENT ERROR missing key'' @ CRLF @ CRLF) \<and>
     crel w' [''k'' \<mapsto> \<lparr>i_flags = 7, i_exptime = 8, i_chunks = [''42'']\<rparr>]"
proof -
  let ?l = "''touch k 8'' @ CRLF"
  have i: "idle (demo_sess (?l @ [])) ?l []" by (rule demo_idle) (simp_all add: CRLF_def)
  have t: "token ?l = ''touch''" "token (after_token ?l) = ''k''" "int_arg (after_token (after_token ?l)) = Some (8, CRLF)" "token CRLF = []"
    by (simp_all add: token_def after_token_def blank_def stop_def NUL_def CRLF_def int_arg_def c_isspace_def
        conversion_def c_isdigit_def digits_val_def digit_val_def is_terminal_def is_whitespace_def)
  have u: "demo_map(''k'' := map_option (\<lambda>it. it\<lparr>i_exptime := ucast (8 :: u64)\<rparr>) (demo_map ''k'')) =
      [''k'' \<mapsto> \<lparr>i_flags = 7, i_exptime = 8, i_chunks = [''42'']\<rparr>]" by (simp add: demo_map_def)
  from session_touch [where vs = demo_vs, OF i t(1,2) _ t(3,4) demo_world_crel, of 0, unfolded u]
  show ?thesis by (auto simp: error_text_def)
qed

section \<open>Flushing\<close>

text \<open>
  A \<open>flush_all\<close> that has consumed its line: what follows the command in the input buffer does not
  start with a number.
\<close>

definition spins :: "ss \<Rightarrow> bool" where
  "spins sw \<longleftrightarrow> (case sw of (s, w) \<Rightarrow>
     state s = session_execute_command \<and> tok_ok (sarr s) (cmd s) \<and> buf_bytes (sarr s) (cmd s) = ''flush_all'' \<and>
     line_ok (sarr s) (args s) \<and> (\<forall>c \<in> set (line s). is_whitespace c) \<and>
     (\<exists>sp c r. drop (b_tail (args s)) (sarr s) = sp @ c # r \<and> (\<forall>x \<in> set sp. c_isspace x) \<and>
        \<not> c_isspace c \<and> \<not> c_isdigit c \<and> c \<noteq> CHR ''-'' \<and> c \<noteq> CHR ''+''))"

lemma whitespace_token: "\<forall>c \<in> set l. is_whitespace c \<Longrightarrow> token l = [] \<and> (\<forall>c \<in> set (after_token l). is_whitespace c)"
proof (intro conjI ballI)
  assume w: "\<forall>c \<in> set l. is_whitespace c"
  then have "stop c" if "c \<in> set (dropWhile blank l)" for c
    using set_dropWhileD [OF that] by (auto simp: stop_def is_whitespace_def)
  then show "token l = []" unfolding token_def by (cases "dropWhile blank l") (simp_all del: dropWhile_eq_Nil_conv)
  fix c assume "c \<in> set (after_token l)"
  then show "is_whitespace c" using w unfolding after_token_def by (blast dest: set_dropWhileD)
qed

lemma spins_step:
  assumes "spins (s, w)"
  obtains sw' where "loop_step v (s, w) = Inr (Running, sw')" "spins sw'"
proof -
  obtain sp c r where s: "state s = session_execute_command" "tok_ok (sarr s) (cmd s)" "buf_bytes (sarr s) (cmd s) = ''flush_all''"
    "line_ok (sarr s) (args s)" "\<forall>c \<in> set (line s). is_whitespace c" "drop (b_tail (args s)) (sarr s) = sp @ c # r"
    "\<forall>x \<in> set sp. c_isspace x" "\<not> c_isspace c" "\<not> c_isdigit c" "c \<noteq> CHR ''-''" "c \<noteq> CHR ''+''"
    using assms by (auto simp: spins_def)
  have sp: "\<forall>c \<in> set (buf_bytes (sarr s) (args s)). c_isspace c" using s(5) by (auto simp: line_def is_whitespace_def c_isspace_def)
  obtain b where b: "consume_int (sarr s) (args s) = Inr (None, b)" "line_ok (sarr s) b" "b_tail b = b_tail (args s)"
    "\<exists>n. buf_bytes (sarr s) b = drop n (buf_bytes (sarr s) (args s))"
    by (rule consume_int_absent [OF s(4) sp s(6-11)])
  let ?s1 = "s\<lparr>args := b\<rparr>"
  have w1: "\<forall>c \<in> set (line ?s1). is_whitespace c" using b(4) s(5) by (auto simp: line_def dest!: in_set_dropD)
  have i: "take_int (s, w) = Inr (Some None, (?s1, w))" using b(1) by (simp add: take_int_def lift_s_def sarr_def)
  obtain t a where t: "take_token (?s1, w) = Inr (Some t, (?s1\<lparr>args := a\<rparr>, w))" "line_ok (sarr ?s1) a" "tok_ok (sarr ?s1) t"
    "buf_bytes (sarr ?s1) t = token (line ?s1)" "buf_bytes (sarr ?s1) a = after_token (line ?s1)" "b_tail a = b_tail (args ?s1)"
    by (rule take_token_ok [of ?s1]) (use b(2) in simp_all)
  let ?w = "cache_flush_all (env.truncate v) w 0"
  have "flush_all v (s, w) = Inr (Some False, (s\<lparr>args := a\<rparr>, ?w))"
    using i t(1) whitespace_token [OF w1] tok_ok_empty [OF t(3)] t(4) by (simp add: flush_all_def parse_noreply_def lift_w_def)
  then have "loop_step v (s, w) = Inr (Running, (s\<lparr>args := a\<rparr>, ?w))"
    using dispatch_ok [OF s(2,3), of v w] step_dispatch(1) [OF s(1)] by simp
  moreover have "spins (s\<lparr>args := a\<rparr>, ?w)"
    using s t(2,5,6) b(3) whitespace_token [OF w1] by (auto simp: spins_def)
  ultimately show thesis by (rule that)
qed

text \<open>
  C29: \<open>flush_all\<close> without a delay: unless a number happens to follow it in the input buffer, the
  session dispatches the command again and again and never returns to its service, for every
  sequence of clock readings.
\<close>

theorem session_flush_all_hangs:
  assumes "idle s l rest" and "token l = ''flush_all''" and "\<forall>c \<in> set (after_token l). is_whitespace c"
    and "drop (bf_head (ibuf s) + length l) (bf_b (ibuf s)) = sp @ c # r" and "\<forall>x \<in> set sp. c_isspace x"
    and "\<not> c_isspace c" and "\<not> c_isdigit c" and "c \<noteq> CHR ''-''" and "c \<noteq> CHR ''+''"
  shows "loop vs i (s, w) = None"
proof -
  obtain s1 where s1: "loop_step (vs i) (s, w) = Inr (Running, (s1, w))" "ready_cmd s1" "line s1 = after_token l"
    "buf_bytes (sarr s1) (cmd s1) = token l" "sarr s1 = sarr s" "b_tail (args s1) = bf_head (ibuf s) + length l"
    by (rule read_command_ok [OF assms(1)])
  have "spins (s1, w)" using s1(2-6) assms(2-9) unfolding ready_cmd_def spins_def sarr_def by auto
  moreover have "\<exists>sw'. loop_step (vs i) sw = Inr (Running, sw') \<and> spins sw'" if "spins sw" for i sw
    using spins_step [of "fst sw" "snd sw" "vs i"] that by (metis prod.collapse)
  ultimately have "loop vs (Suc i) (s1, w) = None" by (intro loop_diverges [of spins])
  then show ?thesis using loop_running [of vs i, OF s1(1)] by simp
qed

theorem session_flush_all_hangs_witness: "loop demo_vs 0 (demo_sess (''flush_all'' @ CRLF), demo_world) = None"
proof -
  let ?l = "''flush_all'' @ CRLF"
  have i: "idle (demo_sess (?l @ [])) ?l []" by (rule demo_idle) (simp_all add: CRLF_def)
  have t: "token ?l = ''flush_all''" "\<forall>c \<in> set (after_token ?l). is_whitespace c"
    by (simp_all add: token_def after_token_def blank_def stop_def NUL_def CRLF_def is_whitespace_def)
  have d: "drop (bf_head (ibuf (demo_sess (?l @ []))) + length ?l) (bf_b (ibuf (demo_sess (?l @ [])))) =
      [] @ NUL # replicate 4084 NUL"
    by (simp add: demo_sess_def CRLF_def replicate_Suc [symmetric] del: replicate_Suc)
  show ?thesis
    using session_flush_all_hangs [OF i t d, of demo_vs 0 demo_world]
    by (simp add: NUL_def c_isspace_def c_isdigit_def)
qed

section \<open>Unknown commands\<close>

definition command_names :: "bytes set" where
  "command_names = {''get'', ''gets'', ''set'', ''add'', ''replace'', ''append'', ''prepend'', ''incr'', ''decr'', ''delete'',
     ''cas'', ''touch'', ''flush_all'', ''version'', ''stats'', ''quit''}"

definition unknown_text :: "bytes \<Rightarrow> bytes" where
  "unknown_text name = error_text (''unknown command: '' @ [CHR 0x27] @ name @ [CHR 0x27])"

text \<open>
  C30: A word that is no command is answered with an error that quotes it, and the cache is left
  alone. A command line may be as long as the input buffer, but the error text has to fit the
  output buffer of the same size: when the word is longer than 4060 bytes, the exception of
  \<open>buffer::notify_write\<close> leaves the loop, and nothing above it catches it.
\<close>

theorem session_unknown:
  assumes "idle s l rest" and "token l \<noteq> []" and "token l \<notin> command_names"
  shows "\<exists>s'. loop vs i (s, w) =
      (if length (token l) \<le> 4060 then Some (Inr (Blocked, i + 3, (s', w))) else Some (Inl BufferError)) \<and>
    io s' = WriteReq (unknown_text (token l)) \<and> buffer_bytes (ibuf s') = rest \<and> state s' = session_write_prompt"
proof -
  obtain s1 where s1: "loop_step (vs i) (s, w) = Inr (Running, (s1, w))" "ready_cmd s1" "line s1 = after_token l"
    "buf_bytes (sarr s1) (cmd s1) = token l" "buffer_bytes (ibuf s1) = rest"
    by (rule read_command_ok [OF assms(1)])
  have r: "tok_ok (sarr s1) (cmd s1)" "flat (obuf s1)" "used (obuf s1) = 0" "max_size (obuf s1) = 4096" "\<not> noreply s1"
    "state s1 = session_execute_command" using s1(2) by (simp_all add: ready_cmd_def buffer_size_def)
  let ?t = "''unknown command: '' @ [CHR 0x27] @ token l @ [CHR 0x27]"
  let ?s = "s1\<lparr>state := session_write_prompt, io := WriteReq (unknown_text (token l))\<rparr>"
  let ?s4 = "(emit s1 (unknown_text (token l)))\<lparr>state := session_write_result\<rparr>"
  have d: "dispatch (vs (Suc i)) (s1, w) = client_error ?t (s1, w)"
    using dispatch_ok [OF r(1) s1(4) assms(2), of "vs (Suc i)" w] assms(3) by (simp add: command_names_def)
  have len: "length (unknown_text (token l)) = length (token l) + 36" by (simp add: unknown_text_def error_text_def CRLF_def)
  have fit: "fits s1 (error_text ?t) \<longleftrightarrow> length (token l) \<le> 4060" using len r(3-5) by (auto simp: fits_def unknown_text_def)
  show ?thesis
  proof (cases "length (token l) \<le> 4060")
    case True
    then have "dispatch (vs (Suc i)) (s1, w) = Inr (None, (?s4, w))"
      using d client_error_ok [OF r(2), of ?t w] fit by (simp add: unknown_text_def)
    moreover have "unknown_text (token l) \<noteq> []" using len by auto
    ultimately have "loop vs i (s, w) = Some (Inr (Blocked, i + 3, (?s4\<lparr>state := session_write_prompt, io := WriteReq (unknown_text (token l))\<rparr>, w)))"
      using command_reply [where vs = vs and i = i, OF s1(1,2) _ _ refl refl refl] len True by simp
    then show ?thesis using True s1(5) by simp
  next
    case False
    then have "loop_step (vs (Suc i)) (s1, w) = Inl BufferError"
      using d client_error_full [OF r(2), of ?t w] fit by (intro step_dispatch(2) [OF r(6)]) simp
    then have "loop vs i (s, w) = Some (Inl BufferError)" using loop_running [of vs i, OF s1(1)] loop_fails by simp
    then show ?thesis using False s1(5) by (intro exI [of _ ?s]) simp
  qed
qed

theorem session_unknown_witness:
  "loop demo_vs 0 (demo_sess (replicate 4094 (CHR ''x'') @ CRLF), demo_world) = Some (Inl BufferError)"
proof -
  let ?x = "replicate 4094 (CHR ''x'')"
  have x: "c = CHR ''x''" if "c \<in> set ?x" for c using that by simp
  have s: "\<not> stop (CHR ''x'')" "\<not> blank (CHR ''x'')" "stop (CHR 0x0D)" by (simp_all add: stop_def blank_def NUL_def)
  have i: "idle (demo_sess ((?x @ CRLF) @ [])) (?x @ CRLF) []"
    by (rule demo_idle) (auto simp: CRLF_def butlast_append simp del: replicate.simps)
  have "dropWhile blank (?x @ CRLF) = ?x @ CRLF" using s(2) by (simp add: dropWhile_append3 CRLF_def) 
  then have t: "token (?x @ CRLF) = ?x"
    unfolding token_def using s(1,3) by (simp add: CRLF_def) (subst takeWhile_append2; simp)
  have n: "?x \<notin> command_names"
  proof
    assume "?x \<in> command_names"
    then have "length ?x \<le> 9" unfolding command_names_def by (elim insertE emptyE) (simp_all del: length_replicate)
    then show False by simp
  qed
  from session_unknown [OF i, unfolded t, OF _ n, of demo_vs 0 demo_world] show ?thesis by auto
qed

end
