(* ===== verification/Session_Inv.thy ===== *)
theory Session_Inv
  imports Session_Lemmas
begin

text \<open>
  Invariants of a session. A locale collects what an invariant has to survive (the few ways in
  which handlers change the session) and concludes that every handler, and so the loop, keeps it.
  It is interpreted twice: for the bounds of the buffers and of the requests to the streams, and
  for the set of states a handler may leave the session in.
\<close>

section \<open>Handlers that keep an invariant\<close>

definition keeps :: "(session \<Rightarrow> bool) \<Rightarrow> 'a handler \<Rightarrow> bool" where
  "keeps P m \<longleftrightarrow> (\<forall>s w x s' w'. P s \<longrightarrow> m (s, w) = Inr (x, (s', w')) \<longrightarrow> P s')"

named_theorems keeps_rules \<open>handlers that keep an invariant\<close>

lemma keepsI: "(\<And>s w x s' w'. P s \<Longrightarrow> m (s, w) = Inr (x, (s', w')) \<Longrightarrow> P s') \<Longrightarrow> keeps P m"
  by (auto simp: keeps_def)

lemma keepsD: "keeps P m \<Longrightarrow> P s \<Longrightarrow> m (s, w) = Inr (x, (s', w')) \<Longrightarrow> P s'"
  unfolding keeps_def by blast

lemma keeps_andthen [keeps_rules]:
  assumes "keeps P m" "\<And>x. keeps P (f x)"
  shows "keeps P (andthen m f)"
proof (rule keepsI)
  fix s w x s' w' assume p: "P s" and a: "andthen m f (s, w) = Inr (x, (s', w'))"
  obtain y s1 w1 where m: "m (s, w) = Inr (y, (s1, w1))" "P s1"
    using a keepsD [OF assms(1) p] by (auto simp: andthen_def rbind_Inr_iff split: prod.splits)
  then show "P s'" using a keepsD [OF assms(2) m(2)] by (cases y) auto
qed

lemma keeps_basic [keeps_rules]:
  "keeps P (ret x)" "keeps P throw" "keeps P (get_s g)" "keeps P (lift_w h)"
  by (auto simp: keeps_def lift_w_def rbind_Inr_iff split: prod.splits)

lemma keeps_if [keeps_rules]: "keeps P m \<Longrightarrow> keeps P n \<Longrightarrow> keeps P (if b then m else n)"
  by simp

lemma keeps_option [keeps_rules]: "keeps P m \<Longrightarrow> (\<And>x. keeps P (f x)) \<Longrightarrow> keeps P (case v of None \<Rightarrow> m | Some x \<Rightarrow> f x)"
  by (cases v) simp_all

lemma keeps_prod [keeps_rules]: "(\<And>x y. keeps P (f x y)) \<Longrightarrow> keeps P (case v of (x, y) \<Rightarrow> f x y)"
  by (cases v) simp

lemma keeps_let [keeps_rules]: "(\<And>x. keeps P (f x)) \<Longrightarrow> keeps P (let x = v in f x)"
  by simp

lemma keeps_upd: "(\<And>s. P s \<Longrightarrow> P (f s)) \<Longrightarrow> keeps P (upd_s f)"
  by (auto simp: keeps_def)

lemma keeps_lift: "(\<And>s x s'. P s \<Longrightarrow> f s = Inr (x, s') \<Longrightarrow> P s') \<Longrightarrow> keeps P (lift_s f)"
  by (auto simp: keeps_def lift_s_def rbind_Inr_iff split: prod.splits)

lemma keeps_switch: "list_all (\<lambda>(a, m). keeps P m) cases \<Longrightarrow> keeps P other \<Longrightarrow> (\<And>b a. keeps P (is_s b a)) \<Longrightarrow> keeps P (switch c cases other)"
  by (induction c cases other rule: switch.induct) (auto intro!: keeps_rules)

section \<open>What an invariant has to survive\<close>

locale session_invariant =
  fixes I :: "session \<Rightarrow> bool" and allowed :: "session_state set"
  assumes frame: "I s \<Longrightarrow> ibuf t = ibuf s \<Longrightarrow> obuf t = obuf s \<Longrightarrow> io t = io s \<Longrightarrow> state t = state s \<Longrightarrow> I t"
    and entered: "I s \<Longrightarrow> st \<in> allowed \<Longrightarrow> I (s\<lparr>state := st\<rparr>)"
    and written: "I s \<Longrightarrow> bf_write (obuf s) msg = Inr ob \<Longrightarrow> I (s\<lparr>obuf := ob\<rparr>)"
    and formatted: "I s \<Longrightarrow> vsnprintf (bf_b (obuf s)) (bf_tail (obuf s)) (available (obuf s)) txt = Inr (n, arr) \<Longrightarrow>
      bf_notify_write ((obuf s)\<lparr>bf_b := arr\<rparr>) n = Inr ob \<Longrightarrow> I (s\<lparr>obuf := ob\<rparr>)"
    and emptied: "I s \<Longrightarrow> I (s\<lparr>obuf := bf_reset (obuf s)\<rparr>)"
    and write_req: "I s \<Longrightarrow> I (s\<lparr>io := WriteReq bs\<rparr>)"
    and consumed: "I s \<Longrightarrow> bf_notify_read (ibuf s) k = Inr (p, ib) \<Longrightarrow> I (s\<lparr>ibuf := ib\<rparr>)"
    and data_req: "I s \<Longrightarrow> k < unat l \<Longrightarrow> I (s\<lparr>io := ReadData a l (l - of_nat k)\<rparr>)"
    and command: "I s \<Longrightarrow> cmd_ready 0 s = Inr (True, s') \<Longrightarrow> state s' = state s \<Longrightarrow> I s'"
    and command_req: "I s \<Longrightarrow> bf_compact (ibuf s) = Inr ib \<Longrightarrow> I (s\<lparr>ibuf := ib, io := ReadCmd (bf_tail ib) (nat (available ib))\<rparr>)"
begin

lemma keeps_frame: "(\<And>s. ibuf (f s) = ibuf s \<and> obuf (f s) = obuf s \<and> io (f s) = io s \<and> state (f s) = state s) \<Longrightarrow> keeps I (upd_s f)"
  using frame by (intro keeps_upd) metis

lemma keeps_state: "st \<in> allowed \<Longrightarrow> keeps I (set_state st)"
  unfolding set_state_def by (rule keeps_upd) (rule entered)

lemma keeps_send_n: "keeps I (send_n msg)"
  unfolding send_n_def by (rule keeps_lift) (auto simp: rbind_Inr_iff intro: written split: if_splits)

lemma keeps_send: "keeps I (send msg)"
  unfolding send_def by (rule keeps_send_n)

lemma keeps_sendln: "keeps I (sendln msg)"
  unfolding sendln_def by (intro keeps_rules keeps_send)

lemma keeps_vsendf: "keeps I (vsendf txt)"
proof -
  have "keeps I (lift_s (\<lambda>s. rbind (vsnprintf (bf_b (obuf s)) (bf_tail (obuf s)) (available (obuf s)) txt) (\<lambda>(n, arr).
         rbind (bf_notify_write ((obuf s)\<lparr>bf_b := arr\<rparr>) n) (\<lambda>o'. Inr ((), s\<lparr>obuf := o'\<rparr>)))))"
    by (rule keeps_lift) (auto simp: rbind_Inr_iff intro: formatted split: prod.splits)
  then show ?thesis unfolding vsendf_def by (intro keeps_rules keeps_send)
qed

lemma keeps_sendf: "keeps I (sendf txt)"
  unfolding sendf_def by (rule keeps_vsendf)

lemma keeps_flush: "keeps I flush"
  unfolding flush_def by (rule keeps_lift) (auto intro: write_req split: if_splits)

lemma keeps_send_async: "keeps I (send_async msg)"
  unfolding send_async_def by (rule keeps_lift) (auto simp: rbind_Inr_iff intro: write_req)

lemma keeps_error: "session_write_result \<in> allowed \<Longrightarrow> keeps I (client_error txt)" "session_write_result \<in> allowed \<Longrightarrow> keeps I (server_error txt)"
  unfolding client_error_def server_error_def by (auto intro!: keeps_rules keeps_send keeps_vsendf keeps_state)

lemma keeps_result: "session_write_result \<in> allowed \<Longrightarrow> keeps I (send_cache_result c)"
  unfolding send_cache_result_def by (intro keeps_rules keeps_sendln keeps_state)

lemma keeps_take: "keeps I take_token" "keeps I take_int" "keeps I take_u64" "keeps I (is_s b a)"
  unfolding take_token_def take_int_def take_u64_def is_s_def
  by (rule keeps_lift; force simp: rbind_Inr_iff intro: frame split: prod.splits)+

lemma keeps_world: "keeps I pop_odata" "keeps I (chunk_data m)" "keeps I (read_entry v e)" "keeps I odata_size" "keeps I (odata_hash seed)"
  unfolding pop_odata_def chunk_data_def read_entry_def odata_size_def odata_hash_def
  by (rule keepsI; auto simp: rbind_Inr_iff intro: frame split: prod.splits)+

lemmas keeps_parts = keeps_rules keeps_state keeps_send_n keeps_send keeps_sendln keeps_vsendf keeps_sendf keeps_flush
  keeps_send_async keeps_error keeps_result keeps_take keeps_world

lemma keeps_parse: "session_write_result \<in> allowed \<Longrightarrow> keeps I parse_noreply" "session_write_result \<in> allowed \<Longrightarrow> keeps I parse_key"
  "session_write_result \<in> allowed \<Longrightarrow> keeps I parse_update"
proof -
  assume a: "session_write_result \<in> allowed"
  show "keeps I parse_noreply" unfolding parse_noreply_def by (intro keeps_parts keeps_frame a) simp
  show k: "keeps I parse_key" unfolding parse_key_def by (intro keeps_parts keeps_frame a) simp
  show "keeps I parse_update" unfolding parse_update_def by (intro k keeps_parts keeps_frame a; simp)
qed

lemma keeps_send_rope: "keeps I (\<lambda>sw. outcome (send_rope sw))"
proof -
  let ?body = "andthen pop_odata (\<lambda>m. if m = 0 then ret False else andthen (chunk_data m) (\<lambda>bs. andthen (send_n bs) (\<lambda>_. ret True)))"
  have b: "keeps I ?body" by (intro keeps_parts)
  have "\<forall>x s' w'. r = Inr (x, (s', w')) \<longrightarrow> I (fst sw) \<longrightarrow> I s'" if "send_rope sw = Some r" for sw r
  proof (rule send_rope.raw_induct [where P = "\<lambda>sw r. \<forall>x s' w'. r = Inr (x, (s', w')) \<longrightarrow> I (fst sw) \<longrightarrow> I s'", OF _ that])
    fix f and sw :: ss and r
    assume f: "\<And>sw r. f sw = Some r \<Longrightarrow> \<forall>x s' w'. r = Inr (x, (s', w')) \<longrightarrow> I (fst sw) \<longrightarrow> I s'"
      and r: "(case ?body sw of Inl e \<Rightarrow> Some (Inl e) | Inr (again, sw) \<Rightarrow>
          if again = Some True then f sw else Some (Inr (map_option (\<lambda>_. ()) again, sw))) = Some r"
    show "\<forall>x s' w'. r = Inr (x, (s', w')) \<longrightarrow> I (fst sw) \<longrightarrow> I s'"
    proof (cases "?body sw")
      case (Inr y)
      then obtain again s1 w1 where y: "?body (fst sw, snd sw) = Inr (again, (s1, w1))" by (cases y) auto
      then show ?thesis using r f [of "(s1, w1)" r] keepsD [OF b _ y] by (auto split: if_splits)
    qed (use r in auto)
  qed
  then show ?thesis by (intro keepsI) (auto simp: outcome_def split: option.splits)
qed

lemma keeps_recv_data: "session_execute_write \<in> allowed \<Longrightarrow> keeps I (recv_data v n)"
proof (rule keepsI)
  fix s w x s' w'
  assume a: "session_execute_write \<in> allowed" and i: "I s" and r: "recv_data v n (s, w) = Inr (x, (s', w'))"
  define k where "k = min (unat n) (used (ibuf s))"
  have lt: "k < unat n" if "k \<noteq> unat n" using that by (auto simp: k_def min_def split: if_splits)
  obtain p ib where ib: "bf_notify_read (ibuf s) k = Inr (p, ib)"
    and s': "s' = s\<lparr>idata := v_chunk v, ibuf := ib, state := session_execute_write\<rparr> \<or>
      k < unat n \<and> s' = s\<lparr>idata := v_chunk v, ibuf := ib, state := session_execute_write, io := ReadData (v_chunk v) n (n - of_nat k)\<rparr>"
    using r lt unfolding recv_data_def prod.case Let_def k_def [symmetric] by (auto simp: rbind_Inr_iff split: if_splits)
  have "I (s\<lparr>idata := v_chunk v, ibuf := ib, state := session_execute_write\<rparr>)"
    using frame [OF entered [OF consumed [OF i ib] a]] by simp
  then show "I s'" using s' data_req [of "s\<lparr>idata := v_chunk v, ibuf := ib, state := session_execute_write\<rparr>" k n "v_chunk v"] by auto
qed

lemma keeps_cmd_ready: "session_stopping \<in> allowed \<Longrightarrow> keeps I (lift_s (cmd_ready 0))"
proof (rule keeps_lift)
  fix s x s' assume a: "session_stopping \<in> allowed" and i: "I s" and r: "cmd_ready 0 s = Inr (x, s')"
  consider "x" "state s' = state s" | "s' = s\<lparr>state := session_stopping\<rparr>" | "s' = s"
    using r by (auto simp: cmd_ready_def rbind_Inr_iff split: option.splits prod.splits if_splits)
  then show "I s'" using i r command [of s s'] entered [OF i a] by cases simp_all
qed

lemma keeps_read_request:
  "keeps I (lift_s (\<lambda>s. rbind (bf_compact (ibuf s)) (\<lambda>ib.
     Inr (True, s\<lparr>ibuf := ib, io := ReadCmd (bf_tail ib) (nat (available ib))\<rparr>))))"
  by (rule keeps_lift) (auto simp: rbind_Inr_iff intro: command_req)

lemma keeps_recv_command:
  "session_execute_command \<in> allowed \<Longrightarrow> session_stopping \<in> allowed \<Longrightarrow> keeps I recv_command"
  unfolding recv_command_def by (intro keeps_parts keeps_cmd_ready keeps_read_request keeps_frame) simp_all

lemma keeps_get:
  "session_write_result \<in> allowed \<Longrightarrow> session_write_data \<in> allowed \<Longrightarrow> keeps I (get v cu)"
  unfolding get_def get_found_def by (intro keeps_parts keeps_send_rope)

lemma keeps_commands:
  assumes "session_write_result \<in> allowed"
  shows "keeps I (del v)" "keeps I (incr_decr v incr)" "keeps I (touch v)" "keeps I (flush_all v)" "keeps I (version v)" "keeps I (stats v)"
  unfolding del_def incr_decr_def touch_def flush_all_def version_def stats_def send_stat_def send_stat_s_def
  by (intro keeps_parts keeps_parse assms)+

lemma keeps_updates:
  assumes "session_write_result \<in> allowed" "session_execute_write \<in> allowed"
  shows "keeps I (update v)" "keeps I (cas v)"
  unfolding update_def cas_def by (intro keeps_parts keeps_parse keeps_recv_data keeps_frame assms; simp)+

lemma keeps_dispatch:
  assumes "session_write_prompt \<in> allowed" "session_execute_write \<in> allowed" "session_write_data \<in> allowed"
    "session_write_result \<in> allowed" "session_stopping \<in> allowed"
  shows "keeps I (dispatch v)"
  unfolding dispatch_def
  by (intro keeps_parts keeps_switch) (auto intro!: keeps_parts keeps_get keeps_commands keeps_updates assms)

lemma keeps_dispatch_write: "session_write_result \<in> allowed \<Longrightarrow> keeps I (dispatch_write v)"
  unfolding dispatch_write_def by (intro keeps_parts keeps_switch) (auto intro!: keeps_parts)

lemma keeps_prompt: "session_read_command \<in> allowed \<Longrightarrow> keeps I send_prompt"
  unfolding send_prompt_def by (intro keeps_parts)

lemma keeps_send_data: "session_write_data \<in> allowed \<Longrightarrow> session_execute_command \<in> allowed \<Longrightarrow> keeps I send_data"
  unfolding send_data_def by (intro keeps_parts)

lemma keeps_reset: "keeps I (upd_s (\<lambda>s. s\<lparr>obuf := bf_reset (obuf s)\<rparr>))"
  by (rule keeps_upd) (rule emptied)

lemma step_keeps:
  assumes "allowed = UNIV" "I s" "loop_step v (s, w) = Inr (fl, (s', w'))"
  shows "I s'"
proof -
  have k: "keeps I (handle v st)" for st
    unfolding handle_def using assms(1)
    by (cases st) (auto intro!: keeps_parts keeps_reset keeps_prompt keeps_recv_command keeps_dispatch keeps_dispatch_write keeps_send_data)
  show ?thesis
  proof (cases "state s = session_stopping")
    case False
    then obtain b where "handle v (state s) (s, w) = Inr (b, (s', w'))"
      using assms(3) by (auto simp: loop_step_def rbind_Inr_iff split: prod.splits if_splits)
    then show ?thesis by (rule keepsD [OF k assms(2)])
  qed (use assms in \<open>simp add: loop_step_def\<close>)
qed

lemma loop_keeps:
  assumes "allowed = UNIV" "I s" "loop vs i (s, w) = Some (Inr (fl, j, (s', w')))"
  shows "I s'"
proof -
  let ?P = "\<lambda>vs i sw r. \<forall>fl j s' w'. r = Inr (fl, j, (s', w')) \<longrightarrow> I (fst sw) \<longrightarrow> I s'"
  have "?P vs i sw r" if "loop vs i sw = Some r" for i sw r
  proof (rule loop.raw_induct [where P = ?P, OF _ that])
    fix f vs i and sw :: ss and r
    assume f: "\<And>vs i sw r. f vs i sw = Some r \<Longrightarrow> ?P vs i sw r"
      and r: "(case loop_step (vs i) sw of Inl e \<Rightarrow> Some (Inl e)
        | Inr (fl, sw) \<Rightarrow> if fl = Running then f vs (Suc i) sw else Some (Inr (fl, Suc i, sw))) = Some r"
    show "?P vs i sw r"
    proof (cases "loop_step (vs i) sw")
      case (Inr y)
      then obtain fl s1 w1 where y: "loop_step (vs i) (fst sw, snd sw) = Inr (fl, (s1, w1))" by (cases y) auto
      then show ?thesis using r f [of vs "Suc i" "(s1, w1)" r] step_keeps [OF assms(1) _ y] by (auto split: if_splits)
    qed (use r in auto)
  qed
  then show ?thesis using assms(2,3) by fastforce
qed

end

section \<open>Buffers and requests stay in bounds\<close>

definition io_ok :: "io_req \<Rightarrow> bool" where
  "io_ok r = (case r of ReadCmd off n \<Rightarrow> off + n \<le> buffer_size | ReadData a l n \<Rightarrow> n \<le> l | _ \<Rightarrow> True)"

definition session_ok :: "session \<Rightarrow> bool" where
  "session_ok s \<longleftrightarrow> buffer_ok (ibuf s) \<and> max_size (ibuf s) = buffer_size \<and> flat (obuf s) \<and> max_size (obuf s) = buffer_size \<and>
     io_ok (io s)"

lemma notify_write_flat:
  "bf_notify_write a n = Inr b \<Longrightarrow> flat a \<Longrightarrow> flat b \<and> max_size b = max_size a"
  by (auto simp: bf_notify_write_def rbind_Inr_iff require_def flat_def buffer_ok_def max_size_def available_def used_def split: if_splits)

lemma store_length: "store arr i bs = Inr arr' \<Longrightarrow> length arr' = length arr"
  by (auto simp: store_def split: if_splits)

lemma write_in_bounds: "bf_write a bs = Inr b \<Longrightarrow> flat a \<Longrightarrow> flat b \<and> max_size b = max_size a"
  unfolding bf_write_def rbind_Inr_iff
  using notify_write_flat store_length by (fastforce simp: flat_def buffer_ok_def max_size_def)

lemma vsnprintf_length: "vsnprintf arr i n txt = Inr (m, arr') \<Longrightarrow> length arr' = length arr"
  by (auto simp: vsnprintf_def rbind_Inr_iff dest: store_length split: if_splits)

lemma format_in_bounds:
  assumes "flat a" "vsnprintf (bf_b a) i j txt = Inr (n, arr)" "bf_notify_write (a\<lparr>bf_b := arr\<rparr>) n = Inr b"
  shows "flat b \<and> max_size b = max_size a"
proof -
  have l: "length arr = length (bf_b a)" by (rule vsnprintf_length [OF assms(2)])
  then have "flat (a\<lparr>bf_b := arr\<rparr>)" using assms(1) by (simp add: flat_def buffer_ok_def max_size_def)
  then show ?thesis using notify_write_flat [OF assms(3)] l by (simp add: max_size_def)
qed

lemma notify_read_in_bounds: "bf_notify_read a n = Inr (p, b) \<Longrightarrow> buffer_ok a \<Longrightarrow> buffer_ok b \<and> max_size b = max_size a"
  by (auto simp: bf_notify_read_def rbind_Inr_iff require_def buffer_ok_def max_size_def used_def split: if_splits)

lemma cmd_ready_buffers:
  assumes "cmd_ready n s = Inr (b, s')" "buffer_ok (ibuf s)" "n = 0 \<or> flat (ibuf s)"
  shows "buffer_ok (ibuf s') \<and> max_size (ibuf s') = max_size (ibuf s) \<and> obuf s' = obuf s \<and> io s' = io s"
proof -
  consider "ibuf s' = ibuf s" "obuf s' = obuf s" "io s' = io s"
    | k t ib where "bf_notify_write (ibuf s) n = Inr ib" "bf_sub ib k = Inr (t, ibuf s')" "obuf s' = obuf s" "io s' = io s"
    using assms(1) by (auto simp: cmd_ready_def rbind_Inr_iff split: option.splits if_splits)
  then show ?thesis
  proof cases
    case 2
    have "buffer_ok ib \<and> max_size ib = max_size (ibuf s)"
      using 2(1) assms(2,3) notify_write_flat [OF 2(1)]
      by (auto simp: bf_notify_write_def rbind_Inr_iff require_def buffer_ok_def max_size_def flat_def split: if_splits)
    then show ?thesis using 2(2-4) notify_read_in_bounds [of ib k] by (auto simp: bf_sub_def rbind_Inr_iff)
  qed (use assms(2) in simp)
qed

lemma compact_request:
  assumes "bf_compact a = Inr b" "buffer_ok a"
  shows "buffer_ok b \<and> max_size b = max_size a \<and> bf_tail b + nat (available b) = max_size a"
proof -
  obtain a' where a: "bf_compact a = Inr a'" "flat a'" "max_size a' = max_size a" by (rule bf_compact_ok [OF assms(2)])
  then have "b = a'" using assms(1) by simp
  then show ?thesis using a(2,3) flatD [OF a(2)] by (simp add: max_size_def) arith
qed

lemma of_nat_le_word: "k < unat (l :: u64) \<Longrightarrow> of_nat k \<le> l"
  using take_bit_nat_less_eq_self [of 64 k] by (simp add: word_le_nat_alt unsigned_of_nat del: take_bit_nat_less_eq_self)

interpretation bounds: session_invariant session_ok UNIV
proof
  fix s t :: session and st msg ob tx n arr k p ib bs a l s'
  assume s: "session_ok s"
  show "ibuf t = ibuf s \<Longrightarrow> obuf t = obuf s \<Longrightarrow> io t = io s \<Longrightarrow> state t = state s \<Longrightarrow> session_ok t" using s by (simp add: session_ok_def)
  show "session_ok (s\<lparr>state := st\<rparr>)" using s by (simp add: session_ok_def)
  show "bf_write (obuf s) msg = Inr ob \<Longrightarrow> session_ok (s\<lparr>obuf := ob\<rparr>)" using s write_in_bounds by (simp add: session_ok_def)
  show "vsnprintf (bf_b (obuf s)) (bf_tail (obuf s)) (available (obuf s)) tx = Inr (n, arr) \<Longrightarrow>
      bf_notify_write ((obuf s)\<lparr>bf_b := arr\<rparr>) n = Inr ob \<Longrightarrow> session_ok (s\<lparr>obuf := ob\<rparr>)"
    using s format_in_bounds [of "obuf s" "bf_tail (obuf s)" "available (obuf s)" tx n arr ob] by (simp add: session_ok_def)
  show "session_ok (s\<lparr>obuf := bf_reset (obuf s)\<rparr>)" using s flat_reset by (simp add: session_ok_def)
  show "session_ok (s\<lparr>io := WriteReq bs\<rparr>)" using s by (simp add: session_ok_def io_ok_def)
  show "bf_notify_read (ibuf s) k = Inr (p, ib) \<Longrightarrow> session_ok (s\<lparr>ibuf := ib\<rparr>)" using s notify_read_in_bounds by (simp add: session_ok_def)
  show "k < unat l \<Longrightarrow> session_ok (s\<lparr>io := ReadData a l (l - of_nat k)\<rparr>)"
    using s word_sub_le [of "of_nat k" l] of_nat_le_word [of k l] by (simp add: session_ok_def io_ok_def)
  show "cmd_ready 0 s = Inr (True, s') \<Longrightarrow> state s' = state s \<Longrightarrow> session_ok s'"
    using s cmd_ready_buffers [of 0 s True s'] by (simp add: session_ok_def)
  show "bf_compact (ibuf s) = Inr ib \<Longrightarrow> session_ok (s\<lparr>ibuf := ib, io := ReadCmd (bf_tail ib) (nat (available ib))\<rparr>)"
    using s compact_request [of "ibuf s" ib] by (simp add: session_ok_def io_ok_def)
qed

definition fresh_sess :: session where
  "fresh_sess = text_session_new (replicate 4096 NUL) (replicate 4096 NUL) False None"

lemma fresh_run:
  "callback False vs 0 (fresh_sess, w) = Some (Inr (Blocked, 2,
     (fresh_sess\<lparr>obuf := bf_reset (obuf fresh_sess), state := session_execute_command, noreply := False, io := ReadCmd 0 4096\<rparr>, w)))"
proof -
  let ?s1 = "fresh_sess\<lparr>obuf := bf_reset (obuf fresh_sess), state := session_read_command\<rparr>"
  let ?s2 = "fresh_sess\<lparr>obuf := bf_reset (obuf fresh_sess), state := session_execute_command, noreply := False, io := ReadCmd 0 4096\<rparr>"
  have "loop_step (vs 0) (fresh_sess\<lparr>io := NoIO\<rparr>, w) = Inr (Running, (?s1, w))"
    by (simp add: loop_step_def handle_def send_prompt_def fresh_sess_def text_session_new_def)
  moreover have "loop_step (vs 1) (?s1, w) = Inr (Blocked, (?s2, w))"
  proof -
    let ?s = "fresh_sess\<lparr>obuf := bf_reset (obuf fresh_sess), noreply := False, state := session_execute_command\<rparr>"
    have "cmd_ready 0 ?s = Inr (False, ?s)"
      by (simp add: cmd_ready_def find_end_of_command_def used_def buffer_new_def available_def max_size_def
          fresh_sess_def text_session_new_def)
    moreover have "bf_compact (ibuf fresh_sess) = Inr (ibuf fresh_sess)" "available (ibuf fresh_sess) = 4096" "bf_tail (ibuf fresh_sess) = 0"
      by (simp_all add: fresh_sess_def text_session_new_def buffer_new_def bf_compact_def store_def buffer_bytes_def used_def
          available_def max_size_def)
    moreover have "bf_reset (bf_reset a) = bf_reset a" for a by (simp add: bf_reset_def)
    ultimately show ?thesis by (simp add: loop_step_def handle_def recv_command_def lift_s_def andthen_def)
  qed
  ultimately show ?thesis
    unfolding callback_def using loop_running [of vs 0] loop_stops [of vs 1] by (simp add: numeral_2_eq_2)
qed

section \<open>The states of a session\<close>

text \<open>
  The transitions of the loop. The comment in \<open>session.cc\<close> draws fewer: it has no way from
  \<open>execute_command\<close> back to itself or straight to \<open>write_result\<close> and \<open>write_prompt\<close>, and leaves
  \<open>write_data\<close> for \<open>write_result\<close>, where the code goes back to \<open>execute_command\<close>.
\<close>

fun session_next :: "session_state \<Rightarrow> session_state set" where
  "session_next session_write_prompt = {session_read_command}"
| "session_next session_read_command = {session_execute_command, session_stopping}"
| "session_next session_execute_command = {session_execute_command, session_execute_write, session_write_data,
     session_write_result, session_write_prompt, session_stopping}"
| "session_next session_execute_write = {session_write_result}"
| "session_next session_write_data = {session_write_data, session_execute_command}"
| "session_next session_write_result = {session_write_prompt}"
| "session_next session_stopping = {session_stopping}"

interpretation stays: session_invariant "\<lambda>s. state s \<in> A" A for A
  by unfold_locales simp_all

text \<open>Handlers that leave the session in one of the states \<open>A\<close>, on return or when they throw.\<close>

definition arrives :: "session_state set \<Rightarrow> 'a handler \<Rightarrow> bool" where
  "arrives A m \<longleftrightarrow> (\<forall>sw x s' w'. m sw = Inr (x, (s', w')) \<longrightarrow> state s' \<in> A)"

definition throws_in :: "session_state set \<Rightarrow> 'a handler \<Rightarrow> bool" where
  "throws_in A m \<longleftrightarrow> (\<forall>sw s' w'. m sw = Inr (None, (s', w')) \<longrightarrow> state s' \<in> A)"

lemma arrives_keeps: "arrives A m \<Longrightarrow> (\<And>x. keeps (\<lambda>s. state s \<in> A) (f x)) \<Longrightarrow> arrives A (andthen m f)"
  unfolding arrives_def andthen_def rbind_Inr_iff keeps_def by (fastforce split: option.splits)

lemma arrives_last: "throws_in A m \<Longrightarrow> (\<And>x. arrives A (f x)) \<Longrightarrow> arrives A (andthen m f)"
  unfolding arrives_def throws_in_def andthen_def rbind_Inr_iff by (fastforce split: option.splits)

lemma throws_andthen: "throws_in A m \<Longrightarrow> (\<And>x. throws_in A (f x)) \<Longrightarrow> throws_in A (andthen m f)"
  unfolding throws_in_def andthen_def rbind_Inr_iff by (fastforce split: option.splits)

lemma arrives_throws: "arrives A m \<Longrightarrow> throws_in A m"
  by (auto simp: arrives_def throws_in_def)

lemma throws_basic: "throws_in A (ret x)" "throws_in A (get_s g)" "throws_in A (upd_s u)" "throws_in A (lift_w h)" "throws_in A (lift_s k)"
  by (auto simp: throws_in_def lift_w_def lift_s_def rbind_Inr_iff ret_def get_s_def upd_s_def)

lemma throws_is_s: "throws_in A (is_s b a)"
  unfolding is_s_def by (rule throws_basic)

lemma throws_switch: "list_all (\<lambda>(a, m). throws_in A m) cases \<Longrightarrow> throws_in A other \<Longrightarrow> throws_in A (switch c cases other)"
  by (induction c cases other rule: switch.induct) (auto intro!: throws_andthen throws_is_s)

lemma arrives_state: "st \<in> A \<Longrightarrow> arrives A (set_state st)"
  by (auto simp: arrives_def)

lemma arrives_if: "arrives A m \<Longrightarrow> arrives A n \<Longrightarrow> arrives A (if b then m else n)"
  by simp

lemma throws_if: "throws_in A m \<Longrightarrow> throws_in A n \<Longrightarrow> throws_in A (if b then m else n)"
  by simp

lemma throws_send: "throws_in A (send msg)" "throws_in A (sendln msg)" "throws_in A (vsendf txt)" "throws_in A pop_odata"
  unfolding send_def send_n_def sendln_def vsendf_def
  by (intro throws_andthen throws_basic throws_if)+ (auto simp: throws_in_def pop_odata_def rbind_Inr_iff)

lemma arrives_result: "arrives {session_write_result} (send_cache_result c)" "arrives {session_write_result} (server_error txt)"
  unfolding send_cache_result_def server_error_def
  by (intro arrives_last throws_send arrives_state; simp)
     (intro arrives_last throws_send arrives_keeps arrives_state keeps_rules; simp)

lemma arrives_write: "arrives {session_write_result} (dispatch_write v)"
proof -
  have "throws_in {session_write_result} (switch c (map (\<lambda>(a, m). (a, lift_w m)) ms) (andthen (get_s g) (\<lambda>t. server_error (h t))))" for c ms g h
    by (intro throws_switch throws_andthen throws_basic arrives_throws arrives_result) (auto simp: list_all_iff intro: throws_basic)
  then show ?thesis unfolding dispatch_write_def
    by (intro arrives_last throws_basic arrives_keeps arrives_result keeps_rules throws_switch throws_andthen arrives_throws) (auto intro: throws_basic)
qed

lemma arrives_handle:
  assumes "st \<noteq> session_execute_command" "st \<noteq> session_stopping"
  shows "arrives (session_next st) (handle v st)"
proof (cases st)
  case session_write_prompt
  then show ?thesis
    by (simp add: handle_def send_prompt_def)
       (rule arrives_last [OF throws_basic(3) arrives_keeps [OF arrives_state]]; (simp; fail | intro stays.keeps_parts; simp))
next
  case session_read_command
  then show ?thesis
    by (simp add: handle_def recv_command_def)
       (rule arrives_last [OF throws_basic(3) arrives_last [OF throws_basic(3) arrives_keeps [OF arrives_state]]];
        (simp; fail | intro stays.keeps_parts stays.keeps_cmd_ready stays.keeps_read_request; simp))
next
  case session_execute_write
  then show ?thesis using arrives_write by (simp add: handle_def)
next
  case session_write_data
  have "arrives (session_next st) send_data"
    unfolding send_data_def session_write_data
    by (rule arrives_last [OF throws_send(4) arrives_if [OF arrives_last [OF throws_send(1) arrives_keeps [OF arrives_state]]
          arrives_keeps [OF arrives_state]]]; (simp; fail | intro stays.keeps_parts; simp))
  then show ?thesis using session_write_data arrives_last [OF throws_basic(3)] by (simp add: handle_def)
next
  case session_write_result
  then show ?thesis by (simp add: handle_def) (rule arrives_keeps [OF arrives_state]; (simp; fail | intro stays.keeps_parts; simp))
qed (use assms in auto)

text \<open>
  C36: Every step of the loop, for every input and every answer of the cache, makes one of the
  transitions above. In particular a session leaves the states that write a result or a prompt in
  one step, and never leaves the stopping state.
\<close>

theorem session_transitions:
  assumes "loop_step v (s, w) = Inr (fl, (s', w'))"
  shows "state s' \<in> session_next (state s)"
proof (cases "state s = session_stopping")
  case True
  then show ?thesis using assms by (simp add: loop_step_def)
next
  case False
  then obtain b where h: "handle v (state s) (s, w) = Inr (b, (s', w'))"
    using assms by (auto simp: loop_step_def rbind_Inr_iff split: prod.splits)
  have "handle v session_execute_command = dispatch v" by (simp add: handle_def)
  then have "state s' \<in> session_next session_execute_command" if "state s = session_execute_command"
    using keepsD [OF stays.keeps_dispatch, of "session_next session_execute_command" s v w b s' w'] h that by simp
  moreover have "state s' \<in> session_next (state s)" if "state s \<noteq> session_execute_command"
    using arrives_handle [OF that False, of v] h unfolding arrives_def by blast
  ultimately show ?thesis by metis
qed

theorem session_transitions_witness:
  "\<forall>v w. \<exists>s' w'. loop_step v (fresh_sess, w) = Inr (Running, (s', w')) \<and> state s' = session_read_command"
proof (intro allI)
  fix v w
  have "\<exists>s'. loop_step v (fresh_sess, w) = Inr (Running, (s', w))"
    by (simp add: loop_step_def handle_def send_prompt_def fresh_sess_def text_session_new_def)
  then show "\<exists>s' w'. loop_step v (fresh_sess, w) = Inr (Running, (s', w')) \<and> state s' = session_read_command"
    using session_transitions by (fastforce simp: fresh_sess_def text_session_new_def)
qed

end
