(* ===== verification/Session_Bounds.thy ===== *)
theory Session_Bounds
  imports Session_Inv
begin

text \<open>
  No write leaves the arrays of a session's buffers. A write outside of an array is the error
  \<open>Overrun\<close>, which only \<open>store\<close> raises: the functions that write to no buffer never end in it,
  whatever they work on, and the handlers of a session do not as long as its buffers are in bounds,
  which they keep.
\<close>

section \<open>Results that are no overrun\<close>

definition safe :: "'a res \<Rightarrow> bool" where
  "safe r \<longleftrightarrow> r \<noteq> Inl Overrun"

named_theorems safe_rules \<open>results that are not the error of a write outside an array\<close>

lemma safe_Inr [safe_rules, simp]: "safe (Inr x)"
  by (simp add: safe_def)

lemma safe_Inl [simp]: "safe (Inl e) \<longleftrightarrow> e \<noteq> Overrun"
  by (simp add: safe_def)

lemma safe_failure [safe_rules]: "safe (Inl NullDeref)" "safe (Inl BadPtr)" "safe (Inl AssertFailed)" "safe (Inl NotANumber)"
  by simp_all

lemma safe_rbind [safe_rules]: "safe m \<Longrightarrow> (\<And>x. safe (f x)) \<Longrightarrow> safe (rbind m f)"
  by (cases m) simp_all

lemma safe_rbind_Inr: "safe m \<Longrightarrow> (\<And>x. m = Inr x \<Longrightarrow> safe (f x)) \<Longrightarrow> safe (rbind m f)"
  by (cases m) simp_all

lemma safe_if [safe_rules]: "safe m \<Longrightarrow> safe n \<Longrightarrow> safe (if b then m else n)"
  by simp

lemma safe_let [safe_rules]: "(\<And>x. safe (f x)) \<Longrightarrow> safe (Let v f)"
  by simp

lemma safe_prod [safe_rules]: "(\<And>x y. safe (f x y)) \<Longrightarrow> safe (case v of (x, y) \<Rightarrow> f x y)"
  by (cases v) simp

lemma safe_option [safe_rules]: "safe m \<Longrightarrow> (\<And>x. safe (f x)) \<Longrightarrow> safe (case v of None \<Rightarrow> m | Some x \<Rightarrow> f x)"
  by (cases v) simp_all

lemma safe_require [safe_rules]: "safe (require b AssertFailed)" "safe (require b BufferError)"
  by (cases b; simp)+

lemma safe_outcome: "(\<And>r. v = Some r \<Longrightarrow> safe r) \<Longrightarrow> safe (outcome v)"
  by (cases v) simp_all

lemma safe_Inl_D: "m = Inl e \<Longrightarrow> safe m \<Longrightarrow> e \<noteq> Overrun"
  by simp

section \<open>The cache writes to no buffer\<close>

lemma safe_reads [safe_rules]:
  "safe (mread h a)" "safe (mem_bytes m)" "safe (nread hn a)" "safe (eread w a)" "safe (tread w a)" "safe (gread g a)"
  "safe (mem_store m bs)" "safe (hash_chunk m z)" "safe (fp_flagged x y)"
  by (auto simp: mread_def mem_bytes_def nread_def eread_def tread_def gread_def mem_store_def hash_chunk_def fp_flagged_def
      split: option.split intro: safe_rules)

text \<open>Loops: each is safe because its body is.\<close>

lemma safe_loops:
  "mem_tail_loop h x = Some r1 \<Longrightarrow> safe r1" "mem_free_loop h x = Some r2 \<Longrightarrow> safe r2"
  "mem_size_rec h x y = Some r3 \<Longrightarrow> safe r3" "cr_size_loop h x y z = Some r4 \<Longrightarrow> safe r4"
  "cr_hash_loop h x y z = Some r5 \<Longrightarrow> safe r5" "mem_consume_whitespace h x y i = Some r6 \<Longrightarrow> safe r6"
proof -
  have m: "mread h x = Inl e \<Longrightarrow> e \<noteq> Overrun" for h x e using safe_reads(1) safe_Inl_D by blast
  show "mem_tail_loop h x = Some r1 \<Longrightarrow> safe r1"
    by (rule mem_tail_loop.raw_induct [where P = "\<lambda>h x r. safe r"]) (auto split: sum.splits if_splits intro!: safe_rules dest: m)
  show "mem_free_loop h x = Some r2 \<Longrightarrow> safe r2"
    by (rule mem_free_loop.raw_induct [where P = "\<lambda>h x r. safe r"]) (auto split: sum.splits if_splits intro!: safe_rules dest: m)
  show "mem_size_rec h x y = Some r3 \<Longrightarrow> safe r3"
    by (rule mem_size_rec.raw_induct [where P = "\<lambda>h x y r. safe r"])
       (auto split: sum.splits if_splits bind_splits intro!: safe_rules dest: m)
  show "cr_size_loop h x y z = Some r4 \<Longrightarrow> safe r4"
    by (rule cr_size_loop.raw_induct [where P = "\<lambda>h x y z r. safe r"]) (auto split: sum.splits if_splits intro!: safe_rules dest: m)
  show "cr_hash_loop h x y z = Some r5 \<Longrightarrow> safe r5"
    by (rule cr_hash_loop.raw_induct [where P = "\<lambda>h x y z r. safe r"]) (auto split: sum.splits if_splits intro!: safe_rules dest: m)
  show "mem_consume_whitespace h x y i = Some r6 \<Longrightarrow> safe r6"
    by (rule mem_consume_whitespace.raw_induct [where P = "\<lambda>h x y i r. safe r"]) (auto split: sum.splits if_splits intro!: safe_rules dest: m)
qed

lemma safe_version_loops:
  "mv_tail hn x y = Some r1 \<Longrightarrow> safe r1" "mv_set_loop hn x y z = Some r2 \<Longrightarrow> safe r2" "mv_add_loop hn x y z = Some r3 \<Longrightarrow> safe r3"
  "mv_replace_loop hn x y z = Some r4 \<Longrightarrow> safe r4" "mv_del_loop hn x z = Some r5 \<Longrightarrow> safe r5"
proof -
  have n: "nread hn x = Inl e \<Longrightarrow> e \<noteq> Overrun" for hn x e using safe_reads(3) safe_Inl_D by blast
  have f: "fp_flagged x z = Inl e \<Longrightarrow> e \<noteq> Overrun" for x z e by (auto simp: fp_flagged_def split: if_splits)
  show "mv_tail hn x y = Some r1 \<Longrightarrow> safe r1"
    by (rule mv_tail.raw_induct [where P = "\<lambda>hn x y r. safe r"]) (auto split: sum.splits if_splits intro!: safe_rules dest: n)
  show "mv_set_loop hn x y z = Some r2 \<Longrightarrow> safe r2"
    by (rule mv_set_loop.raw_induct [where P = "\<lambda>hn x y z r. safe r"]) (auto split: sum.splits if_splits intro!: safe_rules dest: n f)
  show "mv_add_loop hn x y z = Some r3 \<Longrightarrow> safe r3"
    by (rule mv_add_loop.raw_induct [where P = "\<lambda>hn x y z r. safe r"]) (auto split: sum.splits if_splits intro!: safe_rules dest: n)
  show "mv_replace_loop hn x y z = Some r4 \<Longrightarrow> safe r4"
    by (rule mv_replace_loop.raw_induct [where P = "\<lambda>hn x y z r. safe r"]) (auto split: sum.splits if_splits intro!: safe_rules dest: n)
  show "mv_del_loop hn x z = Some r5 \<Longrightarrow> safe r5"
    by (rule mv_del_loop.raw_induct [where P = "\<lambda>hn x z r. safe r"]) (auto split: sum.splits if_splits intro!: safe_rules dest: n f)
qed

lemma safe_mem [safe_rules]:
  "safe (mem_tail h x)" "safe (mem_free h x)" "safe (mem_size h x y)" "safe (rope_size h r)" "safe (const_rope_size h r)"
  "safe (const_rope_hash h r z)" "safe (const_rope_pop h r)"
  unfolding mem_tail_def mem_free_def mem_size_def rope_size_def const_rope_size_def const_rope_hash_def const_rope_pop_def hash_chunk_def
  by (intro safe_rules safe_outcome; erule safe_loops)+

lemma safe_versions [safe_rules]:
  "safe (newest hn x)" "safe (newer hn x)" "safe (mv_set hn x y)" "safe (mv_add hn x y)" "safe (mv_replace hn x y)" "safe (mv_del hn x)"
  unfolding newest_def newer_def mv_set_def mv_add_def mv_replace_def mv_del_def fp_flagged_1
  by (intro safe_rules safe_outcome; erule safe_version_loops)+

lemma atoi_safe:
  assumes "mem_atoi_r h x y a i = Some r"
  shows "safe r"
proof (rule mem_atoi_r.raw_induct [where P = "\<lambda>h x y a i r. safe r", OF _ assms], goal_cases)
  case (1 f h head tail a i r)
  have m: "mread h x = Inl e \<Longrightarrow> e \<noteq> Overrun" for x e using safe_reads(1) safe_Inl_D by blast
  have "safe (rbind q (\<lambda>(head, i). rbind (mread h tail) (\<lambda>t. if head \<noteq> tail \<or> int i \<noteq> sint (m_size t) then Inl NotANumber else Inr a)))"
    if "mem_consume_whitespace h head tail i = Some q" for q
    using safe_loops(6) [OF that] by (intro safe_rules)
  then show ?case using 1 by (auto split: sum.splits if_splits bind_splits intro!: safe_rules dest: m)
qed

lemma safe_entries [safe_rules]:
  "safe (set_next h a x)" "safe (entry_delete h e)" "safe (entry_append n h e r)" "safe (entry_prepend n h e r)" "safe (mem_atoi h x y)"
  "safe (incrdecr b raw n d h e)" "safe (entry_incr b raw n h e v)" "safe (entry_decr b raw n h e v)" "safe (entry_read n u h e)"
  "safe (entry_cas n h e f xt v r)" "safe (entry_size h e)"
  unfolding set_next_def entry_delete_def entry_append_def entry_prepend_def mem_atoi_def incrdecr_def entry_incr_def entry_decr_def
    entry_read_def entry_cas_def entry_size_def
  by (intro safe_rules safe_outcome; erule safe_loops atoi_safe)+

lemma destroy_safe:
  assumes "entry_destroy w a = Some r"
  shows "safe r"
proof (rule entry_destroy.raw_induct [where P = "\<lambda>w a r. safe r", OF _ assms], goal_cases)
  case (1 f w a r)
  have "safe (rbind (eread w a) (\<lambda>e. rbind (entry_delete (wmem w) e) (\<lambda>h. rbind (nread (wnewer w) a) (\<lambda>n. Inr (h, n)))))"
    by (intro safe_rules)
  then show ?case using 1 by (auto simp: Let_def split: sum.splits if_splits)
qed

lemma release_size_safe: "release_size w x z = Some r \<Longrightarrow> safe r"
proof -
  have "safe (rbind (eread w x) (\<lambda>e. rbind (entry_size (wmem w) e) (\<lambda>s. rbind (newer (wnewer w) x) (\<lambda>n. Inr (s, n)))))" for w x
    by (intro safe_rules)
  then have e: "rbind (eread w x) (\<lambda>e. rbind (entry_size (wmem w) e) (\<lambda>s. rbind (newer (wnewer w) x) (\<lambda>n. Inr (s, n)))) = Inl err \<Longrightarrow>
      err \<noteq> Overrun" for w x err using safe_Inl_D by blast
  show "release_size w x z = Some r \<Longrightarrow> safe r"
    by (rule release_size.raw_induct [where P = "\<lambda>w x z r. safe r" and xa = "((w, x), z)", unfolded prod.case])
       (auto split: sum.splits if_splits dest: e)
qed

lemma safe_destroy [safe_rules]: "safe (outcome (entry_destroy w a))" "safe (outcome (release_size w x z))"
  by (rule safe_outcome, erule destroy_safe release_size_safe)+

lemma safe_release [safe_rules]: "safe (gc_free g c a)" "safe (entry_release c w e)" "safe (release_entries c w es)"
proof -
  show g: "safe (gc_free g c a)" for g a unfolding gc_free_def set_gnext_def by (intro safe_rules)
  show r: "safe (entry_release c w e)" for w e unfolding entry_release_def by (intro safe_rules g)
  show "safe (release_entries c w es)" by (induction es arbitrary: w) (auto intro: safe_rules r)
qed

lemma safe_bodies [safe_rules]:
  "safe (set_shared t k v)" "safe (add_shared t k v)" "safe (set_body ev w mk e)" "safe (add_body ev w mk e)" "safe (replace_body ev w k' e)"
proof -
  show s: "safe (set_shared t k v)" "safe (add_shared t k v)" for t k v by (simp_all add: set_shared_def add_shared_def)
  show "safe (set_body ev w mk e)" "safe (add_body ev w mk e)" "safe (replace_body ev w k' e)"
    unfolding set_body_def add_body_def replace_body_def by (intro safe_rules s)+
qed

lemma safe_cache [safe_rules]:
  "safe (cache_get w k)" "safe (cache_set ev w k f x r)" "safe (cache_add ev w k f x r)" "safe (cache_replace ev w k f x r)"
  "safe (cache_append ev w k r)" "safe (cache_prepend ev w k r)" "safe (cache_cas ev w k f x z r)" "safe (cache_del ev w k)"
  "safe (cache_incr ev w k d)" "safe (cache_decr ev w k d)" "safe (cache_touch ev w k x)" "safe (cache_buckets w)" "safe (cache_keys w)"
  unfolding cache_get_def cache_set_def cache_add_def cache_replace_def cache_append_def cache_prepend_def cache_cas_def cache_del_def
    cache_incr_def cache_decr_def cache_touch_def cache_buckets_def cache_keys_def
  by (intro safe_rules)+

section \<open>The tokenizer only reads\<close>

lemma safe_scans [safe_rules]:
  "safe (load arr i)" "safe (strncmp0 a b n)" "safe (cspan P cs)" "safe (skip_space cs)" "safe (read_digits cs acc n)" "safe (memchr_loop cs c n)"
proof -
  show "safe (load arr i)" by (simp add: load_def)
  show "safe (strncmp0 a b n)" by (induction a b n rule: strncmp0.induct) auto
  show "safe (cspan P cs)" by (induction cs) (auto intro: safe_rules)
  show "safe (skip_space cs)" by (induction cs) (auto intro: safe_rules)
  show "safe (read_digits cs acc n)" by (induction cs arbitrary: acc n) auto
  show "safe (memchr_loop cs c n)" by (induction cs c n rule: memchr_loop.induct) (auto intro: safe_rules)
qed

lemma safe_buf [safe_rules]: "safe (buf_notify_read b n)" "safe (buf_sub b n)" "safe (buf_is arr b a)" "safe (strcspn arr i r)" "safe (strtoul arr i)"
  unfolding buf_notify_read_def buf_sub_def buf_is_def strcspn_def strtoul_def by (intro safe_rules)+

lemma safe_whitespace [safe_rules]: "safe (consume_whitespace arr b)"
proof (induction arr b rule: consume_whitespace.induct)
  case (1 arr b)
  show ?case
  proof (cases "buf_empty b")
    case False
    show ?thesis
    proof (cases "load arr (b_head b)")
      case (Inl e)
      then show ?thesis using False safe_scans(1) [of arr "b_head b"] by (simp add: consume_whitespace.simps [of arr b])
    next
      case c: (Inr c)
      show ?thesis
      proof (cases "buf_notify_read b 1")
        case (Inl e)
        then show ?thesis using False c safe_buf(1) [of b 1] by (simp add: consume_whitespace.simps [of arr b])
      next
        case (Inr x)
        then show ?thesis using False c 1 by (cases x) (simp add: consume_whitespace.simps [of arr b])
      qed
    qed
  qed (simp add: consume_whitespace.simps [of arr b])
qed

lemma safe_tokens [safe_rules]:
  "safe (consume_token arr b)" "safe (consume_int arr b)" "safe (consume_u64 arr b)" "safe (find_end_of_command arr i n)"
  unfolding consume_token_def consume_int_def consume_u64_def find_end_of_command_def by (intro safe_rules)+

section \<open>Writes to flat buffers\<close>

lemma safe_bf_notify [safe_rules]: "safe (bf_notify_write a n)" "safe (bf_notify_read a n)" "safe (bf_sub a n)"
  unfolding bf_notify_write_def bf_notify_read_def bf_sub_def by (intro safe_rules)+

lemma bf_write_safe: "flat a \<Longrightarrow> safe (bf_write a bs)"
  using bf_write_flat [of a bs] by (cases "length bs + used a \<le> max_size a") auto

lemma vsnprintf_safe:
  assumes "flat a"
  shows "safe (vsnprintf (bf_b a) (bf_tail a) (available a) txt)"
proof (cases "available a \<le> 0")
  case False
  note f = flatD [OF assms]
  have "bf_tail a + length (take (nat (available a) - 1) txt @ [NUL]) \<le> length (bf_b a)" using f False by (simp add: max_size_def)
  then show ?thesis using False by (simp add: vsnprintf_def store_ok)
qed (simp add: vsnprintf_def)

lemma bf_compact_safe: "buffer_ok a \<Longrightarrow> safe (bf_compact a)"
  by (rule bf_compact_ok) auto

section \<open>Handlers\<close>

text \<open>A handler is guarded when it keeps the buffers in bounds and writes nowhere else.\<close>

definition guarded :: "'a handler \<Rightarrow> bool" where
  "guarded m \<longleftrightarrow> keeps session_ok m \<and> (\<forall>s w. session_ok s \<longrightarrow> safe (m (s, w)))"

named_theorems guarded_rules \<open>handlers that write inside their buffers\<close>

lemma guardedI: "keeps session_ok m \<Longrightarrow> (\<And>s w. session_ok s \<Longrightarrow> safe (m (s, w))) \<Longrightarrow> guarded m"
  by (simp add: guarded_def)

lemma guarded_keeps: "guarded m \<Longrightarrow> keeps session_ok m"
  by (simp add: guarded_def)

lemma guarded_safe: "guarded m \<Longrightarrow> session_ok s \<Longrightarrow> safe (m (s, w))"
  by (simp add: guarded_def)

lemma guarded_andthen [guarded_rules]:
  assumes "guarded m" "\<And>x. guarded (f x)"
  shows "guarded (andthen m f)"
proof (rule guardedI)
  show "keeps session_ok (andthen m f)" by (rule keeps_andthen) (use assms guarded_keeps in blast)+
  fix s w assume s: "session_ok s"
  show "safe (andthen m f (s, w))"
    unfolding andthen_def
  proof (rule safe_rbind_Inr [OF guarded_safe [OF assms(1) s]])
    fix y assume y: "m (s, w) = Inr y"
    obtain x s1 w1 where y': "y = (x, (s1, w1))" by (cases y) auto
    have "session_ok s1" using keepsD [OF guarded_keeps [OF assms(1)] s] y y' by blast
    then show "safe (case y of (x, sw) \<Rightarrow> case x of None \<Rightarrow> Inr (None, sw) | Some y \<Rightarrow> f y sw)"
      using guarded_safe [OF assms(2)] by (cases x) (simp_all add: y')
  qed
qed

lemma guarded_basic [guarded_rules]: "guarded (ret x)" "guarded throw" "guarded (get_s g)"
  by (intro guardedI keeps_basic; simp add: ret_def throw_def get_s_def)+

lemma guarded_if [guarded_rules]: "guarded m \<Longrightarrow> guarded n \<Longrightarrow> guarded (if b then m else n)"
  by simp

lemma guarded_option [guarded_rules]: "guarded m \<Longrightarrow> (\<And>x. guarded (f x)) \<Longrightarrow> guarded (case v of None \<Rightarrow> m | Some x \<Rightarrow> f x)"
  by (cases v) simp_all

lemma guarded_prod [guarded_rules]: "(\<And>x y. guarded (f x y)) \<Longrightarrow> guarded (case v of (x, y) \<Rightarrow> f x y)"
  by (cases v) simp

lemma guarded_let [guarded_rules]: "(\<And>x. guarded (f x)) \<Longrightarrow> guarded (let x = v in f x)"
  by simp

lemma guarded_lift_w [guarded_rules]: "(\<And>s w. safe (h s w)) \<Longrightarrow> guarded (lift_w h)"
  by (intro guardedI keeps_basic) (auto simp: lift_w_def intro!: safe_rules)

lemma guarded_upd: "keeps session_ok (upd_s f) \<Longrightarrow> guarded (upd_s f)"
  by (rule guardedI) (simp_all add: upd_s_def)

lemma guarded_lift_s: "keeps session_ok (lift_s f) \<Longrightarrow> (\<And>s. session_ok s \<Longrightarrow> safe (f s)) \<Longrightarrow> guarded (lift_s f)"
  by (rule guardedI) (auto simp: lift_s_def intro!: safe_rules)

lemma guarded_frame: "(\<And>s. ibuf (f s) = ibuf s \<and> obuf (f s) = obuf s \<and> io (f s) = io s \<and> state (f s) = state s) \<Longrightarrow> guarded (upd_s f)"
  by (rule guarded_upd [OF bounds.keeps_frame])

lemma guarded_switch: "list_all (\<lambda>(a, m). guarded m) cases \<Longrightarrow> guarded other \<Longrightarrow> (\<And>b a. guarded (is_s b a)) \<Longrightarrow> guarded (switch c cases other)"
  by (induction c cases other rule: switch.induct) (auto intro!: guarded_rules)

lemma session_okD: "session_ok s \<Longrightarrow> flat (obuf s)" "session_ok s \<Longrightarrow> buffer_ok (ibuf s)"
  by (simp_all add: session_ok_def)

lemma guarded_send [guarded_rules]:
  "guarded (set_state st)" "guarded (send_n msg)" "guarded (send msg)" "guarded (sendln msg)" "guarded (vsendf txt)" "guarded (sendf txt)"
  "guarded flush" "guarded (send_async msg)"
proof -
  show "guarded (set_state st)" unfolding set_state_def by (rule guarded_upd [OF bounds.keeps_state [unfolded set_state_def]]) simp
  show n: "guarded (send_n msg)" for msg
    using bounds.keeps_send_n unfolding send_n_def
    by (rule guarded_lift_s) (auto intro!: safe_rules bf_write_safe session_okD)
  show s: "guarded (send msg)" for msg using n by (simp add: send_def)
  show "guarded (sendln msg)" unfolding sendln_def by (intro guarded_rules s)
  let ?fmt = "\<lambda>txt s. rbind (vsnprintf (bf_b (obuf s)) (bf_tail (obuf s)) (available (obuf s)) txt) (\<lambda>(n, arr).
      rbind (bf_notify_write ((obuf s)\<lparr>bf_b := arr\<rparr>) n) (\<lambda>o'. Inr ((), s\<lparr>obuf := o'\<rparr>)))"
  have "guarded (lift_s (?fmt tx))" for tx
  proof (rule guarded_lift_s)
    show "keeps session_ok (lift_s (?fmt tx))"
      by (rule keeps_lift) (auto simp: rbind_Inr_iff intro: bounds.formatted split: prod.splits)
    show "safe (?fmt tx s)" if "session_ok s" for s
      by (intro safe_rules vsnprintf_safe session_okD(1) [OF that])
  qed
  then show v: "guarded (vsendf tx)" for tx unfolding vsendf_def by (intro guarded_rules s)
  then show "guarded (sendf txt)" by (simp add: sendf_def)
  show "guarded flush" using bounds.keeps_flush unfolding flush_def by (rule guarded_lift_s) simp
  show "guarded (send_async msg)" using bounds.keeps_send_async unfolding send_async_def
    by (rule guarded_lift_s) (intro safe_rules)
qed

lemma guarded_errors [guarded_rules]: "guarded (client_error txt)" "guarded (server_error txt)" "guarded (send_cache_result c)"
  unfolding client_error_def server_error_def send_cache_result_def by (intro guarded_rules)+

lemma guarded_take [guarded_rules]: "guarded take_token" "guarded take_int" "guarded take_u64" "guarded (is_s b a)"
proof -
  note k = bounds.keeps_take [unfolded take_token_def take_int_def take_u64_def is_s_def]
  show "guarded take_token" unfolding take_token_def by (rule guarded_lift_s [OF k(1)]) (intro safe_rules)
  show "guarded take_int" unfolding take_int_def by (rule guarded_lift_s [OF k(2)]) (intro safe_rules)
  show "guarded take_u64" unfolding take_u64_def by (rule guarded_lift_s [OF k(3)]) (intro safe_rules)
  show "guarded (is_s b a)" unfolding is_s_def by (rule guarded_lift_s [OF k(4)]) (intro safe_rules)
qed

lemma guarded_world [guarded_rules]:
  "guarded pop_odata" "guarded (chunk_data m)" "guarded (read_entry v e)" "guarded odata_size" "guarded (odata_hash z)" "guarded (recv_data v n)"
proof -
  note k = bounds.keeps_world bounds.keeps_recv_data [OF UNIV_I]
  show "guarded pop_odata" by (rule guardedI [OF k(1)]) (unfold pop_odata_def prod.case, intro safe_rules)
  show "guarded (chunk_data m)" by (rule guardedI [OF k(2)]) (unfold chunk_data_def prod.case, intro safe_rules)
  show "guarded (read_entry v e)" by (rule guardedI [OF k(3)]) (unfold read_entry_def prod.case, intro safe_rules)
  show "guarded odata_size" by (rule guardedI [OF k(4)]) (unfold odata_size_def prod.case, intro safe_rules)
  show "guarded (odata_hash z)" by (rule guardedI [OF k(5)]) (unfold odata_hash_def prod.case, intro safe_rules)
  show "guarded (recv_data v n)" by (rule guardedI [OF k(6)]) (unfold recv_data_def prod.case, intro safe_rules)
qed

lemma guarded_parse [guarded_rules]: "guarded parse_noreply" "guarded parse_key" "guarded parse_update"
proof -
  show "guarded parse_noreply" unfolding parse_noreply_def by (intro guarded_rules guarded_frame) simp
  show k: "guarded parse_key" unfolding parse_key_def by (intro guarded_rules guarded_frame) simp
  show "guarded parse_update" unfolding parse_update_def by (intro k guarded_rules guarded_frame; simp)
qed

lemma guarded_send_rope [guarded_rules]: "guarded (\<lambda>sw. outcome (send_rope sw))"
proof (rule guardedI [OF bounds.keeps_send_rope])
  let ?body = "andthen pop_odata (\<lambda>m. if m = 0 then ret False else andthen (chunk_data m) (\<lambda>bs. andthen (send_n bs) (\<lambda>_. ret True)))"
  have b: "guarded ?body" by (intro guarded_rules)
  have "session_ok (fst sw) \<longrightarrow> safe r" if "send_rope sw = Some r" for sw r
  proof (rule send_rope.raw_induct [where P = "\<lambda>sw r. session_ok (fst sw) \<longrightarrow> safe r", OF _ that], intro impI)
    fix f and sw :: ss and r
    assume f: "\<And>sw r. f sw = Some r \<Longrightarrow> session_ok (fst sw) \<longrightarrow> safe r"
      and r: "(case ?body sw of Inl e \<Rightarrow> Some (Inl e) | Inr (again, sw) \<Rightarrow>
          if again = Some True then f sw else Some (Inr (map_option (\<lambda>_. ()) again, sw))) = Some r" and s: "session_ok (fst sw)"
    have s1: "safe (?body (fst sw, snd sw))" by (rule guarded_safe [OF b s])
    show "safe r"
    proof (cases "?body sw")
      case (Inr y)
      then obtain again s1 w1 where y: "?body (fst sw, snd sw) = Inr (again, (s1, w1))" by (cases y) auto
      then show ?thesis using r f [of "(s1, w1)" r] keepsD [OF guarded_keeps [OF b] s y] by (auto split: if_splits)
    qed (use r s1 in auto)
  qed
  then show "safe (outcome (send_rope (s, w)))" if "session_ok s" for s w using that by (intro safe_outcome) auto
qed

lemma guarded_commands [guarded_rules]:
  "guarded (get v cu)" "guarded (del v)" "guarded (incr_decr v i)" "guarded (touch v)" "guarded (flush_all v)" "guarded (version v)"
  "guarded (stats v)" "guarded (update v)" "guarded (cas v)"
  unfolding get_def get_found_def del_def incr_decr_def touch_def flush_all_def version_def stats_def send_stat_def send_stat_s_def
    update_def cas_def
  by (intro guarded_rules safe_rules guarded_frame; simp)+

lemma guarded_dispatch: "guarded (dispatch v)" "guarded (dispatch_write v)"
  unfolding dispatch_def dispatch_write_def
  by (intro guarded_rules guarded_switch; auto intro!: guarded_rules safe_rules)+

lemma guarded_input: "guarded recv_command" "guarded send_prompt" "guarded send_data"
  "guarded (upd_s (\<lambda>s. s\<lparr>obuf := bf_reset (obuf s)\<rparr>))"
proof -
  have c: "guarded (lift_s (cmd_ready 0))"
    using bounds.keeps_cmd_ready [OF UNIV_I] by (rule guarded_lift_s) (unfold cmd_ready_def, intro safe_rules)
  have r: "guarded (lift_s (\<lambda>s. rbind (bf_compact (ibuf s)) (\<lambda>ib.
      Inr (True, s\<lparr>ibuf := ib, io := ReadCmd (bf_tail ib) (nat (available ib))\<rparr>))))"
    using bounds.keeps_read_request by (rule guarded_lift_s) (intro safe_rules bf_compact_safe session_okD)
  show "guarded recv_command" unfolding recv_command_def by (intro guarded_rules c r guarded_frame) simp
  show "guarded send_prompt" "guarded send_data" unfolding send_prompt_def send_data_def by (intro guarded_rules)+
  show "guarded (upd_s (\<lambda>s. s\<lparr>obuf := bf_reset (obuf s)\<rparr>))" by (rule guarded_upd [OF bounds.keeps_reset])
qed

lemma guarded_handle: "guarded (handle v st)"
  unfolding handle_def by (cases st) (auto intro!: guarded_rules guarded_dispatch guarded_input)

lemma step_safe: "session_ok s \<Longrightarrow> safe (loop_step v (s, w))"
  unfolding loop_step_def using guarded_safe [OF guarded_handle] by (auto intro!: safe_rules)

lemma loop_safe:
  assumes "session_ok s" "loop vs i (s, w) = Some r"
  shows "safe r"
proof -
  have "session_ok (fst sw) \<longrightarrow> safe r" if "loop vs i sw = Some r" for i sw
  proof (rule loop.raw_induct [where P = "\<lambda>vs i sw r. session_ok (fst sw) \<longrightarrow> safe r", OF _ that], intro impI)
    fix f vs i and sw :: ss and r
    assume f: "\<And>vs i sw r. f vs i sw = Some r \<Longrightarrow> session_ok (fst sw) \<longrightarrow> safe r"
      and r: "(case loop_step (vs i) sw of Inl e \<Rightarrow> Some (Inl e)
        | Inr (fl, sw) \<Rightarrow> if fl = Running then f vs (Suc i) sw else Some (Inr (fl, Suc i, sw))) = Some r"
      and s: "session_ok (fst sw)"
    have ss: "safe (loop_step (vs i) (fst sw, snd sw))" by (rule step_safe [OF s])
    show "safe r"
    proof (cases "loop_step (vs i) sw")
      case (Inr y)
      then obtain fl s1 w1 where y: "loop_step (vs i) (fst sw, snd sw) = Inr (fl, (s1, w1))" by (cases y) auto
      then show ?thesis using r f [of vs "Suc i" "(s1, w1)" r] bounds.step_keeps [OF refl s y] by (auto split: if_splits)
    qed (use r ss in auto)
  qed
  then show ?thesis using assms by auto
qed

section \<open>Properties\<close>

text \<open>
  C35: No call of a session's callback writes outside the arrays of its two buffers, whatever the client
  has sent and whatever the cache holds and answers: started with its buffers in bounds, the call does
  not end in an overrun, and if it returns to its service, both buffers are in bounds and of their full
  size, nothing unread is in front of the output, and the session asks its stream only for reads that
  stay inside the input buffer or inside the chunk for the data. Other ways of not returning (an
  exception for output that does not fit, a read behind the end of the input) are not excluded.
\<close>

theorem session_in_bounds:
  assumes "session_ok s" and "callback ec vs i (s, w) = Some r"
  shows "case r of Inl e \<Rightarrow> e \<noteq> Overrun | Inr (fl, j, (s', w')) \<Rightarrow> session_ok s'"
proof -
  let ?s = "if ec then s\<lparr>io := NoIO, state := session_stopping\<rparr> else s\<lparr>io := NoIO\<rparr>"
  have l: "loop vs i (?s, w) = Some r" using assms(2) by (cases ec) (simp_all add: callback_def)
  have ok: "session_ok ?s" using assms(1) by (simp add: session_ok_def io_ok_def)
  have "session_ok s'" if "r = Inr (fl, j, (s', w'))" for fl j s' w'
    using bounds.loop_keeps [OF refl ok] l that by blast
  then show ?thesis using loop_safe [OF ok l] by (auto split: sum.split)
qed

theorem session_in_bounds_witness:
  "\<forall>vs w. \<exists>s' w'. callback False vs 0 (fresh_sess, w) = Some (Inr (Blocked, 2, (s', w'))) \<and> io s' = ReadCmd 0 4096 \<and> session_ok s'"
proof (intro allI)
  fix vs w
  let ?s = "fresh_sess\<lparr>obuf := bf_reset (obuf fresh_sess), state := session_execute_command, noreply := False, io := ReadCmd 0 4096\<rparr>"
  have ok: "session_ok fresh_sess"
    by (simp add: fresh_sess_def session_ok_def text_session_new_def buffer_new_def buffer_ok_def flat_def max_size_def buffer_size_def io_ok_def)
  have "callback False vs 0 (fresh_sess, w) = Some (Inr (Blocked, 2, (?s, w)))"
    by (rule fresh_run)
  then show "\<exists>s' w'. callback False vs 0 (fresh_sess, w) = Some (Inr (Blocked, 2, (s', w'))) \<and> io s' = ReadCmd 0 4096 \<and> session_ok s'"
    using session_in_bounds [OF ok] by fastforce
qed


end
