(* ===== verification/Input.thy ===== *)
theory Input
  imports Session_Inv
begin

text \<open>
  Reading a command. \<open>async_read\<close> asks \<open>cmd_callback\<close> after every piece of input how many bytes it
  may still read, and ends when the answer is 0. The command the session sees does not depend on
  how the input was split into pieces, and a line that does not fit the input buffer ends the
  session.
\<close>

section \<open>Input in pieces\<close>

text \<open>A piece of input is stored behind the \<open>n\<close> bytes that the current read has stored so far.\<close>

definition arrive :: "nat \<Rightarrow> bytes \<Rightarrow> session \<Rightarrow> session res" where
  "arrive n bs s =
     rbind (store (bf_b (ibuf s)) (bf_tail (ibuf s) + n) bs) (\<lambda>arr. Inr (s\<lparr>ibuf := (ibuf s)\<lparr>bf_b := arr\<rparr>\<rparr>))"

inductive reads :: "nat \<Rightarrow> session \<Rightarrow> bytes list \<Rightarrow> session \<Rightarrow> bool" where
  reads_done: "cmd_callback False n s = Inr (0, s') \<Longrightarrow> reads n s [] s'"
| reads_more: "cmd_callback False n s = Inr (q, s1) \<Longrightarrow> bs \<noteq> [] \<Longrightarrow> length bs \<le> q \<Longrightarrow> arrive n bs s1 = Inr s2 \<Longrightarrow>
    reads (n + length bs) s2 bss s' \<Longrightarrow> reads n s (bs # bss) s'"

inductive_cases reads_NilE: "reads n s [] s'"
inductive_cases reads_ConsE: "reads n s (bs # bss) s'"

lemma reads_deterministic: "reads n s bss s1 \<Longrightarrow> reads n s bss s2 \<Longrightarrow> s1 = s2"
proof (induction arbitrary: s2 rule: reads.induct)
  case (reads_done n s s')
  then show ?case by (auto elim: reads_NilE)
next
  case (reads_more n s q s1 bs s2' bss s')
  show ?case by (rule reads_ConsE [OF reads_more.prems]) (use reads_more in auto)
qed

section \<open>The callback\<close>

definition input :: "nat \<Rightarrow> session \<Rightarrow> bytes" where
  "input n s = take (bf_tail (ibuf s) + n) (bf_b (ibuf s))"

lemma find_end_flat:
  assumes "flat (ibuf s)" "bf_tail (ibuf s) + n \<le> max_size (ibuf s)"
  shows "find_end_of_command (bf_b (ibuf s)) (bf_head (ibuf s)) (used (ibuf s) + n) =
    Inr (if CHR 0x0A \<in> set (input n s) then Some (length (takeWhile (\<lambda>c. c \<noteq> CHR 0x0A) (bf_b (ibuf s))) + 1) else None)"
  using assms find_end_of_command_ok [of "bf_head (ibuf s)" "used (ibuf s) + n" "bf_b (ibuf s)"]
  by (simp add: flat_def used_def max_size_def input_def)

lemma callback_waits:
  assumes "flat (ibuf s)" "bf_tail (ibuf s) + n < max_size (ibuf s)" "CHR 0x0A \<notin> set (input n s)"
  shows "cmd_callback False n s = Inr (max_size (ibuf s) - bf_tail (ibuf s) - n, s)"
  using find_end_flat [of s n] assms flatD [OF assms(1)] by (simp add: cmd_callback_def cmd_ready_def nat_diff_distrib)

lemma callback_overflow:
  assumes "flat (ibuf s)" "bf_tail (ibuf s) + n = max_size (ibuf s)" "CHR 0x0A \<notin> set (input n s)"
  shows "cmd_callback False n s = Inr (0, s\<lparr>state := session_stopping\<rparr>)"
  using find_end_flat [of s n] assms flatD [OF assms(1)] by (simp add: cmd_callback_def cmd_ready_def)

lemma callback_found:
  assumes "flat (ibuf s)" "bf_tail (ibuf s) + n \<le> max_size (ibuf s)"
    and l: "input n s = l @ rest" "l \<noteq> []" "last l = CHR 0x0A" "CHR 0x0A \<notin> set (butlast l)"
  obtains c a ib where "cmd_callback False n s = Inr (0, s\<lparr>ibuf := ib, args := a, cmd := c\<rparr>)"
    "bf_b ib = bf_b (ibuf s)" "buffer_ok ib" "buffer_bytes ib = rest"
    "line_ok (sarr s) a" "tok_ok (sarr s) c" "buf_bytes (sarr s) c = token l" "buf_bytes (sarr s) a = after_token l"
proof -
  let ?ib = "(ibuf s)\<lparr>bf_tail := bf_tail (ibuf s) + n\<rparr>" and ?s = "s\<lparr>ibuf := (ibuf s)\<lparr>bf_tail := bf_tail (ibuf s) + n\<rparr>\<rparr>"
  have f: "flat ?ib" using assms(1,2) by (simp add: flat_def buffer_ok_def max_size_def)
  then have b: "buffer_ok (ibuf ?s)" "buffer_bytes (ibuf ?s) = l @ rest"
    using l(1) flatD [OF f] by (simp_all add: flat_def input_def)
  have nl: "CHR 0x0A \<in> set (input n s)" "input 0 ?s = input n s"
    using l last_in_set [OF l(2)] by (auto simp: input_def)
  have nw: "bf_notify_write (ibuf s) n = Inr ?ib" "bf_notify_write ?ib 0 = Inr ?ib"
    using assms(2) flatD [OF assms(1)] flatD [OF f] by (simp_all add: bf_notify_write_def max_size_def)
  have eq: "cmd_ready n s = cmd_ready 0 ?s"
    using find_end_flat [OF assms(1,2)] find_end_flat [of ?s 0] f nl nw flatD [OF f]
    by (simp add: cmd_ready_def max_size_def)
  obtain c a where c: "cmd_ready 0 ?s = Inr (True, ?s\<lparr>ibuf := (ibuf ?s)\<lparr>bf_head := bf_head (ibuf ?s) + length l\<rparr>, args := a, cmd := c\<rparr>)"
    "line_ok (sarr ?s) a" "tok_ok (sarr ?s) c" "buf_bytes (sarr ?s) c = token l" "buf_bytes (sarr ?s) a = after_token l"
    "buffer_ok ((ibuf ?s)\<lparr>bf_head := bf_head (ibuf ?s) + length l\<rparr>)"
    "buffer_bytes ((ibuf ?s)\<lparr>bf_head := bf_head (ibuf ?s) + length l\<rparr>) = rest"
    by (rule cmd_ready_found [OF b l(2-4)])
  then show thesis
    using eq that [where ib = "(ibuf ?s)\<lparr>bf_head := bf_head (ibuf ?s) + length l\<rparr>" and a = a and c = c] by (simp add: cmd_callback_def sarr_def)
qed

section \<open>Reading a line\<close>

lemma arrive_ok:
  assumes "flat (ibuf s)" "bf_tail (ibuf s) + n + length bs \<le> max_size (ibuf s)"
  obtains arr where "arrive n bs s = Inr (s\<lparr>ibuf := (ibuf s)\<lparr>bf_b := arr\<rparr>\<rparr>)" "length arr = length (bf_b (ibuf s))"
    "take (bf_tail (ibuf s) + (n + length bs)) arr = input n s @ bs"
  using assms that by (simp add: arrive_def store_ok max_size_def input_def add.assoc)

definition waiting :: "session \<Rightarrow> bool" where
  "waiting s \<longleftrightarrow> state s = session_execute_command \<and> flat (ibuf s) \<and> max_size (ibuf s) = buffer_size \<and>
     flat (obuf s) \<and> used (obuf s) = 0 \<and> max_size (obuf s) = buffer_size \<and> \<not> noreply s"

text \<open>One more piece, when no newline has arrived before it.\<close>

lemma piece:
  assumes "waiting s" "CHR 0x0A \<notin> set (input n s)" "b \<noteq> []" "bf_tail (ibuf s) + n + length b \<le> buffer_size"
  obtains s1 where "waiting s1" "bf_tail (ibuf s1) = bf_tail (ibuf s)" "input (n + length b) s1 = input n s @ b"
    "\<And>bss s'. reads (n + length b) s1 bss s' \<Longrightarrow> reads n s (b # bss) s'"
proof -
  have w: "flat (ibuf s)" "max_size (ibuf s) = buffer_size" using assms(1) by (simp_all add: waiting_def)
  have lt: "bf_tail (ibuf s) + n < buffer_size" "length b \<le> buffer_size - bf_tail (ibuf s) - n"
    using assms(4) length_greater_0_conv [of b] assms(3) by linarith+
  then have cb: "cmd_callback False n s = Inr (buffer_size - bf_tail (ibuf s) - n, s)"
    using callback_waits [OF w(1) _ assms(2)] w(2) by simp
  obtain arr where a: "arrive n b s = Inr (s\<lparr>ibuf := (ibuf s)\<lparr>bf_b := arr\<rparr>\<rparr>)" "length arr = length (bf_b (ibuf s))"
    "take (bf_tail (ibuf s) + (n + length b)) arr = input n s @ b"
    by (rule arrive_ok [OF w(1), of n b]) (use assms(4) w(2) in simp)
  show thesis
    by (rule that [OF _ _ _ reads_more [OF cb assms(3) lt(2) a(1)]])
       (use assms(1) a(2,3) in \<open>simp_all add: waiting_def flat_def buffer_ok_def max_size_def input_def\<close>)
qed

lemma reads_line:
  assumes "waiting s" "CHR 0x0A \<notin> set (input n s)" "bss \<noteq> []" "[] \<notin> set bss" "CHR 0x0A \<notin> set (concat (butlast bss))"
    and "bf_tail (ibuf s) + n + length (concat bss) \<le> buffer_size"
    and "input n s @ concat bss = l @ rest" "l \<noteq> []" "last l = CHR 0x0A" "CHR 0x0A \<notin> set (butlast l)"
  shows "\<exists>s'. reads n s bss s' \<and> ready_cmd s' \<and> buf_bytes (sarr s') (cmd s') = token l \<and> line s' = after_token l \<and>
    buffer_bytes (ibuf s') = rest"
  using assms
proof (induction bss arbitrary: n s)
  case (Cons b bss)
  obtain s1 where s1: "waiting s1" "bf_tail (ibuf s1) = bf_tail (ibuf s)" "input (n + length b) s1 = input n s @ b"
    "\<And>bss s'. reads (n + length b) s1 bss s' \<Longrightarrow> reads n s (b # bss) s'"
    by (rule piece [OF Cons.prems(1,2), of b]) (use Cons.prems(4,6) in auto)
  have w1: "flat (ibuf s1)" "max_size (ibuf s1) = buffer_size" using s1(1) by (simp_all add: waiting_def)
  show ?case
  proof (cases bss)
    case Nil
    obtain c ar ib where c: "cmd_callback False (n + length b) s1 = Inr (0, s1\<lparr>ibuf := ib, args := ar, cmd := c\<rparr>)"
      "bf_b ib = bf_b (ibuf s1)" "buffer_ok ib" "buffer_bytes ib = rest"
      "line_ok (sarr s1) ar" "tok_ok (sarr s1) c" "buf_bytes (sarr s1) c = token l" "buf_bytes (sarr s1) ar = after_token l"
      by (rule callback_found [OF w1(1), of "n + length b" l rest]) (use w1 s1 Cons.prems Nil in simp_all)
    let ?s' = "s1\<lparr>ibuf := ib, args := ar, cmd := c\<rparr>"
    have "ready_cmd ?s'" using s1(1) c(2,3,5,6) by (simp add: waiting_def ready_cmd_def sarr_def)
    then show ?thesis using s1(4) [of bss ?s'] reads_done [OF c(1)] Nil c(2,4,7,8)
      by (intro exI [of _ ?s']) (simp add: line_def sarr_def)
  next
    case bss: (Cons b' bss')
    have "\<exists>s'. reads (n + length b) s1 bss s' \<and> ready_cmd s' \<and> buf_bytes (sarr s') (cmd s') = token l \<and> line s' = after_token l \<and>
        buffer_bytes (ibuf s') = rest"
      by (rule Cons.IH [OF s1(1)]) (use s1(2,3) bss Cons.prems in simp_all)
    then show ?thesis using s1(4) by blast
  qed
qed simp

text \<open>
  C37: However the bytes of a command line arrive, in pieces of any size, in one read or after what
  an earlier read left in the buffer: as soon as the newline is there the session has exactly the
  words of that line as its command and arguments, and the bytes after the newline as its next
  input. No byte is lost, and the read ends.
\<close>

theorem command_in_pieces:
  assumes "waiting s" and "bss \<noteq> []" and "[] \<notin> set bss"
    and "buffer_bytes (ibuf s) @ concat bss = l @ rest" and "l \<noteq> []" and "last l = CHR 0x0A" and "CHR 0x0A \<notin> set (butlast l)"
    and "CHR 0x0A \<notin> set (buffer_bytes (ibuf s) @ concat (butlast bss))" and "length (l @ rest) \<le> buffer_size"
  shows "\<exists>s'. reads 0 s bss s' \<and> ready_cmd s' \<and> buf_bytes (sarr s') (cmd s') = token l \<and> line s' = after_token l \<and>
    buffer_bytes (ibuf s') = rest"
proof -
  have f: "flat (ibuf s)" using assms(1) by (simp add: waiting_def)
  have i: "input 0 s = buffer_bytes (ibuf s)" "length (buffer_bytes (ibuf s)) = bf_tail (ibuf s)"
    using flatD [OF f] by (simp_all add: input_def)
  have "bf_tail (ibuf s) + 0 + length (concat bss) \<le> buffer_size"
    using arg_cong [OF assms(4), of length] assms(9) i(2) by simp
  then show ?thesis by (intro reads_line [OF assms(1) _ assms(2,3)]) (use assms i in simp_all)
qed

definition waiting_sess :: session where
  "waiting_sess = (text_session_new (''ge'' @ replicate 4094 NUL) (replicate 4096 NUL) False None)
     \<lparr>ibuf := \<lparr>bf_b = ''ge'' @ replicate 4094 NUL, bf_head = 0, bf_tail = 2\<rparr>, state := session_execute_command\<rparr>"

lemma waiting_sess_ok: "waiting waiting_sess" "buffer_bytes (ibuf waiting_sess) = ''ge''" "bf_tail (ibuf waiting_sess) = 2"
  by (simp_all add: waiting_sess_def waiting_def text_session_new_def buffer_new_def flat_def buffer_ok_def max_size_def buffer_size_def
      used_def buffer_bytes_def)

theorem command_in_pieces_witness:
  "\<exists>s'. reads 0 waiting_sess [''t'', '' k'' @ CRLF @ ''q''] s' \<and> buf_bytes (sarr s') (cmd s') = ''get'' \<and> line s' = '' k'' @ CRLF \<and>
     buffer_bytes (ibuf s') = ''q''"
proof -
  have "\<exists>s'. reads 0 waiting_sess [''t'', '' k'' @ CRLF @ ''q''] s' \<and> ready_cmd s' \<and>
      buf_bytes (sarr s') (cmd s') = token (''get k'' @ CRLF) \<and> line s' = after_token (''get k'' @ CRLF) \<and> buffer_bytes (ibuf s') = ''q''"
    by (rule command_in_pieces [OF waiting_sess_ok(1)]) (simp_all add: waiting_sess_ok CRLF_def buffer_size_def)
  moreover have "token (''get k'' @ CRLF) = ''get''" "after_token (''get k'' @ CRLF) = '' k'' @ CRLF"
    by (simp_all add: token_def after_token_def blank_def stop_def NUL_def CRLF_def)
  ultimately show ?thesis by auto
qed

section \<open>Lines that do not fit\<close>

lemma reads_overflow:
  assumes "waiting s" "CHR 0x0A \<notin> set (input n s @ concat bss)" "[] \<notin> set bss"
    and "bf_tail (ibuf s) + n + length (concat bss) = buffer_size"
  shows "\<exists>s'. reads n s bss s' \<and> state s' = session_stopping"
  using assms
proof (induction bss arbitrary: n s)
  case Nil
  then have "cmd_callback False n s = Inr (0, s\<lparr>state := session_stopping\<rparr>)"
    by (intro callback_overflow) (simp_all add: waiting_def)
  then show ?case using reads_done by fastforce
next
  case (Cons b bss)
  obtain s1 where s1: "waiting s1" "bf_tail (ibuf s1) = bf_tail (ibuf s)" "input (n + length b) s1 = input n s @ b"
    "\<And>bss s'. reads (n + length b) s1 bss s' \<Longrightarrow> reads n s (b # bss) s'"
    by (rule piece [OF Cons.prems(1), of n b]) (use Cons.prems(2-4) in auto)
  have "\<exists>s'. reads (n + length b) s1 bss s' \<and> state s' = session_stopping"
    by (rule Cons.IH [OF s1(1)]) (use s1(2,3) Cons.prems in simp_all)
  then show ?case using s1(4) by blast
qed

text \<open>
  A client that fills the whole input buffer without a newline is cut off: the read ends, the
  session stops, and the cache is not touched.
\<close>

lemma command_overflow:
  assumes "waiting s" and "[] \<notin> set bss" and "CHR 0x0A \<notin> set (buffer_bytes (ibuf s) @ concat bss)"
    and "length (buffer_bytes (ibuf s) @ concat bss) = buffer_size"
  shows "\<exists>s' s''. reads 0 s bss s' \<and> callback False vs i (s', w) = Some (Inr (Finished, Suc i, (s'', w)))"
proof -
  have f: "flat (ibuf s)" using assms(1) by (simp add: waiting_def)
  have i: "input 0 s = buffer_bytes (ibuf s)" "length (buffer_bytes (ibuf s)) = bf_tail (ibuf s)"
    using flatD [OF f] by (simp_all add: input_def)
  obtain s' where s': "reads 0 s bss s'" "state s' = session_stopping"
    using reads_overflow [OF assms(1), of 0 bss] assms(2-4) i by auto
  have "loop_step (vs i) (s'\<lparr>io := NoIO\<rparr>, w) = Inr (Finished, (s'\<lparr>io := NoIO\<rparr>, w))" using s'(2) by (simp add: loop_step_def)
  then have "callback False vs i (s', w) = Some (Inr (Finished, Suc i, (s'\<lparr>io := NoIO\<rparr>, w)))"
    by (simp add: callback_def loop_stops)
  then show ?thesis using s'(1) by blast
qed

end
