(* ===== verification/Service.thy ===== *)
theory Service
  imports Collect
begin

text \<open>
  The service thread, \<open>src/service.cc\<close> and \<open>src/service.h\<close>: it runs \<open>cache::collect\<close> every five
  seconds. The clock's answers, the flag \<open>running\<close> at each test and the addresses a collection takes
  are arguments, one record for each round of the loop; sleeping is left out.
\<close>

record timespec =
  tv_sec :: int
  tv_nsec :: int

definition service_period_sec :: int where
  "service_period_sec = 5"

definition service_next :: "int \<Rightarrow> timespec \<Rightarrow> timespec res" where
  "service_next r tt = rbind (require (r = 0) AssertFailed) (\<lambda>_. Inr (tt\<lparr>tv_sec := tv_sec tt + service_period_sec\<rparr>))"

text \<open>
  \<open>rd_stack\<close> and \<open>rd_table\<close> are the addresses of the waiter of \<open>gc_flush\<close> and of the new table, \<open>rd_first\<close>
  and \<open>rd_second\<close> what other threads do during the two flushes;
  \<open>rd_clock\<close> is what \<open>clock_gettime\<close> returns.
\<close>

record round =
  rd_env :: env
  rd_stack :: addr
  rd_table :: addr
  rd_first :: "cop list"
  rd_second :: "cop list"
  rd_clock :: "int \<times> timespec"

text \<open>\<open>n\<close> is the thread's \<open>gc_thread_locked\<close>.\<close>

definition service_run :: "round \<Rightarrow> int \<Rightarrow> world \<Rightarrow> (int \<times> world) res" where
  "service_run r n w =
     (let n = gc_lock n in
      rbind (collect (rd_env r) (rd_stack r) (rd_table r) (rd_first r) (rd_second r) w) (\<lambda>(_, w).
      rbind (gc_unlock (wgc w) (v_cpu (rd_env r)) n) (\<lambda>(ds, n, g).
      rbind (gc_finalize (w\<lparr>wgc := g\<rparr>) ds) (\<lambda>w. Inr (n, w)))))"

text \<open>The result says whether the loop has ended; it has not when the rounds have run out.\<close>

fun service_loop :: "(bool \<times> round) list \<Rightarrow> int \<Rightarrow> world \<Rightarrow> (bool \<times> int \<times> world) res" where
  "service_loop [] n w = Inr (False, n, w)"
| "service_loop ((running, r) # rs) n w =
     (if running then
        rbind (service_next (fst (rd_clock r)) (snd (rd_clock r))) (\<lambda>_.
        rbind (service_run r n w) (\<lambda>(n, w). service_loop rs n w))
      else Inr (True, n, w))"

definition service_entry :: "(bool \<times> round) list \<Rightarrow> world \<Rightarrow> (bool \<times> world) res" where
  "service_entry rs w =
     rbind (cpu_init (wgc w)) (\<lambda>(cpu, g).
     let rs = map (\<lambda>(running, r). (running, r\<lparr>rd_env := (rd_env r)\<lparr>v_cpu := cpu\<rparr>\<rparr>)) rs in
     rbind (service_loop rs 0 (w\<lparr>wgc := g\<rparr>)) (\<lambda>(ended, _, w).
     Inr (ended, if ended then w\<lparr>wgc := cpu_exit (wgc w) cpu\<rparr> else w)))"

end
