(* ===== verification/Binary.thy ===== *)
theory Binary
  imports Buffer
begin

text \<open>
  The binary protocol's session, \<open>src/binary.cc\<close>. The source has the frame of a session (states,
  header, callbacks) but no commands; no server creates one. Logging is left out, and the
  \<open>done\<close> callback is a flag that says whether it was dispatched.
\<close>

section \<open>Headers\<close>

text \<open>The members of the packed structures, with their sizes in bytes.\<close>

datatype header_field =
    magic | opcode | key_length | extras_length | data_type | vbucket_id | status | total_body_length | opaque

definition request_header :: "(header_field \<times> nat) list" where
  "request_header =
     [(magic, 1), (opcode, 1), (key_length, 2), (extras_length, 1), (data_type, 1), (vbucket_id, 2),
      (total_body_length, 4), (opaque, 4)]"

definition response_header :: "(header_field \<times> nat) list" where
  "response_header =
     [(magic, 1), (opcode, 1), (key_length, 2), (extras_length, 1), (data_type, 1), (status, 2),
      (total_body_length, 4), (opaque, 4)]"

definition sizeof :: "(header_field \<times> nat) list \<Rightarrow> nat" where
  "sizeof fs = sum_list (map snd fs)"

section \<open>The session\<close>

datatype binary_state =
    binary_read_command | binary_execute_command | binary_execute_write | binary_write_data
  | binary_write_result | binary_stopping

text \<open>\<open>bi_current\<close> is the offset of the current header in the buffer.\<close>

record binary_session =
  bi_ibuf :: buffer
  bi_current :: "nat option"
  bi_state :: binary_state
  bi_done :: bool

text \<open>\<open>raw\<close> and \<open>st\<close>: the buffer's array and the member \<open>state_\<close> before \<open>interact\<close> are uninitialised.\<close>

definition binary_session_new :: "bytes \<Rightarrow> binary_state \<Rightarrow> binary_session" where
  "binary_session_new raw st = \<lparr>bi_ibuf = buffer_new raw, bi_current = None, bi_state = st, bi_done = False\<rparr>"

definition bi_set_state :: "binary_session \<Rightarrow> binary_state \<Rightarrow> binary_session" where
  "bi_set_state s st = s\<lparr>bi_state := st\<rparr>"

definition bi_cmd_ready :: "binary_session \<Rightarrow> nat \<Rightarrow> (bool \<times> binary_session) res" where
  "bi_cmd_ready s additional =
     (if used (bi_ibuf s) + additional < sizeof request_header then Inr (False, s)
      else
        let s = s\<lparr>bi_current := Some (bf_head (bi_ibuf s))\<rparr> in
        rbind (bf_notify_write (bi_ibuf s) additional) (\<lambda>b. Inr (True, s\<lparr>bi_ibuf := b\<rparr>)))"

text \<open>The number of bytes to read on for; the result is converted to \<open>size_t\<close>.\<close>

definition bi_cmd_callback :: "binary_session \<Rightarrow> bool \<Rightarrow> nat \<Rightarrow> (int \<times> binary_session) res" where
  "bi_cmd_callback s ec bytes =
     (if ec then Inr (0, s)
      else rbind (bi_cmd_ready s bytes) (\<lambda>(ready, s).
        Inr (if ready then 0 else available (bi_ibuf s) - int bytes, s)))"

partial_function (option) bi_loop :: "binary_session \<Rightarrow> binary_session res option" where
  "bi_loop s =
     (case bi_state s of
        binary_read_command \<Rightarrow> bi_loop s
      | binary_execute_command \<Rightarrow> Some (Inl AssertFailed)
      | binary_execute_write \<Rightarrow> Some (Inl AssertFailed)
      | binary_write_data \<Rightarrow> Some (Inl AssertFailed)
      | binary_write_result \<Rightarrow> Some (Inl AssertFailed)
      | binary_stopping \<Rightarrow> Some (Inr (s\<lparr>bi_done := True\<rparr>)))"

definition bi_callback :: "binary_session \<Rightarrow> bool \<Rightarrow> nat \<Rightarrow> binary_session res option" where
  "bi_callback s ec bytes = bi_loop (if ec then bi_set_state s binary_stopping else s)"

definition bi_interact :: "binary_session \<Rightarrow> binary_session res option" where
  "bi_interact s = bi_loop (s\<lparr>bi_state := binary_read_command\<rparr>)"

section \<open>What it does\<close>

text \<open>
  A loop that maps to itself is undefined: the least fixed point of \<open>bi_loop\<close> is below the function
  that is \<open>None\<close> in the state \<open>binary_read_command\<close>.
\<close>

lemma bi_loop_spins: "bi_state s = binary_read_command \<Longrightarrow> bi_loop s = None"
proof -
  have "bi_state s \<noteq> binary_read_command" if "bi_loop s = Some r" for r
    by (rule bi_loop.raw_induct [where P = "\<lambda>s r. bi_state s \<noteq> binary_read_command", OF _ that])
      (auto split: binary_state.splits)
  then show "bi_state s = binary_read_command \<Longrightarrow> bi_loop s = None" by (cases "bi_loop s") auto
qed

lemma bi_loop_simps:
  "bi_state s = binary_stopping \<Longrightarrow> bi_loop s = Some (Inr (s\<lparr>bi_done := True\<rparr>))"
  "bi_state s \<notin> {binary_stopping, binary_read_command} \<Longrightarrow> bi_loop s = Some (Inl AssertFailed)"
  by (subst bi_loop.simps; cases "bi_state s"; simp)+

text \<open>
  C40: A binary session started by \<open>interact\<close> never returns from its loop: it reads no command,
  answers nothing and never calls \<open>done\<close>. From any state, an I/O callback ends the session if it
  reports an error, and otherwise loops for ever or fails an assertion, unless the session is
  stopping already.
\<close>

theorem binary_session_stuck:
  "bi_interact s = None \<and>
   bi_callback s ec bytes =
     (if ec \<or> bi_state s = binary_stopping then Some (Inr (s\<lparr>bi_state := binary_stopping, bi_done := True\<rparr>))
      else if bi_state s = binary_read_command then None else Some (Inl AssertFailed))"
proof -
  have "s\<lparr>bi_state := bi_state s\<rparr> = s" by simp
  then show ?thesis
    by (auto simp: bi_interact_def bi_callback_def bi_set_state_def bi_loop_spins bi_loop_simps)
qed

end
