(* ===== verification/Socket.thy ===== *)
theory Socket
  imports Buffer
begin

text \<open>
  The blocking sockets of \<open>src/socket.cc\<close> and \<open>src/socket.h\<close>, which the load test uses. The
  answers of the operating system are arguments: the return value of a call with the \<open>errno\<close> it
  leaves behind, or the bytes it read. A loop that repeats a call takes the list of the answers it
  gets; when the list ends, the process waits in the call (\<open>None\<close>).
\<close>

section \<open>Answers and exceptions\<close>

definition EINTR :: int where "EINTR = 4"
definition EAGAIN :: int where "EAGAIN = 11"

datatype recv_answer = RecvFailed int | Received bytes
datatype send_answer = SendFailed int | Sent nat

text \<open>
  What a call throws: \<open>socket_error\<close> with its message and \<open>errno\<close>, \<open>socket_closed\<close>, or an error of
  the buffer.
\<close>

datatype socket_exn = socket_error string int | socket_closed | buffer_failed error

definition checked :: "string \<Rightarrow> int \<Rightarrow> int \<Rightarrow> (socket_exn + unit)" where
  "checked msg r errno = (if r \<noteq> 0 then Inl (socket_error msg errno) else Inr ())"

section \<open>Setting up\<close>

text \<open>A \<open>Socket\<close> is its descriptor; \<open>r\<close> is the result of the system call.\<close>

definition Socket_new :: "int \<Rightarrow> int \<Rightarrow> (socket_exn + int)" where
  "Socket_new r errno = (if r = -1 then Inl (socket_error ''Cannot create socket'' errno) else Inr r)"

definition sock_reuse :: "int \<Rightarrow> int \<Rightarrow> (socket_exn + unit)" where
  "sock_reuse r errno = checked ''Cannot set SOREUSEADDR'' r errno"

definition sock_nodelay :: "int \<Rightarrow> int \<Rightarrow> (socket_exn + unit)" where
  "sock_nodelay r errno = checked ''Cannot set TCP_NODELAY'' r errno"

definition sock_listen :: "int \<Rightarrow> int \<Rightarrow> (socket_exn + unit)" where
  "sock_listen r errno = checked ''Could not listen socket'' r errno"

definition sock_accept :: "int \<Rightarrow> int \<Rightarrow> (socket_exn + int)" where
  "sock_accept r errno = (if r = -1 then Inl (socket_error ''Accept error'' errno) else Inr r)"

text \<open>
  \<open>inet_aton\<close> parses a dotted address: its result is the address (a nonzero return value) or
  \<open>None\<close> (zero); \<open>os_bind\<close> is what the system's \<open>bind\<close> returns for an address and a port.
\<close>

definition INADDR_ANY :: u32 where
  "INADDR_ANY = 0"

definition sock_bind ::
    "(string \<Rightarrow> u32 option) \<Rightarrow> (u32 \<Rightarrow> 16 word \<Rightarrow> int) \<Rightarrow> int \<Rightarrow> string option \<Rightarrow> int \<Rightarrow> (socket_exn + unit)" where
  "sock_bind inet_aton os_bind errno iface port =
     (if (case iface of None \<Rightarrow> False | Some i \<Rightarrow> inet_aton i \<noteq> None)
      then Inl (socket_error ''Invalid socket interface'' errno)
      else checked ''Could not bind socket'' (os_bind INADDR_ANY (of_int port)) errno)"

section \<open>Receiving and sending\<close>

definition sock_recv1 :: "recv_answer \<Rightarrow> buffer \<Rightarrow> (socket_exn + int \<times> buffer)" where
  "sock_recv1 a b =
     (case a of
        RecvFailed e \<Rightarrow> Inr (-1, b)
      | Received bs \<Rightarrow>
          if bs = [] then Inr (0, b)
          else (case rbind (store (bf_b b) (bf_tail b) bs) (\<lambda>arr. bf_notify_write (b\<lparr>bf_b := arr\<rparr>) (length bs)) of
             Inl e \<Rightarrow> Inl (buffer_failed e)
           | Inr b \<Rightarrow> Inr (int (length bs), b)))"

definition recv_errno :: "recv_answer \<Rightarrow> int" where
  "recv_errno a = (case a of RecvFailed e \<Rightarrow> e | Received _ \<Rightarrow> 0)"

text \<open>The two checks on the return value at the end of \<open>recv\<close> and \<open>recv_r\<close>.\<close>

definition recv_result :: "int \<Rightarrow> int \<times> buffer \<Rightarrow> (socket_exn + int \<times> buffer)" where
  "recv_result errno = (\<lambda>(r, b).
     if r < 0 then Inl (socket_error ''recv error'' errno)
     else if r = 0 then Inl socket_closed
     else Inr (r, b))"

definition sock_recv :: "recv_answer \<Rightarrow> buffer \<Rightarrow> (socket_exn + int \<times> buffer)" where
  "sock_recv a b = (case sock_recv1 a b of Inl e \<Rightarrow> Inl e | Inr rb \<Rightarrow> recv_result (recv_errno a) rb)"

definition retry :: "int \<Rightarrow> int \<Rightarrow> bool" where
  "retry r errno \<longleftrightarrow> r = -1 \<and> (errno = EINTR \<or> errno = EAGAIN)"

fun sock_recv_r :: "recv_answer list \<Rightarrow> buffer \<Rightarrow> (socket_exn + int \<times> buffer) option" where
  "sock_recv_r [] b = None"
| "sock_recv_r (a # as) b =
     (case sock_recv1 a b of
        Inl e \<Rightarrow> Some (Inl e)
      | Inr (r, b) \<Rightarrow>
          if retry r (recv_errno a) then sock_recv_r as b else Some (recv_result (recv_errno a) (r, b)))"

text \<open>The number of bytes sent; the buffer is not advanced.\<close>

fun sock_send_r :: "send_answer list \<Rightarrow> buffer \<Rightarrow> (socket_exn + int) option" where
  "sock_send_r [] b = None"
| "sock_send_r (a # as) b =
     (case a of
        SendFailed e \<Rightarrow> if retry (-1) e then sock_send_r as b else Some (Inl (socket_error ''send error'' e))
      | Sent n \<Rightarrow> Some (Inr (int n)))"

section \<open>What they do\<close>

definition retried :: "recv_answer \<Rightarrow> bool" where
  "retried a \<longleftrightarrow> (case a of RecvFailed e \<Rightarrow> e = EINTR \<or> e = EAGAIN | Received _ \<Rightarrow> False)"

lemma recv1_retried: "retried a \<Longrightarrow> sock_recv1 a b = Inr (-1, b) \<and> retry (-1) (recv_errno a)"
  by (auto simp: retried_def sock_recv1_def retry_def recv_errno_def split: recv_answer.splits)

lemma recv1_final: "\<not> retried a \<Longrightarrow> sock_recv1 a b = Inr (r, b') \<Longrightarrow> \<not> retry r (recv_errno a)"
  by (auto simp: retried_def sock_recv1_def retry_def recv_errno_def Let_def
      split: recv_answer.splits sum.splits if_splits)

lemma recv_r_final: "\<not> retried a \<Longrightarrow> sock_recv_r (a # as) b = Some (sock_recv a b)"
  using recv1_final [of a b] by (auto simp: sock_recv_def split: sum.splits)

lemma recv_r_retried: "list_all retried rs \<Longrightarrow> sock_recv_r (rs @ as) b = sock_recv_r as b"
  by (induction rs) (simp_all add: recv1_retried)

text \<open>Receiving into a buffer that starts at its array's start appends, up to the free space.\<close>

lemma recv_appends:
  assumes "bf_head b = 0" "bf_tail b \<le> max_size b" "bs \<noteq> []" "int (length bs) \<le> available b"
  obtains b' where "sock_recv (Received bs) b = Inr (int (length bs), b')" "buffer_bytes b' = buffer_bytes b @ bs"
proof -
  have l: "bf_tail b + length bs \<le> length (bf_b b)"
    using assms by (simp add: available_def used_def max_size_def)
  let ?arr = "take (bf_tail b) (bf_b b) @ bs @ drop (bf_tail b + length bs) (bf_b b)"
  let ?b = "b\<lparr>bf_b := ?arr, bf_tail := bf_tail b + length bs\<rparr>"
  have "store (bf_b b) (bf_tail b) bs = Inr ?arr" "bf_notify_write (b\<lparr>bf_b := ?arr\<rparr>) (length bs) = Inr ?b"
    using assms(1,4) l by (simp_all add: store_def bf_notify_write_def available_def used_def max_size_def)
  then have "sock_recv (Received bs) b = Inr (int (length bs), ?b)"
    using assms(3) by (simp add: sock_recv_def sock_recv1_def recv_result_def)
  moreover have "buffer_bytes ?b = buffer_bytes b @ bs"
    using assms(1) l by (simp add: buffer_bytes_def used_def)
  ultimately show thesis by (rule that)
qed

text \<open>
  \<open>recv_r\<close> repeats the call exactly as long as it is interrupted or would block, and then does
  what a single \<open>recv\<close> does with the first other answer: any number of such failures changes
  nothing in the buffer, the bytes that arrive are appended to it, the end of the stream and any
  other failure are thrown. While only such failures come, it does not return.
\<close>

lemma socket_recv_r:
  assumes "list_all retried rs"
  shows "sock_recv_r rs b = None \<and>
    (\<forall>as. sock_recv_r (rs @ Received [] # as) b = Some (Inl socket_closed)) \<and>
    (\<forall>as e. \<not> retried (RecvFailed e) \<longrightarrow>
        sock_recv_r (rs @ RecvFailed e # as) b = Some (Inl (socket_error ''recv error'' e))) \<and>
    (\<forall>as bs. bf_head b = 0 \<and> bf_tail b \<le> max_size b \<and> bs \<noteq> [] \<and> int (length bs) \<le> available b \<longrightarrow>
        (\<exists>b'. sock_recv_r (rs @ Received bs # as) b = Some (Inr (int (length bs), b')) \<and>
              buffer_bytes b' = buffer_bytes b @ bs))"
proof (intro conjI allI impI)
  note r = recv_r_retried [OF assms]
  show "sock_recv_r rs b = None" using r [of "[]" b] by simp
  show "sock_recv_r (rs @ Received [] # as) b = Some (Inl socket_closed)" for as
    by (simp add: r sock_recv1_def retry_def recv_result_def)
  show "sock_recv_r (rs @ RecvFailed e # as) b = Some (Inl (socket_error ''recv error'' e))"
    if "\<not> retried (RecvFailed e)" for as e
    using that by (simp add: r sock_recv1_def retry_def retried_def recv_result_def recv_errno_def)
  fix as and bs :: bytes
  assume i: "bf_head b = 0 \<and> bf_tail b \<le> max_size b \<and> bs \<noteq> [] \<and> int (length bs) \<le> available b"
  have "\<not> retried (Received bs)" by (simp add: retried_def)
  then have "sock_recv_r (rs @ Received bs # as) b = Some (sock_recv (Received bs) b)"
    by (subst r) (rule recv_r_final)
  then show "\<exists>b'. sock_recv_r (rs @ Received bs # as) b = Some (Inr (int (length bs), b')) \<and>
              buffer_bytes b' = buffer_bytes b @ bs"
    using recv_appends [of b bs] i by metis
qed

definition demo_buffer :: buffer where
  "demo_buffer = buffer_new (replicate 8 NUL)"

end
