(* ===== verification/Pool.thy ===== *)
theory Pool
  imports Gc
begin

text \<open>
  The pool of I/O services of \<open>src/pool.cc\<close> and \<open>src/pool.h\<close>: the choice of a service for a new
  connection, and what a worker thread does around \<open>io_service::run\<close>. A \<open>boost::asio\<close> service
  is a value of a type parameter; threads act on the state of the garbage collector.
\<close>

section \<open>The pool\<close>

record 'io io_service_pool =
  io_services :: "'io list"
  work :: "'io list"
  next_io_service :: u64

definition io_service_pool_new :: "'io list \<Rightarrow> 'io io_service_pool" where
  "io_service_pool_new ios = \<lparr>io_services = ios, work = ios, next_io_service = 0\<rparr>"

definition get_io_service :: "'io io_service_pool \<Rightarrow> ('io \<times> 'io io_service_pool) res" where
  "get_io_service p =
     (let n = next_io_service p; size = of_nat (length (io_services p)) in
      if size = 0 then Inl DivByZero
      else Inr (io_services p ! unat (n mod size), p\<lparr>next_io_service := n + 1\<rparr>))"

section \<open>Worker threads\<close>

definition gc_wakeup_ms :: int where
  "gc_wakeup_ms = 500"

text \<open>
  The timer of a thread: its expiry relative to now, and the handler that runs when it expires,
  \<open>thread_timer\<close> again. \<open>n\<close> is the thread's \<open>gc_thread_locked\<close>.
\<close>

definition thread_timer :: "gc_state \<Rightarrow> nat \<Rightarrow> int \<Rightarrow> (int \<times> addr list \<times> int \<times> gc_state) res" where
  "thread_timer st cpu n =
     (let expires = gc_wakeup_ms in
      rbind (gc_unlock st cpu (gc_lock n)) (\<lambda>(ds, n, st). Inr (expires, ds, n, st)))"

text \<open>The body of a thread before and after \<open>io.run()\<close>.\<close>

definition thread_begin :: "gc_state \<Rightarrow> (nat \<times> addr list \<times> gc_state) res" where
  "thread_begin st =
     rbind (cpu_init st) (\<lambda>(cpu, st).
     rbind (thread_timer st cpu 0) (\<lambda>(_, ds, _, st). Inr (cpu, ds, st)))"

definition thread_end :: "gc_state \<Rightarrow> nat \<Rightarrow> gc_state" where
  "thread_end st cpu = cpu_exit st cpu"

text \<open>\<open>run\<close> starts one thread for each service, then joins them.\<close>

fun start_threads :: "gc_state \<Rightarrow> 'io list \<Rightarrow> (nat list \<times> gc_state) res" where
  "start_threads st [] = Inr ([], st)"
| "start_threads st (io # ios) =
     rbind (thread_begin st) (\<lambda>(cpu, _, st).
     rbind (start_threads st ios) (\<lambda>(cpus, st). Inr (cpu # cpus, st)))"

definition pool_run_begin :: "gc_state \<Rightarrow> 'io io_service_pool \<Rightarrow> (nat list \<times> gc_state) res" where
  "pool_run_begin st p = start_threads st (io_services p)"

text \<open>
  \<open>stop\<close> stops every service, by \<open>io_service::stop\<close>, whose effect on a service is an argument. The calls
  of \<open>io.run()\<close> return then; \<open>run\<close> joins the threads, which end in some order.
\<close>

definition pool_stop :: "('io \<Rightarrow> 'io) \<Rightarrow> 'io io_service_pool \<Rightarrow> 'io io_service_pool" where
  "pool_stop stop p = p\<lparr>io_services := map stop (io_services p)\<rparr>"

definition pool_run_end :: "gc_state \<Rightarrow> nat list \<Rightarrow> gc_state" where
  "pool_run_end st cpus = foldl thread_end st cpus"

lemma thread_end_mask: "c < 64 \<Longrightarrow> bit (cpu_mask (thread_end st c)) b \<longleftrightarrow> bit (cpu_mask st) b \<and> b \<noteq> c"
  using bit_imp_le_length [of "cpu_mask st" b]
  by (auto simp: thread_end_def cpu_exit_def bit_and_iff bit_not_iff bit_push_bit_iff bit_1_iff simp del: push_bit_of_1)

text \<open>When all its threads have ended, no flush waits for any of them.\<close>

lemma pool_run_end_mask:
  "\<forall>c \<in> set cpus. c < 64 \<Longrightarrow> bit (cpu_mask (pool_run_end st cpus)) b \<longleftrightarrow> bit (cpu_mask st) b \<and> b \<notin> set cpus"
  by (induction cpus arbitrary: st) (auto simp: pool_run_end_def thread_end_mask)

section \<open>Round robin\<close>

fun get_io_services :: "nat \<Rightarrow> 'io io_service_pool \<Rightarrow> ('io list \<times> 'io io_service_pool) res" where
  "get_io_services 0 p = Inr ([], p)"
| "get_io_services (Suc k) p =
     rbind (get_io_service p) (\<lambda>(io, p). rbind (get_io_services k p) (\<lambda>(ios, p). Inr (io # ios, p)))"

lemma get_io_service_ok:
  assumes "io_services p \<noteq> []" "length (io_services p) < 2 ^ 64"
  shows "get_io_service p =
    Inr (io_services p ! (unat (next_io_service p) mod length (io_services p)), p\<lparr>next_io_service := next_io_service p + 1\<rparr>)"
proof -
  have u: "unat (of_nat (length (io_services p)) :: u64) = length (io_services p)"
    using assms(2) by (simp add: unsigned_of_nat take_bit_nat_eq_self)
  then have "(of_nat (length (io_services p)) :: u64) \<noteq> 0" using assms(1) by (metis length_0_conv unsigned_0)
  then show ?thesis by (simp add: get_io_service_def Let_def unat_mod u)
qed

lemma get_io_services_ok:
  assumes "io_services p \<noteq> []" "length (io_services p) < 2 ^ 64" "unat (next_io_service p) + k < 2 ^ 64"
  shows "get_io_services k p =
    Inr (map (\<lambda>i. io_services p ! ((unat (next_io_service p) + i) mod length (io_services p))) [0..<k],
         p\<lparr>next_io_service := next_io_service p + of_nat k\<rparr>)"
  using assms
proof (induction k arbitrary: p)
  case (Suc k)
  let ?q = "p\<lparr>next_io_service := next_io_service p + 1\<rparr>"
  have n: "unat (next_io_service p + 1) = unat (next_io_service p) + 1"
    using Suc.prems(3) by (simp add: unat_word_ariths(1))
  have "get_io_services k ?q =
    Inr (map (\<lambda>i. io_services p ! ((unat (next_io_service p) + 1 + i) mod length (io_services p))) [0..<k],
         p\<lparr>next_io_service := next_io_service p + 1 + of_nat k\<rparr>)"
    using Suc.IH [of ?q] Suc.prems n by simp
  moreover have "map f [0..<Suc k] = f 0 # map (\<lambda>i. f (Suc i)) [0..<k]" for f :: "nat \<Rightarrow> 'a"
    by (simp add: map_Suc_upt [symmetric] upt_conv_Cons comp_def del: upt_Suc)
  moreover have "next_io_service p + 1 + of_nat k = next_io_service p + of_nat (Suc k)" by (simp add: add.assoc)
  ultimately show ?case
    using get_io_service_ok [OF Suc.prems(1,2)] by (simp del: of_nat_Suc upt_Suc)
qed simp

text \<open>
  The pool hands out its services in turn: as long as the counter has not wrapped, the next
  \<open>k\<close> connections get the services that follow the last one chosen, in the order of the pool and
  cyclically, so that any \<open>k\<close> equal to the size of the pool are spread over all of its services, one
  each.
\<close>

lemma pool_round_robin:
  assumes "io_services p \<noteq> []" "unat (next_io_service p) + length (io_services p) < 2 ^ 64"
  shows "\<exists>q. get_io_services (length (io_services p)) p =
    Inr (rotate (unat (next_io_service p)) (io_services p), q) \<and> io_services q = io_services p"
proof -
  let ?ios = "io_services p" and ?n = "unat (next_io_service p)"
  have "map (\<lambda>i. ?ios ! ((?n + i) mod length ?ios)) [0..<length ?ios] = rotate ?n ?ios"
    by (rule nth_equalityI) (auto simp: nth_rotate)
  then show ?thesis using get_io_services_ok [of p "length ?ios"] assms by auto
qed

section \<open>How many threads can start\<close>

lemma thread_begin_ok:
  assumes "gc_run tr st" "cpu_count st < MAX_CPUS"
  obtains ds st' tr' where "thread_begin st = Inr (cpu_count st, ds, st')" "gc_run tr' st'" "cpu_count st' = cpu_count st + 1"
proof -
  obtain ds0 s1 where s1: "gc_exec st EvInit = Inr (ds0, s1)" "gc_run (EvInit # tr) s1"
    using gc_progress [OF assms(1), of EvInit] assms(2) by auto
  then have i: "cpu_init st = Inr (cpu_count st, s1)" "cpu_count s1 = cpu_count st + 1"
    using assms(2) by (auto simp: cpu_init_def Let_def require_def rbind_def split: if_splits)
  obtain ds s2 where s2: "gc_checkpoint s1 (cpu_count st) = Inr (ds, s2)" "cpu_count s2 = cpu_count s1"
    by (rule gc_checkpoint_ok [OF gc_run_inv [OF s1(2)], of "cpu_count st"]) (use i(2) in simp)
  have r: "gc_run (EvCheckpoint (cpu_count st) # EvInit # tr) s2"
    by (rule gc_run_step [OF s1(2)]) (use i(2) s2(1) in auto)
  have "thread_begin st = Inr (cpu_count st, ds, s2)"
    using s2(1) by (simp add: thread_begin_def thread_timer_def gc_lock_def gc_unlock_def i(1) Let_def)
  then show thesis using that r s2(2) i(2) by simp
qed

lemma thread_begin_fails: "cpu_count st \<ge> MAX_CPUS \<Longrightarrow> thread_begin st = Inl AssertFailed"
  by (simp add: thread_begin_def cpu_init_def Let_def)

lemma start_threads_ok:
  "gc_run tr st \<Longrightarrow>
   (if cpu_count st + length ios \<le> MAX_CPUS
    then \<exists>st'. start_threads st ios = Inr ([cpu_count st..<cpu_count st + length ios], st') \<and>
           cpu_count st' = cpu_count st + length ios \<and> (\<exists>tr'. gc_run tr' st')
    else cpu_count st \<le> MAX_CPUS \<longrightarrow> start_threads st ios = Inl AssertFailed)"
proof (induction ios arbitrary: tr st)
  case (Cons io ios)
  show ?case
  proof (cases "cpu_count st < MAX_CPUS")
    case True
    obtain ds s1 tr' where s1: "thread_begin st = Inr (cpu_count st, ds, s1)" "gc_run tr' s1" "cpu_count s1 = cpu_count st + 1"
      using thread_begin_ok [OF Cons.prems True] .
    have "[cpu_count st..<cpu_count st + length (io # ios)] =
        cpu_count st # [cpu_count st + 1..<cpu_count st + 1 + length ios]" by (simp add: upt_rec)
    then show ?thesis using Cons.IH [OF s1(2)] s1(1,3) True by (auto split: if_splits)
  qed (simp add: thread_begin_fails)
qed auto

end
