(* ===== verification/Tcp.thy ===== *)
theory Tcp
  imports Pool Input Storing
begin

text \<open>
  The network front end of \<open>src/tcp.cc\<close>: a server accepts connections one after the other, gives
  each a text session on the next service of the pool, and deletes it when its session is done.
  \<open>boost::asio\<close> is the environment: it completes accepts, reads and writes and runs the callback
  \<open>done\<close>. Each handler is one step. Logging, the listening socket and closing are left out.
\<close>

section \<open>Connections\<close>

text \<open>\<open>ts_done\<close> says that the session has dispatched its callback \<open>done\<close>.\<close>

record 'io tcp_session =
  ts_io :: 'io
  ts_nodelay :: bool
  ts_session :: session
  ts_done :: bool

record 'io tcp_server =
  sv_pool :: "'io io_service_pool"
  sv_acceptor :: 'io
  sv_pending :: addr
  sv_conns :: "addr \<rightharpoonup> 'io tcp_session"
  sv_world :: world

text \<open>What \<open>new tcp_session\<close> takes from \<open>malloc\<close>: its address and what it leaves uninitialised.\<close>

record alloc =
  al_addr :: addr
  al_ibuf :: bytes
  al_obuf :: bytes
  al_noreply :: bool

definition tcp_session_new :: "'io \<Rightarrow> alloc \<Rightarrow> 'io tcp_session" where
  "tcp_session_new sv m =
     \<lparr>ts_io = sv, ts_nodelay = False, ts_session = text_session_new (al_ibuf m) (al_obuf m) (al_noreply m) None,
      ts_done = False\<rparr>"

text \<open>What a session's loop returns is stored back; a loop that fails or hangs ends the process.\<close>

definition put_session ::
    "addr \<Rightarrow> 'io tcp_session \<Rightarrow> (flow \<times> nat \<times> ss) res option \<Rightarrow> 'io tcp_server \<Rightarrow> 'io tcp_server res" where
  "put_session a c r srv =
     rbind (outcome r) (\<lambda>(fl, _, (s, w)).
     Inr (srv\<lparr>sv_conns := (sv_conns srv)(a \<mapsto> c\<lparr>ts_session := s, ts_done := (fl = Finished)\<rparr>), sv_world := w\<rparr>))"

definition tcp_session_interact :: "(nat \<Rightarrow> senv) \<Rightarrow> addr \<Rightarrow> 'io tcp_session \<Rightarrow> 'io tcp_server \<Rightarrow> 'io tcp_server res" where
  "tcp_session_interact vs a c srv =
     (let c = c\<lparr>ts_nodelay := True\<rparr> in put_session a c (interact vs 0 (ts_session c, sv_world srv)) srv)"

section \<open>The server\<close>

definition start_accept :: "alloc \<Rightarrow> 'io tcp_server \<Rightarrow> 'io tcp_server res" where
  "start_accept m srv =
     rbind (get_io_service (sv_pool srv)) (\<lambda>(sv, p).
     Inr (srv\<lparr>sv_pool := p, sv_conns := (sv_conns srv)(al_addr m \<mapsto> tcp_session_new sv m), sv_pending := al_addr m\<rparr>))"

definition tcp_server_new :: "'io io_service_pool \<Rightarrow> alloc \<Rightarrow> world \<Rightarrow> 'io tcp_server res" where
  "tcp_server_new pool m w =
     rbind (get_io_service pool) (\<lambda>(sv, p).
     start_accept m \<lparr>sv_pool = p, sv_acceptor = sv, sv_pending = 0, sv_conns = Map.empty, sv_world = w\<rparr>)"

definition conn_at :: "'io tcp_server \<Rightarrow> addr \<Rightarrow> 'io tcp_session res" where
  "conn_at srv a = (case sv_conns srv a of None \<Rightarrow> Inl BadPtr | Some c \<Rightarrow> Inr c)"

definition delete_conn :: "addr \<Rightarrow> 'io tcp_server \<Rightarrow> 'io tcp_server" where
  "delete_conn a srv = srv\<lparr>sv_conns := (sv_conns srv)(a := None)\<rparr>"

definition handle_accept :: "(nat \<Rightarrow> senv) \<Rightarrow> alloc \<Rightarrow> addr \<Rightarrow> bool \<Rightarrow> 'io tcp_server \<Rightarrow> 'io tcp_server res" where
  "handle_accept vs m a error srv =
     rbind (conn_at srv a) (\<lambda>c.
     rbind (if error then Inr (delete_conn a srv) else tcp_session_interact vs a c srv) (\<lambda>srv.
     start_accept m srv))"

text \<open>The callback a session gets: it deletes the connection.\<close>

definition handle_done :: "addr \<Rightarrow> 'io tcp_server \<Rightarrow> 'io tcp_server res" where
  "handle_done a srv = rbind (conn_at srv a) (\<lambda>c. Inr (delete_conn a srv))"

definition handle_io :: "(nat \<Rightarrow> senv) \<Rightarrow> addr \<Rightarrow> bool \<Rightarrow> session \<Rightarrow> 'io tcp_server \<Rightarrow> 'io tcp_server res" where
  "handle_io vs a ec s srv =
     rbind (conn_at srv a) (\<lambda>c. put_session a c (callback ec vs 0 (s, sv_world srv)) srv)"

section \<open>Runs\<close>

text \<open>
  What the stream does before it calls a session back: it has written the output, read a command
  in pieces, or read data into a chunk; after an error, some of the input buffer may have been written.
\<close>

inductive transfer :: "bool \<Rightarrow> session \<Rightarrow> world \<Rightarrow> session \<Rightarrow> world \<Rightarrow> bool" where
  transfer_written: "io s = WriteReq bs \<Longrightarrow> transfer False s w s w"
| transfer_command: "io s = ReadCmd off n \<Longrightarrow> reads 0 s bss s' \<Longrightarrow> transfer False s w s' w"
| transfer_data: "io s = ReadData a l n \<Longrightarrow> length bs = unat n \<Longrightarrow> deliver a bs w = Inr w' \<Longrightarrow> transfer False s w s w'"
| transfer_failed: "io s \<noteq> NoIO \<Longrightarrow> length arr = length (bf_b (ibuf s)) \<Longrightarrow>
    transfer True s w (s\<lparr>ibuf := (ibuf s)\<lparr>bf_b := arr\<rparr>\<rparr>) w"

datatype tcp_event = Accept bool | Closed addr | IODone addr

text \<open>
  Runs of a server on the services \<open>ios\<close>, newest event first. New connections get addresses that
  are not in use; only the pending connection can be accepted, and a connection is closed and its
  streams are served only after it was.
\<close>

inductive tcp_run :: "'io list \<Rightarrow> tcp_event list \<Rightarrow> 'io tcp_server \<Rightarrow> bool" for ios where
  tcp_start: "tcp_server_new (io_service_pool_new ios) m w = Inr srv \<Longrightarrow> tcp_run ios [] srv"
| tcp_accept: "tcp_run ios evs srv \<Longrightarrow> sv_conns srv (al_addr m) = None \<Longrightarrow>
    handle_accept vs m (sv_pending srv) error srv = Inr srv' \<Longrightarrow> tcp_run ios (Accept error # evs) srv'"
| tcp_closed: "tcp_run ios evs srv \<Longrightarrow> sv_conns srv a = Some c \<Longrightarrow> ts_done c \<Longrightarrow>
    handle_done a srv = Inr srv' \<Longrightarrow> tcp_run ios (Closed a # evs) srv'"
| tcp_io: "tcp_run ios evs srv \<Longrightarrow> sv_conns srv a = Some c \<Longrightarrow> a \<noteq> sv_pending srv \<Longrightarrow> \<not> ts_done c \<Longrightarrow>
    transfer ec (ts_session c) (sv_world srv) s w \<Longrightarrow>
    handle_io vs a ec s (srv\<lparr>sv_world := w\<rparr>) = Inr srv' \<Longrightarrow> tcp_run ios (IODone a # evs) srv'"

definition accepts :: "tcp_event list \<Rightarrow> nat" where
  "accepts evs = length (filter (\<lambda>ev. case ev of Accept _ \<Rightarrow> True | _ \<Rightarrow> False) evs)"

lemma accepts_simps [simp]:
  "accepts [] = 0" "accepts (Accept b # evs) = Suc (accepts evs)" "accepts (Closed a # evs) = accepts evs"
  "accepts (IODone a # evs) = accepts evs"
  by (simp_all add: accepts_def)

text \<open>
  The invariant: the pool's counter, the pending connection on its service, and every other
  connection started.
\<close>

definition server_inv :: "'io list \<Rightarrow> nat \<Rightarrow> 'io tcp_server \<Rightarrow> bool" where
  "server_inv ios n srv \<longleftrightarrow>
     io_services (sv_pool srv) = ios \<and> next_io_service (sv_pool srv) = of_nat (n + 2) \<and> sv_acceptor srv = ios ! 0 \<and>
     (\<exists>c. sv_conns srv (sv_pending srv) = Some c \<and> ts_io c = ios ! ((n + 1) mod length ios) \<and> \<not> ts_nodelay c \<and> \<not> ts_done c) \<and>
     (\<forall>a c. a \<noteq> sv_pending srv \<and> sv_conns srv a = Some c \<longrightarrow> ts_nodelay c)"

lemma start_accept_ok:
  assumes "start_accept m srv = Inr srv'" "io_services (sv_pool srv) = ios" "next_io_service (sv_pool srv) = of_nat k"
    "k < 2 ^ 64" "ios \<noteq> []" "length ios < 2 ^ 64"
  shows "srv' = srv\<lparr>sv_pool := (sv_pool srv)\<lparr>next_io_service := of_nat (Suc k)\<rparr>,
     sv_conns := (sv_conns srv)(al_addr m \<mapsto> tcp_session_new (ios ! (k mod length ios)) m), sv_pending := al_addr m\<rparr>"
proof -
  have "unat (of_nat k :: u64) = k" using assms(4) by (simp add: unsigned_of_nat take_bit_nat_eq_self)
  then show ?thesis
    using get_io_service_ok [of "sv_pool srv"] assms by (simp add: start_accept_def add.commute)
qed

lemma put_session_conns:
  "put_session a c r srv = Inr srv' \<Longrightarrow>
   \<exists>s w d. srv' = srv\<lparr>sv_conns := (sv_conns srv)(a \<mapsto> c\<lparr>ts_session := s, ts_done := d\<rparr>), sv_world := w\<rparr>"
  by (auto simp: put_session_def rbind_Inr_iff)

lemma handle_accept_ok:
  assumes "server_inv ios n srv" "handle_accept vs m (sv_pending srv) error srv = Inr srv'" "sv_conns srv (al_addr m) = None"
    "n + 2 < 2 ^ 64" "ios \<noteq> []" "length ios < 2 ^ 64"
  shows "server_inv ios (Suc n) srv'"
proof -
  obtain c where c: "sv_conns srv (sv_pending srv) = Some c" using assms(1) by (auto simp: server_inv_def)
  obtain s1 where s1: "(if error then Inr (delete_conn (sv_pending srv) srv)
      else tcp_session_interact vs (sv_pending srv) c srv) = Inr s1" "start_accept m s1 = Inr srv'"
    using assms(2) c by (auto simp: handle_accept_def conn_at_def rbind_Inr_iff)
  have k: "sv_pool s1 = sv_pool srv" "sv_acceptor s1 = sv_acceptor srv"
      "\<And>a c. sv_conns s1 a = Some c \<Longrightarrow> a \<noteq> al_addr m \<Longrightarrow> ts_nodelay c"
    using s1(1) assms(1) put_session_conns
    by (fastforce simp: tcp_session_interact_def delete_conn_def server_inv_def split: if_splits)+
  have "srv' = s1\<lparr>sv_pool := (sv_pool s1)\<lparr>next_io_service := of_nat (Suc (n + 2))\<rparr>,
     sv_conns := (sv_conns s1)(al_addr m \<mapsto> tcp_session_new (ios ! ((n + 2) mod length ios)) m), sv_pending := al_addr m\<rparr>"
    by (rule start_accept_ok [OF s1(2)]) (use assms k(1) in \<open>simp_all add: server_inv_def\<close>)
  then show ?thesis using assms(1) k by (simp add: server_inv_def tcp_session_new_def)
qed

lemma server_inv_step:
  assumes "server_inv ios n srv" "a \<noteq> sv_pending srv" "sv_conns srv a = Some c"
  shows "put_session a c r (srv\<lparr>sv_world := w\<rparr>) = Inr srv' \<Longrightarrow> server_inv ios n srv'"
    "server_inv ios n (delete_conn a srv)"
  using assms put_session_conns [of a c r "srv\<lparr>sv_world := w\<rparr>" srv'] by (auto simp: server_inv_def delete_conn_def split: if_splits)

lemma tcp_run_inv:
  assumes "tcp_run ios evs srv" "ios \<noteq> []" "length ios < 2 ^ 64" "accepts evs + 2 < 2 ^ 64"
  shows "server_inv ios (accepts evs) srv"
  using assms(1,4)
proof (induction rule: tcp_run.induct)
  case (tcp_start m w srv)
  let ?p = "io_service_pool_new ios"
  let ?s = "\<lparr>sv_pool = ?p\<lparr>next_io_service := 1\<rparr>, sv_acceptor = ios ! 0, sv_pending = 0, sv_conns = Map.empty, sv_world = w\<rparr>"
  have "get_io_service ?p = Inr (ios ! 0, ?p\<lparr>next_io_service := 1\<rparr>)"
    using get_io_service_ok [of ?p] assms(2,3) by (simp add: io_service_pool_new_def)
  then have "start_accept m ?s = Inr srv" using tcp_start.hyps by (simp add: tcp_server_new_def)
  then have "srv = ?s\<lparr>sv_pool := (sv_pool ?s)\<lparr>next_io_service := of_nat (Suc 1)\<rparr>,
     sv_conns := (sv_conns ?s)(al_addr m \<mapsto> tcp_session_new (ios ! (1 mod length ios)) m), sv_pending := al_addr m\<rparr>"
    by (rule start_accept_ok) (use assms(2,3) in \<open>simp_all add: io_service_pool_new_def\<close>)
  then show ?case by (simp add: server_inv_def tcp_session_new_def io_service_pool_new_def)
next
  case (tcp_accept evs srv m vs error srv')
  then show ?case using handle_accept_ok [of ios "accepts evs" srv vs m error srv'] assms(2,3) by simp
next
  case (tcp_closed evs srv a c srv')
  have "server_inv ios (accepts evs) srv" "a \<noteq> sv_pending srv"
    using tcp_closed by (auto simp: server_inv_def)
  then show ?case using server_inv_step(2) tcp_closed.hyps by (fastforce simp: handle_done_def conn_at_def)
next
  case (tcp_io evs srv a c ec s w vs srv')
  then show ?case using server_inv_step(1) [of ios "accepts evs" srv a c] by (fastforce simp: handle_io_def conn_at_def)
qed

text \<open>
  C38: However connections come, fail and close, the server has exactly one connection that waits to
  be accepted. It has not been used, every other one has, and it belongs to the service that is next
  in turn: the \<open>k\<close>-th connection accepted (failures count) runs on service \<open>k\<close> modulo the number
  of services, counting from the one after the acceptor's.
\<close>

theorem tcp_server_balanced:
  assumes "tcp_run ios evs srv" "ios \<noteq> []" "length ios < 2 ^ 64" "accepts evs + 2 < 2 ^ 64"
  shows "\<exists>c. sv_conns srv (sv_pending srv) = Some c \<and> \<not> ts_nodelay c \<and>
    ts_io c = ios ! ((accepts evs + 1) mod length ios) \<and>
    (\<forall>a c. a \<noteq> sv_pending srv \<and> sv_conns srv a = Some c \<longrightarrow> ts_nodelay c)"
  using tcp_run_inv [OF assms] by (auto simp: server_inv_def)

definition demo_alloc :: "addr \<Rightarrow> alloc" where
  "demo_alloc a = \<lparr>al_addr = a, al_ibuf = replicate 4096 NUL, al_obuf = replicate 4096 NUL, al_noreply = False\<rparr>"

lemma demo_server:
  "\<exists>srv. tcp_run ''ab'' [Accept True] srv \<and> sv_pending srv = 32 \<and> dom (sv_conns srv) = {32}"
proof -
  let ?p = "io_service_pool_new ''ab''" and ?w = "cache_new 1000 0x1000 3"
  have n: "next_io_service ?p = 0" "io_services ?p = ''ab''" by (simp_all add: io_service_pool_new_def)
  let ?s1 = "\<lparr>sv_pool = ?p\<lparr>next_io_service := 2\<rparr>, sv_acceptor = CHR ''a'', sv_pending = 16,
     sv_conns = [16 \<mapsto> tcp_session_new (CHR ''b'') (demo_alloc 16)], sv_world = ?w\<rparr>"
  let ?s2 = "\<lparr>sv_pool = ?p\<lparr>next_io_service := 3\<rparr>, sv_acceptor = CHR ''a'', sv_pending = 32,
     sv_conns = [32 \<mapsto> tcp_session_new (CHR ''a'') (demo_alloc 32)], sv_world = ?w\<rparr>"
  have a: "al_addr (demo_alloc x) = x" for x by (simp add: demo_alloc_def)
  have "tcp_server_new ?p (demo_alloc 16) ?w = Inr ?s1"
    by (simp add: tcp_server_new_def start_accept_def get_io_service_def n a)
  then have r: "tcp_run ''ab'' [] ?s1" by (rule tcp_start)
  have "tcp_run ''ab'' [Accept True] ?s2"
    by (rule tcp_accept [OF r, of "demo_alloc 32" "\<lambda>_. undefined" True])
      (simp_all add: handle_accept_def start_accept_def get_io_service_def n a conn_at_def delete_conn_def)
  then show ?thesis by (intro exI [of _ ?s2]) simp
qed

theorem tcp_server_balanced_witness:
  "\<exists>srv c. tcp_run ''ab'' [Accept True] srv \<and> sv_conns srv 32 = Some c \<and> ts_io c = CHR ''a''"
proof -
  obtain srv where s: "tcp_run ''ab'' [Accept True] srv" "sv_pending srv = 32" using demo_server by blast
  then show ?thesis using tcp_server_balanced [OF s(1)] by fastforce
qed

end
