(* ===== verification/Jimcached.thy ===== *)
theory Jimcached
  imports Tcp Utils
begin

text \<open>
  The server program, \<open>src/jimcached.cc\<close>, with the log levels of \<open>src/log.h\<close>: the command line,
  and how \<open>main\<close> puts the cache, the service thread, the pool and the network server together.
  What \<open>getopt\<close> answers and the package string of the generated \<open>config.h\<close> are arguments.
\<close>

section \<open>Log levels\<close>

record log_level =
  lv_name :: string
  lv_verbosity :: int

definition ERROR :: log_level where "ERROR = \<lparr>lv_name = ''ERROR'', lv_verbosity = 1\<rparr>"
definition WARN :: log_level where "WARN = \<lparr>lv_name = ''WARNING'', lv_verbosity = 1\<rparr>"
definition INFO :: log_level where "INFO = \<lparr>lv_name = ''INFO'', lv_verbosity = 2\<rparr>"
definition DEBUG :: log_level where "DEBUG = \<lparr>lv_name = ''DEBUG'', lv_verbosity = 3\<rparr>"

text \<open>What \<open>out << level\<close> prints; \<open>None\<close> when the rest of the line goes to the null stream.\<close>

definition log_prefix :: "int \<Rightarrow> log_level \<Rightarrow> string option" where
  "log_prefix verbosity level = (if verbosity \<ge> lv_verbosity level then Some (lv_name level @ '' '') else None)"

section \<open>Command line\<close>

record settings =
  tcp_port :: int
  listen_backlog :: int
  daemonize :: bool
  max_memory_mb :: int
  num_threads :: int
  verbosity :: int

definition defaults :: settings where
  "defaults = \<lparr>tcp_port = 11211, listen_backlog = 1024, daemonize = False, max_memory_mb = 64, num_threads = 4, verbosity = 0\<rparr>"

text \<open>\<open>atoi\<close> is \<open>strtol\<close>, which saturates at 64 bit, cut to 32 bit.\<close>

definition atoi :: "string \<Rightarrow> int" where
  "atoi s =
     (let z = dropWhile c_isspace s; neg = (z \<noteq> [] \<and> hd z = CHR ''-'');
          z = (if z \<noteq> [] \<and> (hd z = CHR ''-'' \<or> hd z = CHR ''+'') then tl z else z);
          n = int (digits_val 0 (takeWhile c_isdigit z));
          v = (if neg then max (- (2 ^ 63)) (- n) else min (2 ^ 63 - 1) n) in
      sint (of_int v :: 32 word))"

definition usage :: "string \<Rightarrow> string list" where
  "usage package =
     [package,
      ''-p <num> TCP port number to listen on (default: 11211)'',
      ''-d       run as a daemon'',
      ''-m <num> max memory to use for items in megabytes (default: 64 MB)'',
      ''-c <num> max simultaneous connections (default: 1024)'',
      ''-v       verbose (print errors/warnings while in event loop)'',
      ''-vv      very verbose (also print client commands/reponses)'',
      ''-vvv     extremely verbose (also print internal state transitions)'',
      ''-h       print this help and exit'',
      ''-t <num> number of threads to use (default: 4)'']"

text \<open>\<open>exit\<close> with a code, and the lines printed before.\<close>

fun parse_commandline :: "string \<Rightarrow> settings \<Rightarrow> (char \<times> string) list \<Rightarrow> (int \<times> string list) + settings" where
  "parse_commandline package st [] = Inr st"
| "parse_commandline package st ((ch, optarg) # opts) =
     (if ch = CHR ''p'' then parse_commandline package (st\<lparr>tcp_port := atoi optarg\<rparr>) opts
      else if ch = CHR ''d'' then parse_commandline package (st\<lparr>daemonize := True\<rparr>) opts
      else if ch = CHR ''m'' then parse_commandline package (st\<lparr>max_memory_mb := atoi optarg\<rparr>) opts
      else if ch = CHR ''c'' then parse_commandline package (st\<lparr>listen_backlog := atoi optarg\<rparr>) opts
      else if ch = CHR ''v'' then parse_commandline package (st\<lparr>verbosity := verbosity st + 1\<rparr>) opts
      else if ch = CHR ''h'' then Inl (0, usage package)
      else if ch = CHR ''t'' then parse_commandline package (st\<lparr>num_threads := atoi optarg\<rparr>) opts
      else Inl (2, [''Illegal argument '' @ [CHR 0x22, ch, CHR 0x22]]))"

section \<open>Main\<close>

text \<open>\<open>(size_t)max_memory_mb * 1024 * 1024\<close>.\<close>

definition memory_limit :: "settings \<Rightarrow> u64" where
  "memory_limit st = of_int (max_memory_mb st) * 1024 * 1024"

text \<open>The pool's constructor takes a \<open>size_t\<close>; a vector of a negative number of services cannot be made.\<close>

definition main_pool :: "settings \<Rightarrow> nat io_service_pool res" where
  "main_pool st =
     (if num_threads st < 0 then Inl LengthError
      else Inr (io_service_pool_new [0..<nat (num_threads st)]))"

text \<open>
  \<open>main\<close> after the command line up to the point where all threads run: the cache with its table at
  \<open>t\<close>, the pool, the service thread (which registers itself), the network server, whose first
  connection is \<open>m\<close>, and the threads of the pool. The service thread and the pool start in an order
  that is not fixed; only the numbers of the threads depend on it.
\<close>

definition main_start :: "settings \<Rightarrow> addr \<Rightarrow> alloc \<Rightarrow> (nat \<times> nat list \<times> nat tcp_server) res" where
  "main_start st t m =
     (let w = cache_new (memory_limit st) t initial_lg2size in
      rbind (main_pool st) (\<lambda>pool.
      rbind (cpu_init (wgc w)) (\<lambda>(service_cpu, g).
      rbind (tcp_server_new pool m (w\<lparr>wgc := g\<rparr>)) (\<lambda>srv.
      rbind (pool_run_begin (wgc (sv_world srv)) (sv_pool srv)) (\<lambda>(cpus, g).
      Inr (service_cpu, cpus, srv\<lparr>sv_world := (sv_world srv)\<lparr>wgc := g\<rparr>\<rparr>))))))"

lemma init_run:
  obtains g where "cpu_init gc_initial = Inr (0, g)" "gc_run [EvInit] g" "cpu_count g = 1"
proof -
  obtain ds g where g: "gc_exec gc_initial EvInit = Inr (ds, g)" "gc_run [EvInit] g"
    using gc_progress [OF gc_run_init, of EvInit] by (auto simp: gc_initial_def MAX_CPUS_def)
  then have "cpu_init gc_initial = Inr (0, g)" "cpu_count g = 1"
    by (auto simp: cpu_init_def gc_initial_def Let_def MAX_CPUS_def)
  then show thesis using that g(2) by blast
qed

text \<open>
  C39: The program starts exactly for 1 to 31 worker threads. Then the service thread is thread 0,
  the workers are threads 1 to \<open>n\<close>, and one connection waits to be accepted, on the service after
  the acceptor's. With none it divides by zero, with more than 31 an assertion fails, with a
  negative number the pool cannot be made; the command line checks none of this.
\<close>

theorem main_starts:
  assumes "num_threads st < 2 ^ 31"
  shows "case main_start st t m of
     Inr (service_cpu, cpus, srv) \<Rightarrow> 1 \<le> num_threads st \<and> num_threads st \<le> 31 \<and> service_cpu = 0 \<and>
       cpus = [1..<nat (num_threads st) + 1] \<and> sv_acceptor srv = 0 \<and> sv_pending srv = al_addr m \<and>
       map_option ts_io (sv_conns srv (al_addr m)) = Some (1 mod nat (num_threads st))
   | Inl e \<Rightarrow> if num_threads st < 0 then e = LengthError
       else if num_threads st = 0 then e = DivByZero else num_threads st > 31 \<and> e = AssertFailed"
proof -
  obtain g where g: "cpu_init gc_initial = Inr (0, g)" "gc_run [EvInit] g" "cpu_count g = 1" by (rule init_run)
  let ?w = "cache_new (memory_limit st) t initial_lg2size"
  have w: "wgc ?w = gc_initial" by (simp add: cache_new_def)
  consider "num_threads st < 0" | "num_threads st = 0" | "1 \<le> num_threads st" by linarith
  then show ?thesis
  proof cases
    case 2
    then show ?thesis
      by (simp add: main_start_def main_pool_def w g(1) tcp_server_new_def get_io_service_def io_service_pool_new_def Let_def)
  next
    case 3
    define n where "n = nat (num_threads st)"
    let ?p = "io_service_pool_new [0..<n]"
    have n: "1 \<le> n" "n < 2 ^ 31" using 3 assms by (simp_all add: n_def)
    then have l: "io_services ?p \<noteq> []" "length (io_services ?p) < 2 ^ 64" "[0..<n] \<noteq> []" "length [0..<n] < 2 ^ 64"
      by (simp_all add: io_service_pool_new_def)
    define srv where "srv = \<lparr>sv_pool = ?p\<lparr>next_io_service := of_nat (Suc 1)\<rparr>, sv_acceptor = 0, sv_pending = al_addr m,
      sv_conns = [al_addr m \<mapsto> tcp_session_new ([0..<n] ! (1 mod length [0..<n])) m], sv_world = ?w\<lparr>wgc := g\<rparr>\<rparr>"
    have "tcp_server_new ?p m (?w\<lparr>wgc := g\<rparr>) = Inr srv"
    proof -
      let ?s = "\<lparr>sv_pool = ?p\<lparr>next_io_service := 1\<rparr>, sv_acceptor = 0, sv_pending = 0, sv_conns = Map.empty, sv_world = ?w\<lparr>wgc := g\<rparr>\<rparr>"
      have i: "get_io_service ?p = Inr (0, ?p\<lparr>next_io_service := 1\<rparr>)"
        using get_io_service_ok [OF l(1,2)] n by (simp add: io_service_pool_new_def)
      have "get_io_service (?p\<lparr>next_io_service := 1\<rparr>) =
          Inr ([0..<n] ! (1 mod length [0..<n]), ?p\<lparr>next_io_service := of_nat (Suc 1)\<rparr>)"
        using get_io_service_ok [of "?p\<lparr>next_io_service := 1\<rparr>"] l n by (simp add: io_service_pool_new_def)
      then show ?thesis by (simp add: tcp_server_new_def i start_accept_def srv_def)
    qed
    then have m: "main_start st t m = rbind (pool_run_begin g (sv_pool srv)) (\<lambda>(cpus, g).
        Inr (0, cpus, srv\<lparr>sv_world := (sv_world srv)\<lparr>wgc := g\<rparr>\<rparr>))"
      using 3 by (simp add: main_start_def main_pool_def w g(1) n_def Let_def) (simp add: srv_def)
    have s: "sv_acceptor srv = 0" "sv_pending srv = al_addr m" "length (io_services (sv_pool srv)) = n"
        "map_option ts_io (sv_conns srv (al_addr m)) = Some (1 mod n)"
      using n by (simp_all add: srv_def io_service_pool_new_def tcp_session_new_def)
    show ?thesis
    proof (cases "n \<le> 31")
      case True
      then obtain g' where "pool_run_begin g (sv_pool srv) = Inr ([1..<n + 1], g')"
        using start_threads_ok [OF g(2), of "io_services (sv_pool srv)"] by (auto simp: pool_run_begin_def g(3) s(3) MAX_CPUS_def)
      then show ?thesis using 3 True s by (simp add: m n_def)
    next
      case False
      then have "pool_run_begin g (sv_pool srv) = Inl AssertFailed"
        using start_threads_ok [OF g(2), of "io_services (sv_pool srv)"] by (auto simp: pool_run_begin_def g(3) s(3) MAX_CPUS_def)
      then show ?thesis using 3 False by (simp add: m n_def)
    qed
  qed (simp_all add: main_start_def main_pool_def Let_def)
qed

text \<open>The option \<open>-t 32\<close>.\<close>

lemma demo_options:
  "parse_commandline p defaults [(CHR ''t'', ''32'')] = Inr (defaults\<lparr>num_threads := 32\<rparr>)"
  "parse_commandline p defaults [(CHR ''v'', []), (CHR ''m'', '' +128x'')] = Inr (defaults\<lparr>verbosity := 1, max_memory_mb := 128\<rparr>)"
  by (simp_all add: defaults_def atoi_def c_isspace_def c_isdigit_def digits_val_def digit_val_def)

theorem main_starts_witness:
  "(\<forall>p t m. \<exists>st. parse_commandline p defaults [(CHR ''t'', ''32'')] = Inr st \<and> \<not> (\<exists>r. main_start st t m = Inr r)) \<and>
   (\<forall>t m. \<exists>c cpus srv. main_start defaults t m = Inr (c, cpus, srv) \<and> cpus = [1, 2, 3, 4])"
proof (intro conjI allI)
  fix p t m
  have a: "num_threads (defaults\<lparr>num_threads := 32\<rparr>) < 2 ^ 31" by simp
  have "\<not> (\<exists>r. main_start (defaults\<lparr>num_threads := 32\<rparr>) t m = Inr r)"
    using main_starts [OF a, where t = t and m = m] by auto
  then show "\<exists>st. parse_commandline p defaults [(CHR ''t'', ''32'')] = Inr st \<and> \<not> (\<exists>r. main_start st t m = Inr r)"
    by (intro exI [of _ "defaults\<lparr>num_threads := 32\<rparr>"] conjI demo_options(1))
  have b: "num_threads defaults < 2 ^ 31" by (simp add: defaults_def)
  show "\<exists>c cpus srv. main_start defaults t m = Inr (c, cpus, srv) \<and> cpus = [1, 2, 3, 4]"
    using main_starts [OF b, where t = t and m = m] by (auto simp: defaults_def upt_rec split: sum.splits)
qed

end
