(* ===== verification/Standalone.thy ===== *)
theory Standalone
  imports Tcp
begin

text \<open>
  The terminal front end of \<open>src/standalone.cc\<close>: one text session with a prompt, on standard input and
  output, in the main thread, which is never registered with the garbage collector.
\<close>

definition standalone_max_bytes :: u64 where
  "standalone_max_bytes = 128 * 1024 * 1024"

definition standalone_prompt :: bytes where
  "standalone_prompt = ''jimcache> ''"

text \<open>\<open>main\<close> up to \<open>io_service.run()\<close>; the table of the cache is at \<open>t\<close>.\<close>

definition standalone_start :: "(nat \<Rightarrow> senv) \<Rightarrow> addr \<Rightarrow> alloc \<Rightarrow> (flow \<times> nat \<times> ss) res option" where
  "standalone_start vs t m =
     (let c = cache_new standalone_max_bytes t initial_lg2size;
          s = text_session_new (al_ibuf m) (al_obuf m) (al_noreply m) (Some standalone_prompt) in
      interact vs 0 (s, c))"

text \<open>
  \<open>io_service.run()\<close>: the descriptors serve the session's requests until its callback stops the service;
  \<open>n\<close> counts the completed requests.
\<close>

inductive standalone_run :: "nat \<Rightarrow> flow \<Rightarrow> ss \<Rightarrow> bool" where
  standalone_begin: "standalone_start vs t m = Some (Inr (fl, j, sw)) \<Longrightarrow> standalone_run 0 fl sw"
| standalone_io: "standalone_run n Blocked (s, w) \<Longrightarrow> transfer ec s w s' w' \<Longrightarrow>
    callback ec vs 0 (s', w') = Some (Inr (fl, j, sw)) \<Longrightarrow> standalone_run (Suc n) fl sw"

text \<open>What \<open>main\<close> returns once \<open>run\<close> has.\<close>

definition standalone_exit :: "flow \<Rightarrow> int option" where
  "standalone_exit fl = (if fl = Finished then Some 0 else None)"

text \<open>The program starts with the prompt and an empty cache, if the uninitialised \<open>noreply_\<close> is false.\<close>

lemma standalone_prompts:
  assumes "length (al_obuf m) = buffer_size" "\<not> al_noreply m"
  shows "\<exists>j s. standalone_start vs t m = Some (Inr (Blocked, j, (s, cache_new standalone_max_bytes t initial_lg2size))) \<and>
    io s = WriteReq standalone_prompt \<and> state s = session_read_command"
proof -
  let ?w = "cache_new standalone_max_bytes t initial_lg2size"
  let ?s = "text_session_new (al_ibuf m) (al_obuf m) (al_noreply m) (Some standalone_prompt)\<lparr>state := session_write_prompt\<rparr>"
  have "\<exists>s. loop_step (vs 0) (?s, ?w) = Inr (Blocked, (s, ?w)) \<and> io s = WriteReq standalone_prompt \<and> state s = session_read_command"
    using assms
    by (auto simp: loop_step_def handle_def send_prompt_def text_session_new_def standalone_prompt_def send_def send_n_def flush_def
        andthen_def upd_s_def get_s_def lift_s_def set_state_def bf_write_def buffer_new_def buffer_size_def bf_reset_def bf_empty_def
        used_def available_def max_size_def store_def bf_notify_write_def buffer_bytes_def)
  then show ?thesis unfolding standalone_start_def interact_def Let_def using loop_stops [of vs 0] by fastforce
qed

end
