(* ===== verification/Cachetest.thy ===== *)
theory Cachetest
  imports Collect
begin

text \<open>
  The test program of \<open>src/cachetest.cc\<close>, with its assertions. It runs in one thread that is never
  registered: nothing it frees is ever deleted. The state is the one of the process: the number of
  operations so far, which selects what an operation gets from \<open>malloc\<close>, and the world with the pointer
  to the cache, once there is one.
\<close>

record ct_env =
  ct_envs :: "nat \<Rightarrow> env"
  ct_mem :: "nat \<Rightarrow> addr"
  ct_table :: "nat \<Rightarrow> addr"
  ct_lg2size :: nat

text \<open>\<open>ct_lg2size\<close> is \<open>initial_lg2size\<close> in the program.\<close>

record ct_state =
  ct_i :: nat
  ct_cash :: bool
  ct_world :: world

type_synonym ct_step = "ct_env \<Rightarrow> ct_state \<Rightarrow> ct_state res"

definition ct_next :: "ct_state \<Rightarrow> world \<Rightarrow> ct_state" where
  "ct_next s w = s\<lparr>ct_i := ct_i s + 1, ct_world := w\<rparr>"

section \<open>Its helpers\<close>

text \<open>\<open>new cache(16 * 1024)\<close> in a process that may have a collector and memory from before.\<close>

definition new_cache_in :: "u64 \<Rightarrow> addr \<Rightarrow> nat \<Rightarrow> world \<Rightarrow> world" where
  "new_cache_in maxb t lg2 w =
     w\<lparr>wcache := wcache (cache_new maxb t lg2), wtab := (wtab w)(t \<mapsto> new_table lg2)\<rparr>"

definition ct_reset :: ct_step where
  "ct_reset v s =
     rbind (if ct_cash s then cache_delete (ct_world s) else Inr (ct_world s)) (\<lambda>w.
     Inr (ct_next (s\<lparr>ct_cash := True\<rparr>) (new_cache_in (16 * 1024) (ct_table v (ct_i s)) (ct_lg2size v) w)))"

definition ct_alloc :: "addr \<Rightarrow> bytes \<Rightarrow> world \<Rightarrow> rope \<times> world" where
  "ct_alloc m x w = (\<lparr>r_head = m, r_tail = m\<rparr>, w\<lparr>wmem := mem_alloc m x (of_nat (length x)) (wmem w)\<rparr>)"

definition ct_set :: "bytes \<Rightarrow> bytes \<Rightarrow> u32 \<Rightarrow> u32 \<Rightarrow> ct_step" where
  "ct_set k x flags exptime v s =
     (let (r, w) = ct_alloc (ct_mem v (ct_i s)) x (ct_world s) in
      rbind (cache_set (ct_envs v (ct_i s)) w k flags exptime r) (\<lambda>(err, w).
      rbind (require (err = stored) AssertFailed) (\<lambda>_. Inr (ct_next s w))))"

definition ct_add :: "bytes \<Rightarrow> bytes \<Rightarrow> u32 \<Rightarrow> u32 \<Rightarrow> bool \<Rightarrow> ct_step" where
  "ct_add k x flags exptime expect_success v s =
     (let (r, w) = ct_alloc (ct_mem v (ct_i s)) x (ct_world s) in
      rbind (cache_add (ct_envs v (ct_i s)) w k flags exptime r) (\<lambda>(err, w).
      rbind (if expect_success then require (err = stored) AssertFailed else require (err = set_error) AssertFailed) (\<lambda>_.
      Inr (ct_next s w))))"

definition ct_incr :: "bytes \<Rightarrow> u64 \<Rightarrow> u64 \<Rightarrow> ct_step" where
  "ct_incr k d e v s =
     rbind (cache_incr (ct_envs v (ct_i s)) (ct_world s) k d) (\<lambda>(err, a, w).
     rbind (require (err = stored) AssertFailed) (\<lambda>_.
     rbind (require (a = Some e) AssertFailed) (\<lambda>_. Inr (ct_next s w))))"

text \<open>The call of \<open>decr\<close> is commented out.\<close>

definition ct_decr :: "bytes \<Rightarrow> u64 \<Rightarrow> u64 \<Rightarrow> ct_step" where
  "ct_decr k d e v s = (let a = 0 in rbind (require (a = e) AssertFailed) (\<lambda>_. Inr (ct_next s (ct_world s))))"

text \<open>The loop over the chunks of a value; \<open>expect\<close> is what has to come.\<close>

partial_function (option) ct_compare :: "mem_heap \<Rightarrow> rope \<Rightarrow> bytes \<Rightarrow> unit res option" where
  "ct_compare h r expect =
     (case const_rope_pop h r of
        Inl e \<Rightarrow> Some (Inl e)
      | Inr (m, r') \<Rightarrow>
          if m = 0 then Some (require (expect = []) AssertFailed)
          else (case rbind (mread h m) mem_bytes of
                  Inl e \<Rightarrow> Some (Inl e)
                | Inr bs \<Rightarrow>
                    if length bs \<le> length expect \<and> bs = take (length bs) expect
                    then ct_compare h r' (drop (length bs) expect) else Some (Inl AssertFailed)))"

declare ct_compare.simps [code]

text \<open>The argument \<open>None\<close> is a null pointer.\<close>

definition ct_get :: "bytes \<Rightarrow> bytes option \<Rightarrow> ct_step" where
  "ct_get k expect v s =
     rbind (cache_get (ct_world s) k) (\<lambda>(e, w).
     if e = 0 then rbind (require (expect = None) AssertFailed) (\<lambda>_. Inr (ct_next s w))
     else
       rbind (eread w e) (\<lambda>x.
       rbind (entry_read (v_now (ct_envs v (ct_i s))) (int (ct_i s)) (wmem w) x) (\<lambda>(odata, _, x).
       case expect of
         None \<Rightarrow> Inl NullDeref
       | Some expect \<Rightarrow>
           rbind (outcome (ct_compare (wmem w) odata expect)) (\<lambda>_. Inr (ct_next s (ewrite w e x))))))"

section \<open>The tests\<close>

fun ct_run :: "ct_env \<Rightarrow> ct_step list \<Rightarrow> ct_state \<Rightarrow> ct_state res" where
  "ct_run v [] s = Inr s"
| "ct_run v (f # fs) s = rbind (f v s) (\<lambda>s. ct_run v fs s)"

definition test1 :: "ct_step list" where
  "test1 =
     [ct_reset, ct_add ''pooh'' ''bear'' 0 0 True, ct_add ''pooh'' ''b33r'' 0 0 False, ct_set ''tigger'' ''too'' 0 0,
      ct_get ''pooh'' (Some ''bear''), ct_get ''pooh'' (Some ''bear''), ct_get ''tigger'' (Some ''too''),
      ct_get ''piglet'' None, ct_get ''piglet'' None, ct_set ''pooh'' ''beer'' 0 0, ct_get ''pooh'' (Some ''beer'')]"

definition test2 :: "ct_step list" where
  "test2 =
     [ct_reset, ct_add ''a'' ''1001'' 0 0 True, ct_add ''b'' ''0'' 0 0 True, ct_incr ''a'' 1 1002, ct_incr ''a'' 1 1003,
      ct_decr ''b'' 1 0, ct_incr ''b'' 1 1, ct_incr ''b'' 1 2, ct_incr ''b'' 1000 1002]"

text \<open>A process without a cache yet, and \<open>main\<close>; the result is the memory it leaves.\<close>

definition ct_initial :: ct_state where
  "ct_initial = \<lparr>ct_i = 0, ct_cash = False, ct_world = (cache_new 0 0 0)\<lparr>wtab := Map.empty\<rparr>\<rparr>"

definition cachetest_main :: "ct_env \<Rightarrow> world res" where
  "cachetest_main v =
     rbind (ct_run v test1 ct_initial) (\<lambda>s.
     rbind (ct_run v test2 s) (\<lambda>s. cache_delete (ct_world s)))"

section \<open>What the comparison accepts\<close>

lemma ct_compare_null: "ct_compare h \<lparr>r_head = 0, r_tail = 0\<rparr> expect = Some (require (expect = []) AssertFailed)"
  by (simp add: ct_compare.simps const_rope_pop_def)

lemma split_compare:
  "(length bs \<le> length e \<and> bs = take (length bs) e) \<and> drop (length bs) e = cs \<longleftrightarrow> e = bs @ cs"
  by (metis append_eq_conv_conj append_take_drop_id length_append le_add1)

text \<open>The assertions of \<open>get\<close> hold exactly if the chunks make up the value that is expected.\<close>

lemma ct_compare_seg:
  "seg h (x # xs) \<Longrightarrow> distinct (x # xs) \<Longrightarrow>
   ct_compare h \<lparr>r_head = x, r_tail = last (x # xs)\<rparr> expect =
     Some (require (contents h (x # xs) = expect) AssertFailed)"
proof (induction xs arbitrary: x expect)
  case Nil
  then obtain m where "h x = Some m" "x \<noteq> 0" "chunk_ok m" by auto
  then show ?case
    using split_compare [of "chunk m" expect "[]"]
    by (subst ct_compare.simps) (auto simp: const_rope_pop_def ct_compare_null contents_def chunks_def require_def)
next
  case (Cons y ys)
  then obtain m where m: "h x = Some m" "x \<noteq> 0" "chunk_ok m" "m_next m = y" by auto
  moreover have "x \<noteq> last (y # ys)" using Cons.prems(2) last_in_set [of "y # ys"] by (metis distinct.simps(2) list.distinct(1))
  moreover have "contents h (x # y # ys) = chunk m @ contents h (y # ys)" using m(1) by (simp add: contents_def chunks_def)
  ultimately show ?case
    using Cons.IH [of y "drop (length (chunk m)) expect"] Cons.prems split_compare [of "chunk m" expect "contents h (y # ys)"]
    by (subst ct_compare.simps) (auto simp: const_rope_pop_def require_def)
qed

lemma ct_compare_chain:
  assumes "chain h (r_head r) (r_tail r) xs"
  shows "outcome (ct_compare h r expect) = require (contents h xs = expect) AssertFailed"
proof -
  obtain x ys where xs: "xs = x # ys" using assms by (cases xs) (auto simp: chain_def)
  then have "r = \<lparr>r_head = x, r_tail = last (x # ys)\<rparr>" using assms by (cases r) (auto simp: chain_def)
  then show ?thesis using ct_compare_seg [of h x ys expect] assms by (auto simp: chain_def xs outcome_def require_def)
qed

text \<open>\<open>get\<close> passes exactly if the map the cache represents has the value that is expected.\<close>

lemma ct_get_passes:
  assumes "crel (ct_world s) m"
  shows "(\<exists>s'. ct_get k expect v s = Inr s') \<longleftrightarrow> map_option (\<lambda>i. concat (i_chunks i)) (m k) = expect"
proof (rule get_cases [OF assms, of k])
  fix f assume "cache_get (ct_world s) k = Inr (0, upd_cache (ct_world s) f)" "m k = None"
  then show ?thesis by (auto simp: ct_get_def require_def)
next
  fix f t own a e
  assume g: "cache_get (ct_world s) k = Inr (a, upd_cache (ct_world s) f)" and h: "holds_entry (ct_world s) m k t own a e"
  note H = holds_entryD [OF h]
  have ch: "chain (wmem (ct_world s)) (r_head \<lparr>r_head = e_head e, r_tail = e_tail e\<rparr>) (r_tail \<lparr>r_head = e_head e, r_tail = e_tail e\<rparr>) (own a)"
    using H(3) by (simp add: entry_ok_def)
  have "concat (i_chunks (item_of (wmem (ct_world s)) e (own a))) = contents (wmem (ct_world s)) (own a)"
    by (simp add: item_of_def contents_def)
  then show ?thesis
    using g H entry_read_ok [OF H(3)]
    by (cases expect) (auto simp: ct_get_def eread_Some ct_compare_chain [OF ch] require_def)
qed

end
