(* ===== verification/Memory.thy ===== *)
theory Memory
  imports Rebuild
begin

text \<open>
  What operations allocate and delete. Objects and chunks only appear at the addresses an operation
  gets from \<open>malloc\<close>; the destructor of the cache deletes every key and every value of its table.
\<close>

section \<open>Addresses in use\<close>

definition objects :: "world \<Rightarrow> addr set" where
  "objects w = dom (gheap (wgc w))"

definition shrinks :: "world \<Rightarrow> world \<Rightarrow> bool" where
  "shrinks w w' \<longleftrightarrow> objects w' \<subseteq> objects w \<and> dom (wmem w') \<subseteq> dom (wmem w)"

lemma shrinks_trans: "shrinks w w' \<Longrightarrow> shrinks w' w'' \<Longrightarrow> shrinks w w''"
  unfolding shrinks_def by (meson subset_trans)

lemma shrinks_refl [simp]: "shrinks w w"
  by (simp add: shrinks_def)

lemma shrinks_simps [simp]:
  "shrinks (twrite w a t) = shrinks w" "shrinks w (upd_cache w1 f) = shrinks w w1" "shrinks (upd_cache w1 f) w = shrinks w1 w"
  "shrinks w (twrite w1 a t) = shrinks w w1"
  "shrinks w (w1\<lparr>wnewer := n\<rparr>) = shrinks w w1"
  by (simp_all add: shrinks_def objects_def fun_eq_iff)

lemma mem_free_loop_dom:
  assumes "mem_free_loop h a = Some (Inr h')"
  shows "dom h' \<subseteq> dom h"
proof -
  have "\<forall>h'. r = Inr h' \<longrightarrow> dom h' \<subseteq> dom h" if "mem_free_loop h a = Some r" for r
  proof (rule mem_free_loop.raw_induct [where P = "\<lambda>h a r. \<forall>h'. r = Inr h' \<longrightarrow> dom h' \<subseteq> dom h", OF _ that])
    fix f h a r
    assume f: "\<And>h a r. f h a = Some r \<Longrightarrow> \<forall>h'. r = Inr h' \<longrightarrow> dom h' \<subseteq> dom h"
      and r: "(if a = 0 then Some (Inr h)
        else case mread h a of Inl e \<Rightarrow> Some (Inl e) | Inr c \<Rightarrow> f (h(a := None)) (m_next c)) = Some r"
    have "dom (h(a := None)) \<subseteq> dom h" by auto
    then show "\<forall>h'. r = Inr h' \<longrightarrow> dom h' \<subseteq> dom h"
      using r f [of "h(a := None)"] by (fastforce split: if_splits sum.splits)
  qed
  then show ?thesis using assms by blast
qed

lemma entry_delete_dom: "entry_delete h e = Inr h' \<Longrightarrow> dom h' \<subseteq> dom h"
  using mem_free_loop_dom [of h "e_head e" h'] unfolding entry_delete_def mem_free_def rbind_Inr_iff outcome_Inr by blast

lemma destroy_shrinks:
  assumes "entry_destroy w a = Some (Inr w')"
  shows "shrinks w w'"
proof -
  have "\<forall>w'. r = Inr w' \<longrightarrow> shrinks w w'" if "entry_destroy w a = Some r" for r
  proof (rule entry_destroy.raw_induct [where P = "\<lambda>w a r. \<forall>w'. r = Inr w' \<longrightarrow> shrinks w w'", OF _ that])
    fix f w a r
    assume f: "\<And>w a r. f w a = Some r \<Longrightarrow> \<forall>w'. r = Inr w' \<longrightarrow> shrinks w w'"
      and r: "(if a = 0 then Some (Inr w)
        else case rbind (eread w a) (\<lambda>e. rbind (entry_delete (wmem w) e) (\<lambda>h. rbind (nread (wnewer w) a) (\<lambda>n. Inr (h, n)))) of
            Inl err \<Rightarrow> Some (Inl err)
          | Inr (h, n) \<Rightarrow>
              (let w = w\<lparr>wmem := h, went := (went w)(a := None), wnewer := (wnewer w)(a := None), wgc := gc_object_delete (wgc w) a\<rparr> in
               if n \<noteq> fp_null then f w (get_ptr n) else Some (Inr w))) = Some r"
    show "\<forall>w'. r = Inr w' \<longrightarrow> shrinks w w'"
    proof (cases "a = 0")
      case True
      then show ?thesis using r by auto
    next
      case False
      show ?thesis
      proof (cases "rbind (eread w a) (\<lambda>e. rbind (entry_delete (wmem w) e) (\<lambda>h. rbind (nread (wnewer w) a) (\<lambda>n. Inr (h, n))))")
        case (Inl e)
        then show ?thesis using r False by auto
      next
        case (Inr x)
        then obtain e h n where x: "x = (h, n)" "entry_delete (wmem w) e = Inr h" by (auto simp: rbind_Inr_iff)
        let ?w = "w\<lparr>wmem := h, went := (went w)(a := None), wnewer := (wnewer w)(a := None), wgc := gc_object_delete (wgc w) a\<rparr>"
        have s: "shrinks w ?w" using entry_delete_dom [OF x(2)] by (auto simp: shrinks_def objects_def gc_object_delete_def)
        have "if n \<noteq> fp_null then f ?w (get_ptr n) = Some r else r = Inr ?w"
          using r False Inr x(1) by (simp add: Let_def split: if_splits)
        then show ?thesis using f [of ?w "get_ptr n" r] shrinks_trans [OF s] s by (cases "n = fp_null") auto
      qed
    qed
  qed
  then show ?thesis using assms by blast
qed

lemma gc_free_objects: "gc_free g c a = Inr g' \<Longrightarrow> dom (gheap g') = dom (gheap g)"
  by (auto simp: gc_free_def set_gnext_def gread_def gwrite_def require_def res_simps Let_def split: if_splits option.splits)

lemma release_shrinks: "release_entries c w es = Inr w' \<Longrightarrow> shrinks w w'"
proof (induction es arbitrary: w)
  case (Cons e es)
  obtain w1 where w1: "entry_release c w e = Inr w1" "release_entries c w1 es = Inr w'" using Cons.prems by (auto simp: rbind_Inr_iff)
  have "shrinks w w1" using w1(1) gc_free_objects by (fastforce simp: entry_release_def rbind_Inr_iff Let_def shrinks_def objects_def)
  then show ?case using shrinks_trans Cons.IH [OF w1(2)] by blast
qed simp

lemma drop_key_shrinks: "shrinks w (drop_key w k c)"
  by (auto simp: shrinks_def objects_def drop_key_def cache_key_delete_def gc_object_delete_def)

text \<open>\<open>set\<close> and \<open>add\<close> on the table.\<close>

lemma set_body_shrinks:
  assumes "set_body v w k e = Inr (c, w')"
  shows "shrinks w w'"
proof -
  obtain en b bl where ib: "is_building w = (en, b, bl)" by (cases "is_building w") auto
  obtain t where t: "tread w en = Inr t" using assms by (auto simp: set_body_def ib rbind_Inr_iff)
  show ?thesis
  proof (cases bl)
    case True
    obtain ok cur ce t' rel where a: "tadd t k e = (ok, cur, ce, t', rel)" by (cases "tadd t k e") auto
    obtain w1 where w1: "release_entries (v_cpu v) (twrite w en t') rel = Inr w1"
      using assms True by (auto simp: set_body_def ib t a rbind_Inr_iff)
    have s: "shrinks w w1" using release_shrinks [OF w1] by simp
    show ?thesis
    proof (cases ok)
      case True
      then obtain tb w2 where "release_entries (v_cpu v) (twrite w1 b tb) w2 = Inr w'"
        using assms \<open>bl\<close> by (auto simp: set_body_def ib t a w1 rbind_Inr_iff split: option.splits prod.splits)
      then show ?thesis using release_shrinks shrinks_trans [OF s] by fastforce
    next
      case False
      then show ?thesis using assms \<open>bl\<close> s by (auto simp: set_body_def ib t a w1 rbind_Inr_iff split: if_splits)
    qed
  next
    case False
    obtain cur t' rel where a: "tset t k e = (cur, t', rel)" by (cases "tset t k e") auto
    show ?thesis using assms False release_shrinks by (fastforce simp: set_body_def ib t a rbind_Inr_iff)
  qed
qed

text \<open>A \<open>set\<close> leaves nothing new but its key and its entry.\<close>

lemma set_allocates:
  assumes "cache_set v w k f x r = Inr (c, w')"
  shows "objects w' \<subseteq> objects w \<union> {v_key v, v_entry v} \<and> dom (wmem w') \<subseteq> dom (wmem w)"
proof -
  let ?p = "prepared v w f x r" and ?key = "(v_key v, k)"
  have ex: "cache_set v w k f x r = rbind (set_body v ?p ?key (v_entry v)) (\<lambda>(cur_key, w).
      if cur_key = None then rbind (outcome (entry_destroy w (v_entry v))) (\<lambda>w. Inr (set_error, drop_key w ?key cur_key))
      else rbind (rope_size (wmem w) r) (\<lambda>n. let w = upd_cache w (\<lambda>c. c\<lparr>bytes_c := counter_add (bytes_c c) n\<rparr>) in
        Inr (stored, drop_key w ?key cur_key)))"
    by (simp add: cache_set_def prepared_def cache_key_alloc_def Let_def)
  obtain cur w1 where w1: "set_body v ?p ?key (v_entry v) = Inr (cur, w1)" using assms unfolding ex rbind_Inr_iff by auto
  have "shrinks w1 w'"
  proof (cases "cur = None")
    case True
    then obtain w2 where w2: "entry_destroy w1 (v_entry v) = Some (Inr w2)" "w' = drop_key w2 ?key cur"
      using assms w1 unfolding ex by (auto simp: rbind_Inr_iff outcome_Inr)
    then show ?thesis using shrinks_trans [OF destroy_shrinks [OF w2(1)] drop_key_shrinks] by simp
  next
    case False
    then obtain n where "w' = drop_key (upd_cache w1 (\<lambda>c. c\<lparr>bytes_c := counter_add (bytes_c c) n\<rparr>)) ?key cur"
      using assms w1 unfolding ex by (auto simp: rbind_Inr_iff Let_def)
    then show ?thesis using drop_key_shrinks [of "upd_cache w1 (\<lambda>c. c\<lparr>bytes_c := counter_add (bytes_c c) n\<rparr>)"] by simp
  qed
  then have "shrinks ?p w'" using shrinks_trans [OF set_body_shrinks [OF w1]] by blast
  moreover have "objects ?p = objects w \<union> {v_key v, v_entry v}" "wmem ?p = wmem w"
    by (auto simp: objects_def prepared_def Let_def)
  ultimately show ?thesis by (simp add: shrinks_def)
qed

lemma finalize_shrinks: "gc_finalize w ds = Inr w' \<Longrightarrow> shrinks w w'"
proof (induction ds arbitrary: w)
  case (Cons d ds)
  obtain w1 where w1: "(case went w d of None \<Rightarrow> Inr w | Some _ \<Rightarrow> outcome (entry_destroy w d)) = Inr w1" "gc_finalize w1 ds = Inr w'"
    using Cons.prems by (auto simp: rbind_Inr_iff)
  have "shrinks w w1" using w1(1) destroy_shrinks by (auto simp: outcome_Inr split: option.splits)
  then show ?case using shrinks_trans Cons.IH [OF w1(2)] by blast
qed simp

lemma checkpoint_allocates:
  assumes "gc_run tr (wgc w)" "c < cpu_count (wgc w)" "cache_checkpoint c w = Inr w'"
  shows "shrinks w w'" "flushes (wgc w') = flushes (wgc w)" "cpu_count (wgc w') = cpu_count (wgc w)"
proof -
  obtain ds g where g: "gc_checkpoint (wgc w) c = Inr (ds, g)" "gc_kept (wgc w) ds g"
      "cpu_count g = cpu_count (wgc w)" "flushes g = flushes (wgc w)"
    by (rule checkpoint_kept [OF assms(1,2)])
  have f: "gc_finalize (w\<lparr>wgc := g\<rparr>) ds = Inr w'" using assms(3) g(1) by (simp add: cache_checkpoint_def)
  have "shrinks w (w\<lparr>wgc := g\<rparr>)" using g(2) by (force simp: shrinks_def objects_def gc_kept_def)
  then show "shrinks w w'" using shrinks_trans finalize_shrinks [OF f] by blast
  show "flushes (wgc w') = flushes (wgc w)" "cpu_count (wgc w') = cpu_count (wgc w)"
    using finalize_waiters [OF f] g(3,4) by (simp_all add: waiters_def)
qed

section \<open>The destructor of the cache\<close>

lemma hinv_delete_key:
  assumes i: "hinv R K h ent nw g own" and a: "a \<notin> dom ent" "unsched g a" and k: "K' \<subseteq> K" "\<forall>key \<in> K'. fst key \<noteq> a"
  shows "hinv R K' h ent nw (gc_object_delete g a) own"
proof (rule hinvI)
  show "entry_inv h nw (gc_object_delete g a) own b e" if "ent b = Some e" for b e
    using hinvD(1) [OF i that] that a(1) by (auto simp: entry_inv_def)
  show "R j \<in> dom ent \<and> unsched (gc_object_delete g a) (R j)" if "R j \<noteq> 0" for j
    using hinvD(3) [OF i that] a(1) by auto
  show "R j = R j' \<Longrightarrow> j = j'" if "R j \<noteq> 0" for j j' by (rule hinvD(4) [OF i that])
  show "\<exists>tr. gc_run tr (gc_object_delete g a)" using hinvD(5) [OF i] gc_delete_run [OF _ a(2)] by blast
  show "fst key \<notin> dom ent \<and> unsched (gc_object_delete g a) (fst key)" if "key \<in> K'" for key
    using hinvD(6) [OF i, of key] k that by auto
  show "inj_on fst K'" using hinvD(7) [OF i] k(1) by (rule inj_on_subset)
qed (use hinvD(2) [OF i] in blast)

text \<open>The references and key objects of the names \<open>N\<close>.\<close>

definition refs_of :: "bytes set \<Rightarrow> (bytes \<Rightarrow> addr) \<Rightarrow> bytes \<Rightarrow> addr" where
  "refs_of N R k = (if k \<in> N then R k else 0)"

definition keys_of :: "bytes set \<Rightarrow> bytes keyref set \<Rightarrow> bytes keyref set" where
  "keys_of N K = {key \<in> K. snd key \<in> N}"

definition bucket_names :: "bytes bucket_t list \<Rightarrow> bytes set" where
  "bucket_names bs = snd ` set (List.map_filter bkt_k bs)"

definition bucket_refs :: "(bytes \<Rightarrow> addr) \<Rightarrow> bytes keyref set \<Rightarrow> bytes bucket_t \<Rightarrow> bool" where
  "bucket_refs R K b \<longleftrightarrow> (case bkt_k b of None \<Rightarrow> get_ptr (bkt_v b) = 0 | Some key \<Rightarrow> key \<in> K \<and> get_ptr (bkt_v b) = R (snd key))"

lemma bucket_names_simps [simp]:
  "bucket_names [] = {}" "bkt_k b = None \<Longrightarrow> bucket_names (b # bs) = bucket_names bs"
  "bkt_k b = Some key \<Longrightarrow> bucket_names (b # bs) = insert (snd key) (bucket_names bs)"
  by (auto simp: bucket_names_def List.map_filter_simps)

lemma entry_destroy_null: "entry_destroy w 0 = Some (Inr w)"
  by (simp add: entry_destroy.simps)

lemma hinv_null:
  assumes "heap_ok R K own w"
  shows "0 \<notin> objects w" "0 \<notin> dom (went w)"
proof -
  obtain tr where "gc_inv tr (wgc w)" using hinvD(5) [OF assms] gc_run_inv by blast
  then have "gheap (wgc w) a = Some g \<Longrightarrow> a > 0x1000" for a g by (simp add: gc_inv_def)
  from this [of 0] show "0 \<notin> objects w" by (auto simp: objects_def)
  show "0 \<notin> dom (went w)" using hinvD(1) [OF assms, of 0] by (auto simp: entry_inv_def)
qed

lemma delete_bucket_ok:
  assumes i: "heap_ok (refs_of (insert (snd key) N) R) (keys_of (insert (snd key) N) K) own w"
    and k: "key \<in> K" "snd key \<notin> N" "\<forall>key' \<in> K. snd key' = snd key \<longrightarrow> key' = key"
  obtains w' where "outcome (entry_destroy (cache_key_delete w key) (R (snd key))) = Inr w'"
    "heap_ok (refs_of N R) (keys_of N K) own w'" "wtab w' = wtab w" "wcache w' = wcache w"
    "went w' = (went w)(R (snd key) := None)" "objects w' = objects w - {fst key, R (snd key)}"
proof -
  let ?w = "cache_key_delete w key" and ?a = "R (snd key)"
  have kin: "key \<in> keys_of (insert (snd key) N) K" using k(1) by (simp add: keys_of_def)
  have fk: "fst key \<notin> dom (went w)" "unsched (wgc w) (fst key)" using hinvD(6) [OF i kin] by simp_all
  have "\<forall>key' \<in> keys_of N K. fst key' \<noteq> fst key"
  proof (intro ballI notI)
    fix key' assume x: "key' \<in> keys_of N K" "fst key' = fst key"
    then have "key' \<in> keys_of (insert (snd key) N) K" by (simp add: keys_of_def)
    then have "key' = key" using hinvD(7) [OF i] kin x(2) by (metis inj_onD)
    then show False using x(1) k(2) by (simp add: keys_of_def)
  qed
  then have h1: "heap_ok (refs_of (insert (snd key) N) R) (keys_of N K) own ?w"
    using hinv_delete_key [OF i fk, of "keys_of N K"] by (auto simp: cache_key_delete_def keys_of_def)
  have o1: "objects ?w = objects w - {fst key}" by (auto simp: objects_def cache_key_delete_def gc_object_delete_def)
  have R: "refs_of N R k' = (if k' = snd key then 0 else refs_of (insert (snd key) N) R k')" for k'
    using k(2) by (simp add: refs_of_def)
  have h2: "heap_ok (refs_of N R) (keys_of N K) own ?w" by (rule hinv_bind [OF h1 R]) simp
  show thesis
  proof (cases "?a = 0")
    case True
    note z = hinv_null [OF i]
    have "went w = (went w)(0 := None)" using z(2) by (auto simp: fun_eq_iff)
    moreover have "objects ?w = objects w - {fst key, 0}" using o1 z(1) by blast
    ultimately show thesis
      using that [of ?w] h2 True by (simp add: entry_destroy_null) (simp add: cache_key_delete_def)
  next
    case False
    have r: "refs_of (insert (snd key) N) R (snd key) = ?a" by (simp add: refs_of_def)
    then have d: "?a \<in> dom (went ?w)" "unsched (wgc ?w) ?a" using hinvD(3) [OF h1, of "snd key"] False by simp_all
    have n: "refs_of N R k' \<noteq> ?a" for k'
      using hinvD(4) [OF h1, of "snd key" k'] False r unfolding R by (auto simp: R split: if_splits)
    let ?w' = "?w\<lparr>wmem := wmem ?w |` (- set (own ?a)), went := (went ?w)(?a := None), wnewer := (wnewer ?w)(?a := None),
      wgc := gc_object_delete (wgc ?w) ?a\<rparr>"
    have g: "\<exists>tr. gc_run tr (gc_object_delete (wgc ?w) ?a)" using hinvD(5) [OF h2] gc_delete_run [OF _ d(2)] by blast
    have "heap_ok (refs_of N R) (keys_of N K) own ?w'" using hinv_restrict(1) [OF h2 d(1) n g] by simp
    moreover have "objects ?w' = objects ?w - {?a}" by (auto simp: objects_def split: if_splits)
    then have "objects ?w' = objects w - {fst key, ?a}" using o1 by blast
    ultimately show thesis using that [of ?w'] entry_destroy_ok [OF h2 d(1)] by (simp add: cache_key_delete_def)
  qed
qed

lemma delete_buckets_ok:
  assumes "heap_ok (refs_of (bucket_names bs) R) (keys_of (bucket_names bs) K) own w" "\<forall>b \<in> set bs. bucket_refs R K b"
    "distinct (map snd (List.map_filter bkt_k bs))" "\<forall>key \<in> K. \<forall>key' \<in> K. snd key' = snd key \<longrightarrow> key' = key"
  shows "\<exists>w'. delete_buckets w bs = Inr w' \<and> heap_ok (\<lambda>_. 0) {} own w' \<and> wtab w' = wtab w \<and> wcache w' = wcache w \<and>
    went w' = went w |` (- R ` bucket_names bs) \<and> objects w' = objects w - R ` bucket_names bs - fst ` keys_of (bucket_names bs) K"
  using assms(1-3)
proof (induction bs arbitrary: w)
  case Nil
  have "refs_of {} R = (\<lambda>_. 0)" "keys_of {} K = {}" by (auto simp: refs_of_def keys_of_def)
  then show ?case using Nil by simp
next
  case (Cons b bs)
  show ?case
  proof (cases "bkt_k b")
    case None
    have "get_ptr (bkt_v b) = 0" using Cons.prems(2) None by (simp add: bucket_refs_def)
    moreover have "distinct (map snd (List.map_filter bkt_k bs))" using Cons.prems(3) None by (simp add: List.map_filter_simps)
    ultimately show ?thesis using Cons.IH [of w] Cons.prems(1,2) None by (simp add: entry_destroy_null Let_def)
  next
    case (Some key)
    have d: "distinct (map snd (List.map_filter bkt_k bs))" "snd key \<notin> snd ` set (List.map_filter bkt_k bs)"
      using Cons.prems(3) Some by (simp_all add: List.map_filter_simps)
    have k: "key \<in> K" "get_ptr (bkt_v b) = R (snd key)" using Cons.prems(2) Some by (simp_all add: bucket_refs_def)
    have i: "heap_ok (refs_of (insert (snd key) (bucket_names bs)) R) (keys_of (insert (snd key) (bucket_names bs)) K) own w"
      using Cons.prems(1) Some by simp
    have nk: "snd key \<notin> bucket_names bs" "\<forall>key' \<in> K. snd key' = snd key \<longrightarrow> key' = key" using d(2) assms(4) k(1) by (simp_all add: bucket_names_def)
    obtain w1 where w1: "outcome (entry_destroy (cache_key_delete w key) (R (snd key))) = Inr w1"
        "heap_ok (refs_of (bucket_names bs) R) (keys_of (bucket_names bs) K) own w1" "wtab w1 = wtab w" "wcache w1 = wcache w"
        "went w1 = (went w)(R (snd key) := None)" "objects w1 = objects w - {fst key, R (snd key)}"
      by (rule delete_bucket_ok [OF i k(1) nk])
    obtain w' where w': "delete_buckets w1 bs = Inr w'" "heap_ok (\<lambda>_. 0) {} own w'" "wtab w' = wtab w1" "wcache w' = wcache w1"
        "went w' = went w1 |` (- R ` bucket_names bs)" "objects w' = objects w1 - R ` bucket_names bs - fst ` keys_of (bucket_names bs) K"
      using Cons.IH [OF w1(2) _ d(1)] Cons.prems(2) by auto
    have "keys_of (insert (snd key) (bucket_names bs)) K = insert key (keys_of (bucket_names bs) K)"
      using nk(2) k(1) by (auto simp: keys_of_def)
    then have "objects w' = objects w - R ` bucket_names (b # bs) - fst ` keys_of (bucket_names (b # bs)) K"
      using w'(6) w1(6) Some by auto
    moreover have "went w' = went w |` (- R ` bucket_names (b # bs))"
      using w'(5) w1(5) Some by (auto simp: restrict_map_def fun_eq_iff)
    ultimately show ?thesis using w1(1,3,4) w'(1-4) Some k(2) by (simp add: Let_def)
  qed
qed

lemma distinct_filtered:
  "(\<And>i j a b. i < length xs \<Longrightarrow> j < length xs \<Longrightarrow> f (xs ! i) = Some a \<Longrightarrow> f (xs ! j) = Some b \<Longrightarrow> g a = g b \<Longrightarrow> i = j) \<Longrightarrow>
   distinct (map g (List.map_filter f xs))"
proof (induction xs)
  case (Cons x xs)
  have IH: "distinct (map g (List.map_filter f xs))"
    by (rule Cons.IH) (use Cons.prems [of "Suc _" "Suc _"] in auto)
  have "g a \<noteq> g b" if fx: "f x = Some a" and b: "b \<in> set (List.map_filter f xs)" for a b
  proof -
    obtain j where "j < length xs" "f (xs ! j) = Some b" using b by (auto simp: List.map_filter_def in_set_conv_nth)
    then show ?thesis using Cons.prems [of 0 "Suc j" a b] fx by auto
  qed
  then show ?case using IH by (cases "f x") (auto simp: List.map_filter_simps)
qed (simp add: List.map_filter_simps)

text \<open>A cache at rest is deleted with all its keys and entries.\<close>

lemma cache_delete_ok:
  assumes "crel w m"
  obtains t w' where "wtab w (entries_p (wcache w)) = Some t" "cache_delete w = Inr w'" "wtab w' = (wtab w)(entries_p (wcache w) := None)"
    "went w' = went w |` (- range (vref t))" "objects w' = objects w - range (vref t) - fst ` keyrefs t"
proof -
  obtain own t where c: "entries_p (wcache w) \<noteq> 0" "wtab w (entries_p (wcache w)) = Some t"
      "tinv t (wmem w) (went w) (wnewer w) (wgc w) own" by (rule crelE [OF assms])
  have inv: "table_inv t" by (rule tinvD(1) [OF c(3)])
  have h: "heap_ok (vref t) (keyrefs t) own w" by (rule tinv_hinv [OF c(3)])
  have len: "length (table t) = 2 ^ lg2size t" by (rule table_invD(3) [OF inv])
  have key_at: "\<exists>i < 2 ^ lg2size t. bucket t i = b" if "b \<in> set (table t)" for b
    using that len by (auto simp: in_set_conv_nth bucket_def)
  have nm: "bucket_names (table t) = {k. has_key t k}"
  proof -
    have "k \<in> bucket_names (table t) \<longleftrightarrow> (\<exists>a. (a, k) \<in> keyrefs t)" for k
      using len by (force simp: bucket_names_def List.map_filter_def keyrefs_def bucket_def in_set_conv_nth)
    then show ?thesis using has_key_keyrefs [OF inv] by blast
  qed
  have R: "refs_of (bucket_names (table t)) (vref t) = vref t" using vref_absent [OF inv] by (auto simp: nm refs_of_def fun_eq_iff)
  have K: "keys_of (bucket_names (table t)) (keyrefs t) = keyrefs t" using has_key_keyrefs [OF inv] by (auto simp: nm keys_of_def)
  have br: "\<forall>b \<in> set (table t). bucket_refs (vref t) (keyrefs t) b"
  proof
    fix b assume "b \<in> set (table t)"
    then obtain i where i: "i < 2 ^ lg2size t" "bucket t i = b" using key_at by blast
    have al: "aligned (vref t k)" for k using tinv_lookup [OF c(3) refl] aligned_0 by metis
    show "bucket_refs (vref t) (keyrefs t) b"
      using bucket_vref [OF inv i(1)] table_invD(9) [OF inv i(1)] al i(2)
      by (cases "bkt_k b") (auto simp: bucket_refs_def bucket_ok_def, metis get_ptr_aligned)
  qed
  have ds: "distinct (map snd (List.map_filter bkt_k (table t)))"
  proof (rule distinct_filtered)
    fix i j a b
    assume "i < length (table t)" "j < length (table t)" "bkt_k (table t ! i) = Some a" "bkt_k (table t ! j) = Some b" "snd a = snd b"
    then have "find_bucket t (snd a) = Some i" "find_bucket t (snd a) = Some j"
      using nth_tkeys [OF inv] len by (simp_all add: find_bucket_iff [OF inv] bucket_def)
    then show "i = j" by simp
  qed
  have un: "\<forall>key \<in> keyrefs t. \<forall>key' \<in> keyrefs t. snd key' = snd key \<longrightarrow> key' = key"
    using keyrefs_unique [OF inv] by auto
  have hb: "heap_ok (refs_of (bucket_names (table t)) (vref t)) (keys_of (bucket_names (table t)) (keyrefs t)) own w"
    unfolding R K by (rule h)
  obtain w' where w': "delete_buckets w (table t) = Inr w'" "wtab w' = wtab w" "went w' = went w |` (- vref t ` bucket_names (table t))"
      "objects w' = objects w - vref t ` bucket_names (table t) - fst ` keyrefs t"
    using delete_buckets_ok [OF hb br ds un] unfolding K by blast
  note z = hinv_null [OF h]
  have rg: "a \<in> range (vref t) \<longleftrightarrow> a \<in> vref t ` bucket_names (table t)" if "a \<noteq> 0" for a
    using vref_absent [OF inv] that unfolding nm by (metis (mono_tags) imageE imageI mem_Collect_eq rangeE rangeI)
  have "a \<in> objects w - range (vref t) \<longleftrightarrow> a \<in> objects w - vref t ` bucket_names (table t)" for a
    using rg [of a] z(1) by (cases "a = 0") simp_all
  then have "objects w' = objects w - range (vref t) - fst ` keyrefs t" using w'(4) by blast
  moreover have "went w' = went w |` (- range (vref t))"
  proof
    fix a show "went w' a = (went w |` (- range (vref t))) a"
      unfolding w'(3) restrict_map_def using rg [of a] z(2) by (cases "a = 0") (simp_all add: domIff)
  qed
  ultimately show thesis
    using that [OF c(2), of "w'\<lparr>wtab := (wtab w')(entries_p (wcache w) := None)\<rparr>"] w'(1,2) c(1,2)
    by (simp add: cache_delete_def delete_table_def tread_Some objects_def)
qed

end
