(* ===== verification/Ownership.thy ===== *)
theory Ownership
  imports Memory Storing
begin

text \<open>
  Who owns the memory of a cache at rest: every object the collector has not been given is a key or a
  value of the table, so the destructor of the cache and the collector together free all of them.
  The chunks of a refused update, and those \<open>cas\<close> replaces, belong to nobody.
\<close>

section \<open>Live objects\<close>

definition live :: "world \<Rightarrow> addr set" where
  "live w = {a. unsched (wgc w) a}"

definition tabled :: "bytes opentable \<Rightarrow> addr set" where
  "tabled t = fst ` keyrefs t \<union> range (vref t)"

definition tidy :: "world \<Rightarrow> bool" where
  "tidy w \<longleftrightarrow> (\<forall>t. wtab w (entries_p (wcache w)) = Some t \<longrightarrow> live w \<subseteq> tabled t)"

text \<open>What an operation leaves live: a frame like \<open>shrinks\<close>, with the table in place.\<close>

definition trims :: "addr set \<Rightarrow> world \<Rightarrow> world \<Rightarrow> bool" where
  "trims A w w' \<longleftrightarrow> live w' \<subseteq> live w - A \<and> wtab w' = wtab w \<and> entries_p (wcache w') = entries_p (wcache w)"

lemma trims_trans: "trims A w w' \<Longrightarrow> trims B w' w'' \<Longrightarrow> trims (A \<union> B) w w''"
  unfolding trims_def by auto

lemma trims_refl [simp]: "trims {} w w"
  by (simp add: trims_def)

lemma live_simps [simp]:
  "live (twrite w a t) = live w" "live (upd_cache w f) = live w" "live (w\<lparr>wnewer := n\<rparr>) = live w"
  by (simp_all add: live_def)

lemma live_objects: "live w \<subseteq> objects w"
  by (auto simp: live_def unsched_def objects_def split: option.splits)

lemma release_trims: "release_entries c w es = Inr w' \<Longrightarrow> trims (set es) w w'"
proof (induction es arbitrary: w)
  case (Cons e es)
  obtain w1 where w1: "entry_release c w e = Inr w1" "release_entries c w1 es = Inr w'" using Cons.prems by (auto simp: rbind_Inr_iff)
  then obtain f g where w1': "w1 = (upd_cache w f)\<lparr>wgc := g\<rparr>" "gc_free (wgc w) c e = Inr g"
      "entries_p (f (wcache w)) = entries_p (wcache w)"
    by (fastforce simp: entry_release_def rbind_Inr_iff Let_def)
  have "trims {e} w w1" using w1'(2,3)
    by (auto simp: w1'(1) trims_def live_def unsched_def gc_free_def set_gnext_def gread_def gwrite_def rbind_Inr_iff Let_def
        split: if_splits option.splits)
  then show ?case using trims_trans [OF _ Cons.IH [OF w1(2)]] by fastforce
qed simp

lemma destroy_trims:
  assumes "entry_destroy w a = Some (Inr w')" "a \<noteq> 0"
  shows "trims {a} w w'"
proof -
  have "\<forall>w'. r = Inr w' \<longrightarrow> trims (if a = 0 then {} else {a}) w w'" if "entry_destroy w a = Some r" for r
  proof (rule entry_destroy.raw_induct [where P = "\<lambda>w a r. \<forall>w'. r = Inr w' \<longrightarrow> trims (if a = 0 then {} else {a}) w w'", OF _ that])
    fix f w a r
    assume f: "\<And>w a r. f w a = Some r \<Longrightarrow> \<forall>w'. r = Inr w' \<longrightarrow> trims (if a = 0 then {} else {a}) w w'"
      and r: "(if a = 0 then Some (Inr w)
        else case rbind (eread w a) (\<lambda>e. rbind (entry_delete (wmem w) e) (\<lambda>h. rbind (nread (wnewer w) a) (\<lambda>n. Inr (h, n)))) of
            Inl err \<Rightarrow> Some (Inl err)
          | Inr (h, n) \<Rightarrow>
              (let w = w\<lparr>wmem := h, went := (went w)(a := None), wnewer := (wnewer w)(a := None), wgc := gc_object_delete (wgc w) a\<rparr> in
               if n \<noteq> fp_null then f w (get_ptr n) else Some (Inr w))) = Some r"
    show "\<forall>w'. r = Inr w' \<longrightarrow> trims (if a = 0 then {} else {a}) w w'"
    proof (cases "a = 0")
      case True
      then show ?thesis using r by auto
    next
      case False
      show ?thesis
      proof (cases "rbind (eread w a) (\<lambda>e. rbind (entry_delete (wmem w) e) (\<lambda>h. rbind (nread (wnewer w) a) (\<lambda>n. Inr (h, n))))")
        case (Inl e)
        then show ?thesis using r False by auto
      next
        case (Inr x)
        obtain h n where x: "x = (h, n)" by (cases x) auto
        let ?w = "w\<lparr>wmem := h, went := (went w)(a := None), wnewer := (wnewer w)(a := None), wgc := gc_object_delete (wgc w) a\<rparr>"
        have s: "trims {a} w ?w" by (auto simp: trims_def live_def)
        have "if n \<noteq> fp_null then f ?w (get_ptr n) = Some r else r = Inr ?w"
          using r False Inr x by (simp add: Let_def split: if_splits)
        then show ?thesis using f [of ?w "get_ptr n" r] trims_trans [OF s] s False
          by (cases "n = fp_null") (auto simp: trims_def split: if_splits)
      qed
    qed
  qed
  then show ?thesis using assms by auto
qed

text \<open>The key object that is deleted when the table has, or refuses, its name.\<close>

definition spare :: "bytes keyref \<Rightarrow> bytes keyref option \<Rightarrow> addr set" where
  "spare key cur = (if map_option fst cur = Some (fst key) then {} else {fst key})"

lemma drop_key_trims:
  "trims (spare key cur) w (drop_key w key cur)" "trims (spare key cur) w (drop_key (upd_cache w (\<lambda>c. c\<lparr>bytes_c := n c\<rparr>)) key cur)"
  by (auto simp: spare_def trims_def live_def drop_key_def cache_key_delete_def)

lemma spare_tabled: "set_option cur \<subseteq> keyrefs t \<Longrightarrow> {fst key} - spare key cur \<subseteq> tabled t"
  by (cases cur) (auto simp: spare_def tabled_def image_iff, metis fst_conv)

lemma prepared_live [simp]:
  "live (prepared v w f x r) = live w \<union> {v_key v, v_entry v}"
  "wtab (prepared v w f x r) = wtab w" "entries_p (wcache (prepared v w f x r)) = entries_p (wcache w)"
  "building_p (wcache (prepared v w f x r)) = building_p (wcache w)"
  by (auto simp: live_def prepared_def Let_def)

section \<open>No operation at rest loses an object\<close>

lemma tidyD: "tidy w \<Longrightarrow> wtab w (entries_p (wcache w)) = Some t \<Longrightarrow> live w \<subseteq> tabled t"
  by (simp add: tidy_def)

lemma trims_tidy:
  assumes "trims A (twrite w1 (entries_p (wcache w1)) t') w'" "live w1 - A \<subseteq> tabled t'"
  shows "tidy w'"
  using assms by (auto simp: trims_def tidy_def)

lemma live_nonzero: "crel w m \<Longrightarrow> 0 \<notin> live w"
  by (rule crelE, assumption) (use hinv_null tinv_hinv live_objects in blast)

text \<open>The table after an update of key \<open>k\<close> has all that the old one had but the value that was released.\<close>

lemma tabled_update:
  assumes "keyrefs t \<subseteq> keyrefs t'" "\<And>j. vref t' j = (if j = k then e else vref t j)"
    and "vref t k = 0 \<or> aligned (vref t k)"
  shows "X \<subseteq> tabled t \<Longrightarrow> 0 \<notin> X \<Longrightarrow> X - set (unshared (vref t k)) \<subseteq> tabled t'" "e \<in> tabled t'"
proof -
  show "e \<in> tabled t'" using assms(2) [of k] by (metis UnI2 rangeI tabled_def)
  assume x: "X \<subseteq> tabled t" "0 \<notin> X"
  show "X - set (unshared (vref t k)) \<subseteq> tabled t'"
  proof
    fix a assume "a \<in> X - set (unshared (vref t k))"
    then have a: "a \<in> tabled t" "a \<notin> set (unshared (vref t k))" "a \<noteq> 0" using x by auto
    consider "a \<in> fst ` keyrefs t" | j where "a = vref t j" using a(1) by (auto simp: tabled_def)
    then show "a \<in> tabled t'"
    proof cases
      case 2
      have "j \<noteq> k" using 2 a(2,3) assms(3) by (auto simp: unshared_def)
      then have "a = vref t' j" using 2 assms(2) by simp
      then show ?thesis by (auto simp: tabled_def)
    qed (use assms(1) in \<open>auto simp: tabled_def\<close>)
  qed
qed

lemma vref_aligned: "tinv t h ent nw g own \<Longrightarrow> vref t k = 0 \<or> aligned (vref t k)"
  using tinvD(2,4) by (fastforce simp: entry_inv_def)

lemma set_body_rest:
  assumes "building_p (wcache w) = 0" "entries_p (wcache w) \<noteq> 0" "wtab w (entries_p (wcache w)) = Some t"
    "set_impl t key (fp_ptr e) = (cur, t', rel)"
  shows "set_body v w key e = rbind (release_entries (v_cpu v) (twrite w (entries_p (wcache w)) t') rel) (\<lambda>w. Inr (cur, w))"
  using assms by (simp add: set_body_def is_building_def tread_Some tset_def Let_def)

lemma set_tidy:
  assumes "crel w m" "clegal w (OSet v k f x r cs)" "tidy w" "cache_set v w k f x r = Inr (c, w')"
  shows "tidy w'"
proof -
  obtain own t where C: "building_p (wcache w) = 0" "entries_p (wcache w) \<noteq> 0"
      "wtab w (entries_p (wcache w)) = Some t" "tinv t (wmem w) (went w) (wnewer w) (wgc w) own" by (rule crelE [OF assms(1)])
  have inv: "table_inv t" by (rule tinvD(1) [OF C(4)])
  let ?w1 = "prepared v w f x r" and ?e = "v_entry v" and ?key = "(v_key v, k)"
  let ?E = "entries_p (wcache ?w1)"
  have e: "?e \<noteq> 0" "aligned ?e" using assms(2) by (auto simp: fresh_object_def)
  have vr: "valid_ref (fp_ptr ?e)" by (rule valid_ref_ptr [OF e(2,1)])
  obtain cur t' rel where s: "set_impl t ?key (fp_ptr ?e) = (cur, t', rel)" by (cases "set_impl t ?key (fp_ptr ?e)") auto
  have kr: "keyrefs t' = keyrefs t \<union> set_option cur" using keyrefs_set [OF inv s] valid_ref_nonzero [OF vr] by simp
  have ex: "cache_set v w k f x r = rbind (rbind (release_entries (v_cpu v) (twrite ?w1 ?E t') rel) (\<lambda>w. Inr (cur, w))) (\<lambda>(cur_key, w).
      if cur_key = None then rbind (outcome (entry_destroy w ?e)) (\<lambda>w. Inr (set_error, drop_key w ?key cur_key))
      else rbind (rope_size (wmem w) r) (\<lambda>n. let w = upd_cache w (\<lambda>c. c\<lparr>bytes_c := counter_add (bytes_c c) n\<rparr>) in
        Inr (stored, drop_key w ?key cur_key)))"
    using set_body_rest [OF _ _ _ s, of ?w1 v] C(1-3) by (simp add: cache_set_def prepared_def cache_key_alloc_def Let_def)
  obtain w3 where w3: "release_entries (v_cpu v) (twrite ?w1 ?E t') rel = Inr w3" using assms(4) unfolding ex by (auto simp: rbind_Inr_iff)
  note T3 = release_trims [OF w3]
  have l: "live w \<subseteq> tabled t" "0 \<notin> live w" using tidyD [OF assms(3) C(3)] live_nonzero [OF assms(1)] by simp_all
  show ?thesis
  proof (cases cur)
    case None
    note S = set_impl_full [OF inv s [unfolded None]]
    obtain w4 where w4: "entry_destroy w3 ?e = Some (Inr w4)" "w' = drop_key w4 ?key None"
      using assms(4) w3 None unfolding ex by (auto simp: rbind_Inr_iff outcome_Inr)
    have "live ?w1 - (set rel \<union> ({?e} \<union> spare ?key None)) \<subseteq> tabled t'" using l(1) S(1) by (auto simp: spare_def)
    then show ?thesis unfolding w4(2)
      by (rule trims_tidy [OF trims_trans [OF T3 trims_trans [OF destroy_trims [OF w4(1) e(1)] drop_key_trims(1)]]])
  next
    case (Some kc)
    note S = set_impl_ok [OF inv vr s [unfolded Some]]
    obtain n where "w' = drop_key (upd_cache w3 (\<lambda>c. c\<lparr>bytes_c := counter_add (bytes_c c) n\<rparr>)) ?key (Some kc)"
      using assms(4) w3 Some unfolding ex by (auto simp: rbind_Inr_iff Let_def)
    then have T: "trims (set rel \<union> spare ?key (Some kc)) (twrite ?w1 ?E t') w'" using trims_trans [OF T3 drop_key_trims(2)] by simp
    have u: "vref t' j = (if j = k then ?e else vref t j)" for j using S(3) by (simp add: fp_ptr_def)
    note U = tabled_update [of t t' k ?e, OF _ u vref_aligned [OF C(4)]]
    have "{v_key v} - spare ?key (Some kc) \<subseteq> tabled t'" using spare_tabled [of "Some kc" t' ?key] kr Some by auto
    then have "live ?w1 - (set rel \<union> spare ?key (Some kc)) \<subseteq> tabled t'"
      using U(1) [OF _ l] U(2) S(6) kr by auto
    then show ?thesis by (rule trims_tidy [OF T])
  qed
qed

lemma add_tidy:
  assumes "crel w m" "clegal w (OAdd v k f x r cs)" "tidy w" "cache_add v w k f x r = Inr (c, w')"
  shows "tidy w'"
proof -
  obtain own t where C: "building_p (wcache w) = 0" "entries_p (wcache w) \<noteq> 0"
      "wtab w (entries_p (wcache w)) = Some t" "tinv t (wmem w) (went w) (wnewer w) (wgc w) own" by (rule crelE [OF assms(1)])
  have inv: "table_inv t" by (rule tinvD(1) [OF C(4)])
  let ?w1 = "prepared v w f x r" and ?e = "v_entry v" and ?key = "(v_key v, k)"
  let ?E = "entries_p (wcache ?w1)"
  have e: "?e \<noteq> 0" "aligned ?e" using assms(2) by (auto simp: fresh_object_def)
  have vr: "valid_ref (fp_ptr ?e)" by (rule valid_ref_ptr [OF e(2,1)])
  obtain ok cur cv t' rel where s: "add_impl t ?key (fp_ptr ?e) = (ok, cur, cv, t', rel)"
    by (cases "add_impl t ?key (fp_ptr ?e)") auto
  have kr: "keyrefs t' = keyrefs t \<union> set_option cur" using keyrefs_add [OF inv s] valid_ref_nonzero [OF vr] by simp
  have S: "rel = []" "ok \<Longrightarrow> vref t k = 0" "vref t' j = (if j = k \<and> ok then ?e else vref t j)" for j
    using add_impl_ok [OF inv vr, of ?key ok _ cv t' rel] add_impl_full [OF inv, of ?key "fp_ptr ?e" ok cv t' rel] s
    by (cases cur; simp add: fp_ptr_def)+
  have ex: "cache_add v w k f x r = (if \<not> ok
      then rbind (outcome (entry_destroy (twrite ?w1 ?E t') ?e)) (\<lambda>w. Inr (set_error, drop_key w ?key cur))
      else rbind (rope_size (wmem ?w1) r) (\<lambda>n. let w = upd_cache (twrite ?w1 ?E t') (\<lambda>c. c\<lparr>bytes_c := counter_add (bytes_c c) n\<rparr>) in
        Inr (stored, drop_key w ?key cur)))"
    using s C(1-3) S(1)
    by (simp add: cache_add_def prepared_def cache_key_alloc_def add_body_def is_building_def tread_Some tadd_def Let_def)
  have l: "live w \<subseteq> tabled t" "0 \<notin> live w" using tidyD [OF assms(3) C(3)] live_nonzero [OF assms(1)] by simp_all
  have key: "{v_key v} - spare ?key cur \<subseteq> tabled t'" using spare_tabled [of cur t' ?key] kr by auto
  show ?thesis
  proof (cases ok)
    case False
    have t: "tabled t \<subseteq> tabled t'" using kr S(3) False by (auto simp: tabled_def)
    obtain w4 where w4: "entry_destroy (twrite ?w1 ?E t') ?e = Some (Inr w4)" "w' = drop_key w4 ?key cur"
      using assms(4) False unfolding ex by (auto simp: rbind_Inr_iff outcome_Inr)
    have "live ?w1 - ({?e} \<union> spare ?key cur) \<subseteq> tabled t'" using l(1) t key by auto
    then show ?thesis unfolding w4(2) by (rule trims_tidy [OF trims_trans [OF destroy_trims [OF w4(1) e(1)] drop_key_trims(1)]])
  next
    case True
    obtain n where "w' = drop_key (upd_cache (twrite ?w1 ?E t') (\<lambda>c. c\<lparr>bytes_c := counter_add (bytes_c c) n\<rparr>)) ?key cur"
      using assms(4) True unfolding ex by (auto simp: rbind_Inr_iff Let_def)
    then have T: "trims (spare ?key cur) (twrite ?w1 ?E t') w'" using drop_key_trims(2) by simp
    have u: "vref t' j = (if j = k then ?e else vref t j)" for j using S(3) True by simp
    note U = tabled_update [of t t' k ?e, OF _ u vref_aligned [OF C(4)]]
    have "live ?w1 - spare ?key cur \<subseteq> tabled t'"
      using U(1) [OF _ l] U(2) S(2) [OF True] kr key by (auto simp: unshared_def)
    then show ?thesis by (rule trims_tidy [OF T])
  qed
qed

lemma del_tidy:
  assumes "crel w m" "tidy w" "cache_del v w k = Inr (c, w')"
  shows "tidy w'"
proof -
  obtain own t where C: "building_p (wcache w) = 0" "entries_p (wcache w) \<noteq> 0"
      "wtab w (entries_p (wcache w)) = Some t" "tinv t (wmem w) (went w) (wnewer w) (wgc w) own" by (rule crelE [OF assms(1)])
  obtain ok t' rel where r: "tremove t k = (ok, t', rel)" by (cases "tremove t k")
  note R = tremove_ok [OF tinvD(1) [OF C(4)] r]
  have "release_entries (v_cpu v) (twrite w (entries_p (wcache w)) t') rel = Inr w'"
    using assms(3) C(1-3) r by (auto simp: cache_del_def is_building_def tread_Some Let_def rbind_Inr_iff)
  note T = release_trims [OF this]
  note U = tabled_update [of t t' k 0, OF _ R(4) vref_aligned [OF C(4)]]
  have "live w - set rel \<subseteq> tabled t'"
    using U(1) [OF _ tidyD [OF assms(2) C(3)] live_nonzero [OF assms(1)]] keyrefs_remove [OF r] R(6) by simp
  then show ?thesis by (rule trims_tidy [OF T])
qed

lemma replace_tidy:
  assumes "crel w m" "clegal w (OReplace v k f x r cs)" "tidy w" "cache_replace v w k f x r = Inr (c, w')"
  shows "tidy w'"
proof -
  obtain own t where C: "building_p (wcache w) = 0" "entries_p (wcache w) \<noteq> 0"
      "wtab w (entries_p (wcache w)) = Some t" "tinv t (wmem w) (went w) (wnewer w) (wgc w) own" by (rule crelE [OF assms(1)])
  let ?e = "v_entry v"
  let ?w1 = "entry_alloc (upd_cache w (\<lambda>c. c\<lparr>sets_c := counter_incr (sets_c c)\<rparr>)) ?e f x r (v_now v)"
  let ?E = "entries_p (wcache ?w1)"
  have e: "?e \<noteq> 0" "aligned ?e" using assms(2) by (auto simp: fresh_object_def)
  have l1: "live ?w1 = live w \<union> {?e}" by (auto simp: live_def)
  obtain ok t' rel where s: "treplace t k ?e = (ok, t', rel)" by (cases "treplace t k ?e")
  note R = treplace_ok [OF tinvD(1) [OF C(4)] e(2,1) s]
  have ex: "cache_replace v w k f x r = rbind (release_entries (v_cpu v) (twrite ?w1 ?E t') rel) (\<lambda>w.
      if \<not> ok then rbind (outcome (entry_destroy w ?e)) (\<lambda>w. Inr (set_error, w))
      else rbind (rope_size (wmem w) r) (\<lambda>n. Inr (stored, upd_cache w (\<lambda>c. c\<lparr>bytes_c := counter_add (bytes_c c) n\<rparr>))))"
    using s C(1-3) by (simp add: cache_replace_def replace_body_def is_building_def tread_Some Let_def rbind_def split: sum.split)
  obtain w3 where w3: "release_entries (v_cpu v) (twrite ?w1 ?E t') rel = Inr w3" using assms(4) unfolding ex by (auto simp: rbind_Inr_iff)
  note T3 = release_trims [OF w3]
  have l: "live w \<subseteq> tabled t" "0 \<notin> live w" using tidyD [OF assms(3) C(3)] live_nonzero [OF assms(1)] by simp_all
  note kr = keyrefs_replace [OF tinvD(1) [OF C(4)] s e(1)]
  show ?thesis
  proof (cases ok)
    case False
    have w4: "entry_destroy w3 ?e = Some (Inr w')" using assms(4) w3 False unfolding ex by (auto simp: rbind_Inr_iff outcome_Inr)
    have "tabled t' = tabled t" using kr R(4) False by (auto simp: tabled_def)
    then have "live ?w1 - (set rel \<union> {?e}) \<subseteq> tabled t'" using l(1) l1 by auto
    then show ?thesis by (rule trims_tidy [OF trims_trans [OF T3 destroy_trims [OF w4 e(1)]]])
  next
    case True
    obtain n where "w' = upd_cache w3 (\<lambda>c. c\<lparr>bytes_c := counter_add (bytes_c c) n\<rparr>)"
      using assms(4) w3 True unfolding ex by (auto simp: rbind_Inr_iff)
    then have T: "trims (set rel) (twrite ?w1 ?E t') w'" using T3 by (simp add: trims_def)
    have u: "vref t' j = (if j = k then ?e else vref t j)" for j using R(4) True by simp
    note U = tabled_update [of t t' k ?e, OF _ u vref_aligned [OF C(4)]]
    have "live ?w1 - set rel \<subseteq> tabled t'" using l1 U(1) [OF _ l] U(2) kr R(6) by auto
    then show ?thesis by (rule trims_tidy [OF T])
  qed
qed

lemma destroy_live: "entry_destroy w a = Some (Inr w') \<Longrightarrow> trims {} w w'"
  using destroy_trims [of w a w'] by (cases "a = 0") (auto simp: entry_destroy_null trims_def)

lemma finalize_live: "gc_finalize w ds = Inr w' \<Longrightarrow> trims {} w w'"
proof (induction ds arbitrary: w)
  case (Cons d ds)
  obtain w1 where w1: "(case went w d of None \<Rightarrow> Inr w | Some _ \<Rightarrow> outcome (entry_destroy w d)) = Inr w1" "gc_finalize w1 ds = Inr w'"
    using Cons.prems by (auto simp: rbind_Inr_iff)
  have "trims {} w w1" using w1(1) destroy_live by (auto simp: outcome_Inr split: option.splits)
  from trims_trans [OF this Cons.IH [OF w1(2)]] show ?case by simp
qed simp

lemma kept_live:
  assumes "gc_kept (wgc w) ds g"
  shows "trims {} w (w\<lparr>wgc := g\<rparr>)"
proof -
  have "unsched (wgc w) a" if u: "unsched g a" for a
  proof -
    obtain y where y: "gheap g a = Some y" "\<not> g_scheduled y" using u by (auto simp: unsched_def split: option.splits)
    then obtain z where "gheap (wgc w) a = Some z" "kept z y" using assms unfolding gc_kept_def by blast
    then show ?thesis using y(2) by (simp add: unsched_def kept_def)
  qed
  then show ?thesis by (auto simp: trims_def live_def)
qed

lemma in_place_live:
  assumes "in_place op" "cexec w op = Inr (r, w')"
  shows "trims {} w w'"
proof (cases "watched op")
  case False
  then show ?thesis using in_place_waiters [OF assms(1) _ assms(2)] in_place_frame [OF assms] by (simp add: trims_def live_def)
next
  case True
  then show ?thesis using assms
    by (cases op) (auto simp: trims_def live_def unsched_def cpu_init_def cpu_exit_def Let_def rbind_Inr_iff)
qed

lemma cexec_tidy:
  assumes "crel w m" "clegal w op" "tidy w" "cexec w op = Inr (r, w')"
  shows "tidy w'"
proof -
  have keep: "tidy w'" if "trims {} w w'" using that assms(3) by (auto simp: trims_def tidy_def)
  consider "in_place op" | c where "op = OCheckpoint c" | v k f x rp cs where "op = OSet v k f x rp cs"
    | v k f x rp cs where "op = OAdd v k f x rp cs" | v k f x rp cs where "op = OReplace v k f x rp cs" | v k where "op = ODel v k"
    by (cases op) auto
  then show ?thesis
  proof cases
    case 1
    then show ?thesis using keep in_place_live [OF _ assms(4)] by simp
  next
    case (2 c)
    obtain tr where tr: "gc_run tr (wgc w)" using crelE [OF assms(1)] tinvD(6) by metis
    obtain ds g where g: "gc_checkpoint (wgc w) c = Inr (ds, g)" "gc_kept (wgc w) ds g"
      by (rule checkpoint_kept [OF tr, of c]) (use assms(2) 2 in \<open>simp add: runs_on_def\<close>)
    then have "gc_finalize (w\<lparr>wgc := g\<rparr>) ds = Inr w'" using assms(4) 2 by (simp add: cache_checkpoint_def rbind_Inr_iff)
    from trims_trans [OF kept_live [OF g(2)] finalize_live [OF this]] show ?thesis using keep by simp
  next
    case 3
    then show ?thesis using set_tidy assms by (auto simp: code_def rbind_Inr_iff)
  next
    case 4
    then show ?thesis using add_tidy assms by (auto simp: code_def rbind_Inr_iff)
  next
    case 5
    then show ?thesis using replace_tidy assms by (auto simp: code_def rbind_Inr_iff)
  next
    case 6
    then show ?thesis using del_tidy assms by (auto simp: code_def rbind_Inr_iff)
  qed
qed

interpretation owned: res_simulation cexec "\<lambda>w m. crel w m \<and> tidy w" clegal aspec
proof
  fix w m op assume "crel w m \<and> tidy w" "clegal w op"
  then show "\<exists>r w' m'. cexec w op = Inr (r, w') \<and> aspec m op r m' \<and> (crel w' m' \<and> tidy w')"
    using cexec_refines [of w m op] cexec_tidy [of w m op] unfolding refines_def by blast
qed

section \<open>The destructor\<close>

lemma new_cache_tidy: "tidy (cache_new maxb t lg2)"
  by (simp add: tidy_def cache_new_def live_def unsched_def gc_initial_def)

lemma delete_buckets_live: "delete_buckets w bs = Inr w' \<Longrightarrow> trims {} w w'"
proof (induction bs arbitrary: w)
  case (Cons b bs)
  let ?w = "case bkt_k b of None \<Rightarrow> w | Some k \<Rightarrow> cache_key_delete w k"
  have s: "trims {} w ?w" by (auto simp: trims_def live_def cache_key_delete_def split: option.split)
  obtain w1 where w1: "entry_destroy ?w (get_ptr (bkt_v b)) = Some (Inr w1)" "delete_buckets w1 bs = Inr w'"
    using Cons.prems by (auto simp: Let_def rbind_Inr_iff outcome_Inr)
  from trims_trans [OF trims_trans [OF s destroy_live [OF w1(1)]] Cons.IH [OF w1(2)]] show ?case by simp
qed simp

lemma delete_trims: "cache_delete w = Inr w' \<Longrightarrow> live w' \<subseteq> live w"
  by (auto simp: cache_delete_def delete_table_def rbind_Inr_iff live_def unsched_def trims_def dest!: delete_buckets_live)

lemma delete_live:
  assumes "crel w m" "tidy w"
  obtains w' where "cache_delete w = Inr w'" "live w' = {}" "wtab w' = (wtab w)(entries_p (wcache w) := None)"
    "objects w' = objects w - live w"
proof -
  obtain own t where C: "wtab w (entries_p (wcache w)) = Some t" "tinv t (wmem w) (went w) (wnewer w) (wgc w) own"
    by (rule crelE [OF assms(1)])
  obtain t' w' where w': "wtab w (entries_p (wcache w)) = Some t'" "cache_delete w = Inr w'"
      "wtab w' = (wtab w)(entries_p (wcache w) := None)" "objects w' = objects w - range (vref t') - fst ` keyrefs t'"
    by (rule cache_delete_ok [OF assms(1)])
  have tb: "tabled t - {0} \<subseteq> live w" using tinvD(4,7) [OF C(2)] by (auto simp: tabled_def live_def)
  have "objects w' = objects w - tabled t" using w'(1,4) C(1) by (auto simp: tabled_def)
  moreover have "0 \<notin> objects w" using hinv_null(1) [OF tinv_hinv [OF C(2)]] .
  ultimately have o: "objects w' = objects w - live w" using tb tidyD [OF assms(2) C(1)] by auto
  have "live w' \<subseteq> live w" by (rule delete_trims [OF w'(2)])
  then have "live w' = {}" using live_objects [of w'] o by auto
  then show thesis using that w'(2,3) o by blast
qed

text \<open>
  C8: Whatever legal operations a new cache has run, its destructor leaves no key and no value behind:
  every object that is still there has been handed to the collector.
\<close>

theorem cache_frees_all:
  assumes "t \<noteq> 0" and "lg2 < 31" and "legal_run cexec clegal (cache_new maxb t lg2) ops"
  shows "\<exists>rs w w'. run_res cexec (cache_new maxb t lg2) ops = Inr (rs, w) \<and> cache_delete w = Inr w' \<and> live w' = {}"
proof -
  obtain rs w m where w: "run_res cexec (cache_new maxb t lg2) ops = Inr (rs, w)" "crel w m" "tidy w"
    using owned.run_refines [of _ "\<lambda>_. None", OF _ assms(3)] new_cache_crel [OF assms(1,2)] new_cache_tidy by blast
  obtain w' where "cache_delete w = Inr w'" "live w' = {}" by (rule delete_live [OF w(2,3)])
  then show ?thesis using w(1) by blast
qed

theorem cache_frees_all_witness:
  "\<exists>rs w w'. run_res cexec (cache_new 1000 0x1000 20) demo_cops = Inr (rs, w) \<and> cache_delete w = Inr w' \<and> live w' = {}"
  by (rule cache_frees_all [OF _ _ demo_cops_legal]) simp_all

section \<open>Chunks that are lost\<close>

text \<open>
  C21: \<open>cas\<close> loses memory either way. When it stores the new data, the chunks of the old value stay
  allocated and belong to no entry; when it does not, because the version differs or there is no item,
  the same holds of the chunks with the client's data. Nothing frees them, then or later.
\<close>

theorem cas_leaks:
  assumes "crel w m" and "clegal w (OCas v k f x ver r cs)"
  shows "\<exists>c w' lost. cexec w (OCas v k f x ver r cs) = Inr (RCode c, w') \<and>
     rope_fresh w' lost (if c = stored then i_chunks (the (m k)) else cs)"
proof (rule get_cases [OF assms(1), of k])
  fix f' assume "cache_get w k = Inr (0, upd_cache w f')" "m k = None"
  then show ?thesis using assms(2) by (intro exI [of _ notfound] exI [of _ "upd_cache w f'"] exI [of _ r])
      (simp add: cache_cas_def code_def rope_fresh_def)
next
  fix f' t own a e
  assume g: "cache_get w k = Inr (a, upd_cache w f')" and h: "holds_entry w m k t own a e"
  note H = holds_entryD [OF h]
  have rf: "rope_fresh w r cs" using assms(2) by simp
  obtain ys where y: "rope_ok (wmem w) r ys" "chunks (wmem w) ys = cs" "\<forall>b \<in> dom (went w). set (own b) \<inter> set ys = {}"
    by (rule rope_freshE [OF rf H(5)])
  note cas = entry_cas_ok [OF H(3), of "v_now v" f x ver r]
  show ?thesis
  proof (cases "ver = hash_chunks (chunks (wmem w) (own a)) (ucast (e_flags e))")
    case True
    let ?e = "e\<lparr>e_head := r_head r, e_tail := r_tail r, e_flags := f, e_exptime := x, e_mtime := v_now v\<rparr>"
    let ?w = "ewrite (upd_cache w f') a ?e" and ?lost = "\<lparr>r_head = e_head e, r_tail = e_tail e\<rparr>"
    have "set xs \<inter> set (own a) = {}" if e': "went ?w b = Some e'" "entry_ok (wmem ?w) e' xs" for b e' xs
    proof (cases "b = a")
      case True
      then have "entry_ok (wmem w) e' ys" using e'(1) y(1) H(3) by (auto simp: ewrite_def entry_ok_def rope_ok_def)
      then have "xs = ys" using entry_ok_unique [of "wmem w" e' xs ys] e'(2) by (simp add: ewrite_def)
      then show ?thesis using y(3) H(2) by auto
    next
      case False
      then have b: "went w b = Some e'" using e'(1) by (simp add: ewrite_def)
      then have "entry_ok (wmem w) e' (own b)" using tinvD(2) [OF H(5) b] by (simp add: entry_inv_def)
      then have "xs = own b" using entry_ok_unique [of "wmem w" e' xs "own b"] e'(2) by (simp add: ewrite_def)
      then show ?thesis using H(10) b False by auto
    qed
    moreover have "rope_ok (wmem ?w) ?lost (own a)" using H(3) by (simp add: ewrite_def rope_ok_def entry_ok_def)
    ultimately have "rope_fresh ?w ?lost (i_chunks (the (m k)))"
      unfolding rope_fresh_def using H(4) by (intro exI [of _ "own a"]) (auto simp: ewrite_def item_of_def)
    moreover have "cexec w (OCas v k f x ver r cs) = Inr (RCode stored, ?w)"
      using g H(1,2) cas True by (simp add: cache_cas_def code_def eread_Some)
    ultimately show ?thesis by (intro exI [of _ stored] exI [of _ ?w] exI [of _ ?lost]) simp
  next
    case False
    have "went (ewrite (upd_cache w f') a e) = went w" using H(2) by (auto simp: ewrite_def)
    then have "rope_fresh (ewrite (upd_cache w f') a e) r cs" using rf by (simp add: rope_fresh_def ewrite_def)
    moreover have "cexec w (OCas v k f x ver r cs) = Inr (RCode cas_exists, ewrite (upd_cache w f') a e)"
      using g H(1,2) cas False by (simp add: cache_cas_def code_def eread_Some)
    ultimately show ?thesis by (intro exI [of _ cas_exists] exI [of _ "ewrite (upd_cache w f') a e"] exI [of _ r]) simp
  qed
qed

theorem cas_leaks_witness:
  "\<exists>w c w' lost. cexec w (OCas demo_env ''k'' 0 0 1 \<lparr>r_head = 0x7000, r_tail = 0x7000\<rparr> [''7'']) = Inr (RCode c, w') \<and>
     rope_fresh w' lost (if c = stored then i_chunks (the (demo_map ''k'')) else [''7''])"
proof -
  let ?w = "demo_world\<lparr>wmem := mem_alloc 0x7000 ''7'' (of_nat (length ''7'')) (wmem demo_world)\<rparr>"
  have a: "0x7000 \<notin> dom (wmem demo_world)" using demo_world_facts by (simp add: domIff)
  have "refines demo_world demo_map (OReceive 0x7000 ''7'')" by (rule cexec_refines [OF demo_world_crel]) (use a in simp)
  then have c: "crel ?w demo_map" by (simp add: refines_def)
  have "rope_fresh ?w \<lparr>r_head = 0x7000, r_tail = 0x7000\<rparr> [''7'']" by (rule received_fresh [OF demo_world_crel _ a]) simp_all
  then have l: "clegal ?w (OCas demo_env ''k'' 0 0 1 \<lparr>r_head = 0x7000, r_tail = 0x7000\<rparr> [''7''])" by simp
  show ?thesis by (rule exI [of _ ?w], rule cas_leaks [OF c l])
qed

end
