(* ===== verification/Finish.thy ===== *)
theory Finish
  imports Ownership
begin

text \<open>
  The end of a process: when no thread is registered any more, \<open>gc_finish\<close> deletes all that was handed
  to the collector, and the destructor of the cache the rest.
\<close>

section \<open>Chunks\<close>

text \<open>Every chunk belongs to an entry. This concerns the heap only, so the collector's state is left open.\<close>

definition packed :: "world \<Rightarrow> bool" where
  "packed w \<longleftrightarrow> (\<exists>own g. hinv (\<lambda>_. 0) {} (wmem w) (went w) (wnewer w) g own \<and>
     dom (wmem w) \<subseteq> (\<Union>a \<in> dom (went w). set (own a)))"

lemma packed_simps [simp]:
  "packed (twrite w a t) = packed w" "packed (upd_cache w f) = packed w" "packed (w\<lparr>wgc := g\<rparr>) = packed w"
  "packed (drop_key w k c) = packed w" "packed (cache_key_delete w k) = packed w" "packed (w\<lparr>wtab := tb\<rparr>) = packed w"
  by (simp_all add: packed_def cache_key_delete_def)

lemma hinv_only_heap: "hinv R K h ent nw g own \<Longrightarrow> hinv (\<lambda>_. 0) {} h ent nw g own"
  unfolding hinv_def by blast

lemma destroy_packed:
  assumes "packed w" "entry_destroy w a = Some (Inr w')"
  shows "packed w'"
proof -
  obtain own g where h: "hinv (\<lambda>_. 0) {} (wmem w) (went w) (wnewer w) g own" "dom (wmem w) \<subseteq> (\<Union>a \<in> dom (went w). set (own a))"
    using assms(1) by (auto simp: packed_def)
  consider "a = 0" | "a \<noteq> 0" "a \<in> dom (went w)"
    using assms(2) by (subst (asm) entry_destroy.simps) (auto simp: eread_def split: if_splits option.splits)
  then show ?thesis
  proof cases
    case 1
    then show ?thesis using assms by (simp add: entry_destroy_null)
  next
    case 2
    have "\<And>k. (\<lambda>_. 0) (k :: bytes) \<noteq> a" using 2(1) by simp
    note r = hinv_restrict(1) [OF h(1) 2(2) this hinvD(5) [OF h(1)] refl]
    have w': "w' = w\<lparr>wmem := wmem w |` (- set (own a)), went := (went w)(a := None), wnewer := (wnewer w)(a := None),
        wgc := gc_object_delete (wgc w) a\<rparr>" using assms(2) entry_destroy_ok [OF h(1) 2(2)] by simp
    have "dom (wmem w') \<subseteq> (\<Union>b \<in> dom (went w'). set (own b))"
    proof
      fix y assume y: "y \<in> dom (wmem w')"
      then have "y \<in> dom (wmem w)" by (auto simp: w')
      then obtain b where b: "b \<in> dom (went w)" "y \<in> set (own b)" using h(2) by blast
      then have "b \<noteq> a" using y by (auto simp: w' restrict_map_def split: if_splits)
      then show "y \<in> (\<Union>b \<in> dom (went w'). set (own b))" using b by (auto simp: w')
    qed
    then show ?thesis using r unfolding packed_def by (intro exI [of _ own] exI [of _ g]) (simp add: w')
  qed
qed

lemma finalize_packed: "gc_finalize w ds = Inr w' \<Longrightarrow> packed w \<Longrightarrow> packed w'"
  by (induction ds arbitrary: w) (auto simp: rbind_Inr_iff outcome_Inr split: option.splits dest: destroy_packed)

lemma delete_buckets_packed: "delete_buckets w bs = Inr w' \<Longrightarrow> packed w \<Longrightarrow> packed w'"
proof (induction bs arbitrary: w)
  case (Cons b bs)
  let ?w = "case bkt_k b of None \<Rightarrow> w | Some k \<Rightarrow> cache_key_delete w k"
  have "packed ?w" using Cons.prems(2) by (simp split: option.split)
  then show ?case using Cons.prems(1) Cons.IH destroy_packed [of ?w] by (auto simp: Let_def rbind_Inr_iff outcome_Inr)
qed simp

lemma delete_packed: "cache_delete w = Inr w' \<Longrightarrow> packed w \<Longrightarrow> packed w'"
  by (auto simp: cache_delete_def delete_table_def rbind_Inr_iff dest: delete_buckets_packed)

lemma release_packed: "release_entries c w es = Inr w' \<Longrightarrow> packed w \<Longrightarrow> packed w'"
proof (induction es arbitrary: w)
  case (Cons e es)
  obtain w1 where w1: "entry_release c w e = Inr w1" "release_entries c w1 es = Inr w'" using Cons.prems(1) by (auto simp: rbind_Inr_iff)
  have "packed w1" using w1(1) Cons.prems(2) by (auto simp: rbind_Inr_iff entry_release_def Let_def)
  then show ?case using Cons.IH [OF w1(2)] by simp
qed simp

lemma packed_empty: "packed w \<Longrightarrow> went w = Map.empty \<Longrightarrow> wmem w = Map.empty"
  by (auto simp: packed_def)

text \<open>A \<open>set\<close> of data that has just been received: the new chunk goes to the new entry, or is freed with it.\<close>

lemma set_packed:
  assumes "packed w" "a \<notin> dom (wmem w)" "w1 = w\<lparr>wmem := mem_alloc a bs n (wmem w)\<rparr>" "crel w1 m"
    "clegal w1 (OSet v k f x \<lparr>r_head = a, r_tail = a\<rparr> cs)" "cache_set v w1 k f x \<lparr>r_head = a, r_tail = a\<rparr> = Inr (c, w')"
  shows "packed w'"
proof -
  let ?r = "\<lparr>r_head = a, r_tail = a\<rparr>" and ?e = "v_entry v" and ?key = "(v_key v, k)"
  obtain own0 t where C: "building_p (wcache w1) = 0" "entries_p (wcache w1) \<noteq> 0"
      "wtab w1 (entries_p (wcache w1)) = Some t" "tinv t (wmem w1) (went w1) (wnewer w1) (wgc w1) own0" by (rule crelE [OF assms(4)])
  let ?p = "prepared v w1 f x ?r"
  obtain own' where P: "tinv t (wmem ?p) (went ?p) (wnewer ?p) (wgc ?p) own'" "?e \<in> dom (went ?p)"
    by (rule prepared_ok [OF C(4) assms(5)])
  have pm: "wmem ?p = mem_alloc a bs n (wmem w)" "went ?p = (went w)(?e \<mapsto> entry_new f x ?r (v_now v))"
    using assms(3) by (simp_all add: prepared_def Let_def)
  have ok: "entry_ok (wmem ?p) e (own' b)" if "went ?p b = Some e" for b e using tinvD(2) [OF P(1) that] by (simp add: entry_inv_def)
  obtain own g where o: "hinv (\<lambda>_. 0) {} (wmem w) (went w) (wnewer w) g own" "dom (wmem w) \<subseteq> (\<Union>b \<in> dom (went w). set (own b))"
    using assms(1) by (auto simp: packed_def)
  have new: "?e \<notin> dom (went w)" using assms(3,5) tinvD(2) [OF C(4), of ?e] by (auto simp: fresh_object_def entry_inv_def)
  have same: "own' b = own b" if b: "went w b = Some e" for b e
  proof -
    have e: "entry_ok (wmem w) e (own b)" using hinvD(1) [OF o(1) b] by (simp add: entry_inv_def)
    then have ch: "chain (wmem w) (e_head e) (e_tail e) (own b)" by (simp add: entry_ok_def)
    have na: "a \<notin> set (own b)" using chain_addrs [OF ch] assms(2) by auto
    then have "last (own b) \<noteq> a" using ch chain_addrs [OF ch] by (auto simp: chain_def)
    then have "entry_ok (wmem ?p) e (own b)" using e na unfolding pm mem_alloc_def by (auto simp: entry_ok_def)
    moreover have "b \<noteq> ?e" using new b by auto
    then have "entry_ok (wmem ?p) e (own' b)" using ok b by (simp add: pm)
    ultimately show ?thesis using entry_ok_unique by blast
  qed
  define X where "X = (\<Union>b \<in> dom (went ?p). set (own' b))"
  have "a \<in> set (own' ?e)"
    using ok [of ?e "entry_new f x ?r (v_now v)"] by (cases "own' ?e") (auto simp: pm entry_ok_def chain_def entry_new_def)
  then have aX: "a \<in> X" unfolding X_def by (rule UN_I [OF P(2)])
  have yX: "y \<in> X" if y: "y \<in> dom (wmem w)" for y
  proof -
    obtain b e where b: "went w b = Some e" "y \<in> set (own b)" using o(2) y by auto
    then have "b \<in> dom (went ?p)" "y \<in> set (own' b)" using same [OF b(1)] by (auto simp: pm)
    then show ?thesis unfolding X_def by (rule UN_I)
  qed
  have "dom (wmem ?p) = insert a (dom (wmem w))" by (auto simp: pm mem_alloc_def)
  then have "dom (wmem ?p) \<subseteq> X" using aX yX by (simp add: subset_eq)
  then have pp: "packed ?p" unfolding packed_def X_def using hinv_only_heap [OF tinv_hinv [OF P(1)]] by (intro exI conjI)
  obtain cur t' rel where s: "set_impl t ?key (fp_ptr ?e) = (cur, t', rel)" by (cases "set_impl t ?key (fp_ptr ?e)") auto
  have ex: "cache_set v w1 k f x ?r = rbind (rbind (release_entries (v_cpu v) (twrite ?p (entries_p (wcache ?p)) t') rel) (\<lambda>w. Inr (cur, w)))
    (\<lambda>(cur_key, w).
      if cur_key = None then rbind (outcome (entry_destroy w ?e)) (\<lambda>w. Inr (set_error, drop_key w ?key cur_key))
      else rbind (rope_size (wmem w) ?r) (\<lambda>n. let w = upd_cache w (\<lambda>c. c\<lparr>bytes_c := counter_add (bytes_c c) n\<rparr>) in
        Inr (stored, drop_key w ?key cur_key)))"
    using set_body_rest [OF _ _ _ s, of ?p v] C(1-3) by (simp add: cache_set_def prepared_def cache_key_alloc_def Let_def)
  obtain w3 where w3: "release_entries (v_cpu v) (twrite ?p (entries_p (wcache ?p)) t') rel = Inr w3"
    using assms(6) unfolding ex by (auto simp: rbind_Inr_iff)
  have p3: "packed w3" using release_packed [OF w3] pp by simp
  show ?thesis
  proof (cases cur)
    case None
    then obtain w4 where "entry_destroy w3 ?e = Some (Inr w4)" "w' = drop_key w4 ?key None"
      using assms(6) w3 unfolding ex by (auto simp: rbind_Inr_iff outcome_Inr)
    then show ?thesis using destroy_packed [OF p3] by simp
  next
    case (Some kc)
    then show ?thesis using assms(6) w3 p3 unfolding ex by (auto simp: rbind_Inr_iff Let_def)
  qed
qed

section \<open>Pending lists\<close>

lemma observe_loop_pending:
  "observe_loop st c is = Inr st' \<Longrightarrow> pending st' = pending st \<and> cpu_mask st' = cpu_mask st"
proof (induction "is" arbitrary: st)
  case (Cons i "is")
  obtain h s1 where s1: "observe st i c (last_observed st c i) = Inr (h, s1)"
      "observe_loop (s1\<lparr>last_observed := (last_observed s1)(c := (last_observed s1 c)(i := h))\<rparr>) c is = Inr st'"
    using Cons.prems by (auto simp: rbind_Inr_iff)
  have "pending s1 = pending st \<and> cpu_mask s1 = cpu_mask st" using s1(1)
    by (auto simp: observe_def observe_object_def gwrite_def rbind_Inr_iff Let_def split: if_splits)
  then show ?case using Cons.IH [OF s1(2)] by simp
qed simp

lemma service_loop_pending:
  assumes "service_loop st a ds = Some (Inr (ds', st'))"
  shows "pending st' = pending st"
proof -
  have "\<forall>ds' st'. r = Inr (ds', st') \<longrightarrow> pending st' = pending st" if "service_loop st a ds = Some r" for r
    by (rule service_loop.raw_induct [where P = "\<lambda>st a ds r. \<forall>ds' st'. r = Inr (ds', st') \<longrightarrow> pending st' = pending st", OF _ that])
       (fastforce split: if_splits sum.splits)
  then show ?thesis using assms by blast
qed

lemma pop_ready_loop_pending:
  assumes "pop_ready_loop st c p seen = Some (Inr (t, st'))" "i \<noteq> c"
  shows "pending st' i = pending st i"
proof -
  have "\<forall>t st'. r = Inr (t, st') \<longrightarrow> pending st' i = pending st i" if "pop_ready_loop st c p seen = Some r" for r
    by (rule pop_ready_loop.raw_induct [where P = "\<lambda>st c' p seen r. c' = c \<longrightarrow> (\<forall>t st'. r = Inr (t, st') \<longrightarrow> pending st' i = pending st i)",
          OF _ that, THEN mp, OF _ refl])
       (use assms(2) in \<open>fastforce simp: rbind_Inr_iff clear_at_def gwrite_def Let_def split: if_splits sum.splits option.splits\<close>)
  then show ?thesis using assms(1) by blast
qed

text \<open>A checkpoint changes the thread's own list only; with no thread registered it empties it.\<close>

lemma cpu_checkpoint_pending:
  assumes "cpu_checkpoint st c = Inr (ds, st')"
  shows "i \<noteq> c \<Longrightarrow> pending st' i = pending st i" "cpu_mask st = 0 \<Longrightarrow> pending st' c = 0"
proof -
  obtain s1 where s1: "observe_loop st c [0..<MAX_CPUS] = Inr s1" "gc_service s1 c = Inr (ds, st')"
    using assms by (auto simp: cpu_checkpoint_def rbind_Inr_iff)
  note o = observe_loop_pending [OF s1(1)]
  obtain t s2 where s2: "pop_ready_loop s1 c None 0 = Some (Inr (t, s2))"
      "(if t = 0 then Inr ([], s2) else outcome (service_loop s2 t [])) = Inr (ds, st')"
    using s1(2) by (auto simp: gc_service_def pop_ready_def rbind_Inr_iff outcome_Inr)
  have s: "pending st' = pending s2" using s2(2) service_loop_pending by (auto simp: outcome_Inr split: if_splits)
  show "pending st' i = pending st i" if "i \<noteq> c" using pop_ready_loop_pending [OF s2(1) that] o s by simp
  show "pending st' c = 0" if m: "cpu_mask st = 0"
  proof -
    have all: "cpu_seen_all s1 x" for x using m o by (simp add: cpu_seen_all_iff)
    show ?thesis using s2(1) s all
      by (subst (asm) pop_ready_loop.simps) (auto simp: read_at_def clear_at_def Let_def split: if_splits sum.splits)
  qed
qed

section \<open>No thread is left\<close>

lemma gc_kept_trans:
  assumes "gc_kept g ds g1" "gc_kept g1 ds' g2"
  shows "gc_kept g (ds @ ds') g2"
proof -
  have old1: "\<exists>z. gheap g x = Some z \<and> kept z y" if "gheap g1 x = Some y" for x y using assms(1) that unfolding gc_kept_def by blast
  have old2: "\<exists>z. gheap g1 x = Some z \<and> kept z y" if "gheap g2 x = Some y" for x y using assms(2) that unfolding gc_kept_def by blast
  have "(\<exists>x. gheap g d = Some x \<and> g_scheduled x \<and> d > 0x1000) \<and> gheap g2 d = None" if d: "d \<in> set (ds @ ds')" for d
  proof (cases "d \<in> set ds")
    case True
    then have "(\<exists>x. gheap g d = Some x \<and> g_scheduled x \<and> d > 0x1000) \<and> gheap g1 d = None" using assms(1) unfolding gc_kept_def by blast
    then show ?thesis using old2 [of d] by (cases "gheap g2 d") auto
  next
    case False
    then obtain x where x: "gheap g1 d = Some x" "g_scheduled x" "d > 0x1000" "gheap g2 d = None"
      using d assms(2) unfolding gc_kept_def by auto
    then show ?thesis using old1 [OF x(1)] by (auto simp: kept_def)
  qed
  moreover have "gheap g2 x \<noteq> None" if "x \<notin> set (ds @ ds')" "gheap g x \<noteq> None" for x
    using that assms unfolding gc_kept_def by auto
  moreover have "\<exists>z. gheap g x = Some z \<and> kept z y" if y: "gheap g2 x = Some y" for x y
  proof -
    obtain z where z: "gheap g1 x = Some z" "kept z y" using old2 [OF y] by blast
    obtain z' where "gheap g x = Some z'" "kept z' z" using old1 [OF z(1)] by blast
    then show ?thesis using z(2) by (auto simp: kept_def)
  qed
  ultimately show ?thesis unfolding gc_kept_def by blast
qed

lemma cpu_checkpoint_kept:
  assumes "gc_run tr g" "c < cpu_count g" "flushes g = 0"
  obtains ds g' where "cpu_checkpoint g c = Inr (ds, g')" "gc_run (EvCheckpoint c # tr) g'" "gc_kept g ds g'"
    "cpu_mask g' = cpu_mask g" "cpu_count g' = cpu_count g" "flushes g' = 0"
proof -
  obtain xss where l: "gc_lists tr g xss" and ci: "core_inv g" using gc_run_inv [OF assms(1)] by (auto simp: gc_inv_alt)
  have c32: "c < 32" and mask: "\<forall>b. bit (cpu_mask g) b \<longrightarrow> b < 32" and nd: "\<forall>x y. gheap g x = Some y \<longrightarrow> \<not> g_dispatched y"
    using ci assms(2) by (auto simp: core_inv_def intro: less_le_trans)
  have tr': "since (EvCheckpoint c # tr) x = insert c (since tr x)" for x by simp
  obtain ds s where s: "cpu_checkpoint g c = Inr (ds, s)" "flushes s = flushes g"
    by (rule cpu_checkpoint_ok [OF l nd c32 mask tr'])
  obtain ds' g' where g': "gc_checkpoint g c = Inr (ds', g')" "gc_run (EvCheckpoint c # tr) g'" "gc_kept g ds' g'"
      "cpu_mask g' = cpu_mask g" "cpu_count g' = cpu_count g" "flushes g' = flushes g"
    by (rule checkpoint_kept [OF assms(1,2)])
  have "gc_checkpoint g c = Inr (ds, s)" using s assms(3) by (simp add: gc_checkpoint_def flush_checkpoint_def)
  then show thesis using that [OF s(1)] g' assms(3) by simp
qed

lemma finish_loop_ok:
  assumes "gc_run tr g" "flushes g = 0" "cpu_mask g = 0" "\<forall>i \<in> set is. i < cpu_count g"
  shows "\<exists>ds g' tr'. finish_loop g is = Inr (ds, g') \<and> gc_run tr' g' \<and> gc_kept g ds g' \<and>
    cpu_mask g' = 0 \<and> cpu_count g' = cpu_count g \<and> flushes g' = 0 \<and>
    (\<forall>i. pending g' i = (if i \<in> set is then 0 else pending g i))"
  using assms
proof (induction "is" arbitrary: tr g)
  case Nil
  then show ?case by (auto simp: gc_kept_def kept_def)
next
  case (Cons i "is")
  have i: "i < cpu_count g" using Cons.prems(4) by simp
  obtain ds g1 where g1: "cpu_checkpoint g i = Inr (ds, g1)" "gc_run (EvCheckpoint i # tr) g1" "gc_kept g ds g1"
      "cpu_mask g1 = cpu_mask g" "cpu_count g1 = cpu_count g" "flushes g1 = 0"
    by (rule cpu_checkpoint_kept [OF Cons.prems(1) i Cons.prems(2)])
  obtain ds' g' tr' where g': "finish_loop g1 is = Inr (ds', g')" "gc_run tr' g'" "gc_kept g1 ds' g'" "cpu_mask g' = 0"
      "cpu_count g' = cpu_count g1" "flushes g' = 0" "\<forall>j. pending g' j = (if j \<in> set is then 0 else pending g1 j)"
    using Cons.IH [OF g1(2,6)] g1(4,5) Cons.prems(3,4) by auto
  have "pending g' j = (if j \<in> set (i # is) then 0 else pending g j)" for j
    using g'(7) cpu_checkpoint_pending [OF g1(1)] Cons.prems(3) by auto
  then show ?case using g1(1,5) g' gc_kept_trans [OF g1(3) g'(3)] by (auto intro!: exI)
qed

text \<open>What \<open>gc_finish\<close> deletes: all objects that were freed, if no thread was given one after its end.\<close>

lemma gc_finish_ok:
  assumes "gc_run tr g" "flushes g = 0" "cpu_mask g = 0" "\<forall>i \<ge> cpu_count g. pending g i = 0"
  obtains ds g' tr' where "gc_finish g = Inr (ds, g')" "gc_run tr' g'" "gc_kept g ds g'"
    "\<forall>a x. gheap g' a = Some x \<longrightarrow> \<not> g_scheduled x"
proof -
  let ?is = "[0..<cpu_count g]"
  obtain ds g1 tr1 where g1: "finish_loop g ?is = Inr (ds, g1)" "gc_run tr1 g1" "gc_kept g ds g1" "cpu_mask g1 = 0"
      "cpu_count g1 = cpu_count g" "flushes g1 = 0" "\<forall>i. pending g1 i = (if i \<in> set ?is then 0 else pending g i)"
    using finish_loop_ok [OF assms(1-3), of ?is] by auto
  obtain ds' g' tr' where g': "finish_loop g1 ?is = Inr (ds', g')" "gc_run tr' g'" "gc_kept g1 ds' g'"
      "\<forall>i. pending g' i = (if i \<in> set ?is then 0 else pending g1 i)"
    using finish_loop_ok [OF g1(2,6,4), of ?is] g1(5) by auto
  have p: "pending g' i = 0" for i using g'(4) g1(7) assms(4) by (cases "i < cpu_count g") auto
  have "\<not> g_scheduled x" if x: "gheap g' a = Some x" for a x
  proof
    assume "g_scheduled x"
    obtain xss where l: "gc_lists tr' g' xss" using gc_run_inv [OF g'(2)] by (auto simp: gc_inv_alt)
    obtain i where i: "i < 32" "a \<in> set (xss i)" using gc_lists_all [OF l x \<open>g_scheduled x\<close>] by blast
    then have "plist (gheap g') 0 (xss i)" using gc_listsD(1) [OF l i(1)] p by simp
    then show False using i(2) by (cases "xss i") auto
  qed
  then show thesis using that [of "ds @ ds'" g' tr'] g1(1,3,5) g'(1,2) gc_kept_trans [OF g1(3) g'(3)] by (simp add: gc_finish_def)
qed

text \<open>The end of \<open>main\<close>: \<open>gc_finish\<close>, then the destructor of the cache.\<close>

lemma shutdown_ok:
  assumes "crel w m" "tidy w" "flushes (wgc w) = 0" "cpu_mask (wgc w) = 0" "\<forall>i \<ge> cpu_count (wgc w). pending (wgc w) i = 0"
  obtains ds g w1 w2 where "gc_finish (wgc w) = Inr (ds, g)" "gc_finalize (w\<lparr>wgc := g\<rparr>) ds = Inr w1" "crel w1 m"
    "cache_delete w1 = Inr w2" "objects w2 = {}" "went w2 = Map.empty" "wtab w2 = (wtab w)(entries_p (wcache w) := None)"
    "packed w \<longrightarrow> wmem w2 = Map.empty"
proof -
  obtain own t where C: "building_p (wcache w) = 0" "entries_p (wcache w) \<noteq> 0"
      "wtab w (entries_p (wcache w)) = Some t" "tinv t (wmem w) (went w) (wnewer w) (wgc w) own"
      "m = tmap t (wmem w) (went w) own" by (rule crelE [OF assms(1)])
  obtain tr where tr: "gc_run tr (wgc w)" using tinvD(6) [OF C(4)] by blast
  obtain ds g tr' where g: "gc_finish (wgc w) = Inr (ds, g)" "gc_run tr' g" "gc_kept (wgc w) ds g"
      "\<forall>a x. gheap g a = Some x \<longrightarrow> \<not> g_scheduled x" by (rule gc_finish_ok [OF tr assms(3-5)])
  have ex: "\<exists>tr. gc_run tr g" using g(2) by blast
  obtain w1 where w1: "gc_finalize (w\<lparr>wgc := g\<rparr>) ds = Inr w1" "hinv (vref t) (keyrefs t) (wmem w1) (went w1) (wnewer w1) (wgc w1) own"
      "hmap (vref t) (wmem w1) (went w1) own = hmap (vref t) (wmem w) (went w) own" "wgc w1 = g" "wtab w1 = wtab w" "wcache w1 = wcache w"
    by (rule finalize_kept [OF tinv_hinv [OF C(4)] g(3) ex])
  have c1: "crel w1 m" by (rule crelI [where t = t and own = own]) (use w1 C in \<open>simp_all add: tinv_def tmap_hmap\<close>)
  have "trims {} w w1" using trims_trans [OF kept_live [OF g(3)] finalize_live [OF w1(1)]] by simp
  then have t1: "tidy w1" using assms(2) by (auto simp: trims_def tidy_def)
  have ol: "objects w1 = live w1" using g(4) by (auto simp: objects_def live_def unsched_def w1(4) split: option.splits)
  obtain w2 where w2: "cache_delete w1 = Inr w2" "wtab w2 = (wtab w1)(entries_p (wcache w1) := None)" "objects w2 = objects w1 - live w1"
    by (rule delete_live [OF c1 t1])
  obtain t' w2' where w2': "wtab w1 (entries_p (wcache w1)) = Some t'" "cache_delete w1 = Inr w2'" "went w2' = went w1 |` (- range (vref t'))"
    by (rule cache_delete_ok [OF c1])
  have "dom (went w1) \<subseteq> range (vref t)"
  proof
    fix a assume a: "a \<in> dom (went w1)"
    then have "a \<in> live w1" using hinvD(1) [OF w1(2), of a] by (auto simp: entry_inv_def ol [symmetric] objects_def)
    then have "a \<in> tabled t" using tidyD [OF t1] w1(5,6) C(3) by auto
    then show "a \<in> range (vref t)" using hinvD(6) [OF w1(2)] a by (auto simp: tabled_def)
  qed
  then have "went w2 = Map.empty" using w2(1) w2' w1(5,6) C(3) by (auto simp: restrict_map_def fun_eq_iff domIff) 
  moreover have "packed w2" if "packed w" using delete_packed [OF w2(1)] finalize_packed [OF w1(1)] that by simp
  ultimately show thesis using that [OF g(1) w1(1) c1 w2(1)] w2(2,3) ol w1(5,6) packed_empty by simp
qed

end
