(* ===== verification/Loadtest.thy ===== *)
theory Loadtest
  imports Jimcached Finish
begin

text \<open>
  The load generator of \<open>src/loadtest.cc\<close>: threads that store random keys, and a thread that collects.
  Every call of a thread is one step, the waiting in \<open>gc_flush\<close> another; a schedule says which thread
  runs next and what it gets from \<open>malloc\<close>, the clock and \<open>random\<close>. Without the collecting thread, every
  schedule runs without failing, and the program gives all its objects back.
\<close>

section \<open>Options\<close>

record lt_config =
  collect_usec :: int
  nthreads :: int
  inserts :: int
  nkeys :: int

definition lt_defaults :: lt_config where
  "lt_defaults = \<lparr>collect_usec = 1000, nthreads = 1, inserts = 100, nkeys = 100\<rparr>"

definition lt_max_bytes :: u64 where
  "lt_max_bytes = 16 * 1024 * 1024"

definition lt_usage :: "string list" where
  "lt_usage = [''loadtest [options]'', [], ''  -c periodically collect'', ''  -k number of keys'',
     ''  -n number of inserts per thread'', ''  -t number of threads'']"

text \<open>What \<open>getopt\<close> answers; the result is the exit status and the text, or the options and whether to collect.\<close>

fun lt_options :: "lt_config \<Rightarrow> bool \<Rightarrow> (char \<times> string) list \<Rightarrow> (int \<times> string list) + lt_config \<times> bool" where
  "lt_options cf b [] = Inr (cf, b)"
| "lt_options cf b ((ch, optarg) # opts) =
     (if ch = CHR ''c'' then lt_options (cf\<lparr>collect_usec := atoi optarg\<rparr>) True opts
      else if ch = CHR ''k'' then lt_options (cf\<lparr>nkeys := atoi optarg\<rparr>) b opts
      else if ch = CHR ''n'' then lt_options (cf\<lparr>inserts := atoi optarg\<rparr>) b opts
      else if ch = CHR ''t'' then lt_options (cf\<lparr>nthreads := atoi optarg\<rparr>) b opts
      else Inl (1, lt_usage))"

section \<open>Workers\<close>

text \<open>\<open>%d\<close> and \<open>%ld\<close>.\<close>

definition print_int :: "int \<Rightarrow> bytes" where
  "print_int n = (if n < 0 then CHR ''-'' # dec_digits (nat (- n)) else dec_digits (nat n))"

text \<open>
  The key and the value of an insertion. \<open>random\<close> answers a number that is not negative, so \<open>%\<close> takes the
  remainder by the absolute value; the product of the value is taken modulo $2^{32}$. No text reaches the 64 bytes
  of its buffer.
\<close>

definition lt_key :: "int \<Rightarrow> lt_config \<Rightarrow> bytes res" where
  "lt_key random cf = (if nkeys cf = 0 then Inl DivByZero else Inr (print_int (random mod \<bar>nkeys cf\<bar>)))"

definition lt_value :: "int \<Rightarrow> int \<Rightarrow> bytes" where
  "lt_value wid i = print_int (sint (of_int (wid * 1000000 + i) :: 32 word))"

text \<open>
  Where a worker is: before \<open>cpu_init\<close>, before its first checkpoint, at the head of its loop, after an
  insertion, and in \<open>gc_exit\<close> before \<open>cpu_exit\<close>, before the second checkpoint, and at the end.
\<close>

datatype lt_pc = Lt_init | Lt_first | Lt_loop | Lt_checkpoint | Lt_exit | Lt_last | Lt_done

record lt_worker =
  lw_id :: int
  lw_cpu :: nat
  lw_i :: int
  lw_pc :: lt_pc

definition lt_worker_new :: "int \<Rightarrow> lt_worker" where
  "lt_worker_new wid = \<lparr>lw_id = wid, lw_cpu = 0, lw_i = 0, lw_pc = Lt_init\<rparr>"

record lt_supply =
  ls_env :: env
  ls_mem :: addr
  ls_random :: int
  ls_table :: addr
  ls_stack :: addr

definition lt_insert :: "lt_config \<Rightarrow> lt_supply \<Rightarrow> lt_worker \<Rightarrow> world \<Rightarrow> (cache_error_t \<times> world) res" where
  "lt_insert cf x wk w =
     rbind (lt_key (ls_random x) cf) (\<lambda>k.
     let vstr = lt_value (lw_id wk) (lw_i wk);
         w = w\<lparr>wmem := mem_alloc (ls_mem x) vstr (of_nat (length vstr)) (wmem w)\<rparr>;
         r = \<lparr>r_head = ls_mem x, r_tail = ls_mem x\<rparr> in
     cache_set ((ls_env x)\<lparr>v_cpu := lw_cpu wk\<rparr>) w k 0 0 r)"

text \<open>The end of \<open>gc_exit\<close>, after \<open>cpu_exit\<close>.\<close>

definition lt_last :: "nat \<Rightarrow> world \<Rightarrow> world res" where
  "lt_last c w =
     rbind (cache_checkpoint c w) (\<lambda>w.
     rbind (force_checkpoint (wgc w) c) (\<lambda>g. Inr (w\<lparr>wgc := g\<rparr>)))"

definition lt_step :: "lt_config \<Rightarrow> lt_supply \<Rightarrow> lt_worker \<Rightarrow> world \<Rightarrow> (lt_worker \<times> world) res" where
  "lt_step cf x wk w =
     (case lw_pc wk of
        Lt_init \<Rightarrow>
          rbind (cpu_init (wgc w)) (\<lambda>(c, g). Inr (wk\<lparr>lw_cpu := c, lw_pc := Lt_first\<rparr>, w\<lparr>wgc := g\<rparr>))
      | Lt_first \<Rightarrow> rbind (cache_checkpoint (lw_cpu wk) w) (\<lambda>w. Inr (wk\<lparr>lw_pc := Lt_loop\<rparr>, w))
      | Lt_loop \<Rightarrow>
          if lw_i wk < inserts cf
          then rbind (lt_insert cf x wk w) (\<lambda>(err, w). Inr (wk\<lparr>lw_pc := Lt_checkpoint\<rparr>, w))
          else rbind (cache_checkpoint (lw_cpu wk) w) (\<lambda>w. Inr (wk\<lparr>lw_pc := Lt_exit\<rparr>, w))
      | Lt_checkpoint \<Rightarrow>
          rbind (cache_checkpoint (lw_cpu wk) w) (\<lambda>w. Inr (wk\<lparr>lw_i := lw_i wk + 1, lw_pc := Lt_loop\<rparr>, w))
      | Lt_exit \<Rightarrow> Inr (wk\<lparr>lw_pc := Lt_last\<rparr>, w\<lparr>wgc := cpu_exit (wgc w) (lw_cpu wk)\<rparr>)
      | Lt_last \<Rightarrow> rbind (lt_last (lw_cpu wk) w) (\<lambda>w. Inr (wk\<lparr>lw_pc := Lt_done\<rparr>, w))
      | Lt_done \<Rightarrow> Inr (wk, w))"

section \<open>The collecting thread\<close>

text \<open>
  Where it is: as a worker at its beginning and end; at the test of \<open>stopping\<close>; in \<open>collect\<close> before and in
  its first flush, before the copy, before and in its second flush, and before its last loop; after
  \<open>collect\<close>. It keeps the old table, the new one and the waiter of the flush it is in.
\<close>

datatype lc_pc = Lc_init | Lc_first | Lc_loop | Lc_flush1 | Lc_wait1 | Lc_copy | Lc_flush2 | Lc_wait2 | Lc_finish
  | Lc_checkpoint | Lc_exit | Lc_last | Lc_done

record lt_collector =
  lc_cpu :: nat
  lc_pc :: lc_pc
  lc_old :: addr
  lc_building :: addr
  lc_waiter :: addr

definition lt_collector_new :: lt_collector where
  "lt_collector_new = \<lparr>lc_cpu = 0, lc_pc = Lc_init, lc_old = 0, lc_building = 0, lc_waiter = 0\<rparr>"

text \<open>A wait whose flush is not complete stays where it is.\<close>

definition lc_wait :: "lc_pc \<Rightarrow> lt_collector \<Rightarrow> world \<Rightarrow> (lt_collector \<times> world) res" where
  "lc_wait nxt c w =
     (if flush_ready (wgc w) (lc_waiter c)
      then rbind (flush_leave (lc_waiter c) w) (\<lambda>w. Inr (c\<lparr>lc_pc := nxt\<rparr>, w))
      else Inr (c, w))"

definition lc_step :: "bool \<Rightarrow> lt_supply \<Rightarrow> lt_collector \<Rightarrow> world \<Rightarrow> (lt_collector \<times> world) res" where
  "lc_step stopping x c w =
     (let v = (ls_env x)\<lparr>v_cpu := lc_cpu c\<rparr> in
      case lc_pc c of
        Lc_init \<Rightarrow> rbind (cpu_init (wgc w)) (\<lambda>(i, g). Inr (c\<lparr>lc_cpu := i, lc_pc := Lc_first\<rparr>, w\<lparr>wgc := g\<rparr>))
      | Lc_first \<Rightarrow> rbind (cache_checkpoint (lc_cpu c) w) (\<lambda>w. Inr (c\<lparr>lc_pc := Lc_loop\<rparr>, w))
      | Lc_loop \<Rightarrow>
          if stopping then rbind (cache_checkpoint (lc_cpu c) w) (\<lambda>w. Inr (c\<lparr>lc_pc := Lc_exit\<rparr>, w))
          else rbind (collect_begin (ls_table x) w) (\<lambda>(old, w).
            Inr (c\<lparr>lc_old := old, lc_building := ls_table x, lc_pc := Lc_flush1\<rparr>, w))
      | Lc_flush1 \<Rightarrow>
          rbind (flush_enter v (ls_stack x) w) (\<lambda>w. Inr (c\<lparr>lc_waiter := ls_stack x, lc_pc := Lc_wait1\<rparr>, w))
      | Lc_wait1 \<Rightarrow> lc_wait Lc_copy c w
      | Lc_copy \<Rightarrow> rbind (collect_copy v (lc_old c) (lc_building c) w) (\<lambda>w. Inr (c\<lparr>lc_pc := Lc_flush2\<rparr>, w))
      | Lc_flush2 \<Rightarrow>
          rbind (flush_enter v (ls_stack x) w) (\<lambda>w. Inr (c\<lparr>lc_waiter := ls_stack x, lc_pc := Lc_wait2\<rparr>, w))
      | Lc_wait2 \<Rightarrow> lc_wait Lc_finish c w
      | Lc_finish \<Rightarrow> rbind (collect_finish v (lc_old c) (lc_building c) w) (\<lambda>w. Inr (c\<lparr>lc_pc := Lc_checkpoint\<rparr>, w))
      | Lc_checkpoint \<Rightarrow> rbind (cache_checkpoint (lc_cpu c) w) (\<lambda>w. Inr (c\<lparr>lc_pc := Lc_loop\<rparr>, w))
      | Lc_exit \<Rightarrow> Inr (c\<lparr>lc_pc := Lc_last\<rparr>, w\<lparr>wgc := cpu_exit (wgc w) (lc_cpu c)\<rparr>)
      | Lc_last \<Rightarrow> rbind (lt_last (lc_cpu c) w) (\<lambda>w. Inr (c\<lparr>lc_pc := Lc_done\<rparr>, w))
      | Lc_done \<Rightarrow> Inr (c, w))"

section \<open>The program\<close>

record lt_state =
  lt_workers :: "lt_worker list"
  lt_collector :: "lt_collector option"
  lt_stopping :: bool
  lt_world :: world

text \<open>\<open>main\<close> up to \<open>insert_test\<close>, with its loop that starts the workers; the table of the cache is at \<open>t\<close>.\<close>

definition lt_start :: "lt_config \<Rightarrow> bool \<Rightarrow> addr \<Rightarrow> lt_state" where
  "lt_start cf coll t =
     \<lparr>lt_workers = map (lt_worker_new \<circ> int) [0..<nat (nthreads cf)],
      lt_collector = (if coll then Some lt_collector_new else None),
      lt_stopping = False, lt_world = cache_new lt_max_bytes t initial_lg2size\<rparr>"

definition lt_joined :: "lt_state \<Rightarrow> bool" where
  "lt_joined s \<longleftrightarrow> (\<forall>wk \<in> set (lt_workers s). lw_pc wk = Lt_done)"

definition lt_ended :: "lt_state \<Rightarrow> bool" where
  "lt_ended s \<longleftrightarrow> lt_joined s \<and> (\<forall>c. lt_collector s = Some c \<longrightarrow> lc_pc c = Lc_done)"

text \<open>The main thread sets \<open>stopping\<close> once it has joined all workers; until then it waits.\<close>

datatype lt_agent = Worker nat | Collector | Main

fun lt_next :: "lt_config \<Rightarrow> lt_agent \<Rightarrow> lt_supply \<Rightarrow> lt_state \<Rightarrow> lt_state res" where
  "lt_next cf (Worker j) x s =
     (if j < length (lt_workers s)
      then rbind (lt_step cf x (lt_workers s ! j) (lt_world s)) (\<lambda>(wk, w).
        Inr (s\<lparr>lt_workers := (lt_workers s)[j := wk], lt_world := w\<rparr>))
      else Inr s)"
| "lt_next cf Collector x s =
     (case lt_collector s of
        None \<Rightarrow> Inr s
      | Some c \<Rightarrow> rbind (lc_step (lt_stopping s) x c (lt_world s)) (\<lambda>(c, w).
          Inr (s\<lparr>lt_collector := Some c, lt_world := w\<rparr>)))"
| "lt_next cf Main x s = Inr (if lt_joined s \<and> lt_collector s \<noteq> None then s\<lparr>lt_stopping := True\<rparr> else s)"

fun lt_run :: "lt_config \<Rightarrow> (lt_agent \<times> lt_supply) list \<Rightarrow> lt_state \<Rightarrow> lt_state res" where
  "lt_run cf [] s = Inr s"
| "lt_run cf ((ag, x) # sched) s = rbind (lt_next cf ag x s) (lt_run cf sched)"

text \<open>\<open>main\<close> after the options; it does not return if the schedule ends before the threads do.\<close>

definition loadtest_main :: "lt_config \<Rightarrow> bool \<Rightarrow> addr \<Rightarrow> (lt_agent \<times> lt_supply) list \<Rightarrow> world res" where
  "loadtest_main cf coll t sched =
     rbind (lt_run cf sched (lt_start cf coll t)) (\<lambda>s.
     rbind (require (lt_ended s) Diverges) (\<lambda>_.
     let w = lt_world s in
     rbind (gc_finish (wgc w)) (\<lambda>(ds, g).
     rbind (gc_finalize (w\<lparr>wgc := g\<rparr>) ds) cache_delete)))"

section \<open>What a step of a worker keeps\<close>

text \<open>Frame of an operation by thread \<open>c\<close>: the tables, the registered threads and the lists of others.\<close>

definition steady :: "nat \<Rightarrow> world \<Rightarrow> world \<Rightarrow> bool" where
  "steady c w w' \<longleftrightarrow> dom (wtab w') = dom (wtab w) \<and> entries_p (wcache w') = entries_p (wcache w) \<and>
     flushes (wgc w') = flushes (wgc w) \<and> cpu_mask (wgc w') = cpu_mask (wgc w) \<and> cpu_count (wgc w') = cpu_count (wgc w) \<and>
     (\<forall>i. i \<noteq> c \<longrightarrow> pending (wgc w') i = pending (wgc w) i)"

lemma steady_trans: "steady c w w' \<Longrightarrow> steady c w' w'' \<Longrightarrow> steady c w w''"
  by (simp add: steady_def)

lemma steady_refl [simp]: "steady c w w"
  by (simp add: steady_def)

lemma destroy_steady:
  assumes "entry_destroy w a = Some (Inr w')"
  shows "steady c w w'"
proof -
  have "\<forall>w'. r = Inr w' \<longrightarrow> steady c w w'" if "entry_destroy w a = Some r" for r
    by (rule entry_destroy.raw_induct [where P = "\<lambda>w a r. \<forall>w'. r = Inr w' \<longrightarrow> steady c w w'", OF _ that])
       (fastforce simp: Let_def steady_def gc_object_delete_def split: if_splits sum.splits)
  then show ?thesis using assms by blast
qed

lemma finalize_steady: "gc_finalize w ds = Inr w' \<Longrightarrow> steady c w w'"
proof (induction ds arbitrary: w)
  case (Cons d ds)
  obtain w1 where w1: "(case went w d of None \<Rightarrow> Inr w | Some _ \<Rightarrow> outcome (entry_destroy w d)) = Inr w1" "gc_finalize w1 ds = Inr w'"
    using Cons.prems by (auto simp: rbind_Inr_iff)
  have "steady c w w1" using w1(1) destroy_steady by (auto simp: outcome_Inr split: option.splits)
  then show ?case using steady_trans Cons.IH [OF w1(2)] by blast
qed simp

lemma release_steady: "release_entries c w es = Inr w' \<Longrightarrow> steady c w w'"
proof (induction es arbitrary: w)
  case (Cons e es)
  obtain w1 where w1: "entry_release c w e = Inr w1" "release_entries c w1 es = Inr w'" using Cons.prems by (auto simp: rbind_Inr_iff)
  have "steady c w w1" using w1(1)
    by (auto simp: entry_release_def rbind_Inr_iff Let_def steady_def gc_free_def set_gnext_def gread_def gwrite_def split: if_splits)
  then show ?case using steady_trans Cons.IH [OF w1(2)] by blast
qed simp

lemma drop_key_steady: "steady c w (drop_key w key cur)"
  by (simp add: steady_def drop_key_def cache_key_delete_def gc_object_delete_def)

lemma set_steady:
  assumes "crel w m" "cache_set v w k f x r = Inr (c, w')"
  shows "steady (v_cpu v) w w'"
proof -
  obtain own t where C: "building_p (wcache w) = 0" "entries_p (wcache w) \<noteq> 0" "wtab w (entries_p (wcache w)) = Some t"
    by (rule crelE [OF assms(1)])
  let ?p = "prepared v w f x r" and ?e = "v_entry v" and ?key = "(v_key v, k)"
  obtain cur t' rel where s: "set_impl t ?key (fp_ptr ?e) = (cur, t', rel)" by (cases "set_impl t ?key (fp_ptr ?e)") auto
  let ?w2 = "twrite ?p (entries_p (wcache ?p)) t'"
  have ex: "cache_set v w k f x r = rbind (rbind (release_entries (v_cpu v) ?w2 rel) (\<lambda>w. Inr (cur, w))) (\<lambda>(cur_key, w).
      if cur_key = None then rbind (outcome (entry_destroy w ?e)) (\<lambda>w. Inr (set_error, drop_key w ?key cur_key))
      else rbind (rope_size (wmem w) r) (\<lambda>n. let w = upd_cache w (\<lambda>c. c\<lparr>bytes_c := counter_add (bytes_c c) n\<rparr>) in
        Inr (stored, drop_key w ?key cur_key)))"
    using set_body_rest [OF _ _ _ s, of ?p v] C by (simp add: cache_set_def prepared_def cache_key_alloc_def Let_def)
  obtain w3 where w3: "release_entries (v_cpu v) ?w2 rel = Inr w3" using assms(2) unfolding ex by (auto simp: rbind_Inr_iff)
  have "steady (v_cpu v) w ?w2" using C(3)
    by (auto simp: steady_def prepared_def gc_object_new_def gwrite_def Let_def)
  then have s3: "steady (v_cpu v) w w3" using release_steady [OF w3] steady_trans by blast
  show ?thesis
  proof (cases cur)
    case None
    then obtain w4 where w4: "entry_destroy w3 ?e = Some (Inr w4)" "w' = drop_key w4 ?key None"
      using assms(2) w3 unfolding ex by (auto simp: rbind_Inr_iff outcome_Inr)
    show ?thesis unfolding w4(2) using s3 destroy_steady [OF w4(1)] drop_key_steady steady_trans by blast
  next
    case (Some kc)
    then obtain n where "w' = drop_key (upd_cache w3 (\<lambda>c. c\<lparr>bytes_c := counter_add (bytes_c c) n\<rparr>)) ?key cur"
      using assms(2) w3 unfolding ex by (auto simp: rbind_Inr_iff Let_def)
    moreover have "steady (v_cpu v) w (upd_cache w3 (\<lambda>c. c\<lparr>bytes_c := counter_add (bytes_c c) n\<rparr>))"
      using s3 by (simp add: steady_def)
    ultimately show ?thesis using drop_key_steady steady_trans by blast
  qed
qed

text \<open>The world between two steps: a cache at rest that owns all there is, and no flush.\<close>

definition settled :: "addr \<Rightarrow> world \<Rightarrow> bool" where
  "settled t w \<longleftrightarrow> (\<exists>m. crel w m) \<and> tidy w \<and> packed w \<and> flushes (wgc w) = 0 \<and> entries_p (wcache w) = t \<and> dom (wtab w) = {t}"

lemma settled_run:
  assumes "settled t w"
  obtains tr where "gc_run tr (wgc w)" "cpu_count (wgc w) \<le> MAX_CPUS"
proof -
  obtain m where "crel w m" using assms by (auto simp: settled_def)
  then obtain own t' where "tinv t' (wmem w) (went w) (wnewer w) (wgc w) own" by (rule crelE)
  then obtain tr where "gc_run tr (wgc w)" using tinvD(6) by blast
  then show thesis using that gc_run_inv by (auto simp: gc_inv_def MAX_CPUS_def)
qed

lemma settled_checkpoint:
  assumes "settled t w" "c < cpu_count (wgc w)"
  obtains w' where "cache_checkpoint c w = Inr w'" "settled t w'" "steady c w w'"
proof -
  obtain m where S: "crel w m" "tidy w" "packed w" "flushes (wgc w) = 0" "entries_p (wcache w) = t" "dom (wtab w) = {t}"
    using assms(1) by (auto simp: settled_def)
  obtain tr where tr: "gc_run tr (wgc w)" by (rule settled_run [OF assms(1)])
  have l: "clegal w (OCheckpoint c)" using assms(2) by (simp add: runs_on_def)
  obtain r w' where w': "cexec w (OCheckpoint c) = Inr (r, w')" "crel w' m"
    using cexec_refines [OF S(1) l] by (auto simp: refines_def)
  then have x: "cache_checkpoint c w = Inr w'" by (auto simp: rbind_Inr_iff)
  obtain ds g where g: "cpu_checkpoint (wgc w) c = Inr (ds, g)" "cpu_mask g = cpu_mask (wgc w)" "cpu_count g = cpu_count (wgc w)" "flushes g = 0"
    by (rule cpu_checkpoint_kept [OF tr assms(2) S(4)])
  then have f: "gc_finalize (w\<lparr>wgc := g\<rparr>) ds = Inr w'" using x by (simp add: cache_checkpoint_def gc_checkpoint_def flush_checkpoint_def)
  have "steady c w (w\<lparr>wgc := g\<rparr>)" using g cpu_checkpoint_pending(1) [OF g(1)] S(4) by (simp add: steady_def)
  then have st: "steady c w w'" using finalize_steady [OF f] steady_trans by blast
  have "packed w'" using finalize_packed [OF f] S(3) by simp
  then have "settled t w'" using w'(2) cexec_tidy [OF S(1) l S(2) w'(1)] S(4-6) st by (auto simp: settled_def steady_def)
  then show thesis using that x st by blast
qed

lemma settled_threads:
  assumes "settled t w"
  shows "cpu_count (wgc w) < MAX_CPUS \<Longrightarrow> \<exists>g. cpu_init (wgc w) = Inr (cpu_count (wgc w), g) \<and> settled t (w\<lparr>wgc := g\<rparr>) \<and>
      pending g = pending (wgc w) \<and> cpu_count g = Suc (cpu_count (wgc w)) \<and>
      (\<forall>b. bit (cpu_mask g) b \<longrightarrow> bit (cpu_mask (wgc w)) b \<or> b = cpu_count (wgc w))"
    and "c < cpu_count (wgc w) \<Longrightarrow> settled t (w\<lparr>wgc := cpu_exit (wgc w) c\<rparr>) \<and>
      (\<forall>b. bit (cpu_mask (cpu_exit (wgc w) c)) b \<longrightarrow> bit (cpu_mask (wgc w)) b \<and> b \<noteq> c)"
proof -
  obtain m where S: "crel w m" "tidy w" "packed w" "flushes (wgc w) = 0" "entries_p (wcache w) = t" "dom (wtab w) = {t}"
    using assms(1) by (auto simp: settled_def)
  show "\<exists>g. cpu_init (wgc w) = Inr (cpu_count (wgc w), g) \<and> settled t (w\<lparr>wgc := g\<rparr>) \<and>
      pending g = pending (wgc w) \<and> cpu_count g = Suc (cpu_count (wgc w)) \<and>
      (\<forall>b. bit (cpu_mask g) b \<longrightarrow> bit (cpu_mask (wgc w)) b \<or> b = cpu_count (wgc w))" if l: "cpu_count (wgc w) < MAX_CPUS"
  proof -
    let ?g = "(wgc w)\<lparr>cpu_count := Suc (cpu_count (wgc w)), cpu_mask := cpu_mask (wgc w) OR push_bit (cpu_count (wgc w)) 1\<rparr>"
    have i: "cpu_init (wgc w) = Inr (cpu_count (wgc w), ?g)" using l by (simp add: cpu_init_def Let_def)
    then have x: "cexec w OThreadStart = Inr (RDone, w\<lparr>wgc := ?g\<rparr>)" by simp
    have cl: "clegal w OThreadStart" using l by simp
    have "crel (w\<lparr>wgc := ?g\<rparr>) m" using cexec_refines [OF S(1) cl] x by (auto simp: refines_def)
    then have "settled t (w\<lparr>wgc := ?g\<rparr>)" using cexec_tidy [OF S(1) cl S(2) x] S by (auto simp: settled_def)
    then show ?thesis using i
      by (intro exI [of _ ?g]) (auto simp: bit_or_iff bit_push_bit_iff bit_1_iff simp del: push_bit_of_1)
  qed
  show "settled t (w\<lparr>wgc := cpu_exit (wgc w) c\<rparr>) \<and>
      (\<forall>b. bit (cpu_mask (cpu_exit (wgc w) c)) b \<longrightarrow> bit (cpu_mask (wgc w)) b \<and> b \<noteq> c)" if l: "c < cpu_count (wgc w)"
  proof -
    have cl: "clegal w (OThreadExit c)" using l by (simp add: runs_on_def)
    have x: "cexec w (OThreadExit c) = Inr (RDone, w\<lparr>wgc := cpu_exit (wgc w) c\<rparr>)" by simp
    have "crel (w\<lparr>wgc := cpu_exit (wgc w) c\<rparr>) m" using cexec_refines [OF S(1) cl] by (auto simp: refines_def)
    then have st: "settled t (w\<lparr>wgc := cpu_exit (wgc w) c\<rparr>)"
      using cexec_tidy [OF S(1) cl S(2) x] S by (auto simp: settled_def cpu_exit_def)
    obtain tr where "cpu_count (wgc w) \<le> MAX_CPUS" by (rule settled_run [OF assms])
    then have "c < 64" using l by (simp add: MAX_CPUS_def)
    then show ?thesis using st
      by (auto simp: cpu_exit_def bit_and_iff bit_not_iff bit_push_bit_iff bit_1_iff simp del: push_bit_of_1)
  qed
qed

section \<open>A step of a worker\<close>

definition started :: "lt_worker \<Rightarrow> bool" where
  "started wk \<longleftrightarrow> lw_pc wk \<noteq> Lt_init"

definition registered :: "lt_worker \<Rightarrow> bool" where
  "registered wk \<longleftrightarrow> lw_pc wk \<in> {Lt_first, Lt_loop, Lt_checkpoint, Lt_exit}"

text \<open>How many steps a worker still needs.\<close>

definition remaining :: "lt_config \<Rightarrow> lt_worker \<Rightarrow> nat" where
  "remaining cf wk =
     (let n = 2 * nat (inserts cf - lw_i wk) in
      case lw_pc wk of
        Lt_init \<Rightarrow> n + 5 | Lt_first \<Rightarrow> n + 4 | Lt_loop \<Rightarrow> n + 3 | Lt_checkpoint \<Rightarrow> n + 2
      | Lt_exit \<Rightarrow> 2 | Lt_last \<Rightarrow> 1 | Lt_done \<Rightarrow> 0)"

text \<open>What \<open>malloc\<close> guarantees: it returns memory that nobody uses.\<close>

definition lt_supplied :: "lt_supply \<Rightarrow> world \<Rightarrow> bool" where
  "lt_supplied x w \<longleftrightarrow> fresh_object w (v_key (ls_env x)) \<and> fresh_object w (v_entry (ls_env x)) \<and>
     v_key (ls_env x) \<noteq> v_entry (ls_env x) \<and> ls_mem x \<noteq> 0 \<and> ls_mem x \<notin> dom (wmem w)"

lemma length_print_int:
  assumes "- (2 ^ 31) \<le> n" "n < 2 ^ 31"
  shows "length (print_int n) \<le> 11"
proof -
  have a: "n < 2147483648" "- n \<le> 2147483648" using assms by simp_all
  have "nat n < 10000000000" using a by linarith
  moreover have "nat (- n) < 10000000000" using a by linarith
  ultimately show ?thesis using dec_digits_length [of "nat n" 10] dec_digits_length [of "nat (- n)" 10] by (simp add: print_int_def)
qed

lemma length_lt_value: "length (lt_value a i) \<le> 11"
proof -
  let ?x = "of_int (a * 1000000 + i) :: 32 word"
  have "- (2 ^ 31) \<le> sint ?x" "sint ?x < 2 ^ 31" using sint_range_size [of ?x] by (simp_all add: word_size)
  then show ?thesis unfolding lt_value_def by (rule length_print_int)
qed

lemma lt_insert_ok:
  assumes "settled t w" "lt_supplied x w" "nkeys cf \<noteq> 0" "lw_cpu wk < cpu_count (wgc w)"
  obtains err w' where "lt_insert cf x wk w = Inr (err, w')" "settled t w'" "steady (lw_cpu wk) w w'"
proof -
  obtain m where S: "crel w m" "tidy w" "packed w" "flushes (wgc w) = 0" "entries_p (wcache w) = t" "dom (wtab w) = {t}"
    using assms(1) by (auto simp: settled_def)
  obtain tr where tr: "cpu_count (wgc w) \<le> MAX_CPUS" by (rule settled_run [OF assms(1)])
  define k where "k = print_int (ls_random x mod \<bar>nkeys cf\<bar>)"
  let ?bs = "lt_value (lw_id wk) (lw_i wk)" and ?a = "ls_mem x" and ?v = "(ls_env x)\<lparr>v_cpu := lw_cpu wk\<rparr>"
  let ?r = "\<lparr>r_head = ?a, r_tail = ?a\<rparr>"
  define w1 where "w1 = w\<lparr>wmem := mem_alloc ?a ?bs (of_nat (length ?bs)) (wmem w)\<rparr>"
  have a: "?a \<noteq> 0" "?a \<notin> dom (wmem w)" "length ?bs < 2 ^ 31" using assms(2) length_lt_value [of "lw_id wk" "lw_i wk"] by (auto simp: lt_supplied_def)
  have rl: "clegal w (OReceive ?a ?bs)" using a by simp
  have rx: "cexec w (OReceive ?a ?bs) = Inr (RDone, w1)" by (simp add: w1_def)
  have c1: "crel w1 m" using cexec_refines [OF S(1) rl] rx by (auto simp: refines_def)
  have t1: "tidy w1" by (rule cexec_tidy [OF S(1) rl S(2) rx])
  have "rope_fresh w1 ?r [?bs]" unfolding w1_def by (rule received_fresh [OF S(1) a])
  then have l: "clegal w1 (OSet ?v k 0 0 ?r [?bs])" using assms(2,4) tr by (simp add: lt_supplied_def fresh_object_def w1_def)
  obtain c w' where x: "cexec w1 (OSet ?v k 0 0 ?r [?bs]) = Inr (c, w')" "\<exists>m'. crel w' m'"
    using cexec_refines [OF c1 l] unfolding refines_def by blast
  then obtain err where e: "cache_set ?v w1 k 0 0 ?r = Inr (err, w')" by (auto simp: code_def rbind_Inr_iff)
  have st: "steady (lw_cpu wk) w w'" using set_steady [OF c1 e] by (simp add: steady_def w1_def)
  have "packed w'" by (rule set_packed [OF S(3) a(2) w1_def c1 l e])
  then have "settled t w'" using x(2) cexec_tidy [OF c1 l t1 x(1)] S(4-6) st by (auto simp: settled_def steady_def)
  moreover have "lt_insert cf x wk w = Inr (err, w')" using e assms(3) by (simp add: lt_insert_def lt_key_def k_def w1_def)
  ultimately show thesis using that st by blast
qed

text \<open>The conditions on a worker and the world, and what its step does to them.\<close>

definition worker_ok :: "lt_config \<Rightarrow> lt_worker \<Rightarrow> world \<Rightarrow> bool" where
  "worker_ok cf wk w \<longleftrightarrow> (started wk \<longrightarrow> lw_cpu wk < cpu_count (wgc w)) \<and> (lw_pc wk = Lt_checkpoint \<longrightarrow> lw_i wk < inserts cf)"

definition worker_step :: "lt_config \<Rightarrow> lt_worker \<Rightarrow> world \<Rightarrow> lt_worker \<Rightarrow> world \<Rightarrow> bool" where
  "worker_step cf wk w wk' w' \<longleftrightarrow>
     started wk' \<and> worker_ok cf wk' w' \<and> remaining cf wk' \<le> remaining cf wk - 1 \<and>
     cpu_count (wgc w') = cpu_count (wgc w) + of_bool (\<not> started wk) \<and>
     (\<forall>b. bit (cpu_mask (wgc w')) b \<longrightarrow>
        (bit (cpu_mask (wgc w)) b \<and> (registered wk \<and> lw_cpu wk = b \<longrightarrow> registered wk' \<and> lw_cpu wk' = b)) \<or>
        (registered wk' \<and> lw_cpu wk' = b)) \<and>
     (\<forall>i \<ge> cpu_count (wgc w'). pending (wgc w') i = pending (wgc w) i)"

lemma steady_worker:
  assumes "steady (lw_cpu wk) w w'" "worker_ok cf wk w" "started wk" "started wk'" "lw_cpu wk' = lw_cpu wk"
    "registered wk' = registered wk" "lw_pc wk' = Lt_checkpoint \<Longrightarrow> lw_i wk' < inserts cf" "remaining cf wk' \<le> remaining cf wk - 1"
  shows "worker_step cf wk w wk' w'"
  using assms by (auto simp: worker_step_def worker_ok_def steady_def)

lemma force_none: "flushes g = 0 \<Longrightarrow> force_checkpoint g c = Inr g"
  by (simp add: force_checkpoint_def checkpoint_locked_def)

lemma lt_step_ok:
  assumes "settled t w" "worker_ok cf wk w" "started wk \<or> cpu_count (wgc w) < MAX_CPUS" "lt_supplied x w" "nkeys cf \<noteq> 0"
  obtains wk' w' where "lt_step cf x wk w = Inr (wk', w')" "settled t w'" "worker_step cf wk w wk' w'"
proof (cases "lw_pc wk")
  case Lt_init
  then obtain g where g: "cpu_init (wgc w) = Inr (cpu_count (wgc w), g)" "settled t (w\<lparr>wgc := g\<rparr>)" "pending g = pending (wgc w)"
      "cpu_count g = Suc (cpu_count (wgc w))" "\<forall>b. bit (cpu_mask g) b \<longrightarrow> bit (cpu_mask (wgc w)) b \<or> b = cpu_count (wgc w)"
    using settled_threads(1) [OF assms(1)] assms(3) by (auto simp: started_def)
  let ?wk = "wk\<lparr>lw_cpu := cpu_count (wgc w), lw_pc := Lt_first\<rparr>"
  have "worker_step cf wk w ?wk (w\<lparr>wgc := g\<rparr>)" using Lt_init g(3-5)
    by (auto simp: worker_step_def worker_ok_def started_def registered_def remaining_def Let_def)
  then show thesis using that [of ?wk "w\<lparr>wgc := g\<rparr>"] Lt_init g(1,2) by (simp add: lt_step_def)
next
  case Lt_first
  then have s: "started wk" "lw_cpu wk < cpu_count (wgc w)" using assms(2) by (simp_all add: started_def worker_ok_def)
  obtain w' where w': "cache_checkpoint (lw_cpu wk) w = Inr w'" "settled t w'" "steady (lw_cpu wk) w w'" by (rule settled_checkpoint [OF assms(1) s(2)])
  have "worker_step cf wk w (wk\<lparr>lw_pc := Lt_loop\<rparr>) w'"
    by (rule steady_worker [OF w'(3) assms(2) s(1)]) (simp_all add: Lt_first started_def registered_def remaining_def Let_def)
  then show thesis using that [of "wk\<lparr>lw_pc := Lt_loop\<rparr>" w'] Lt_first w'(1,2) by (simp add: lt_step_def)
next
  case Lt_loop
  then have s: "started wk" "lw_cpu wk < cpu_count (wgc w)" using assms(2) by (simp_all add: started_def worker_ok_def)
  show thesis
  proof (cases "lw_i wk < inserts cf")
    case True
    obtain err w' where w': "lt_insert cf x wk w = Inr (err, w')" "settled t w'" "steady (lw_cpu wk) w w'"
      by (rule lt_insert_ok [OF assms(1,4,5) s(2)])
    have "worker_step cf wk w (wk\<lparr>lw_pc := Lt_checkpoint\<rparr>) w'"
      by (rule steady_worker [OF w'(3) assms(2) s(1)]) (simp_all add: Lt_loop True started_def registered_def remaining_def Let_def)
    then show thesis using that [of "wk\<lparr>lw_pc := Lt_checkpoint\<rparr>" w'] Lt_loop True w'(1,2) by (simp add: lt_step_def)
  next
    case False
    obtain w' where w': "cache_checkpoint (lw_cpu wk) w = Inr w'" "settled t w'" "steady (lw_cpu wk) w w'" by (rule settled_checkpoint [OF assms(1) s(2)])
    have "worker_step cf wk w (wk\<lparr>lw_pc := Lt_exit\<rparr>) w'"
      by (rule steady_worker [OF w'(3) assms(2) s(1)]) (simp_all add: Lt_loop started_def registered_def remaining_def Let_def)
    then show thesis using that [of "wk\<lparr>lw_pc := Lt_exit\<rparr>" w'] Lt_loop False w'(1,2) by (simp add: lt_step_def)
  qed
next
  case Lt_checkpoint
  then have s: "started wk" "lw_cpu wk < cpu_count (wgc w)" "lw_i wk < inserts cf" using assms(2) by (simp_all add: started_def worker_ok_def)
  obtain w' where w': "cache_checkpoint (lw_cpu wk) w = Inr w'" "settled t w'" "steady (lw_cpu wk) w w'" by (rule settled_checkpoint [OF assms(1) s(2)])
  let ?wk = "wk\<lparr>lw_i := lw_i wk + 1, lw_pc := Lt_loop\<rparr>"
  have "nat (inserts cf - lw_i wk) = Suc (nat (inserts cf - (lw_i wk + 1)))" using s(3) by simp
  then have "remaining cf ?wk \<le> remaining cf wk - 1" using Lt_checkpoint by (simp add: remaining_def Let_def)
  then have "worker_step cf wk w ?wk w'"
    by (intro steady_worker [OF w'(3) assms(2) s(1)]) (simp_all add: Lt_checkpoint started_def registered_def)
  then show thesis using that [of ?wk w'] Lt_checkpoint w'(1,2) by (simp add: lt_step_def)
next
  case Lt_exit
  then have s: "started wk" "lw_cpu wk < cpu_count (wgc w)" using assms(2) by (simp_all add: started_def worker_ok_def)
  let ?w = "w\<lparr>wgc := cpu_exit (wgc w) (lw_cpu wk)\<rparr>"
  note X = settled_threads(2) [OF assms(1) s(2)]
  have "worker_step cf wk w (wk\<lparr>lw_pc := Lt_last\<rparr>) ?w" using Lt_exit X s
    by (auto simp: worker_step_def worker_ok_def started_def remaining_def cpu_exit_def)
  then show thesis using that [of "wk\<lparr>lw_pc := Lt_last\<rparr>" ?w] Lt_exit X by (simp add: lt_step_def)
next
  case Lt_last
  then have s: "started wk" "lw_cpu wk < cpu_count (wgc w)" using assms(2) by (simp_all add: started_def worker_ok_def)
  obtain w' where w': "cache_checkpoint (lw_cpu wk) w = Inr w'" "settled t w'" "steady (lw_cpu wk) w w'" by (rule settled_checkpoint [OF assms(1) s(2)])
  have "worker_step cf wk w (wk\<lparr>lw_pc := Lt_done\<rparr>) w'"
    by (rule steady_worker [OF w'(3) assms(2) s(1)]) (simp_all add: Lt_last started_def registered_def remaining_def Let_def)
  moreover have "flushes (wgc w') = 0" using w'(2) by (simp add: settled_def)
  ultimately show thesis using that [of "wk\<lparr>lw_pc := Lt_done\<rparr>" w'] Lt_last w'(1,2) by (simp add: lt_step_def lt_last_def force_none)
next
  case Lt_done
  then have "worker_step cf wk w wk w" using assms(2) by (auto simp: worker_step_def worker_ok_def started_def remaining_def Let_def)
  then show thesis using that [of wk w] Lt_done assms(1) by (simp add: lt_step_def)
qed

section \<open>Every schedule\<close>

definition lt_inv :: "lt_config \<Rightarrow> addr \<Rightarrow> lt_state \<Rightarrow> bool" where
  "lt_inv cf t s \<longleftrightarrow>
     (let w = lt_world s; ws = lt_workers s in
      settled t w \<and> lt_collector s = None \<and> length ws = nat (nthreads cf) \<and> (\<forall>wk \<in> set ws. worker_ok cf wk w) \<and>
      cpu_count (wgc w) = card {j. j < length ws \<and> started (ws ! j)} \<and>
      (\<forall>b. bit (cpu_mask (wgc w)) b \<longrightarrow> (\<exists>wk \<in> set ws. registered wk \<and> lw_cpu wk = b)) \<and>
      (\<forall>i \<ge> cpu_count (wgc w). pending (wgc w) i = 0))"

lemma started_update:
  assumes "j < length ws" "started wk'"
  shows "card {i. i < length (ws[j := wk']) \<and> started (ws[j := wk'] ! i)} =
    card {i. i < length ws \<and> started (ws ! i)} + of_bool (\<not> started (ws ! j))"
proof -
  have "{i. i < length (ws[j := wk']) \<and> started (ws[j := wk'] ! i)} = insert j {i. i < length ws \<and> started (ws ! i)}"
    using assms by (auto simp: nth_list_update)
  then show ?thesis using assms(1) by (simp add: card_insert_if)
qed

lemma not_all_started:
  assumes "j < length ws" "\<not> started (ws ! j)"
  shows "card {i. i < length ws \<and> started (ws ! i)} < length ws"
proof -
  have "{i. i < length ws \<and> started (ws ! i)} \<subset> {..<length ws}" using assms by auto
  then have "card {i. i < length ws \<and> started (ws ! i)} < card {..<length ws}" by (intro psubset_card_mono) simp_all
  then show ?thesis by simp
qed

lemma lt_next_ok:
  assumes "lt_inv cf t s" "lt_supplied x (lt_world s)" "nkeys cf \<noteq> 0" "nthreads cf \<le> int MAX_CPUS"
  shows "\<exists>s'. lt_next cf ag x s = Inr s' \<and> lt_inv cf t s' \<and>
    (\<forall>j < nat (nthreads cf). remaining cf (lt_workers s' ! j) \<le> remaining cf (lt_workers s ! j) - of_bool (ag = Worker j))"
proof -
  have col: "lt_collector s = None" using assms(1) by (simp add: lt_inv_def Let_def)
  consider j where "ag = Worker j" "j < length (lt_workers s)" | "lt_next cf ag x s = Inr s" "\<forall>j < nat (nthreads cf). ag \<noteq> Worker j"
  proof (cases ag)
    case (Worker j)
    then show thesis using that(1) [of j] that(2) assms(1) by (cases "j < length (lt_workers s)") (auto simp: lt_inv_def Let_def)
  qed (use that(2) col in simp_all)
  then show ?thesis
  proof cases
    case 2
    then show ?thesis using assms(1) by auto
  next
    case (1 j)
    let ?ws = "lt_workers s" and ?w = "lt_world s"
    let ?wk = "?ws ! j"
    have I: "settled t ?w" "length ?ws = nat (nthreads cf)" "\<And>wk. wk \<in> set ?ws \<Longrightarrow> worker_ok cf wk ?w"
        "cpu_count (wgc ?w) = card {j. j < length ?ws \<and> started (?ws ! j)}"
        "\<And>b. bit (cpu_mask (wgc ?w)) b \<Longrightarrow> \<exists>wk \<in> set ?ws. registered wk \<and> lw_cpu wk = b"
        "\<And>i. i \<ge> cpu_count (wgc ?w) \<Longrightarrow> pending (wgc ?w) i = 0"
      using assms(1) by (simp_all add: lt_inv_def Let_def)
    have ok: "worker_ok cf ?wk ?w" using I(3) 1(2) by simp
    have room: "started ?wk \<or> cpu_count (wgc ?w) < MAX_CPUS"
      using not_all_started [OF 1(2)] I(2,4) assms(4) by fastforce
    obtain wk' w' where st: "lt_step cf x ?wk ?w = Inr (wk', w')" "settled t w'" "worker_step cf ?wk ?w wk' w'"
      by (rule lt_step_ok [OF I(1) ok room assms(2,3)])
    note W = st(3) [unfolded worker_step_def]
    let ?ws' = "?ws[j := wk']" and ?s = "s\<lparr>lt_workers := ?ws[j := wk'], lt_world := w'\<rparr>"
    have n: "lt_next cf ag x s = Inr ?s" using 1 st(1) by simp
    have wok: "worker_ok cf wk w'" if wk: "wk \<in> set ?ws'" for wk
    proof (cases "wk = wk'")
      case False
      then have "wk \<in> set ?ws" using wk set_update_subset_insert by fastforce
      then have "worker_ok cf wk ?w" by (rule I(3))
      moreover have "cpu_count (wgc ?w) \<le> cpu_count (wgc w')" using W by simp
      ultimately show ?thesis by (auto simp: worker_ok_def)
    qed (use W in simp)
    have mask: "\<exists>wk \<in> set ?ws'. registered wk \<and> lw_cpu wk = b" if b: "bit (cpu_mask (wgc w')) b" for b
    proof -
      have new: "wk' \<in> set ?ws'" using 1(2) by (rule set_update_memI)
      consider "bit (cpu_mask (wgc ?w)) b" "registered ?wk \<and> lw_cpu ?wk = b \<longrightarrow> registered wk' \<and> lw_cpu wk' = b" | "registered wk' \<and> lw_cpu wk' = b"
        using W b by blast
      then show ?thesis
      proof cases
        case a: 1
        obtain i where i: "i < length ?ws" "registered (?ws ! i)" "lw_cpu (?ws ! i) = b" using I(5) [OF a(1)] by (auto simp: in_set_conv_nth)
        show ?thesis
        proof (cases "i = j")
          case False
          then have "?ws' ! i = ?ws ! i" "i < length ?ws'" using i(1) by simp_all
          then show ?thesis using i(2,3) by (metis nth_mem)
        qed (use a(2) i new in blast)
      qed (use new in blast)
    qed
    have pend: "pending (wgc w') i = 0" if "i \<ge> cpu_count (wgc w')" for i
    proof -
      have "cpu_count (wgc ?w) \<le> i" using W that by linarith
      then show ?thesis using W that I(6) by metis
    qed
    have cnt: "cpu_count (wgc w') = card {i. i < length ?ws' \<and> started (?ws' ! i)}"
      using started_update [OF 1(2), of wk'] W I(4) by simp
    have "lt_inv cf t ?s" unfolding lt_inv_def Let_def using st(2) col I(2) wok cnt mask pend by simp
    moreover have "remaining cf (?ws' ! i) \<le> remaining cf (?ws ! i) - of_bool (ag = Worker i)" if "i < nat (nthreads cf)" for i
      using W 1 by (cases "i = j") simp_all
    ultimately show ?thesis using n by auto
  qed
qed

text \<open>The environment of a run: at every step \<open>malloc\<close> has free memory.\<close>

fun lt_env :: "lt_config \<Rightarrow> (lt_agent \<times> lt_supply) list \<Rightarrow> lt_state \<Rightarrow> bool" where
  "lt_env cf [] s = True"
| "lt_env cf ((ag, x) # sched) s \<longleftrightarrow>
     lt_supplied x (lt_world s) \<and> (case lt_next cf ag x s of Inl e \<Rightarrow> True | Inr s' \<Rightarrow> lt_env cf sched s')"

definition turns :: "nat \<Rightarrow> (lt_agent \<times> lt_supply) list \<Rightarrow> nat" where
  "turns j sched = length (filter (\<lambda>(ag, x). ag = Worker j) sched)"

lemma lt_run_ok:
  assumes "lt_inv cf t s" "lt_env cf sched s" "nkeys cf \<noteq> 0" "nthreads cf \<le> int MAX_CPUS"
  shows "\<exists>s'. lt_run cf sched s = Inr s' \<and> lt_inv cf t s' \<and>
    (\<forall>j < nat (nthreads cf). remaining cf (lt_workers s' ! j) \<le> remaining cf (lt_workers s ! j) - turns j sched)"
  using assms(1,2)
proof (induction sched arbitrary: s)
  case (Cons a sched)
  obtain ag x where a: "a = (ag, x)" by (cases a)
  have sup: "lt_supplied x (lt_world s)" using Cons.prems(2) a by simp
  obtain s1 where s1: "lt_next cf ag x s = Inr s1" "lt_inv cf t s1"
      "\<forall>j < nat (nthreads cf). remaining cf (lt_workers s1 ! j) \<le> remaining cf (lt_workers s ! j) - of_bool (ag = Worker j)"
    using lt_next_ok [OF Cons.prems(1) sup assms(3,4)] by blast
  obtain s' where s': "lt_run cf sched s1 = Inr s'" "lt_inv cf t s'"
      "\<forall>j < nat (nthreads cf). remaining cf (lt_workers s' ! j) \<le> remaining cf (lt_workers s1 ! j) - turns j sched"
    using Cons.IH [OF s1(2)] Cons.prems(2) s1(1) a by auto
  have "turns j (a # sched) = of_bool (ag = Worker j) + turns j sched" for j by (simp add: turns_def a)
  then have "\<forall>j < nat (nthreads cf). remaining cf (lt_workers s' ! j) \<le> remaining cf (lt_workers s ! j) - turns j (a # sched)"
    using s1(3) s'(3) by (smt (verit, best) add.commute diff_diff_left diff_le_mono le_trans)
  then show ?case using s1(1) s'(1,2) a by auto
qed (simp add: turns_def)

lemma lt_start_inv:
  assumes "t \<noteq> 0"
  shows "lt_inv cf t (lt_start cf False t)"
proof -
  let ?w = "cache_new lt_max_bytes t initial_lg2size"
  have "crel ?w (\<lambda>_. None)" by (rule new_cache_crel [OF assms]) (simp add: initial_lg2size_def)
  moreover have "packed ?w"
    unfolding packed_def
    by (intro exI [of _ "\<lambda>_. []"] exI [of _ gc_initial] conjI hinvI) (auto simp: cache_new_def intro: gc_run_init)
  ultimately have "settled t ?w" using new_cache_tidy by (auto simp: settled_def cache_new_def gc_initial_def)
  then show ?thesis
    by (auto simp: lt_inv_def lt_start_def Let_def started_def lt_worker_new_def worker_ok_def cache_new_def gc_initial_def)
qed

text \<open>Memory that was never used before is free: an allocator that never reuses an address.\<close>

fun fresh_supplies :: "addr set \<Rightarrow> addr set \<Rightarrow> (lt_agent \<times> lt_supply) list \<Rightarrow> bool" where
  "fresh_supplies A M [] = True"
| "fresh_supplies A M ((ag, x) # sched) \<longleftrightarrow>
     (let k = v_key (ls_env x); e = v_entry (ls_env x); m = ls_mem x in
      k > 0x1000 \<and> aligned k \<and> k \<notin> A \<and> e > 0x1000 \<and> aligned e \<and> e \<notin> A \<and> k \<noteq> e \<and> m \<noteq> 0 \<and> m \<notin> M \<and>
      fresh_supplies (insert k (insert e A)) (insert m M) sched)"

lemma lt_step_allocates:
  assumes "settled t w" "worker_ok cf wk w" "lt_step cf x wk w = Inr (wk', w')"
  shows "objects w' \<subseteq> insert (v_key (ls_env x)) (insert (v_entry (ls_env x)) (objects w)) \<and> dom (wmem w') \<subseteq> insert (ls_mem x) (dom (wmem w))"
proof -
  obtain tr where tr: "gc_run tr (wgc w)" by (rule settled_run [OF assms(1)])
  have fl: "flushes (wgc w) = 0" using assms(1) by (simp add: settled_def)
  have ck: "shrinks w w1" "flushes (wgc w1) = 0" if "cache_checkpoint (lw_cpu wk) w = Inr w1" "lw_pc wk \<noteq> Lt_init" for w1
    using checkpoint_allocates [OF tr _ that(1)] that(2) assms(2) fl by (auto simp: worker_ok_def started_def)
  have ins: ?thesis if i: "lt_insert cf x wk w = Inr (err, w')" for err
  proof -
    let ?bs = "lt_value (lw_id wk) (lw_i wk)" and ?v = "(ls_env x)\<lparr>v_cpu := lw_cpu wk\<rparr>"
    let ?w = "w\<lparr>wmem := mem_alloc (ls_mem x) ?bs (of_nat (length ?bs)) (wmem w)\<rparr>"
    obtain k where "cache_set ?v ?w k 0 0 \<lparr>r_head = ls_mem x, r_tail = ls_mem x\<rparr> = Inr (err, w')"
      using i by (auto simp: lt_insert_def rbind_Inr_iff Let_def)
    from set_allocates [OF this] have "objects w' \<subseteq> objects w \<union> {v_key (ls_env x), v_entry (ls_env x)}"
        "dom (wmem w') \<subseteq> insert (ls_mem x) (dom (wmem w))" by (auto simp: objects_def mem_alloc_def)
    then show ?thesis by simp
  qed
  have other: ?thesis if "shrinks w w'" using that by (auto simp: shrinks_def)
  show ?thesis
  proof (cases "lw_pc wk = Lt_loop \<and> lw_i wk < inserts cf")
    case True
    then obtain err where "lt_insert cf x wk w = Inr (err, w')" using assms(3) by (auto simp: lt_step_def rbind_Inr_iff)
    then show ?thesis by (rule ins)
  next
    case False
    have last: "shrinks w w'" if l: "lt_last (lw_cpu wk) w = Inr w'" "lw_pc wk \<noteq> Lt_init"
    proof -
      obtain w1 g where w1: "cache_checkpoint (lw_cpu wk) w = Inr w1" "force_checkpoint (wgc w1) (lw_cpu wk) = Inr g" "w' = w1\<lparr>wgc := g\<rparr>"
        using l(1) by (auto simp: lt_last_def rbind_Inr_iff)
      then show ?thesis using ck [OF w1(1) l(2)] by (auto simp: force_none)
    qed
    have threads: "cpu_init (wgc w) = Inr (c, g) \<Longrightarrow> shrinks w (w\<lparr>wgc := g\<rparr>)" "shrinks w (w\<lparr>wgc := cpu_exit (wgc w) (lw_cpu wk)\<rparr>)" for c g
      by (auto simp: cpu_init_def cpu_exit_def shrinks_def objects_def Let_def rbind_Inr_iff)
    have "shrinks w w'" using assms(3) ck(1) last threads False
      by (auto simp: lt_step_def rbind_Inr_iff split: lt_pc.splits if_splits)
    then show ?thesis by (rule other)
  qed
qed

lemma lt_env_fresh:
  assumes "lt_inv cf t s" "nkeys cf \<noteq> 0" "nthreads cf \<le> int MAX_CPUS"
    "fresh_supplies A M sched" "objects (lt_world s) \<subseteq> A" "dom (wmem (lt_world s)) \<subseteq> M"
  shows "lt_env cf sched s"
  using assms(1,4-6)
proof (induction sched arbitrary: s A M)
  case (Cons a sched)
  obtain ag x where a: "a = (ag, x)" by (cases a)
  let ?A = "insert (v_key (ls_env x)) (insert (v_entry (ls_env x)) A)" and ?M = "insert (ls_mem x) M"
  have f: "fresh_supplies ?A ?M sched" using Cons.prems(2) a by (simp add: Let_def)
  have sup: "lt_supplied x (lt_world s)" using Cons.prems(2-4) a
    by (auto simp: lt_supplied_def fresh_object_def objects_def Let_def)
  obtain s1 where s1: "lt_next cf ag x s = Inr s1" "lt_inv cf t s1"
    using lt_next_ok [OF Cons.prems(1) sup assms(2,3)] by blast
  have I: "settled t (lt_world s)" "lt_collector s = None" "\<forall>wk \<in> set (lt_workers s). worker_ok cf wk (lt_world s)"
    using Cons.prems(1) by (simp_all add: lt_inv_def Let_def)
  have "objects (lt_world s1) \<subseteq> ?A \<and> dom (wmem (lt_world s1)) \<subseteq> ?M"
  proof (cases "\<exists>j. ag = Worker j \<and> j < length (lt_workers s)")
    case True
    then obtain j wk' w' where "j < length (lt_workers s)" "lt_step cf x (lt_workers s ! j) (lt_world s) = Inr (wk', w')" "lt_world s1 = w'"
      using s1(1) by (auto simp: rbind_Inr_iff)
    then have "objects (lt_world s1) \<subseteq> insert (v_key (ls_env x)) (insert (v_entry (ls_env x)) (objects (lt_world s)))"
        "dom (wmem (lt_world s1)) \<subseteq> insert (ls_mem x) (dom (wmem (lt_world s)))"
      using lt_step_allocates [OF I(1), of cf "lt_workers s ! j" x wk' w'] I(3) by simp_all
    then show ?thesis using Cons.prems(3,4) by (meson insert_mono order_trans)
  next
    case False
    then have "lt_world s1 = lt_world s" using s1(1) I(2) by (cases ag) auto
    then show ?thesis using Cons.prems(3,4) by auto
  qed
  then show ?case using Cons.IH [OF s1(2) f] sup s1(1) a by simp
qed simp

text \<open>Two workers that take turns, and memory in the order of the steps.\<close>

definition demo_supply :: "nat \<Rightarrow> lt_supply" where
  "demo_supply i = \<lparr>ls_env = demo_env\<lparr>v_key := 0x10000 + 0x20 * of_nat i, v_entry := 0x10010 + 0x20 * of_nat i\<rparr>,
     ls_mem = 0x40 + 0x40 * of_nat i, ls_random = int i, ls_table = 0, ls_stack = 0\<rparr>"

definition demo_schedule :: "(lt_agent \<times> lt_supply) list" where
  "demo_schedule = map (\<lambda>i. (Worker (i mod 2), demo_supply i)) [0, 1, 2, 3, 4, 5, 6, 7, 8, 9, 10, 11, 12, 13]"

text \<open>
  C9: The load test without a collecting thread (no option \<open>-c\<close>), with a number of keys other than zero
  (\<open>-k 0\<close> divides by zero) and up to 32 workers. For every schedule of the workers, with whatever keys
  \<open>random\<close> picks and fresh addresses from \<open>malloc\<close>, the program returns if every worker gets $2n + 5$
  turns for its $n$ insertions; no assertion fails, and at the end nothing that was allocated is left:
  no object, no entry, no chunk and no table.
\<close>

theorem loadtest_returns:
  assumes "t \<noteq> 0" and "nkeys cf \<noteq> 0" and "nthreads cf \<le> 32" and "lt_env cf sched (lt_start cf False t)"
    and "\<And>j. int j < nthreads cf \<Longrightarrow> 2 * nat (inserts cf) + 5 \<le> turns j sched"
  shows "\<exists>w. loadtest_main cf False t sched = Inr w \<and> objects w = {} \<and> went w = Map.empty \<and> wmem w = Map.empty \<and>
     wtab w = Map.empty"
proof -
  have n: "nthreads cf \<le> int MAX_CPUS" using assms(3) by (simp add: MAX_CPUS_def)
  obtain s where s: "lt_run cf sched (lt_start cf False t) = Inr s" "lt_inv cf t s"
      "\<forall>j < nat (nthreads cf). remaining cf (lt_workers s ! j) \<le> remaining cf (lt_workers (lt_start cf False t) ! j) - turns j sched"
    using lt_run_ok [OF lt_start_inv [OF assms(1)] assms(4,2) n] by blast
  have I: "settled t (lt_world s)" "lt_collector s = None" "length (lt_workers s) = nat (nthreads cf)"
      "\<And>b. bit (cpu_mask (wgc (lt_world s))) b \<Longrightarrow> \<exists>wk \<in> set (lt_workers s). registered wk \<and> lw_cpu wk = b"
      "\<forall>i \<ge> cpu_count (wgc (lt_world s)). pending (wgc (lt_world s)) i = 0"
    using s(2) by (simp_all add: lt_inv_def Let_def)
  have d: "lw_pc wk = Lt_done" if wk: "wk \<in> set (lt_workers s)" for wk
  proof -
    obtain j where j: "j < nat (nthreads cf)" "wk = lt_workers s ! j" using wk I(3) by (metis in_set_conv_nth)
    then have "remaining cf (lt_workers (lt_start cf False t) ! j) = 2 * nat (inserts cf) + 5"
      by (simp add: lt_start_def lt_worker_new_def remaining_def Let_def)
    then have "remaining cf wk = 0" using s(3) j assms(5) [of j] by fastforce
    then show ?thesis by (cases "lw_pc wk") (auto simp: remaining_def Let_def)
  qed
  then have e: "lt_ended s" using I(2) by (simp add: lt_ended_def lt_joined_def)
  have "\<not> bit (cpu_mask (wgc (lt_world s))) b" for b using I(4) d by (fastforce simp: registered_def)
  then have m0: "cpu_mask (wgc (lt_world s)) = 0" by (intro bit_eqI) simp
  obtain m where S: "crel (lt_world s) m" "tidy (lt_world s)" "packed (lt_world s)" "flushes (wgc (lt_world s)) = 0"
      "entries_p (wcache (lt_world s)) = t" "dom (wtab (lt_world s)) = {t}" using I(1) by (auto simp: settled_def)
  obtain ds g w1 w2 where w: "gc_finish (wgc (lt_world s)) = Inr (ds, g)" "gc_finalize ((lt_world s)\<lparr>wgc := g\<rparr>) ds = Inr w1" "crel w1 m"
      "cache_delete w1 = Inr w2" "objects w2 = {}" "went w2 = Map.empty"
      "wtab w2 = (wtab (lt_world s))(entries_p (wcache (lt_world s)) := None)" "packed (lt_world s) \<longrightarrow> wmem w2 = Map.empty"
    by (rule shutdown_ok [OF S(1,2,4) m0 I(5)])
  have "wtab w2 = Map.empty" using w(7) S(5,6) by (auto simp: fun_eq_iff domIff)
  moreover have "loadtest_main cf False t sched = Inr w2" using s(1) e w(1,2,4) by (simp add: loadtest_main_def Let_def)
  ultimately show ?thesis using w(5,6,8) S(3) by blast
qed

theorem loadtest_returns_witness:
  "\<exists>w. loadtest_main (lt_defaults\<lparr>nthreads := 2, inserts := 1\<rparr>) False 0x1000 demo_schedule = Inr w \<and>
     objects w = {} \<and> went w = Map.empty \<and> wmem w = Map.empty \<and> wtab w = Map.empty"
proof (rule loadtest_returns)
  let ?cf = "lt_defaults\<lparr>nthreads := 2, inserts := 1\<rparr>"
  have inv: "lt_inv ?cf 0x1000 (lt_start ?cf False 0x1000)" by (rule lt_start_inv) simp
  have "fresh_supplies {} {} demo_schedule" unfolding demo_schedule_def
    by (simp add: demo_supply_def demo_env_def Let_def aligned_def flag_mask_15)
  then show "lt_env ?cf demo_schedule (lt_start ?cf False 0x1000)"
    by (intro lt_env_fresh [OF inv]) (simp_all add: lt_defaults_def MAX_CPUS_def lt_start_def objects_def cache_new_def gc_initial_def)
  show "2 * nat (inserts ?cf) + 5 \<le> turns j demo_schedule" if "int j < nthreads ?cf" for j
  proof -
    have "j = 0 \<or> j = 1" using that by auto
    then show ?thesis by (auto simp: turns_def demo_schedule_def)
  qed
qed (simp_all add: lt_defaults_def)

end
