(* ===== verification/Spec2Isabelle.thy ===== *)
theory Spec2Isabelle
  imports Flagged_Ptr Table Murmur2 Mem Entry History Gc Cache_Refine Collection Storing Retrieval
    Commands Session_Inv Session_Bounds Input Service Binary Socket Pool Tcp Jimcached Standalone Cachetest Loadtest
begin

text \<open>
  jimcached is a memory cache that speaks the memcached text protocol. This development models the
  sources under \<open>src/src\<close>, one theory for each component.

  The program. A pool of worker threads serves connections; each connection has a text session, a
  state machine that reads commands from its stream, runs them on the cache and writes replies. The
  cache is an open hash table from keys to entries; an entry holds its value as a rope, a chain of
  chunks. Tables, keys and entries are shared by all threads without locks, so what is unlinked is
  handed to a garbage collector, which deletes it once every thread has passed a checkpoint. A
  service thread rebuilds the table now and then and evicts old entries.

  Data and memory.
  \<^item> \<open>Prelude\<close>: machine types, the error type and the result type \<open>'a res\<close>, simulations.
  \<^item> \<open>Flagged_Ptr\<close> (\<open>flagged_ptr.h\<close>): pointers with flag bits, as 64 bit words.
  \<^item> \<open>Mem\<close> (\<open>mem.h\<close>, \<open>mem.cc\<close>, \<open>rope.h\<close>, \<open>const_rope.cc\<close>): chunks in a heap, ropes, their sizes and hashes.
  \<^item> \<open>Murmur2\<close> (\<open>murmur2.cc\<close>): six variants of the hash function; equal results of three of them.
  \<^item> \<open>Buffer\<close>, \<open>Utils\<close> (\<open>buffer.h\<close>, \<open>utils.cc\<close>): byte buffers and the tokenizer, with the C functions it
    calls; what the tokenizer computes on lists, and where it reads past its input.

  The cache.
  \<^item> \<open>Probing\<close>, \<open>Table\<close> (\<open>table.h\<close>): open addressing in general (a locale), and the table with every
    operation. It refines its view, a map from keys to values and the slots that keys have claimed, so
    that an operation is refused exactly when its key finds no slot. A bucket's compare-and-swap loop
    is one step.
  \<^item> \<open>Entry\<close> (\<open>entry.cc\<close>): items, \<open>append\<close>, \<open>incr\<close>, \<open>cas\<close> and the others; \<open>History\<close> (\<open>history.h\<close>): chains of
    versions that updates leave while a table is rebuilt.
  \<^item> \<open>Gc\<close> (\<open>gc.cc\<close>, \<open>cpu.cc\<close>): pending lists, checkpoints, flushes. Every call is one step of an execution
    given by its events; safety and absence of failures are invariants of executions.
  \<^item> \<open>Cache\<close>, \<open>Cache_Inv\<close>, \<open>Cache_Refine\<close> (\<open>cache.cc\<close>): the world (cache object, chunks, entries, tables,
    collector), every operation, the invariant at rest and the map it represents, and two theorems on
    sequences of operations: they refine a map from keys to items (\<open>aspec\<close>, where want of room may
    refuse a set or an add), and the same map with the slots of the table (\<open>cspec\<close>), where a set or an
    add is refused for want of room exactly when the probe sequence of its key is full.
  \<^item> \<open>Collect\<close>, \<open>Service\<close> (\<open>cache.cc\<close>, \<open>service.cc\<close>): the eviction threshold in IEEE doubles, \<open>collect\<close>
    cut where it waits for the other threads, and the thread that runs it.
  \<^item> \<open>Collect_Refine\<close>: the steps of \<open>collect\<close>. The heap part of the invariant is kept by a flush; the copy
    shares the entries of the live keys with the new table; the last loop takes them over and
    releases the rest.
  \<^item> \<open>Rebuild\<close>: the operations of other threads meanwhile. Two relations between the world and a map, one
    for the first flush (\<open>brel\<close>, values new to the cache go to both tables) and one for the second (\<open>srel\<close>,
    the new table shares its entries with the old one), are interpretations of one locale,
    \<open>flush_service\<close>: a flush returns, and the operations in it refine the map. In the first flush they
    refine the map with the slots of the old table too, and every key that gets a value is in the new
    table with the same entry, unless it finds no slot there.
  \<^item> \<open>Collection\<close>: \<open>collect\<close> as a whole, with the others at work in both flushes; a collection after a
    key was deleted follows a null pointer.
  \<^item> \<open>Memory\<close>, \<open>Ownership\<close>, \<open>Finish\<close>: which objects and chunks operations allocate and who owns them. At rest
    every object that was not freed is a key or value of the table, so the destructor deletes all; when no
    thread is left, \<open>gc_finish\<close> deletes what was freed. Chunks that \<open>cas\<close> replaces or refuses are lost.

  The protocol.
  \<^item> \<open>Session\<close> (\<open>session.cc\<close>): the session as a record, handlers in an error and state monad written out,
    the loop as a partial function whose \<open>None\<close> is a loop that never returns. Requests to the
    streams are recorded in the session; the stream's answer is a call of \<open>callback\<close>.
  \<^item> \<open>Session_Lemmas\<close>, \<open>Protocol\<close>: rules for handlers, replies, \<open>delete\<close>. \<open>Storing\<close>, \<open>Retrieval\<close>, \<open>Commands\<close>:
    what each command does, from the line in the input buffer to the reply and the map.
  \<^item> \<open>Session_Inv\<close>, \<open>Session_Bounds\<close>, \<open>Input\<close>: invariants of all handlers (a locale with two
    interpretations), no write outside the buffers' arrays, and commands that arrive in pieces.
  \<^item> \<open>Binary\<close> (\<open>binary.cc\<close>): the stub of the binary protocol.

  The process.
  \<^item> \<open>Pool\<close>, \<open>Tcp\<close>, \<open>Jimcached\<close> (\<open>pool.cc\<close>, \<open>tcp.cc\<close>, \<open>jimcached.cc\<close>, \<open>log.h\<close>): worker threads, connections,
    the command line and the start of the process. \<open>Socket\<close> (\<open>socket.cc\<close>): blocking sockets.
  \<^item> \<open>Standalone\<close> (\<open>standalone.cc\<close>): one session on the terminal. \<open>Cachetest\<close> (\<open>cachetest.cc\<close>): the tests,
    as sequences of calls with their assertions. \<open>Loadtest\<close> (\<open>loadtest.cc\<close>): workers and a collecting
    thread as step machines, and a run as a schedule of their steps; without the collecting thread every
    schedule runs to its end and gives all memory back.

  Conventions. A null or dangling access, a write outside an array, a failed assertion, an uncaught
  exception and an endless loop are values of \<open>error\<close>, so a theorem that an operation returns \<open>Inr\<close> excludes them. Loops that
  may not end are partial functions to an option type; no fuel is used but in \<open>iterate_loop\<close>, where
  the source itself counts the probes. Machine integers are words where they can wrap around. What
  the program takes from outside is an argument: the clock, the addresses \<open>malloc\<close> returns, which
  have to be fresh and aligned, the bytes of uninitialised memory, the answers of streams and of the
  operating system, the package strings of \<open>config.h\<close>.

  Not modelled: memory orders and the interleaving of two table operations, output to logs, the
  internals of \<open>boost::asio\<close>. Not proved, though
  modelled: during the first flush of \<open>collect\<close>, \<open>set\<close>, \<open>add\<close>, \<open>replace\<close> and \<open>delete\<close> of a key that has a
  value (they start or follow chains of versions, of which \<open>History\<close> has the theory on its own, and the
  findings), and \<open>add\<close> to a table without room; during the second flush, \<open>set\<close>, \<open>add\<close>, \<open>replace\<close> and \<open>delete\<close>; threads that start or
  end in a flush; more than one flush at a time. The copy and the last loop of \<open>collect\<close> are one
  step each for the other threads.
\<close>

end
